(* ===== verification/Prelude.thy ===== *)
theory Prelude
  imports Complex_Main "HOL-Library.Char_ord" "HOL-Library.List_Lexorder" "HOL-Library.Multiset"
begin

text \<open>
  Shared vocabulary of the development.  Go values are read as follows.

  \<^item> A Go \<open>string\<close> is the list of its bytes; the order of \<open>HOL-Library.List_Lexorder\<close> on
    it is the byte-wise order of \<open>sort.Strings\<close> and \<open>strings.Compare\<close>.
  \<^item> A Go \<open>error\<close> is a \<open>gerror\<close>: a sentinel, a context error, an error made by foreign
    code, or the result of \<open>fmt.Errorf\<close>, kept as its format, its arguments and the error
    wrapped by the verb \<open>%w\<close>.  A function that returns only an \<open>error\<close> returns
    \<open>gerror option\<close> (\<open>None\<close> is \<open>nil\<close>); one that returns a value or an error returns
    \<open>'a res\<close>.
  \<^item> A Go map that is only read and written by key is \<open>'k \<rightharpoonup> 'v\<close>; a map whose missing keys
    are read as the zero value is a total function.
\<close>

section \<open>Errors and results\<close>

datatype gerror =
    CtxCanceled
  | CtxDeadline
  | Sentinel string
  | External string
  | ApiError (api_status: int) (api_code: string) (api_message: string)
  | Errorf string "farg list" "gerror option"
and farg = AStr string | AInt int | AErrs "gerror list"

type_synonym 'a res = "gerror + 'a"

text \<open>\<open>errors.Is\<close>: the error itself or one it wraps equals the target.\<close>

fun errors_is :: "gerror \<Rightarrow> gerror \<Rightarrow> bool" where
  "errors_is (Errorf f as (Some e)) t \<longleftrightarrow> Errorf f as (Some e) = t \<or> errors_is e t"
| "errors_is e t \<longleftrightarrow> e = t"

text \<open>\<open>errors.As\<close> with an \<open>*aimodel.APIError\<close> target: the first API error of the chain.\<close>

fun errors_as_api :: "gerror \<Rightarrow> (int \<times> string \<times> string) option" where
  "errors_as_api (ApiError s c m) = Some (s, c, m)"
| "errors_as_api (Errorf f as (Some e)) = errors_as_api e"
| "errors_as_api _ = None"

definition bindR :: "'a res \<Rightarrow> ('a \<Rightarrow> 'b res) \<Rightarrow> 'b res" where
  "bindR m f = (case m of Inl e \<Rightarrow> Inl e | Inr x \<Rightarrow> f x)"

lemma bindR_simps [simp]:
  "bindR (Inl e) f = Inl e"
  "bindR (Inr x) f = f x"
  by (simp_all add: bindR_def)

lemma bindR_Inr_iff [simp]: "bindR m f = Inr y \<longleftrightarrow> (\<exists>x. m = Inr x \<and> f x = Inr y)"
  by (cases m) simp_all

lemma bindR_Inl_iff: "bindR m f = Inl e \<longleftrightarrow> m = Inl e \<or> (\<exists>x. m = Inr x \<and> f x = Inl e)"
  by (cases m) auto

section \<open>Collections of facts\<close>

named_theorems graph_simps \<open>closed forms of the maps built from a node list\<close>
named_theorems exec_simps \<open>field-wise behaviour of the executor's operations\<close>
named_theorems inv_intros \<open>preservation of invariants\<close>

section \<open>Lists\<close>

lemma sum_list_count_single:
  assumes "distinct (map key xs)" "x \<in> set xs"
  shows "(\<Sum>y\<leftarrow>xs. if key y = key x then f y else (0::nat)) = f x"
  using assms
proof (induction xs)
  case (Cons y ys)
  show ?case
  proof (cases "x = y")
    case True
    have "(\<Sum>z\<leftarrow>ys. if key z = key x then f z else 0) = 0"
      using Cons.prems True by (auto simp: image_iff sum_list_eq_0_iff)
    with True show ?thesis by simp
  next
    case False
    with Cons.prems have "key y \<noteq> key x" "x \<in> set ys" by (auto simp: image_iff)
    with Cons show ?thesis by simp
  qed
qed simp

lemma distinct_key_eq:
  assumes "distinct (map key xs)" "x \<in> set xs" "y \<in> set xs" "key x = key y"
  shows "x = y"
  using assms by (meson inj_onD distinct_map)

lemma count_list_pos: "0 < count_list xs x \<longleftrightarrow> x \<in> set xs"
  using count_list_0_iff [of xs x] by auto

lemma int_length_remove1: "x \<in> set xs \<Longrightarrow> int (length (remove1 x xs)) = int (length xs) - 1"
  using length_pos_if_in_set [of x xs] by (simp add: length_remove1 of_nat_diff Suc_le_eq)

lemma find_eq_None: "find P xs = None \<longleftrightarrow> (\<forall>x\<in>set xs. \<not> P x)"
  by (auto simp: find_None_iff)

lemma find_SomeD: "find P xs = Some x \<Longrightarrow> x \<in> set xs \<and> P x"
  by (auto simp: find_Some_iff)

text \<open>The element of a list with a given key, as a Go map from keys to elements reads it:
  the last one written wins.\<close>

definition index_by :: "('a \<Rightarrow> 'k) \<Rightarrow> 'a list \<Rightarrow> 'k \<rightharpoonup> 'a" where
  "index_by key xs = fold (\<lambda>x m. m(key x \<mapsto> x)) xs Map.empty"

lemma index_by_map_of: "index_by key xs = map_of (rev (map (\<lambda>x. (key x, x)) xs))"
proof -
  have "fold (\<lambda>x m. m(key x \<mapsto> x)) xs m0 = m0 ++ map_of (rev (map (\<lambda>x. (key x, x)) xs))" for m0
    by (induction xs arbitrary: m0) (simp_all add: map_add_upd_left map_add_assoc)
  then show ?thesis by (simp add: index_by_def)
qed

lemma index_by_Some:
  assumes "distinct (map key xs)"
  shows "index_by key xs k = Some x \<longleftrightarrow> x \<in> set xs \<and> key x = k"
proof -
  have "distinct (map fst (rev (map (\<lambda>x. (key x, x)) xs)))"
    using assms by (simp add: rev_map [symmetric] comp_def)
  from map_of_eq_Some_iff [OF this] show ?thesis
    by (auto simp: index_by_map_of)
qed

lemma index_by_None: "index_by key xs k = None \<longleftrightarrow> k \<notin> key ` set xs"
  by (auto simp: index_by_map_of map_of_eq_None_iff image_iff)

end
