(* ===== verification/Schema.thy ===== *)
theory Schema
  imports Prelude
begin

text \<open>
  The data of package \<open>schema\<close> that the other components exchange.  Message bodies
  (\<open>'m\<close>) and dynamically typed values (\<open>'v\<close>, Go's \<open>any\<close>) are type parameters: their types
  belong to the \<open>aimodel\<close> module.  \<open>aimodel.Usage\<close> is likewise foreign; the record holds the
  four counters that the sources read, and its method \<open>Add\<close> is an argument of every
  definition that accumulates usage.
\<close>

record usage =
  PromptTokens :: int
  CompletionTokens :: int
  TotalTokens :: int
  CacheReadTokens :: int

definition usage_zero :: usage where
  "usage_zero = \<lparr>PromptTokens = 0, CompletionTokens = 0, TotalTokens = 0, CacheReadTokens = 0\<rparr>"

text \<open>Field-wise addition, the instance of \<open>Add\<close> that the witnesses use.\<close>

definition usage_plus :: "usage \<Rightarrow> usage \<Rightarrow> usage" where
  "usage_plus a b = \<lparr>PromptTokens = PromptTokens a + PromptTokens b,
     CompletionTokens = CompletionTokens a + CompletionTokens b,
     TotalTokens = TotalTokens a + TotalTokens b,
     CacheReadTokens = CacheReadTokens a + CacheReadTokens b\<rparr>"

record run_options =
  Model :: string
  Temperature :: "rat option"
  MaxIterations :: int
  MaxTokens :: int
  RunTokenBudget :: int
  Tools :: "string list"
  StopSequences :: "string list"

record ('m, 'v) run_request =
  rq_Messages :: "'m list"
  rq_SessionID :: string
  rq_Options :: "run_options option"
  rq_Metadata :: "string \<rightharpoonup> 'v"

datatype stop_reason =
    StopReasonNone
  | StopReasonComplete
  | StopReasonBudgetExhausted
  | StopReasonMaxIterations

record ('m, 'v) run_response =
  rs_Messages :: "'m list"
  rs_SessionID :: string
  rs_Usage :: "usage option"
  rs_Duration :: int
  rs_Metadata :: "string \<rightharpoonup> 'v"
  rs_StopReason :: stop_reason

text \<open>A response literal that sets only some fields leaves the others at their zero value.\<close>

definition response_zero :: "('m, 'v) run_response" where
  "response_zero = \<lparr>rs_Messages = [], rs_SessionID = [], rs_Usage = None, rs_Duration = 0,
     rs_Metadata = Map.empty, rs_StopReason = StopReasonNone\<rparr>"

end
