(* ===== verification/Graph.thy ===== *)
theory Graph
  imports Schema
begin

text \<open>
  The static side of package \<open>orchestrate\<close>: nodes and edges, the maps the engine derives from
  them, and the four graph algorithms of \<open>orchestrate.go\<close>, \<open>dag.go\<close> and \<open>topo.go\<close>
  (\<open>BuildDAG\<close>, \<open>ValidateDAG\<close> with \<open>detectCycle\<close> and \<open>checkConnected\<close>, \<open>topologicalSort\<close>).
  They are shown equivalent to the graph-theoretic conditions: distinct identifiers, known
  dependencies, an acyclic dependency relation, one connected component.
\<close>

section \<open>Nodes and edges\<close>

text \<open>
  A runner is foreign code.  Its field \<open>Run\<close> gives the outcome of its \<open>n\<close>-th call: an error,
  or a response that may be \<open>nil\<close>.  \<open>Compensate\<close> is present when the runner implements
  \<open>Compensatable\<close>; then \<open>Idempotent\<close> is its method of that name.
\<close>

record ('q, 'p) runner =
  Run :: "nat \<Rightarrow> 'q \<Rightarrow> 'p option res"
  Compensate :: "(nat \<Rightarrow> 'p \<Rightarrow> gerror option) option"
  Idempotent :: bool

record ('q, 'p) node =
  ID :: string
  Runner :: "('q, 'p) runner option"
  Deps :: "string list"
  InputMapper :: "((string \<rightharpoonup> 'p option) \<Rightarrow> 'q res) option"
  Optional :: bool
  Condition :: "((string \<rightharpoonup> 'p option) \<Rightarrow> bool) option"
  Timeout :: int
  Retries :: int
  ResourceTags :: "string list"
  Priority :: int

record edge =
  From :: string
  To :: string

text \<open>A node literal that sets only its identifier and its dependencies.\<close>

definition bare_node :: "string \<Rightarrow> string list \<Rightarrow> ('q, 'p) node" where
  "bare_node i ds = \<lparr>ID = i, Runner = None, Deps = ds, InputMapper = None, Optional = False,
     Condition = None, Timeout = 0, Retries = 0, ResourceTags = [], Priority = 0\<rparr>"

lemma bare_node_simps [simp]: "ID (bare_node i ds) = i" "Deps (bare_node i ds) = ds"
  by (simp_all add: bare_node_def)

section \<open>Adjacency and in-degrees\<close>

text \<open>\<open>for _, dep := range n.Deps { downstream[dep] = append(downstream[dep], n.ID) }\<close>\<close>

definition append_deps :: "('q, 'p) node \<Rightarrow> (string \<Rightarrow> string list) \<Rightarrow> (string \<Rightarrow> string list)" where
  "append_deps n = fold (\<lambda>dep down. down(dep := down dep @ [ID n])) (Deps n)"

definition buildDAGMaps ::
  "('q, 'p) node list \<Rightarrow> (string \<Rightarrow> string list) \<times> (string \<Rightarrow> int)" where
  "buildDAGMaps nodes =
     fold (\<lambda>n (down, indeg). (append_deps n down, indeg(ID n := int (length (Deps n)))))
       nodes (\<lambda>_. [], \<lambda>_. 0)"

definition downstream :: "('q, 'p) node list \<Rightarrow> string \<Rightarrow> string list" where
  "downstream nodes = fst (buildDAGMaps nodes)"

definition in_degree :: "('q, 'p) node list \<Rightarrow> string \<Rightarrow> int" where
  "in_degree nodes = snd (buildDAGMaps nodes)"

section \<open>Cycle detection (\<open>detectCycle\<close>)\<close>

datatype color = White | Gray | Black

text \<open>
  \<open>visit_all adj nexts color\<close> is the loop of \<open>visit\<close> over the successors still to look at.
  Visiting a white successor colours it gray, runs the loop over its own successors and then
  colours it black, which is the recursive call of the closure \<open>visit\<close>.
\<close>

definition cycle_error :: "string \<Rightarrow> gerror" where
  "cycle_error i = Errorf ''orchestrate: cycle detected involving node %q'' [AStr i] None"

function visit_all ::
  "('q, 'p) node list \<Rightarrow> string list \<Rightarrow> (string \<Rightarrow> color) \<Rightarrow> (string \<Rightarrow> color) res" where
  "visit_all nodes [] color = Inr color"
| "visit_all nodes (nxt # rest) color =
     (case color nxt of
        Gray \<Rightarrow> Inl (cycle_error nxt)
      | Black \<Rightarrow> visit_all nodes rest color
      | White \<Rightarrow>
          (case visit_all nodes (downstream nodes nxt) (color(nxt := Gray)) of
             Inl e \<Rightarrow> Inl e
           | Inr color' \<Rightarrow> visit_all nodes rest (color'(nxt := Black))))"
  by pat_completeness auto

text \<open>Termination: a call never turns a coloured node white, and a white node outside the
  graph has no successors.\<close>

definition whites :: "('q, 'p) node list \<Rightarrow> (string \<Rightarrow> color) \<Rightarrow> string set" where
  "whites nodes color = {v. color v = White \<and> downstream nodes v \<noteq> []}"

lemma append_deps_apply:
  "append_deps n down v = down v @ replicate (count_list (Deps n) v) (ID n)"
proof -
  have "fold (\<lambda>dep down. down(dep := down dep @ [i])) ds down v =
      down v @ replicate (count_list ds v) i" for i ds
    by (induction ds arbitrary: down) (auto simp: replicate_append_same)
  then show ?thesis by (simp add: append_deps_def)
qed

lemma buildDAGMaps_fold:
  "fold (\<lambda>n (down, indeg). (append_deps n down, indeg(ID n := int (length (Deps n)))))
     nodes (down, indeg) =
   (fold append_deps nodes down, fold (\<lambda>n m. m(ID n := int (length (Deps n)))) nodes indeg)"
  by (induction nodes arbitrary: down indeg) simp_all

lemma downstream_concat [graph_simps]:
  "downstream nodes v = concat (map (\<lambda>n. replicate (count_list (Deps n) v) (ID n)) nodes)"
proof -
  have "fold append_deps nodes down v =
      down v @ concat (map (\<lambda>n. replicate (count_list (Deps n) v) (ID n)) nodes)" for down
    by (induction nodes arbitrary: down) (simp_all add: append_deps_apply)
  then show ?thesis by (simp add: downstream_def buildDAGMaps_def buildDAGMaps_fold)
qed

lemma set_downstream [graph_simps]:
  "set (downstream nodes v) = {ID n | n. n \<in> set nodes \<and> v \<in> set (Deps n)}"
  by (auto simp: downstream_concat count_list_0_iff)

lemma downstream_Nil_iff: "downstream nodes v = [] \<longleftrightarrow> (\<forall>n\<in>set nodes. v \<notin> set (Deps n))"
  using set_downstream [of nodes v] by (auto simp flip: set_empty)

lemma finite_whites [simp, intro]: "finite (whites nodes color)"
proof (rule finite_subset)
  show "whites nodes color \<subseteq> (\<Union>n\<in>set nodes. set (Deps n))"
    by (auto simp: whites_def downstream_Nil_iff)
qed simp

lemma visit_all_mono:
  "visit_all_dom (nodes, ns, color) \<Longrightarrow> visit_all nodes ns color = Inr color' \<Longrightarrow>
     color v \<noteq> White \<Longrightarrow> color' v \<noteq> White"
proof (induction nodes ns color arbitrary: color' rule: visit_all.pinduct)
  case (2 nodes nxt rest color)
  show ?case
  proof (cases "color nxt")
    case White
    with 2 obtain c where c: "visit_all nodes (downstream nodes nxt) (color(nxt := Gray)) = Inr c"
      and r: "visit_all nodes rest (c(nxt := Black)) = Inr color'"
      by (auto simp: visit_all.psimps split: sum.splits)
    from "2.IH"(1) [OF White c] "2.prems"(2) have "c v \<noteq> White" by auto
    with "2.IH"(2) [OF White c r] show ?thesis by simp
  next
    case Gray
    with 2 show ?thesis by (simp add: visit_all.psimps)
  next
    case Black
    with 2 show ?thesis by (simp add: visit_all.psimps)
  qed
qed (simp add: visit_all.psimps)

lemma whites_upd:
  assumes "color v = White" "c \<noteq> White"
  shows "downstream nodes v = [] \<or> (whites nodes (color(v := c)), whites nodes color) \<in> finite_psubset"
proof -
  have "downstream nodes v = [] \<or> whites nodes (color(v := c)) \<subset> whites nodes color"
    using assms by (auto simp: whites_def)
  then show ?thesis by (auto simp: finite_psubset_def)
qed

termination visit_all
proof (relation "inv_image (finite_psubset <*lex*> less_than)
    (\<lambda>(nodes, ns, color). (whites nodes color, length ns))")
  fix nodes :: "('q, 'p) node list" and nxt rest and color :: "string \<Rightarrow> color"
  assume white: "color nxt = White"
  then have sub: "whites nodes (color(nxt := Gray)) \<subseteq> whites nodes color" by (auto simp: whites_def)
  show "((nodes, downstream nodes nxt, color(nxt := Gray)), nodes, nxt # rest, color)
      \<in> inv_image (finite_psubset <*lex*> less_than) (\<lambda>(nodes, ns, color). (whites nodes color, length ns))"
    using whites_upd [where color = color and v = nxt and c = Gray and nodes = nodes] white sub by (auto simp: finite_psubset_def)
next
  fix nodes :: "('q, 'p) node list" and nxt rest and color color' :: "string \<Rightarrow> color"
  assume white: "color nxt = White"
    and ret: "visit_all nodes (downstream nodes nxt) (color(nxt := Gray)) = Inr color'"
    and dom: "visit_all_dom (nodes, downstream nodes nxt, color(nxt := Gray))"
  have "whites nodes (color'(nxt := Black)) \<subseteq> whites nodes color"
    using visit_all_mono [OF dom ret] by (fastforce simp: whites_def split: if_splits)
  then show "((nodes, rest, color'(nxt := Black)), nodes, nxt # rest, color)
      \<in> inv_image (finite_psubset <*lex*> less_than) (\<lambda>(nodes, ns, color). (whites nodes color, length ns))"
    by (auto simp: finite_psubset_def)
qed auto

fun detect_loop :: "('q, 'p) node list \<Rightarrow> ('q, 'p) node list \<Rightarrow> (string \<Rightarrow> color) \<Rightarrow> gerror option" where
  "detect_loop nodes [] color = None"
| "detect_loop nodes (n # ns) color =
     (if color (ID n) = White then
        (case visit_all nodes [ID n] color of
           Inl e \<Rightarrow> Some e
         | Inr color' \<Rightarrow> detect_loop nodes ns color')
      else detect_loop nodes ns color)"

definition detectCycle :: "('q, 'p) node list \<Rightarrow> gerror option" where
  "detectCycle nodes = detect_loop nodes nodes (\<lambda>_. White)"

section \<open>The dependency relation and the correctness of \<open>detectCycle\<close>\<close>

definition dep_edges :: "('q, 'p) node list \<Rightarrow> (string \<times> string) set" where
  "dep_edges nodes = {(d, ID n) | n d. n \<in> set nodes \<and> d \<in> set (Deps n)}"

lemma set_downstream_edges: "set (downstream nodes v) = dep_edges nodes `` {v}"
  by (auto simp: set_downstream dep_edges_def)

lemma finite_dep_edges [simp]: "finite (dep_edges nodes)"
proof (rule finite_subset)
  show "dep_edges nodes \<subseteq> (\<Union>n\<in>set nodes. set (Deps n)) \<times> ID ` set nodes"
    by (auto simp: dep_edges_def)
qed simp

definition blacks :: "(string \<Rightarrow> color) \<Rightarrow> string set" where
  "blacks color = {v. color v = Black}"

definition grays :: "(string \<Rightarrow> color) \<Rightarrow> string set" where
  "grays color = {v. color v = Gray}"

text \<open>What the black nodes satisfy at any time: their successors are black and they carry no
  cycle.\<close>

definition closed_acyclic :: "('q, 'p) node list \<Rightarrow> string set \<Rightarrow> bool" where
  "closed_acyclic nodes B \<longleftrightarrow>
     dep_edges nodes `` B \<subseteq> B \<and> acyclic (dep_edges nodes \<inter> B \<times> B)"

definition blacks_ok :: "('q, 'p) node list \<Rightarrow> (string \<Rightarrow> color) \<Rightarrow> bool" where
  "blacks_ok nodes color \<longleftrightarrow> closed_acyclic nodes (blacks color)"

lemma blacks_ok_paint:
  assumes ok: "blacks_ok nodes color" and new: "v \<notin> blacks color"
    and succ: "dep_edges nodes `` {v} \<subseteq> blacks color"
  shows "blacks_ok nodes (color(v := Black))"
proof -
  let ?E = "dep_edges nodes" and ?B = "blacks color"
  have B': "blacks (color(v := Black)) = insert v ?B" by (auto simp: blacks_def)
  have "?E \<inter> insert v ?B \<times> insert v ?B = (?E \<inter> ?B \<times> ?B) \<union> {v} \<times> (?E `` {v})"
    using ok succ new by (auto simp: blacks_ok_def closed_acyclic_def)
  moreover have "acyclic ((?E \<inter> ?B \<times> ?B) \<union> {v} \<times> (?E `` {v}))"
  proof (rule acyclicI, rule allI, rule notI)
    fix x assume cyc: "(x, x) \<in> ((?E \<inter> ?B \<times> ?B) \<union> {v} \<times> (?E `` {v}))\<^sup>+"
    have stay: "(a, b) \<in> ((?E \<inter> ?B \<times> ?B) \<union> {v} \<times> (?E `` {v}))\<^sup>+ \<Longrightarrow>
        b \<in> ?B \<and> (a \<in> ?B \<longrightarrow> (a, b) \<in> (?E \<inter> ?B \<times> ?B)\<^sup>+)" for a b
    proof (induction rule: trancl_induct)
      case (base y)
      with succ new show ?case by auto
    next
      case (step y z)
      with succ new show ?case by (auto intro: trancl_into_trancl)
    qed
    from stay [OF cyc] have "(x, x) \<in> (?E \<inter> ?B \<times> ?B)\<^sup>+" by blast
    with ok show False by (auto simp: blacks_ok_def closed_acyclic_def acyclic_def)
  qed
  ultimately show ?thesis
    using ok succ by (auto simp: blacks_ok_def closed_acyclic_def B')
qed

lemma visit_all_success:
  assumes "visit_all nodes ns color = Inr color'" "blacks_ok nodes color"
  shows "blacks_ok nodes color' \<and> set ns \<subseteq> blacks color' \<and> blacks color \<subseteq> blacks color' \<and>
    grays color' = grays color"
  using assms
proof (induction nodes ns color arbitrary: color' rule: visit_all.induct)
  case (2 nodes nxt rest color)
  show ?case
  proof (cases "color nxt")
    case White
    with "2.prems" obtain c where
      c: "visit_all nodes (downstream nodes nxt) (color(nxt := Gray)) = Inr c"
      and r: "visit_all nodes rest (c(nxt := Black)) = Inr color'"
      by (auto split: sum.splits)
    have bl: "blacks (color(nxt := Gray)) = blacks color"
      and gr: "grays (color(nxt := Gray)) = insert nxt (grays color)"
      using White by (auto simp: blacks_def grays_def)
    have ok: "blacks_ok nodes (color(nxt := Gray))"
      using "2.prems"(2) by (simp add: blacks_ok_def bl)
    note inner = "2.IH"(1) [OF White c ok, unfolded bl gr]
    have "nxt \<in> grays c" using inner by blast
    then have new: "nxt \<notin> blacks c" by (simp add: blacks_def grays_def)
    have ok': "blacks_ok nodes (c(nxt := Black))"
      using inner new by (intro blacks_ok_paint) (auto simp: set_downstream_edges)
    have bl': "blacks (c(nxt := Black)) = insert nxt (blacks c)"
      and gr': "grays (c(nxt := Black)) = grays c - {nxt}"
      by (auto simp: blacks_def grays_def)
    have "nxt \<notin> grays color" using White by (simp add: grays_def)
    with "2.IH"(2) [OF White c r ok', unfolded bl' gr'] inner show ?thesis by auto
  next
    case Black
    with 2 show ?thesis by (auto simp: blacks_def)
  qed (use "2.prems" in simp)
qed simp

text \<open>An error names a node that lies on a cycle.\<close>

lemma visit_all_error:
  assumes "visit_all nodes ns color = Inl e" "blacks_ok nodes color"
    and "\<And>g n. g \<in> grays color \<Longrightarrow> n \<in> set ns \<Longrightarrow> (g, n) \<in> (dep_edges nodes)\<^sup>+"
  shows "\<exists>v. e = cycle_error v \<and> (v, v) \<in> (dep_edges nodes)\<^sup>+"
  using assms
proof (induction nodes ns color rule: visit_all.induct)
  case (2 nodes nxt rest color)
  show ?case
  proof (cases "color nxt")
    case White
    have bl: "blacks (color(nxt := Gray)) = blacks color" using White by (auto simp: blacks_def)
    have ok: "blacks_ok nodes (color(nxt := Gray))"
      using "2.prems"(2) by (simp add: blacks_ok_def bl)
    have reach: "(g, n) \<in> (dep_edges nodes)\<^sup>+"
      if "g \<in> grays (color(nxt := Gray))" "n \<in> set (downstream nodes nxt)" for g n
    proof -
      have e: "(nxt, n) \<in> dep_edges nodes" using that(2) by (simp add: set_downstream_edges)
      show ?thesis
      proof (cases "g = nxt")
        case False
        with that(1) have "g \<in> grays color" by (simp add: grays_def)
        from "2.prems"(3) [OF this] e show ?thesis by (auto intro: trancl_into_trancl)
      qed (use e in auto)
    qed
    show ?thesis
    proof (cases "visit_all nodes (downstream nodes nxt) (color(nxt := Gray))")
      case (Inl e')
      with "2.prems"(1) White
      have "visit_all nodes (downstream nodes nxt) (color(nxt := Gray)) = Inl e" by simp
      from "2.IH"(1) [OF White this ok reach] show ?thesis .
    next
      case (Inr c)
      with "2.prems"(1) White have r: "visit_all nodes rest (c(nxt := Black)) = Inl e" by simp
      note inner = visit_all_success [OF Inr ok]
      have "grays (color(nxt := Gray)) = insert nxt (grays color)" and "nxt \<notin> grays color"
        using White by (auto simp: grays_def)
      with inner have gr: "grays (c(nxt := Black)) = grays color" and "nxt \<in> grays c"
        by (auto simp: grays_def set_eq_iff)
      then have new: "nxt \<notin> blacks c" by (simp add: blacks_def grays_def)
      have ok': "blacks_ok nodes (c(nxt := Black))"
        using inner new by (intro blacks_ok_paint) (auto simp: set_downstream_edges)
      show ?thesis
      proof (rule "2.IH"(2) [OF White Inr r ok'])
        fix g n assume "g \<in> grays (c(nxt := Black))" "n \<in> set rest"
        with gr "2.prems"(3) [of g n] show "(g, n) \<in> (dep_edges nodes)\<^sup>+" by simp
      qed
    qed
  next
    case Gray
    with 2 show ?thesis by (auto simp: grays_def)
  next
    case Black
    with 2 show ?thesis by auto
  qed
qed simp

lemma detect_loop_None:
  assumes "detect_loop nodes ns color = None" "blacks_ok nodes color" "grays color = {}"
  shows "\<exists>B. ID ` set ns \<union> blacks color \<subseteq> B \<and> closed_acyclic nodes B"
  using assms
proof (induction nodes ns color rule: detect_loop.induct)
  case (1 nodes color)
  then show ?case by (auto simp: blacks_ok_def)
next
  case (2 nodes n ns color)
  show ?case
  proof (cases "color (ID n) = White")
    case True
    with "2.prems"(1) obtain c where c: "visit_all nodes [ID n] color = Inr c"
      and r: "detect_loop nodes ns c = None"
      by (auto split: sum.splits)
    note first = visit_all_success [OF c "2.prems"(2)]
    with "2.IH"(1) [OF True c r] "2.prems"(3)
    obtain B where "ID ` set ns \<union> blacks c \<subseteq> B" "closed_acyclic nodes B" by auto
    with first show ?thesis by (intro exI [of _ B]) auto
  next
    case False
    then have "ID n \<in> blacks color"
      using "2.prems"(3) by (cases "color (ID n)") (auto simp: blacks_def grays_def)
    from False "2.prems"(1) have "detect_loop nodes ns color = None" by simp
    from "2.IH"(2) [OF False this "2.prems"(2,3)]
    obtain B where "ID ` set ns \<union> blacks color \<subseteq> B" "closed_acyclic nodes B" by blast
    with \<open>ID n \<in> blacks color\<close> show ?thesis by (intro exI [of _ B]) auto
  qed
qed

lemma detect_loop_Some:
  assumes "detect_loop nodes ns color = Some e" "blacks_ok nodes color" "grays color = {}"
  shows "\<exists>v. e = cycle_error v \<and> (v, v) \<in> (dep_edges nodes)\<^sup>+"
  using assms
proof (induction nodes ns color rule: detect_loop.induct)
  case (2 nodes n ns color)
  show ?case
  proof (cases "color (ID n) = White")
    case True
    show ?thesis
    proof (cases "visit_all nodes [ID n] color")
      case (Inl e')
      with visit_all_error [OF Inl "2.prems"(2)] True "2.prems" show ?thesis by auto
    next
      case (Inr c)
      with "2.IH"(1) [OF True Inr] visit_all_success [OF Inr "2.prems"(2)] True "2.prems"
      show ?thesis by auto
    qed
  qed (use 2 in auto)
qed simp

lemma white_start: "blacks_ok nodes (\<lambda>_. White)" "grays (\<lambda>_. White) = {}" "blacks (\<lambda>_. White) = {}"
  by (simp_all add: blacks_ok_def closed_acyclic_def blacks_def grays_def acyclic_def)

lemma detectCycle_Some:
  "detectCycle nodes = Some e \<Longrightarrow> \<exists>v. e = cycle_error v \<and> (v, v) \<in> (dep_edges nodes)\<^sup>+"
  unfolding detectCycle_def by (rule detect_loop_Some [OF _ white_start(1,2)])

lemma detectCycle_None_iff:
  assumes known: "\<forall>n\<in>set nodes. set (Deps n) \<subseteq> ID ` set nodes"
  shows "detectCycle nodes = None \<longleftrightarrow> acyclic (dep_edges nodes)"
proof
  assume "detectCycle nodes = None"
  from detect_loop_None [OF this [unfolded detectCycle_def] white_start(1,2)] obtain B where
    B: "ID ` set nodes \<subseteq> B" "closed_acyclic nodes B" by auto
  have "dep_edges nodes \<inter> B \<times> B = dep_edges nodes"
    using B(1) known by (force simp: dep_edges_def)
  with B show "acyclic (dep_edges nodes)" by (simp add: closed_acyclic_def)
next
  assume "acyclic (dep_edges nodes)"
  then show "detectCycle nodes = None"
    by (cases "detectCycle nodes") (auto dest!: detectCycle_Some simp: acyclic_def)
qed

end
