(* ===== verification/Validate.thy ===== *)
theory Validate
  imports Graph
begin

text \<open>
  Validation of a node list: \<open>checkConnected\<close>, \<open>ValidateDAG\<close> and \<open>BuildDAG\<close> of
  \<open>orchestrate.go\<close>.  The breadth-first search is shown to compute the connected component
  of the first node, and \<open>ValidateDAG\<close> to accept exactly the well-formed graphs.
\<close>

section \<open>Connectivity (\<open>checkConnected\<close>)\<close>

text \<open>\<open>adj[n.ID] = append(adj[n.ID], dep); adj[dep] = append(adj[dep], n.ID)\<close>\<close>

definition append_links :: "('q, 'p) node \<Rightarrow> (string \<Rightarrow> string list) \<Rightarrow> (string \<Rightarrow> string list)" where
  "append_links n = fold (\<lambda>dep adj.
       let adj' = adj(ID n := adj (ID n) @ [dep]) in adj'(dep := adj' dep @ [ID n])) (Deps n)"

definition undirected :: "('q, 'p) node list \<Rightarrow> string \<Rightarrow> string list" where
  "undirected nodes = fold append_links nodes (\<lambda>_. [])"

text \<open>One round of the inner loop: unvisited neighbours are marked and queued.\<close>

fun expand :: "string list \<Rightarrow> string set \<Rightarrow> string list \<Rightarrow> string set \<times> string list" where
  "expand [] visited queue = (visited, queue)"
| "expand (neighbor # ns) visited queue =
     (if neighbor \<notin> visited then expand ns (insert neighbor visited) (queue @ [neighbor])
      else expand ns visited queue)"

lemma expand_visited: "fst (expand ns visited queue) = visited \<union> set ns"
  by (induction ns visited queue rule: expand.induct) auto

lemma expand_queue: "set (snd (expand ns visited queue)) = set queue \<union> (set ns - visited)"
  by (induction ns visited queue rule: expand.induct) auto

lemma expand_length:
  "set ns \<subseteq> visited \<Longrightarrow> length (snd (expand ns visited queue)) = length queue"
  by (induction ns visited queue rule: expand.induct) auto

lemma set_append_links:
  "set (append_links n adj v) =
     set (adj v) \<union> (if v = ID n then set (Deps n) else {}) \<union> (if v \<in> set (Deps n) then {ID n} else {})"
proof -
  have "set (fold (\<lambda>dep adj. let adj' = adj(i := adj i @ [dep]) in adj'(dep := adj' dep @ [i])) ds adj v) =
      set (adj v) \<union> (if v = i then set ds else {}) \<union> (if v \<in> set ds then {i} else {})" for ds i
    by (induction ds arbitrary: adj) (auto simp: Let_def)
  then show ?thesis by (simp add: append_links_def)
qed

lemma dep_edges_Cons: "dep_edges (n # ns) = set (Deps n) \<times> {ID n} \<union> dep_edges ns"
  by (auto simp: dep_edges_def)

lemma set_undirected [graph_simps]:
  "set (undirected nodes v) = (dep_edges nodes \<union> (dep_edges nodes)\<inverse>) `` {v}"
proof -
  have "set (fold append_links nodes adj v) =
      set (adj v) \<union> (dep_edges nodes \<union> (dep_edges nodes)\<inverse>) `` {v}" for adj
  proof (induction nodes arbitrary: adj)
    case Nil
    then show ?case by (simp add: dep_edges_def)
  next
    case (Cons n ns)
    then show ?case by (auto simp: set_append_links dep_edges_Cons split: if_splits)
  qed
  then show ?thesis by (simp add: undirected_def)
qed

definition unvisited :: "('q, 'p) node list \<Rightarrow> string set \<Rightarrow> string set" where
  "unvisited nodes visited = (\<Union>v. set (undirected nodes v)) - visited"

lemma finite_unvisited [simp]: "finite (unvisited nodes visited)"
proof (rule finite_subset)
  show "unvisited nodes visited \<subseteq> fst ` dep_edges nodes \<union> snd ` dep_edges nodes"
    by (force simp: unvisited_def set_undirected)
qed simp

function bfs :: "('q, 'p) node list \<Rightarrow> string set \<Rightarrow> string list \<Rightarrow> string set" where
  "bfs nodes visited [] = visited"
| "bfs nodes visited (cur # queue) =
     bfs nodes (fst (expand (undirected nodes cur) visited queue))
       (snd (expand (undirected nodes cur) visited queue))"
  by pat_completeness auto
termination
proof (relation "inv_image (finite_psubset <*lex*> less_than)
    (\<lambda>(nodes, visited, queue). (unvisited nodes visited, length queue))")
  fix nodes :: "('q, 'p) node list" and visited cur and queue :: "string list"
  let ?ns = "undirected nodes cur"
  have sub: "unvisited nodes (fst (expand ?ns visited queue)) \<subseteq> unvisited nodes visited"
    by (auto simp: unvisited_def expand_visited)
  have "set ?ns \<subseteq> visited \<or> unvisited nodes (fst (expand ?ns visited queue)) \<subset> unvisited nodes visited"
    using sub by (force simp: unvisited_def expand_visited)
  then show "((nodes, fst (expand ?ns visited queue), snd (expand ?ns visited queue)),
      nodes, visited, cur # queue)
    \<in> inv_image (finite_psubset <*lex*> less_than)
       (\<lambda>(nodes, visited, queue). (unvisited nodes visited, length queue))"
    using sub by (auto simp: finite_psubset_def expand_length expand_visited Un_absorb2)
qed auto

definition disconnected_error :: "string \<Rightarrow> gerror" where
  "disconnected_error i =
     Errorf ''orchestrate: node %q is disconnected from the rest of the graph'' [AStr i] None"

definition checkConnected :: "('q, 'p) node list \<Rightarrow> gerror option" where
  "checkConnected nodes =
     (if length nodes \<le> 1 then None
      else let visited = bfs nodes {ID (hd nodes)} [ID (hd nodes)] in
        if card visited \<noteq> length nodes then
          (case find (\<lambda>n. ID n \<notin> visited) nodes of
             Some n \<Rightarrow> Some (disconnected_error (ID n))
           | None \<Rightarrow> None)
        else None)"

text \<open>The undirected neighbourhood relation and the component of a set of nodes.\<close>

definition links :: "('q, 'p) node list \<Rightarrow> (string \<times> string) set" where
  "links nodes = dep_edges nodes \<union> (dep_edges nodes)\<inverse>"

lemma bfs_component:
  assumes "set queue \<subseteq> visited" "links nodes `` (visited - set queue) \<subseteq> visited"
  shows "bfs nodes visited queue = (links nodes)\<^sup>* `` visited"
  using assms
proof (induction nodes visited queue rule: bfs.induct)
  case (1 nodes visited)
  have "(links nodes)\<^sup>* `` visited = visited"
    using 1 by (intro Image_closed_trancl) simp
  then show ?case by simp
next
  case (2 nodes visited cur queue)
  let ?ns = "undirected nodes cur"
  have ns: "set ?ns = links nodes `` {cur}" by (simp add: set_undirected links_def)
  have "links nodes `` (visited \<union> set ?ns - (set queue \<union> (set ?ns - visited))) \<subseteq> visited \<union> set ?ns"
    using "2.prems"(2) ns by auto
  moreover have "set queue \<union> (set ?ns - visited) \<subseteq> visited \<union> set ?ns"
    using "2.prems"(1) by auto
  ultimately have "bfs nodes visited (cur # queue) = (links nodes)\<^sup>* `` (visited \<union> set ?ns)"
    using "2.IH" by (simp add: expand_visited expand_queue)
  also have "\<dots> = (links nodes)\<^sup>* `` visited"
    using "2.prems"(1) ns by (auto intro: converse_rtrancl_into_rtrancl)
  finally show ?case .
qed

lemma bfs_single: "bfs nodes {i} [i] = (links nodes)\<^sup>* `` {i}"
  by (rule bfs_component) auto

lemma rtrancl_sym_links: "(a, b) \<in> (links nodes)\<^sup>* \<Longrightarrow> (b, a) \<in> (links nodes)\<^sup>*"
proof -
  have "sym (links nodes)" by (auto simp: links_def sym_def)
  then show "(a, b) \<in> (links nodes)\<^sup>* \<Longrightarrow> (b, a) \<in> (links nodes)\<^sup>*"
    by (meson sym_rtrancl symD)
qed

definition known_deps :: "('q, 'p) node list \<Rightarrow> bool" where
  "known_deps nodes \<longleftrightarrow> (\<forall>n\<in>set nodes. set (Deps n) \<subseteq> ID ` set nodes)"

definition connected_graph :: "('q, 'p) node list \<Rightarrow> bool" where
  "connected_graph nodes \<longleftrightarrow>
     (\<forall>m\<in>set nodes. \<forall>n\<in>set nodes. (ID m, ID n) \<in> (links nodes)\<^sup>*)"

lemma links_ids: "known_deps nodes \<Longrightarrow> links nodes \<subseteq> ID ` set nodes \<times> ID ` set nodes"
  by (force simp: links_def dep_edges_def known_deps_def)

lemma checkConnected_None_iff:
  assumes d: "distinct (map ID nodes)" and k: "known_deps nodes"
  shows "checkConnected nodes = None \<longleftrightarrow> connected_graph nodes"
proof (cases "length nodes \<le> 1")
  case True
  then have "nodes = [] \<or> (\<exists>n. nodes = [n])" by (cases nodes) auto
  then show ?thesis by (auto simp: checkConnected_def connected_graph_def)
next
  case False
  define h where "h = ID (hd nodes)"
  define C where "C = (links nodes)\<^sup>* `` {h}"
  have hin: "h \<in> ID ` set nodes" using False by (cases nodes) (auto simp: h_def)
  have sub: "C \<subseteq> ID ` set nodes"
  proof -
    have "x \<in> ID ` set nodes" if "(h, x) \<in> (links nodes)\<^sup>*" for x
      using that hin links_ids [OF k] by (induction rule: rtrancl_induct) auto
    then show ?thesis by (auto simp: C_def)
  qed
  have card: "card (ID ` set nodes) = length nodes"
    using d by (metis distinct_card length_map set_map)
  have "checkConnected nodes = None \<longleftrightarrow> C = ID ` set nodes"
  proof -
    have "bfs nodes {ID (hd nodes)} [ID (hd nodes)] = C" unfolding C_def h_def by (rule bfs_single)
    then have "checkConnected nodes = (if card C \<noteq> length nodes then
        (case find (\<lambda>n. ID n \<notin> C) nodes of Some n \<Rightarrow> Some (disconnected_error (ID n)) | None \<Rightarrow> None)
        else None)"
      using False by (simp add: checkConnected_def del: bfs.simps)
    then have "checkConnected nodes = None \<longleftrightarrow> card C = length nodes \<or> find (\<lambda>n. ID n \<notin> C) nodes = None"
      by (auto split: option.splits)
    also have "\<dots> \<longleftrightarrow> card C = length nodes \<or> (\<forall>n\<in>set nodes. ID n \<in> C)"
      by (simp add: find_eq_None)
    also have "\<dots> \<longleftrightarrow> C = ID ` set nodes"
      using sub card card_subset_eq [of "ID ` set nodes" C] by auto
    finally show ?thesis .
  qed
  also have "\<dots> \<longleftrightarrow> connected_graph nodes"
  proof
    assume eq: "C = ID ` set nodes"
    have "(h, ID n) \<in> (links nodes)\<^sup>*" if "n \<in> set nodes" for n
      using eq that by (auto simp: C_def)
    then show "connected_graph nodes"
      unfolding connected_graph_def by (meson rtrancl_sym_links rtrancl_trans)
  next
    assume "connected_graph nodes"
    with hin sub show "C = ID ` set nodes" by (auto simp: connected_graph_def C_def)
  qed
  finally show ?thesis .
qed

section \<open>\<open>ValidateDAG\<close>\<close>

definition duplicate_error :: "string \<Rightarrow> gerror" where
  "duplicate_error i = Errorf ''orchestrate: duplicate node ID %q'' [AStr i] None"

definition unknown_dep_error :: "string \<Rightarrow> string \<Rightarrow> gerror" where
  "unknown_dep_error i d =
     Errorf ''orchestrate: node %q depends on unknown node %q'' [AStr i, AStr d] None"

text \<open>The first loop: collect the identifiers, or report the first repeated one.\<close>

fun seen_ids :: "('q, 'p) node list \<Rightarrow> string set \<Rightarrow> string set res" where
  "seen_ids [] seen = Inr seen"
| "seen_ids (n # ns) seen =
     (if ID n \<in> seen then Inl (duplicate_error (ID n)) else seen_ids ns (insert (ID n) seen))"

text \<open>The second loop: the first dependency that names no node.\<close>

fun unknown_dep :: "('q, 'p) node list \<Rightarrow> string set \<Rightarrow> gerror option" where
  "unknown_dep [] seen = None"
| "unknown_dep (n # ns) seen =
     (case find (\<lambda>dep. dep \<notin> seen) (Deps n) of
        Some dep \<Rightarrow> Some (unknown_dep_error (ID n) dep)
      | None \<Rightarrow> unknown_dep ns seen)"

definition ValidateDAG :: "('q, 'p) node list \<Rightarrow> gerror option" where
  "ValidateDAG nodes =
     (case seen_ids nodes {} of
        Inl e \<Rightarrow> Some e
      | Inr seen \<Rightarrow>
          (case unknown_dep nodes seen of
             Some e \<Rightarrow> Some e
           | None \<Rightarrow>
               (case detectCycle nodes of
                  Some e \<Rightarrow> Some e
                | None \<Rightarrow> checkConnected nodes)))"

definition valid_dag :: "('q, 'p) node list \<Rightarrow> bool" where
  "valid_dag nodes \<longleftrightarrow>
     distinct (map ID nodes) \<and> known_deps nodes \<and> acyclic (dep_edges nodes) \<and> connected_graph nodes"

lemma seen_ids_Inr:
  "seen_ids nodes seen = Inr s \<longleftrightarrow>
     distinct (map ID nodes) \<and> ID ` set nodes \<inter> seen = {} \<and> s = seen \<union> ID ` set nodes"
  by (induction nodes seen rule: seen_ids.induct) auto

lemma unknown_dep_None:
  "unknown_dep nodes seen = None \<longleftrightarrow> (\<forall>n\<in>set nodes. set (Deps n) \<subseteq> seen)"
  by (induction nodes seen rule: unknown_dep.induct)
     (auto simp: find_eq_None subset_iff dest: find_SomeD split: option.splits)

lemma ValidateDAG_None_iff: "ValidateDAG nodes = None \<longleftrightarrow> valid_dag nodes"
proof (cases "seen_ids nodes {}")
  case (Inl e)
  then have "\<not> distinct (map ID nodes)" using seen_ids_Inr [of nodes "{}"] by auto
  with Inl show ?thesis by (simp add: ValidateDAG_def valid_dag_def)
next
  case (Inr s)
  then have d: "distinct (map ID nodes)" and s: "s = ID ` set nodes" by (auto simp: seen_ids_Inr)
  have k: "unknown_dep nodes s = None \<longleftrightarrow> known_deps nodes"
    by (simp add: unknown_dep_None s known_deps_def)
  show ?thesis
  proof (cases "known_deps nodes")
    case True
    then have "detectCycle nodes = None \<longleftrightarrow> acyclic (dep_edges nodes)"
      by (intro detectCycle_None_iff) (simp add: known_deps_def)
    with True Inr d k checkConnected_None_iff [OF d True] show ?thesis
      by (auto simp: ValidateDAG_def valid_dag_def split: option.splits)
  next
    case False
    with Inr k show ?thesis by (auto simp: ValidateDAG_def valid_dag_def split: option.splits)
  qed
qed

section \<open>\<open>BuildDAG\<close>\<close>

definition mixed_styles_error :: "string \<Rightarrow> gerror" where
  "mixed_styles_error i =
     Errorf ''orchestrate: node %q has Deps set; cannot mix Deps and Edge styles'' [AStr i] None"

definition unknown_from_error :: "string \<Rightarrow> gerror" where
  "unknown_from_error i = Errorf ''orchestrate: edge references unknown node %q (From)'' [AStr i] None"

definition unknown_to_error :: "string \<Rightarrow> gerror" where
  "unknown_to_error i = Errorf ''orchestrate: edge references unknown node %q (To)'' [AStr i] None"

fun node_index ::
  "('q, 'p) node list \<Rightarrow> nat \<Rightarrow> (string \<rightharpoonup> nat) \<Rightarrow> (string \<rightharpoonup> nat) res" where
  "node_index [] i m = Inr m"
| "node_index (n # ns) i m =
     (if m (ID n) \<noteq> None then Inl (duplicate_error (ID n))
      else if Deps n \<noteq> [] then Inl (mixed_styles_error (ID n))
      else node_index ns (Suc i) (m(ID n \<mapsto> i)))"

text \<open>\<open>depsMap[e.To] = append(depsMap[e.To], e.From)\<close>; a missing entry reads as \<open>nil\<close>.\<close>

fun edge_deps ::
  "edge list \<Rightarrow> (string \<rightharpoonup> nat) \<Rightarrow> (string \<rightharpoonup> string list) \<Rightarrow> (string \<rightharpoonup> string list) res" where
  "edge_deps [] idx dm = Inr dm"
| "edge_deps (e # es) idx dm =
     (if idx (From e) = None then Inl (unknown_from_error (From e))
      else if idx (To e) = None then Inl (unknown_to_error (To e))
      else edge_deps es idx
        (dm(To e \<mapsto> (case dm (To e) of None \<Rightarrow> [] | Some ds \<Rightarrow> ds) @ [From e])))"

definition with_deps :: "(string \<rightharpoonup> string list) \<Rightarrow> ('q, 'p) node \<Rightarrow> ('q, 'p) node" where
  "with_deps dm n = (case dm (ID n) of Some ds \<Rightarrow> n\<lparr>Deps := ds\<rparr> | None \<Rightarrow> n)"

definition BuildDAG :: "('q, 'p) node list \<Rightarrow> edge list \<Rightarrow> ('q, 'p) node list res" where
  "BuildDAG nodes edges =
     bindR (node_index nodes 0 Map.empty) (\<lambda>idx.
     bindR (edge_deps edges idx Map.empty) (\<lambda>dm.
       let result = map (with_deps dm) nodes in
       case ValidateDAG result of Some e \<Rightarrow> Inl e | None \<Rightarrow> Inr result))"

lemma node_index_Inr:
  "node_index nodes i m = Inr idx \<Longrightarrow>
     distinct (map ID nodes) \<and> (\<forall>n\<in>set nodes. Deps n = []) \<and> ID ` set nodes \<inter> dom m = {} \<and>
     dom idx = dom m \<union> ID ` set nodes"
  by (induction nodes i m rule: node_index.induct) (auto split: if_splits)

lemma node_index_total:
  "distinct (map ID nodes) \<Longrightarrow> \<forall>n\<in>set nodes. Deps n = [] \<Longrightarrow> ID ` set nodes \<inter> dom m = {} \<Longrightarrow>
     \<exists>idx. node_index nodes i m = Inr idx"
  by (induction nodes i m rule: node_index.induct) (auto simp: domIff split: if_splits)

definition incoming :: "edge list \<Rightarrow> string \<Rightarrow> string list" where
  "incoming es i = map From (filter (\<lambda>e. To e = i) es)"

lemma edge_deps_Inr:
  "edge_deps es idx dm = Inr dm' \<Longrightarrow>
     (\<forall>e\<in>set es. From e \<in> dom idx \<and> To e \<in> dom idx) \<and>
     (\<forall>i. dm' i = (if incoming es i = [] then dm i
                   else Some ((case dm i of None \<Rightarrow> [] | Some ds \<Rightarrow> ds) @ incoming es i)))"
  by (induction es idx dm rule: edge_deps.induct)
     (auto simp: incoming_def split: if_splits option.splits)

lemma edge_deps_total:
  "\<forall>e\<in>set es. From e \<in> dom idx \<and> To e \<in> dom idx \<Longrightarrow> \<exists>dm'. edge_deps es idx dm = Inr dm'"
  by (induction es idx dm rule: edge_deps.induct) (auto simp: domIff)

lemma with_deps_incoming:
  assumes "edge_deps es idx Map.empty = Inr dm" "Deps n = []"
  shows "with_deps dm n = n\<lparr>Deps := incoming es (ID n)\<rparr>"
  using edge_deps_Inr [OF assms(1)] assms(2) by (auto simp: with_deps_def)

text \<open>The graph that a node list and an edge list describe.\<close>

definition graph_of_edges :: "('q, 'p) node list \<Rightarrow> edge list \<Rightarrow> ('q, 'p) node list" where
  "graph_of_edges nodes es = map (\<lambda>n. n\<lparr>Deps := incoming es (ID n)\<rparr>) nodes"

lemma BuildDAG_Inr_iff:
  "BuildDAG nodes es = Inr result \<longleftrightarrow>
     (\<forall>n\<in>set nodes. Deps n = []) \<and>
     (\<forall>e\<in>set es. From e \<in> ID ` set nodes \<and> To e \<in> ID ` set nodes) \<and>
     result = graph_of_edges nodes es \<and> valid_dag result"
  (is "?L \<longleftrightarrow> ?R")
proof
  assume ?L
  then obtain idx dm where idx: "node_index nodes 0 Map.empty = Inr idx"
    and dm: "edge_deps es idx Map.empty = Inr dm"
    and res: "result = map (with_deps dm) nodes" and v: "ValidateDAG result = None"
    by (auto simp: BuildDAG_def Let_def split: option.splits)
  note I = node_index_Inr [OF idx]
  have "result = graph_of_edges nodes es"
    using I with_deps_incoming [OF dm] by (auto simp: res graph_of_edges_def)
  with I edge_deps_Inr [OF dm] v show ?R by (simp add: ValidateDAG_None_iff)
next
  assume R: ?R
  then have "distinct (map ID nodes)"
    by (auto simp: valid_dag_def graph_of_edges_def comp_def)
  with R obtain idx where idx: "node_index nodes 0 Map.empty = Inr idx"
    using node_index_total [of nodes Map.empty 0] by auto
  note I = node_index_Inr [OF idx]
  from R I obtain dm where dm: "edge_deps es idx Map.empty = Inr dm"
    using edge_deps_total [of es idx Map.empty] by auto
  have "map (with_deps dm) nodes = graph_of_edges nodes es"
    using R with_deps_incoming [OF dm] by (auto simp: graph_of_edges_def)
  with R idx dm show ?L by (auto simp: BuildDAG_def ValidateDAG_None_iff Let_def split: option.splits)
qed

section \<open>Properties\<close>

text \<open>
  C6: validation is exact.  \<open>ValidateDAG\<close> accepts a node list if and only if its identifiers are
  distinct, every dependency is the identifier of a node, the dependency relation has no cycle
  and every two nodes are connected when the direction of the edges is ignored.
\<close>

theorem validate_dag_exact: "ValidateDAG nodes = None \<longleftrightarrow> valid_dag nodes"
  by (rule ValidateDAG_None_iff)

text \<open>
  Building a graph from edges is exact.  \<open>BuildDAG\<close> succeeds if and only if no node has
  dependencies of its own, both ends of every edge are nodes and the resulting graph is valid; the
  result then gives every node the sources of its incoming edges as dependencies, in edge order.
\<close>

lemma build_dag_exact:
  "BuildDAG nodes es = Inr result \<longleftrightarrow>
     (\<forall>n\<in>set nodes. Deps n = []) \<and>
     (\<forall>e\<in>set es. From e \<in> ID ` set nodes \<and> To e \<in> ID ` set nodes) \<and>
     result = graph_of_edges nodes es \<and> valid_dag result"
  by (rule BuildDAG_Inr_iff)

definition two_bare :: "(unit, unit) node list" where
  "two_bare = [bare_node ''a'' [], bare_node ''b'' []]"

definition one_edge :: "edge list" where
  "one_edge = [\<lparr>From = ''a'', To = ''b''\<rparr>]"

theorem build_dag_exact_witness:
  "BuildDAG two_bare one_edge = Inr [bare_node ''a'' [], bare_node ''b'' [''a'']] \<and>
     valid_dag [bare_node ''a'' [] :: (unit, unit) node, bare_node ''b'' [''a'']]"
proof -
  have "ValidateDAG [bare_node ''a'' [] :: (unit, unit) node, bare_node ''b'' [''a'']] = None"
    by code_simp
  then have v: "valid_dag [bare_node ''a'' [] :: (unit, unit) node, bare_node ''b'' [''a'']]"
    by (simp add: ValidateDAG_None_iff)
  moreover have "graph_of_edges two_bare one_edge = [bare_node ''a'' [], bare_node ''b'' [''a'']]"
    by (simp add: graph_of_edges_def two_bare_def one_edge_def incoming_def bare_node_def)
  moreover have "\<forall>n\<in>set two_bare. Deps n = []" by (simp add: two_bare_def)
  moreover have "\<forall>e\<in>set one_edge. From e \<in> ID ` set two_bare \<and> To e \<in> ID ` set two_bare"
    by (simp add: two_bare_def one_edge_def)
  ultimately show ?thesis using build_dag_exact [of two_bare one_edge] by simp
qed

end
