(* ===== verification/Topo.thy ===== *)
theory Topo
  imports Validate
begin

text \<open>
  Kahn's algorithm (\<open>topologicalSort\<close> of \<open>topo.go\<close>), and the bookkeeping of unmet
  dependencies that it shares with the executor: the in-degree of a node counts the
  occurrences of dependencies that are not settled yet.
\<close>

section \<open>Unmet dependencies\<close>

definition unmet :: "string set \<Rightarrow> ('q, 'p) node \<Rightarrow> nat" where
  "unmet S n = length (filter (\<lambda>d. d \<notin> S) (Deps n))"

lemma unmet_0_iff: "unmet S n = 0 \<longleftrightarrow> set (Deps n) \<subseteq> S"
  by (auto simp: unmet_def filter_empty_conv)

lemma unmet_empty: "unmet {} n = length (Deps n)"
  by (simp add: unmet_def)

lemma unmet_insert:
  "c \<notin> S \<Longrightarrow> int (unmet (insert c S) n) = int (unmet S n) - int (count_list (Deps n) c)"
proof -
  assume c: "c \<notin> S"
  have "length (filter (\<lambda>d. d \<notin> insert c S) ds) + count_list ds c = length (filter (\<lambda>d. d \<notin> S) ds)" for ds
    using c by (induction ds) auto
  from this [of "Deps n"] show ?thesis by (simp add: unmet_def)
qed

lemma count_list_concat: "count_list (concat xss) x = (\<Sum>xs\<leftarrow>xss. count_list xs x)"
  by (induction xss) simp_all

lemma count_list_replicate: "count_list (replicate k y) x = (if x = y then k else 0)"
  by (induction k) auto

lemma count_downstream [graph_simps]:
  assumes "distinct (map ID nodes)" "n \<in> set nodes"
  shows "count_list (downstream nodes v) (ID n) = count_list (Deps n) v"
proof -
  have "count_list (downstream nodes v) (ID n) =
      (\<Sum>m\<leftarrow>nodes. if ID m = ID n then count_list (Deps m) v else 0)"
    by (simp add: downstream_concat count_list_concat count_list_replicate comp_def eq_commute cong: if_cong)
  also have "\<dots> = count_list (Deps n) v" by (rule sum_list_count_single [OF assms])
  finally show ?thesis .
qed

lemma in_degree_fold:
  "fold (\<lambda>n m. m(ID n := int (length (Deps n)))) nodes m0 v =
     (case index_by ID nodes v of None \<Rightarrow> m0 v | Some n \<Rightarrow> int (length (Deps n)))"
proof -
  have "fold (\<lambda>n m. m(ID n := int (length (Deps n)))) nodes m0 v =
      (case map_of (rev (map (\<lambda>x. (ID x, x)) nodes)) v of None \<Rightarrow> m0 v | Some n \<Rightarrow> int (length (Deps n)))"
    by (induction nodes arbitrary: m0) (auto simp: map_add_Some_iff map_add_def split: option.splits)
  then show ?thesis by (simp add: index_by_map_of)
qed

lemma in_degree_index:
  "in_degree nodes v = (case index_by ID nodes v of None \<Rightarrow> 0 | Some n \<Rightarrow> int (length (Deps n)))"
  by (simp add: in_degree_def buildDAGMaps_def buildDAGMaps_fold in_degree_fold)

lemma in_degree_node [graph_simps]:
  assumes "distinct (map ID nodes)" "n \<in> set nodes"
  shows "in_degree nodes (ID n) = int (length (Deps n))"
  using index_by_Some [OF assms(1), of "ID n" n] assms(2) by (simp add: in_degree_index)

lemma set_downstream_ids: "set (downstream nodes v) \<subseteq> ID ` set nodes"
  by (auto simp: set_downstream)

section \<open>Kahn's algorithm\<close>

text \<open>The inner loop: \<open>inDeg[ds]--\<close>, and \<open>ds\<close> is queued when the counter reaches zero.\<close>

fun release_deps ::
  "string list \<Rightarrow> (string \<Rightarrow> int) \<Rightarrow> string list \<Rightarrow> (string \<Rightarrow> int) \<times> string list" where
  "release_deps [] inDeg queue = (inDeg, queue)"
| "release_deps (ds # rest) inDeg queue =
     release_deps rest (inDeg(ds := inDeg ds - 1))
       (if inDeg ds - 1 = 0 then queue @ [ds] else queue)"

lemma release_inDeg: "fst (release_deps ds inDeg queue) v = inDeg v - int (count_list ds v)"
  by (induction ds arbitrary: inDeg queue) simp_all

lemma release_queue:
  "\<exists>new. snd (release_deps ds inDeg queue) = queue @ new \<and> distinct new \<and>
     set new = {v. 0 < inDeg v \<and> inDeg v \<le> int (count_list ds v)}"
proof (induction ds inDeg queue rule: release_deps.induct)
  case (1 inDeg queue)
  then show ?case by (intro exI [of _ "[]"]) auto
next
  case (2 ds rest inDeg queue)
  let ?m = "inDeg(ds := inDeg ds - 1)"
  from "2.IH" obtain new where
    new: "snd (release_deps rest ?m (if inDeg ds - 1 = 0 then queue @ [ds] else queue)) =
        (if inDeg ds - 1 = 0 then queue @ [ds] else queue) @ new"
      "distinct new" "set new = {v. 0 < ?m v \<and> ?m v \<le> int (count_list rest v)}" by metis
  show ?case
  proof (cases "inDeg ds = 1")
    case True
    have "set (ds # new) = {v. 0 < inDeg v \<and> inDeg v \<le> int (count_list (ds # rest) v)}"
      unfolding set_simps new(3) using True by auto
    moreover have "ds \<notin> set new" unfolding new(3) using True by simp
    moreover have "snd (release_deps (ds # rest) inDeg queue) = queue @ (ds # new)"
      using new(1) True by simp
    ultimately show ?thesis using new(2) by (intro exI [of _ "ds # new"]) auto
  next
    case False
    have "set new = {v. 0 < inDeg v \<and> inDeg v \<le> int (count_list (ds # rest) v)}"
      unfolding new(3) using False by auto
    with new(1,2) False show ?thesis by (intro exI [of _ new]) simp
  qed
qed

text \<open>Each dequeued node leaves the queue, and each queued one was counted before.\<close>

definition kahn_size :: "('q, 'p) node list \<Rightarrow> (string \<Rightarrow> int) \<Rightarrow> string list \<Rightarrow> nat" where
  "kahn_size nodes inDeg queue = length queue + (\<Sum>v\<in>ID ` set nodes. nat (inDeg v))"

lemma kahn_size_less:
  "kahn_size nodes (fst (release_deps (downstream nodes cur) inDeg queue))
       (snd (release_deps (downstream nodes cur) inDeg queue))
     < kahn_size nodes inDeg (cur # queue)"
proof -
  let ?V = "ID ` set nodes" and ?ds = "downstream nodes cur"
  let ?m = "fst (release_deps ?ds inDeg queue)"
  obtain new where new: "snd (release_deps ?ds inDeg queue) = queue @ new" "distinct new"
    "set new = {v. 0 < inDeg v \<and> inDeg v \<le> int (count_list ?ds v)}"
    using release_queue [of ?ds inDeg queue] by blast
  have sub: "set new \<subseteq> ?V"
  proof
    fix v assume "v \<in> set new"
    then have "0 < count_list ?ds v" by (simp add: new(3))
    then show "v \<in> ?V" using set_downstream_ids [of nodes cur] by (auto simp: count_list_pos)
  qed
  have "(\<Sum>v\<in>?V. nat (?m v)) + (\<Sum>v\<in>?V. if v \<in> set new then 1 else 0) \<le> (\<Sum>v\<in>?V. nat (inDeg v))"
    unfolding sum.distrib [symmetric] by (intro sum_mono) (auto simp: release_inDeg new(3))
  moreover have "(\<Sum>v\<in>?V. if v \<in> set new then 1 else (0::nat)) = length new"
    using sub new(2) by (simp add: sum.If_cases Int_absorb1 distinct_card)
  ultimately show ?thesis by (simp add: kahn_size_def new(1))
qed

function kahn ::
  "('q, 'p) node list \<Rightarrow> (string \<Rightarrow> int) \<Rightarrow> string list \<Rightarrow> string list \<Rightarrow> string list" where
  "kahn nodes inDeg [] order = order"
| "kahn nodes inDeg (cur # queue) order =
     kahn nodes (fst (release_deps (downstream nodes cur) inDeg queue))
       (snd (release_deps (downstream nodes cur) inDeg queue)) (order @ [cur])"
  by pat_completeness auto
termination
  by (relation "measure (\<lambda>(nodes, inDeg, queue, order). kahn_size nodes inDeg queue)")
     (simp_all add: kahn_size_less)

definition topologicalSort :: "('q, 'p) node list \<Rightarrow> string list" where
  "topologicalSort nodes =
     kahn nodes (in_degree nodes) (map ID (filter (\<lambda>n. in_degree nodes (ID n) = 0) nodes)) []"

section \<open>Correctness\<close>

text \<open>A list is ordered when every node stands after all of its dependencies.\<close>

definition deps_before :: "('q, 'p) node list \<Rightarrow> string list \<Rightarrow> bool" where
  "deps_before nodes order \<longleftrightarrow>
     (\<forall>n\<in>set nodes. \<forall>i<length order. order ! i = ID n \<longrightarrow> set (Deps n) \<subseteq> set (take i order))"

definition kahn_inv ::
  "('q, 'p) node list \<Rightarrow> (string \<Rightarrow> int) \<Rightarrow> string list \<Rightarrow> string list \<Rightarrow> bool" where
  "kahn_inv nodes inDeg queue order \<longleftrightarrow>
     distinct (order @ queue) \<and> set (order @ queue) \<subseteq> ID ` set nodes \<and>
     (\<forall>n\<in>set nodes. inDeg (ID n) = int (unmet (set order) n)) \<and>
     (\<forall>n\<in>set nodes. ID n \<in> set (order @ queue) \<longleftrightarrow> inDeg (ID n) = 0) \<and>
     deps_before nodes order"

lemma deps_before_snoc:
  "deps_before nodes (order @ [c]) \<longleftrightarrow>
     deps_before nodes order \<and> (\<forall>n\<in>set nodes. ID n = c \<longrightarrow> set (Deps n) \<subseteq> set order)"
  unfolding deps_before_def by (auto simp: nth_append less_Suc_eq)

lemma kahn_inv_step:
  assumes d: "distinct (map ID nodes)" and I: "kahn_inv nodes inDeg (cur # queue) order"
  shows "kahn_inv nodes (fst (release_deps (downstream nodes cur) inDeg queue))
    (snd (release_deps (downstream nodes cur) inDeg queue)) (order @ [cur])"
proof -
  let ?ds = "downstream nodes cur"
  let ?m = "fst (release_deps ?ds inDeg queue)"
  obtain new where new: "snd (release_deps ?ds inDeg queue) = queue @ new" "distinct new"
    "set new = {v. 0 < inDeg v \<and> inDeg v \<le> int (count_list ?ds v)}"
    using release_queue [of ?ds inDeg queue] by blast
  have dq: "distinct (order @ cur # queue)" and ids: "set (order @ cur # queue) \<subseteq> ID ` set nodes"
    and deg: "\<And>n. n \<in> set nodes \<Longrightarrow> inDeg (ID n) = int (unmet (set order) n)"
    and mem: "\<And>n. n \<in> set nodes \<Longrightarrow> ID n \<in> set (order @ cur # queue) \<longleftrightarrow> inDeg (ID n) = 0"
    and ord: "deps_before nodes order"
    using I by (auto simp: kahn_inv_def)
  have cur: "cur \<notin> set order" using dq by auto
  have m: "?m (ID n) = int (unmet (set (order @ [cur])) n)" if "n \<in> set nodes" for n
    using deg [OF that] unmet_insert [OF cur, of n]
    by (simp add: release_inDeg count_downstream [OF d that])
  have new_ids: "set new \<subseteq> ID ` set nodes"
  proof
    fix v assume "v \<in> set new"
    then have "0 < count_list ?ds v" by (simp add: new(3))
    then show "v \<in> ID ` set nodes" using set_downstream_ids [of nodes cur] by (auto simp: count_list_pos)
  qed
  have new_fresh: "v \<notin> set (order @ cur # queue)" if "v \<in> set new" for v
  proof -
    from that new_ids obtain n where n: "n \<in> set nodes" "v = ID n" by auto
    with that mem [OF n(1)] show ?thesis by (simp add: new(3))
  qed
  have mem': "ID n \<in> set ((order @ [cur]) @ queue @ new) \<longleftrightarrow> ?m (ID n) = 0" if n: "n \<in> set nodes" for n
  proof (cases "inDeg (ID n) = 0")
    case True
    then have "?m (ID n) = 0" using m [OF n] deg [OF n] by (auto simp: unmet_def filter_empty_conv)
    with True mem [OF n] show ?thesis by auto
  next
    case False
    with mem [OF n] m [OF n] deg [OF n] show ?thesis by (auto simp: new(3) release_inDeg)
  qed
  have "set (Deps n) \<subseteq> set order" if "n \<in> set nodes" "ID n = cur" for n
    using mem [OF that(1)] deg [OF that(1)] that(2) by (simp add: unmet_0_iff)
  with dq ids ord new(1,2) new_fresh new_ids m mem' show ?thesis
    unfolding kahn_inv_def deps_before_snoc by auto
qed

lemma kahn_inv_run:
  "distinct (map ID nodes) \<Longrightarrow> kahn_inv nodes inDeg queue order \<Longrightarrow>
     \<exists>inDeg'. kahn_inv nodes inDeg' [] (kahn nodes inDeg queue order)"
proof (induction nodes inDeg queue order rule: kahn.induct)
  case (1 nodes inDeg order)
  then show ?case by auto
next
  case (2 nodes inDeg cur queue order)
  then show ?case using kahn_inv_step [OF "2.prems"] by simp
qed

lemma kahn_inv_start:
  assumes d: "distinct (map ID nodes)"
  shows "kahn_inv nodes (in_degree nodes) (map ID (filter (\<lambda>n. in_degree nodes (ID n) = 0) nodes)) []"
proof -
  have "inj_on ID (set nodes)" using d by (simp add: distinct_map)
  then have "distinct (map ID (filter P nodes))" for P
    using d by (auto simp: distinct_map intro: inj_on_subset)
  moreover have "ID n \<in> ID ` {x \<in> set nodes. in_degree nodes (ID x) = 0} \<longleftrightarrow> in_degree nodes (ID n) = 0"
    if "n \<in> set nodes" for n using that by auto
  ultimately show ?thesis
    using in_degree_node [OF d] by (auto simp: kahn_inv_def deps_before_def unmet_empty)
qed

lemma topologicalSort_spec:
  assumes d: "distinct (map ID nodes)" and k: "known_deps nodes" and a: "acyclic (dep_edges nodes)"
  shows "distinct (topologicalSort nodes)" "set (topologicalSort nodes) = ID ` set nodes"
    "deps_before nodes (topologicalSort nodes)"
proof -
  let ?o = "topologicalSort nodes"
  obtain m where I: "kahn_inv nodes m [] ?o"
    using kahn_inv_run [OF d kahn_inv_start [OF d]] by (auto simp: topologicalSort_def)
  then show "distinct ?o" and "deps_before nodes ?o" by (auto simp: kahn_inv_def)
  have sub: "set ?o \<subseteq> ID ` set nodes" using I by (auto simp: kahn_inv_def)
  have "wf (dep_edges nodes)" using a by (intro finite_acyclic_wf) simp_all
  then have min: "x \<in> Q \<Longrightarrow> \<exists>z\<in>Q. \<forall>y. (y, z) \<in> dep_edges nodes \<longrightarrow> y \<notin> Q" for x Q
    by (auto simp: wf_eq_minimal)
  have "ID ` set nodes - set ?o = {}"
  proof (rule ccontr)
    assume "ID ` set nodes - set ?o \<noteq> {}"
    then obtain z where z: "z \<in> ID ` set nodes - set ?o"
      and zmin: "\<forall>y. (y, z) \<in> dep_edges nodes \<longrightarrow> y \<notin> ID ` set nodes - set ?o"
      using min by (meson all_not_in_conv)
    from z obtain n where n: "n \<in> set nodes" "z = ID n" by auto
    with I z have "unmet (set ?o) n \<noteq> 0" by (auto simp: kahn_inv_def)
    then obtain e where "e \<in> set (Deps n)" "e \<notin> set ?o" by (auto simp: unmet_0_iff)
    with n k zmin show False by (auto simp: dep_edges_def known_deps_def)
  qed
  with sub show "set ?o = ID ` set nodes" by auto
qed

text \<open>
  The topological sort of a valid graph lists every node exactly once and every node after all
  its dependencies.
\<close>

lemma topological_sort_correct:
  assumes "ValidateDAG nodes = None"
  shows "distinct (topologicalSort nodes) \<and> set (topologicalSort nodes) = ID ` set nodes \<and>
    deps_before nodes (topologicalSort nodes)"
  using assms topologicalSort_spec [of nodes] by (simp add: ValidateDAG_None_iff valid_dag_def)

definition diamond :: "(unit, unit) node list" where
  "diamond = [bare_node ''d'' [''b'', ''c''], bare_node ''b'' [''a''], bare_node ''c'' [''a''], bare_node ''a'' []]"

theorem topological_sort_correct_witness:
  "topologicalSort diamond = [''a'', ''b'', ''c'', ''d''] \<and> deps_before diamond [''a'', ''b'', ''c'', ''d'']"
proof -
  have "ValidateDAG diamond = None" by code_simp
  moreover have "topologicalSort diamond = [''a'', ''b'', ''c'', ''d'']" by code_simp
  ultimately show ?thesis using topological_sort_correct [of diamond] by simp
qed

end
