(* ===== verification/Timeline.thy ===== *)
theory Timeline
  imports Graph
begin

text \<open>
  The timeline tracker of \<open>timeline.go\<close>.  Clock readings are arguments; \<open>sort.Slice\<close> by start
  time is \<open>sort_key\<close>, which fixes the order of entries with equal start times.
\<close>

datatype node_status =
  NodePending | NodeRunning | NodeDone | NodeFailed | NodeSkipped | NodeCompensated

record node_timeline =
  NodeID :: string
  StartTime :: int
  EndTime :: int
  Duration :: int
  Status :: node_status

record timeline_tracker =
  starts :: "string \<rightharpoonup> int"
  entries :: "node_timeline list"

definition newTimelineTracker :: timeline_tracker where
  "newTimelineTracker = \<lparr>starts = Map.empty, entries = []\<rparr>"

definition recordStart :: "int \<Rightarrow> string \<Rightarrow> timeline_tracker \<Rightarrow> timeline_tracker" where
  "recordStart now i t = t\<lparr>starts := (starts t)(i \<mapsto> now)\<rparr>"

definition recordEnd :: "int \<Rightarrow> int \<Rightarrow> string \<Rightarrow> node_status \<Rightarrow> timeline_tracker \<Rightarrow> timeline_tracker" where
  "recordEnd now now' i s t =
     (let start = (case starts t i of Some x \<Rightarrow> x | None \<Rightarrow> now)
      in t\<lparr>entries := entries t @ [\<lparr>NodeID = i, StartTime = start, EndTime = now',
             Duration = now' - start, Status = s\<rparr>]\<rparr>)"

definition timeline_result :: "timeline_tracker \<Rightarrow> node_timeline list" where
  "timeline_result t = sort_key StartTime (entries t)"

text \<open>With a clock that does not go back, no entry ends before it starts.\<close>

definition timeline_ok :: "int \<Rightarrow> timeline_tracker \<Rightarrow> bool" where
  "timeline_ok now t \<longleftrightarrow>
     (\<forall>i s. starts t i = Some s \<longrightarrow> s \<le> now) \<and>
     (\<forall>e\<in>set (entries t). StartTime e \<le> EndTime e \<and> EndTime e \<le> now \<and>
        Duration e = EndTime e - StartTime e)"

lemma timeline_ok_new [inv_intros]: "timeline_ok now newTimelineTracker"
  by (simp add: timeline_ok_def newTimelineTracker_def)

lemma timeline_ok_mono [inv_intros]: "timeline_ok now t \<Longrightarrow> now \<le> now' \<Longrightarrow> timeline_ok now' t"
  by (auto simp: timeline_ok_def intro: order.trans)

lemma timeline_ok_start [inv_intros]: "timeline_ok now t \<Longrightarrow> timeline_ok now (recordStart now i t)"
  by (simp add: timeline_ok_def recordStart_def)

lemma timeline_ok_end [inv_intros]: "timeline_ok now t \<Longrightarrow> timeline_ok now (recordEnd now now i s t)"
  by (auto simp: timeline_ok_def recordEnd_def Let_def split: option.splits)

lemma timeline_result_sorted:
  "sorted (map StartTime (timeline_result t)) \<and> mset (timeline_result t) = mset (entries t)"
  by (simp add: timeline_result_def)

end
