(* ===== verification/Saga.thy ===== *)
theory Saga
  imports Topo Timeline
begin

text \<open>
  The compensation side of the executor (\<open>compensate.go\<close>): backward compensation of the
  completed nodes in reverse topological order, with retries for idempotent compensators, and
  forward recovery, which retries the failed node.  The outcome of the \<open>k\<close>-th call of foreign
  code, and whether the context ends the pause after it, are arguments.
\<close>

datatype compensate_strategy = BackwardCompensate | ForwardRecovery

record compensate_config =
  Strategy :: compensate_strategy
  CompTimeout :: int
  MaxRetries :: int

section \<open>Retrying one compensation\<close>

definition compensation_attempts :: "compensate_config \<Rightarrow> bool \<Rightarrow> int" where
  "compensation_attempts cfg idem = (if idem \<and> MaxRetries cfg > 0 then MaxRetries cfg + 1 else 1)"

text \<open>
  \<open>compensate_loop\<close> runs the attempts that are left, the next one having number \<open>attempt\<close>,
  and returns the error, if any, with the number of calls made.  \<open>intr k\<close> is the context error
  that ends the pause after attempt \<open>k\<close>.
\<close>

fun compensate_loop ::
  "string \<Rightarrow> int \<Rightarrow> (nat \<Rightarrow> gerror option) \<Rightarrow> (nat \<Rightarrow> gerror option) \<Rightarrow> nat \<Rightarrow> nat \<Rightarrow>
     gerror option \<Rightarrow> gerror option \<times> nat" where
  "compensate_loop i maxA call intr attempt 0 lastErr =
     (Some (Errorf ''orchestrate: compensation for node %q failed after %d attempts: %w''
        [AStr i, AInt maxA] lastErr), attempt)"
| "compensate_loop i maxA call intr attempt (Suc left) lastErr =
     (case call attempt of
        None \<Rightarrow> (None, Suc attempt)
      | Some e \<Rightarrow>
          (if left > 0 then
             (case intr attempt of
                Some ce \<Rightarrow> (Some ce, Suc attempt)
              | None \<Rightarrow> compensate_loop i maxA call intr (Suc attempt) left (Some e))
           else compensate_loop i maxA call intr (Suc attempt) left (Some e)))"

definition executeNodeCompensation ::
  "compensate_config \<Rightarrow> string \<Rightarrow> bool \<Rightarrow> (nat \<Rightarrow> gerror option) \<Rightarrow> (nat \<Rightarrow> gerror option) \<Rightarrow>
     gerror option \<times> nat" where
  "executeNodeCompensation cfg i idem call intr =
     (let maxA = compensation_attempts cfg idem
      in compensate_loop i maxA call intr 0 (nat maxA) None)"

lemma compensate_loop_calls:
  "k \<le> snd (compensate_loop i m call intr k left e) \<and> snd (compensate_loop i m call intr k left e) \<le> k + left"
proof (induction left arbitrary: k e)
  case (Suc left)
  have step: "k \<le> snd (compensate_loop i m call intr (Suc k) left e') \<and>
      snd (compensate_loop i m call intr (Suc k) left e') \<le> Suc (k + left)" for e'
    using Suc.IH [of "Suc k" e'] by simp
  show ?case by (simp add: step split: option.splits)
qed simp

text \<open>It succeeds exactly when some attempt does and no pause before it was cut short.\<close>

definition succeeds_by :: "(nat \<Rightarrow> gerror option) \<Rightarrow> (nat \<Rightarrow> gerror option) \<Rightarrow> nat \<Rightarrow> nat \<Rightarrow> bool" where
  "succeeds_by call intr k left \<longleftrightarrow>
     (\<exists>j<left. call (k + j) = None \<and> (\<forall>j'<j. call (k + j') \<noteq> None \<and> intr (k + j') = None))"

lemma succeeds_by_0 [simp]: "\<not> succeeds_by call intr k 0"
  by (simp add: succeeds_by_def)

lemma all_less_Suc_0: "(\<forall>j<Suc n. P j) \<longleftrightarrow> P 0 \<and> (\<forall>j<n. P (Suc j))"
  by (auto simp: less_Suc_eq_0_disj)

lemma ex_less_Suc_0: "(\<exists>j<Suc n. P j) \<longleftrightarrow> P 0 \<or> (\<exists>j<n. P (Suc j))"
  by (auto simp: less_Suc_eq_0_disj)

lemma succeeds_by_Suc:
  "succeeds_by call intr k (Suc left) \<longleftrightarrow>
     call k = None \<or> (intr k = None \<and> succeeds_by call intr (Suc k) left)"
  by (auto simp: succeeds_by_def ex_less_Suc_0 all_less_Suc_0)

lemma compensate_loop_None_iff:
  "fst (compensate_loop i m call intr k left e) = None \<longleftrightarrow> succeeds_by call intr k left"
proof (induction left arbitrary: k e)
  case (Suc left)
  from Suc.IH [of "Suc k"] show ?case
    by (cases left) (simp_all add: succeeds_by_Suc split: option.splits)
qed simp

section \<open>Backward compensation\<close>

definition completed_reverse :: "('q, 'p) node list \<Rightarrow> (string \<Rightarrow> node_status) \<Rightarrow> string list" where
  "completed_reverse nodes status = filter (\<lambda>i. status i = NodeDone) (rev (topologicalSort nodes))"

text \<open>What the loop does with one node: skip it, or compensate it.  The calls of
  \<open>Compensate\<close> are logged with the number of attempts.\<close>

definition compensator ::
  "('q, 'p) node list \<Rightarrow> (string \<Rightarrow> 'p option) \<Rightarrow> string \<Rightarrow> ((nat \<Rightarrow> gerror option) \<times> bool) option" where
  "compensator nodes results i =
     (case index_by ID nodes i of
        None \<Rightarrow> None
      | Some n \<Rightarrow>
          (case Runner n of
             None \<Rightarrow> None
           | Some r \<Rightarrow>
               (case Compensate r of
                  None \<Rightarrow> None
                | Some undo \<Rightarrow>
                    (case results i of
                       None \<Rightarrow> None
                     | Some resp \<Rightarrow> Some (\<lambda>k. undo k resp, Idempotent r)))))"

fun compensate_nodes ::
  "('q, 'p) node list \<Rightarrow> compensate_config \<Rightarrow> (string \<Rightarrow> nat \<Rightarrow> gerror option) \<Rightarrow>
     (string \<Rightarrow> 'p option) \<Rightarrow> string list \<Rightarrow> (string \<Rightarrow> node_status) \<Rightarrow> gerror list \<Rightarrow>
     (string \<times> nat) list \<Rightarrow> (string \<Rightarrow> node_status) \<times> gerror list \<times> (string \<times> nat) list" where
  "compensate_nodes nodes cfg intr results [] status errs calls = (status, errs, calls)"
| "compensate_nodes nodes cfg intr results (i # is) status errs calls =
     (case compensator nodes results i of
        None \<Rightarrow> compensate_nodes nodes cfg intr results is status errs calls
      | Some (call, idem) \<Rightarrow>
          (case executeNodeCompensation cfg i idem call (intr i) of
             (Some e, k) \<Rightarrow>
               compensate_nodes nodes cfg intr results is status
                 (errs @ [Errorf ''node %q: %w'' [AStr i] (Some e)]) (calls @ [(i, k)])
           | (None, k) \<Rightarrow>
               compensate_nodes nodes cfg intr results is (status(i := NodeCompensated))
                 errs (calls @ [(i, k)])))"

definition executeBackwardCompensation ::
  "('q, 'p) node list \<Rightarrow> compensate_config \<Rightarrow> (string \<Rightarrow> nat \<Rightarrow> gerror option) \<Rightarrow>
     (string \<Rightarrow> 'p option) \<Rightarrow> (string \<Rightarrow> node_status) \<Rightarrow>
     gerror option \<times> (string \<Rightarrow> node_status) \<times> (string \<times> nat) list" where
  "executeBackwardCompensation nodes cfg intr results status =
     (case compensate_nodes nodes cfg intr results (completed_reverse nodes status) status [] [] of
        (status', errs, calls) \<Rightarrow>
          (if errs \<noteq> [] then Some (Errorf ''orchestrate: compensation errors: %v'' [AErrs errs] None)
           else None, status', calls))"

section \<open>Forward recovery\<close>

definition recovery_attempts :: "compensate_config \<Rightarrow> int" where
  "recovery_attempts cfg = (if MaxRetries cfg + 1 \<le> 0 then 1 else MaxRetries cfg + 1)"

fun recovery_loop ::
  "string \<Rightarrow> int \<Rightarrow> (nat \<Rightarrow> 'p option res) \<Rightarrow> (nat \<Rightarrow> gerror option) \<Rightarrow> nat \<Rightarrow> nat \<Rightarrow>
     gerror option \<Rightarrow> 'p res" where
  "recovery_loop i maxA run intr attempt 0 lastErr =
     Inl (Errorf ''orchestrate: forward recovery for node %q failed after %d attempts: %w''
        [AStr i, AInt maxA] lastErr)"
| "recovery_loop i maxA run intr attempt (Suc left) lastErr =
     (case run attempt of
        Inr (Some resp) \<Rightarrow> Inr resp
      | Inr None \<Rightarrow>
          (if left > 0 \<and> intr attempt \<noteq> None then Inl (the (intr attempt))
           else recovery_loop i maxA run intr (Suc attempt) left
             (Some (Errorf ''nil response'' [] None)))
      | Inl e \<Rightarrow>
          (if left > 0 \<and> intr attempt \<noteq> None then Inl (the (intr attempt))
           else recovery_loop i maxA run intr (Suc attempt) left (Some e)))"

definition executeForwardRecovery ::
  "compensate_config \<Rightarrow> string \<Rightarrow> (nat \<Rightarrow> 'p option res) \<Rightarrow> (nat \<Rightarrow> gerror option) \<Rightarrow> 'p res" where
  "executeForwardRecovery cfg i run intr =
     recovery_loop i (recovery_attempts cfg) run intr 0 (nat (recovery_attempts cfg)) None"

definition recovers_by ::
  "(nat \<Rightarrow> 'p option res) \<Rightarrow> (nat \<Rightarrow> gerror option) \<Rightarrow> nat \<Rightarrow> nat \<Rightarrow> 'p \<Rightarrow> bool" where
  "recovers_by run intr k left p \<longleftrightarrow>
     (\<exists>j<left. run (k + j) = Inr (Some p) \<and>
        (\<forall>j'<j. (\<forall>p'. run (k + j') \<noteq> Inr (Some p')) \<and> intr (k + j') = None))"

lemma recovers_by_0 [simp]: "\<not> recovers_by run intr k 0 p"
  by (simp add: recovers_by_def)

lemma recovers_by_Suc:
  "recovers_by run intr k (Suc left) p \<longleftrightarrow> run k = Inr (Some p) \<or>
     (\<forall>p'. run k \<noteq> Inr (Some p')) \<and> intr k = None \<and> recovers_by run intr (Suc k) left p"
  by (auto simp: recovers_by_def ex_less_Suc_0 all_less_Suc_0)

lemma recovery_loop_Inr:
  "recovery_loop i m run intr k left e = Inr p \<longleftrightarrow> recovers_by run intr k left p"
proof (induction left arbitrary: k e)
  case (Suc left)
  from Suc.IH [of "Suc k"] show ?case
    by (cases left) (simp_all add: recovers_by_Suc split: sum.splits option.splits)
qed simp

section \<open>Correctness of backward compensation\<close>

definition compensated_by ::
  "('q, 'p) node list \<Rightarrow> compensate_config \<Rightarrow> (string \<Rightarrow> nat \<Rightarrow> gerror option) \<Rightarrow>
     (string \<Rightarrow> 'p option) \<Rightarrow> string \<Rightarrow> bool" where
  "compensated_by nodes cfg intr results i \<longleftrightarrow>
     (case compensator nodes results i of
        None \<Rightarrow> False
      | Some (call, idem) \<Rightarrow> succeeds_by call (intr i) 0 (nat (compensation_attempts cfg idem)))"

definition compensable :: "('q, 'p) node list \<Rightarrow> (string \<Rightarrow> 'p option) \<Rightarrow> string \<Rightarrow> bool" where
  "compensable nodes results i \<longleftrightarrow> compensator nodes results i \<noteq> None"

lemma executeNodeCompensation_None:
  "fst (executeNodeCompensation cfg i idem call intr) = None \<longleftrightarrow>
     succeeds_by call intr 0 (nat (compensation_attempts cfg idem))"
  by (simp add: executeNodeCompensation_def compensate_loop_None_iff Let_def)

lemma compensate_nodes_spec:
  "compensate_nodes nodes cfg intr results is status errs calls = (status', errs', calls') \<Longrightarrow>
     (\<forall>i. status' i = (if i \<in> set is \<and> compensated_by nodes cfg intr results i
                       then NodeCompensated else status i)) \<and>
     map fst calls' = map fst calls @ filter (compensable nodes results) is \<and>
     (errs' = [] \<longleftrightarrow> errs = [] \<and>
        (\<forall>i\<in>set is. compensable nodes results i \<longrightarrow> compensated_by nodes cfg intr results i))"
proof (induction "is" arbitrary: status errs calls)
  case (Cons i js)
  show ?case
  proof (cases "compensator nodes results i")
    case None
    with Cons.prems have "compensate_nodes nodes cfg intr results js status errs calls = (status', errs', calls')"
      by simp
    from Cons.IH [OF this] None show ?thesis
      by (auto simp: compensable_def compensated_by_def)
  next
    case (Some ci)
    obtain call idem where ci: "ci = (call, idem)" by (cases ci)
    obtain r k where rk: "executeNodeCompensation cfg i idem call (intr i) = (r, k)" by fastforce
    have ok: "r = None \<longleftrightarrow> compensated_by nodes cfg intr results i"
      using executeNodeCompensation_None [of cfg i idem call "intr i"] rk Some ci
      by (simp add: compensated_by_def)
    have able: "compensable nodes results i" using Some by (simp add: compensable_def)
    show ?thesis
    proof (cases r)
      case None
      with Cons.prems Some ci rk
      have "compensate_nodes nodes cfg intr results js (status(i := NodeCompensated)) errs (calls @ [(i, k)])
          = (status', errs', calls')" by simp
      from Cons.IH [OF this] None ok able show ?thesis by auto
    next
      case (Some e)
      with Cons.prems \<open>compensator nodes results i = Some ci\<close> ci rk
      have "compensate_nodes nodes cfg intr results js status
          (errs @ [Errorf ''node %q: %w'' [AStr i] (Some e)]) (calls @ [(i, k)])
          = (status', errs', calls')" by simp
      from Cons.IH [OF this] Some ok able show ?thesis by auto
    qed
  qed
qed simp

text \<open>Every node is compensated before the nodes it depends on.\<close>

definition before_in :: "string list \<Rightarrow> string \<Rightarrow> string \<Rightarrow> bool" where
  "before_in xs a b \<longleftrightarrow> (\<exists>us vs ws. xs = us @ a # vs @ b # ws)"

lemma before_in_filter:
  assumes "before_in xs a b" "P a" "P b"
  shows "before_in (filter P xs) a b"
proof -
  obtain us vs ws where "xs = us @ a # vs @ b # ws" using assms(1) by (auto simp: before_in_def)
  then have "filter P xs = filter P us @ a # filter P vs @ b # filter P ws" using assms by simp
  then show ?thesis unfolding before_in_def by blast
qed

lemma before_in_rev: "before_in xs a b \<Longrightarrow> before_in (rev xs) b a"
proof -
  assume "before_in xs a b"
  then obtain us vs ws where "xs = us @ a # vs @ b # ws" by (auto simp: before_in_def)
  then have "rev xs = rev ws @ b # rev vs @ a # rev us" by simp
  then show ?thesis unfolding before_in_def by blast
qed

lemma topological_before:
  assumes "set order = ID ` set nodes" "deps_before nodes order"
    and "n \<in> set nodes" "d \<in> set (Deps n)"
  shows "before_in order d (ID n)"
proof -
  from assms(1,3) obtain i where i: "i < length order" "order ! i = ID n"
    by (metis image_eqI in_set_conv_nth)
  with assms have "d \<in> set (take i order)" by (auto simp: deps_before_def)
  then obtain us vs where "take i order = us @ d # vs" by (auto simp: in_set_conv_decomp)
  then have "order = us @ d # vs @ ID n # drop (Suc i) order"
    using i id_take_nth_drop [OF i(1)] by simp
  then show ?thesis unfolding before_in_def by blast
qed

lemma executeBackwardCompensation_spec:
  assumes "executeBackwardCompensation nodes cfg intr results status = (err, status', calls)"
  shows "status' i = (if i \<in> set (topologicalSort nodes) \<and> status i = NodeDone \<and>
        compensated_by nodes cfg intr results i then NodeCompensated else status i)"
    and "map fst calls = filter (\<lambda>i. status i = NodeDone \<and> compensable nodes results i) (rev (topologicalSort nodes))"
    and "err = None \<longleftrightarrow> (\<forall>i\<in>set (topologicalSort nodes). status i = NodeDone \<longrightarrow>
        compensable nodes results i \<longrightarrow> compensated_by nodes cfg intr results i)"
proof -
  obtain errs where run: "compensate_nodes nodes cfg intr results (completed_reverse nodes status) status [] []
      = (status', errs, calls)" and err: "err = None \<longleftrightarrow> errs = []"
    using assms by (auto simp: executeBackwardCompensation_def split: prod.splits if_splits)
  note S = compensate_nodes_spec [OF run]
  show "status' i = (if i \<in> set (topologicalSort nodes) \<and> status i = NodeDone \<and>
      compensated_by nodes cfg intr results i then NodeCompensated else status i)"
    using S by (simp add: completed_reverse_def)
  show "map fst calls = filter (\<lambda>i. status i = NodeDone \<and> compensable nodes results i) (rev (topologicalSort nodes))"
    using S by (simp add: completed_reverse_def conj_commute)
  show "err = None \<longleftrightarrow> (\<forall>i\<in>set (topologicalSort nodes). status i = NodeDone \<longrightarrow>
      compensable nodes results i \<longrightarrow> compensated_by nodes cfg intr results i)"
    using S by (auto simp: err completed_reverse_def)
qed

text \<open>A node's rollback is attempted before the rollback of anything it depends on.\<close>

lemma compensation_order:
  assumes "valid_dag nodes"
    and "executeBackwardCompensation nodes cfg intr results status = (err, status', calls)"
    and "n \<in> set nodes" "d \<in> set (Deps n)"
    and "status (ID n) = NodeDone" "compensable nodes results (ID n)"
    and "status d = NodeDone" "compensable nodes results d"
  shows "before_in (map fst calls) (ID n) d"
proof -
  have v: "distinct (map ID nodes)" "known_deps nodes" "acyclic (dep_edges nodes)"
    using assms(1) by (auto simp: valid_dag_def)
  note T = topologicalSort_spec [OF v]
  have "before_in (rev (topologicalSort nodes)) (ID n) d"
    by (intro before_in_rev topological_before [OF T(2,3) assms(3,4)])
  then show ?thesis
    unfolding executeBackwardCompensation_spec(2) [OF assms(2)] using assms(5-8)
    by (intro before_in_filter) auto
qed


text \<open>A chain of two completed nodes; undoing the first one succeeds at the second attempt.\<close>

definition undo_chain :: "(unit, unit) node list" where
  "undo_chain =
     [(bare_node ''a'' [])\<lparr>Runner := Some \<lparr>Run = \<lambda>_ _. Inr (Some ()),
        Compensate = Some (\<lambda>k _. if k = 0 then Some (External ''busy'') else None), Idempotent = True\<rparr>\<rparr>,
      (bare_node ''b'' [''a''])\<lparr>Runner := Some \<lparr>Run = \<lambda>_ _. Inr (Some ()),
        Compensate = Some (\<lambda>_ _. None), Idempotent = False\<rparr>\<rparr>]"

definition undo_config :: compensate_config where
  "undo_config = \<lparr>Strategy = BackwardCompensate, CompTimeout = 0, MaxRetries = 2\<rparr>"

definition undo_outcome :: "gerror option \<times> (string \<Rightarrow> node_status) \<times> (string \<times> nat) list" where
  "undo_outcome = executeBackwardCompensation undo_chain undo_config (\<lambda>_ _. None) (\<lambda>_. Some ())
     (\<lambda>_. NodeDone)"


end
