(* ===== verification/CriticalPath.thy ===== *)
theory CriticalPath
  imports Topo
begin

text \<open>
  \<open>ComputeCriticalPath\<close> of \<open>priority.go\<close>: earliest and latest start times in unit weights.
  The priority it assigns to a node is the number of nodes on the longest dependency chain
  that runs through it.
\<close>

section \<open>The forward and the backward pass\<close>

definition unit_weight :: "('q, 'p) node list \<Rightarrow> string \<Rightarrow> int" where
  "unit_weight nodes = fold (\<lambda>n w. w(ID n := 1)) nodes (\<lambda>_. 0)"

definition max_est :: "(string \<Rightarrow> int) \<Rightarrow> (string \<Rightarrow> int) \<Rightarrow> string list \<Rightarrow> int" where
  "max_est est weight ds =
     foldl (\<lambda>m dep. if est dep + weight dep > m then est dep + weight dep else m) 0 ds"

text \<open>An identifier of the order that names no node would be a nil dereference; the order holds
  node identifiers only.\<close>

definition forward_pass ::
  "('q, 'p) node list \<Rightarrow> (string \<Rightarrow> int) \<Rightarrow> string list \<Rightarrow> (string \<Rightarrow> int)" where
  "forward_pass nodes weight order =
     foldl (\<lambda>est i. case index_by ID nodes i of
         Some n \<Rightarrow> est(i := max_est est weight (Deps n))
       | None \<Rightarrow> est) (\<lambda>_. 0) order"

definition project_end :: "(string \<Rightarrow> int) \<Rightarrow> (string \<Rightarrow> int) \<Rightarrow> string list \<Rightarrow> int" where
  "project_end est weight order =
     foldl (\<lambda>m i. if est i + weight i > m then est i + weight i else m) 0 order"

definition initial_lst :: "('q, 'p) node list \<Rightarrow> (string \<Rightarrow> int) \<Rightarrow> int \<Rightarrow> string \<Rightarrow> int" where
  "initial_lst nodes weight pe = fold (\<lambda>n l. l(ID n := pe - weight (ID n))) nodes (\<lambda>_. 0)"

definition min_lst :: "(string \<Rightarrow> int) \<Rightarrow> int \<Rightarrow> string list \<Rightarrow> int" where
  "min_lst lst pe ds = foldl (\<lambda>m d. if lst d < m then lst d else m) pe ds"

definition backward_pass ::
  "('q, 'p) node list \<Rightarrow> (string \<Rightarrow> int) \<Rightarrow> int \<Rightarrow> string list \<Rightarrow> (string \<Rightarrow> int)" where
  "backward_pass nodes weight pe order =
     foldl (\<lambda>lst i. if downstream nodes i = [] then lst(i := pe - weight i)
                     else lst(i := min_lst lst pe (downstream nodes i) - weight i))
       (initial_lst nodes weight pe) (rev order)"

definition ComputeCriticalPath :: "('q, 'p) node list \<Rightarrow> string \<Rightarrow> int" where
  "ComputeCriticalPath nodes =
     (let order = topologicalSort nodes;
          weight = unit_weight nodes;
          est = forward_pass nodes weight order;
          pe = project_end est weight order;
          lst = backward_pass nodes weight pe order
      in fold (\<lambda>n p. p(ID n := pe - (lst (ID n) - est (ID n)))) nodes (\<lambda>_. 0))"

section \<open>Folds that take a maximum or a minimum\<close>

lemma foldl_max:
  "foldl (\<lambda>m i. if f i > m then f i else m) a is = Max (insert a (f ` set is))" for f :: "'a \<Rightarrow> int"
proof (induction "is" arbitrary: a)
  case (Cons i js)
  have eq: "insert a (insert (f i) (f ` set js)) = insert (if f i > a then f i else a) (f ` set js) \<union> {min a (f i)}"
    by auto
  have "Max (insert a (insert (f i) (f ` set js))) = Max (insert (if f i > a then f i else a) (f ` set js))"
  proof (cases "f ` set js = {}")
    case False
    then show ?thesis by (simp add: max_def)
  qed simp
  with Cons show ?case by simp
qed simp

lemma foldl_min:
  "foldl (\<lambda>m i. if f i < m then f i else m) a is = Min (insert a (f ` set is))" for f :: "'a \<Rightarrow> int"
proof (induction "is" arbitrary: a)
  case (Cons i js)
  have c: "(if f i < a then f i else a) = min a (f i)" by (simp add: min_def)
  have "Min (insert a (insert (f i) (f ` set js))) = Min (insert (min a (f i)) (f ` set js))"
    by (cases "f ` set js = {}") (simp_all add: min.assoc)
  with Cons show ?case by (simp add: c)
qed simp

lemma fold_upd_index:
  "fold (\<lambda>n p. p(ID n := f (ID n))) nodes p0 v = (if v \<in> ID ` set nodes then f v else p0 v)"
  by (induction nodes arbitrary: p0) auto

lemma unit_weight: "unit_weight nodes v = (if v \<in> ID ` set nodes then 1 else 0)"
  using fold_upd_index [of "\<lambda>_. 1" nodes "\<lambda>_. 0" v] by (simp add: unit_weight_def)

section \<open>Chains of dependencies\<close>

text \<open>A chain lists nodes each of which is a dependency of the next.\<close>

definition dep_chain :: "('q, 'p) node list \<Rightarrow> string list \<Rightarrow> bool" where
  "dep_chain nodes vs \<longleftrightarrow>
     set vs \<subseteq> ID ` set nodes \<and> successively (\<lambda>a b. b \<in> set (downstream nodes a)) vs"

lemma dep_chain_append:
  "dep_chain nodes (us @ v # vs) \<longleftrightarrow> dep_chain nodes (us @ [v]) \<and> dep_chain nodes (v # vs)"
  by (auto simp: dep_chain_def successively_append_iff)

text \<open>\<open>longest P k\<close>: the greatest length of a list with \<open>P\<close> is \<open>k\<close>.\<close>

definition longest :: "('a list \<Rightarrow> bool) \<Rightarrow> int \<Rightarrow> bool" where
  "longest P k \<longleftrightarrow> (\<exists>xs. P xs \<and> int (length xs) = k) \<and> (\<forall>xs. P xs \<longrightarrow> int (length xs) \<le> k)"

definition ends_at :: "('q, 'p) node list \<Rightarrow> string \<Rightarrow> string list \<Rightarrow> bool" where
  "ends_at nodes v us \<longleftrightarrow> dep_chain nodes (us @ [v])"

definition starts_at :: "('q, 'p) node list \<Rightarrow> string \<Rightarrow> string list \<Rightarrow> bool" where
  "starts_at nodes v vs \<longleftrightarrow> dep_chain nodes (v # vs)"

definition through :: "('q, 'p) node list \<Rightarrow> string \<Rightarrow> string list \<Rightarrow> bool" where
  "through nodes v vs \<longleftrightarrow> dep_chain nodes vs \<and> v \<in> set vs"

lemma longest_through:
  assumes "longest (ends_at nodes v) a" "longest (starts_at nodes v) b"
  shows "longest (through nodes v) (a + 1 + b)"
  unfolding longest_def
proof (intro conjI allI impI)
  obtain us vs where u: "ends_at nodes v us" "int (length us) = a"
    and w: "starts_at nodes v vs" "int (length vs) = b"
    using assms by (auto simp: longest_def)
  then have "through nodes v (us @ v # vs)"
    by (simp add: through_def ends_at_def starts_at_def dep_chain_append [of _ us v vs])
  then show "\<exists>xs. through nodes v xs \<and> int (length xs) = a + 1 + b"
    using u w by (intro exI [of _ "us @ v # vs"]) simp
next
  fix xs assume t: "through nodes v xs"
  then obtain us vs where xs: "xs = us @ v # vs" by (auto simp: through_def in_set_conv_decomp)
  with t have "ends_at nodes v us" "starts_at nodes v vs"
    by (simp_all add: through_def ends_at_def starts_at_def dep_chain_append [of _ us v vs])
  with assms have "int (length us) \<le> a" "int (length vs) \<le> b" by (auto simp: longest_def)
  then show "int (length xs) \<le> a + 1 + b" by (simp add: xs)
qed

text \<open>A longest list is found by growing the longest lists of the neighbours.\<close>

lemma longest_grow:
  assumes fin: "finite S" and nil: "P []"
    and grow: "\<And>xs. xs \<noteq> [] \<Longrightarrow> P xs \<longleftrightarrow> (\<exists>u\<in>S. \<exists>ys. xs = g u ys \<and> Q u ys)"
    and len: "\<And>u ys. length (g u ys) = Suc (length ys)"
    and l: "\<And>u. u \<in> S \<Longrightarrow> longest (Q u) (e u)"
  shows "longest P (Max (insert 0 ((\<lambda>u. e u + 1) ` S)))"
  unfolding longest_def
proof (intro conjI allI impI)
  let ?M = "insert 0 ((\<lambda>u. e u + 1) ` S)"
  have "Max ?M \<in> ?M" using fin by (intro Max_in) auto
  then consider "Max ?M = 0" | u where "u \<in> S" "Max ?M = e u + 1" by auto
  then show "\<exists>xs. P xs \<and> int (length xs) = Max ?M"
  proof cases
    case 1
    with nil show ?thesis by (intro exI [of _ "[]"]) simp
  next
    case 2
    then obtain ys where "Q u ys" "int (length ys) = e u" using l by (auto simp: longest_def)
    moreover have "g u ys \<noteq> []" using len [of u ys] by auto
    ultimately have "P (g u ys)" "int (length (g u ys)) = Max ?M"
      using grow [of "g u ys"] 2 len [of u ys] by auto
    then show ?thesis by blast
  qed
next
  let ?M = "insert 0 ((\<lambda>u. e u + 1) ` S)"
  fix xs assume P: "P xs"
  show "int (length xs) \<le> Max ?M"
  proof (cases "xs = []")
    case True
    then show ?thesis using fin by simp
  next
    case False
    with P grow obtain u ys where u: "u \<in> S" "xs = g u ys" "Q u ys" by blast
    then have "int (length xs) \<le> e u + 1" using l [OF u(1)] len [of u ys] by (auto simp: longest_def)
    also have "\<dots> \<le> Max ?M" using fin u(1) by (intro Max_ge) auto
    finally show ?thesis .
  qed
qed

lemma longest_nonneg: "longest P k \<Longrightarrow> 0 \<le> k"
  by (auto simp: longest_def)

lemma ends_at_grow:
  assumes d: "distinct (map ID nodes)" and n: "n \<in> set nodes" and us: "us \<noteq> []" and k: "known_deps nodes"
  shows "ends_at nodes (ID n) us \<longleftrightarrow>
    (\<exists>u\<in>set (Deps n). \<exists>us'. us = us' @ [u] \<and> ends_at nodes u us')"
proof -
  obtain us' u where eq: "us = us' @ [u]" using us by (metis rev_exhaust)
  have "ID n \<in> set (downstream nodes u) \<longleftrightarrow> u \<in> set (Deps n)"
    using count_downstream [OF d n, of u] by (metis count_list_0_iff)
  moreover have "u \<in> set (Deps n) \<Longrightarrow> u \<in> ID ` set nodes" using k n by (auto simp: known_deps_def)
  ultimately show ?thesis
    using n by (auto simp: eq ends_at_def dep_chain_def successively_append_iff)
qed

lemma starts_at_grow:
  assumes "v \<in> ID ` set nodes" "vs \<noteq> []"
  shows "starts_at nodes v vs \<longleftrightarrow>
    (\<exists>u\<in>set (downstream nodes v). \<exists>vs'. vs = u # vs' \<and> starts_at nodes u vs')"
proof -
  obtain u vs' where "vs = u # vs'" using assms(2) by (cases vs) auto
  with assms(1) set_downstream_ids [of nodes v] show ?thesis
    by (auto simp: starts_at_def dep_chain_def)
qed

section \<open>What the passes compute\<close>

lemma forward_pass_longest:
  assumes d: "distinct (map ID nodes)" and k: "known_deps nodes"
  shows "distinct order \<Longrightarrow> set order \<subseteq> ID ` set nodes \<Longrightarrow> deps_before nodes order \<Longrightarrow>
    v \<in> set order \<Longrightarrow> longest (ends_at nodes v) (forward_pass nodes (unit_weight nodes) order v)"
proof (induction order arbitrary: v rule: rev_induct)
  case (snoc i order)
  let ?est = "forward_pass nodes (unit_weight nodes) order"
  obtain n where n: "n \<in> set nodes" "ID n = i" using snoc.prems(2) by auto
  then have idx: "index_by ID nodes i = Some n" using index_by_Some [OF d] by auto
  have ds: "set (Deps n) \<subseteq> set order" and db: "deps_before nodes order"
    using snoc.prems(3) n by (auto simp: deps_before_snoc)
  note IH = snoc.IH [OF _ _ db]
  have step: "forward_pass nodes (unit_weight nodes) (order @ [i]) =
      ?est(i := max_est ?est (unit_weight nodes) (Deps n))"
    by (simp add: forward_pass_def idx)
  have w: "(\<lambda>u. ?est u + unit_weight nodes u) ` set (Deps n) = (\<lambda>u. ?est u + 1) ` set (Deps n)"
    using ds snoc.prems(2) by (intro image_cong) (auto simp: unit_weight)
  show ?case
  proof (cases "v = i")
    case True
    have "longest (ends_at nodes (ID n)) (Max (insert 0 ((\<lambda>u. ?est u + 1) ` set (Deps n))))"
    proof (rule longest_grow [where g = "\<lambda>u us'. us' @ [u]" and Q = "ends_at nodes"])
      show "ends_at nodes (ID n) []" using n by (auto simp: ends_at_def dep_chain_def)
      show "longest (ends_at nodes u) (?est u)" if "u \<in> set (Deps n)" for u
        using IH [of u] that ds snoc.prems(1,2) by auto
    qed (use ends_at_grow [OF d n(1) _ k] in auto)
    then show ?thesis using True n by (simp add: step max_est_def foldl_max w)
  next
    case False
    with snoc.prems IH [of v] show ?thesis by (simp add: step)
  qed
qed simp

definition succs_after :: "('q, 'p) node list \<Rightarrow> string list \<Rightarrow> bool" where
  "succs_after nodes order \<longleftrightarrow>
     (\<forall>pre i post. order = pre @ i # post \<longrightarrow> set (downstream nodes i) \<subseteq> set post)"

lemma succs_after_Cons:
  "succs_after nodes (i # order) \<Longrightarrow> succs_after nodes order \<and> set (downstream nodes i) \<subseteq> set order"
  unfolding succs_after_def by (metis append_Cons append_Nil)

lemma topological_succs_after:
  assumes "distinct order" "set order = ID ` set nodes" "deps_before nodes order"
  shows "succs_after nodes order"
  unfolding succs_after_def
proof (intro allI impI subsetI)
  fix pre i post d assume order: "order = pre @ i # post" and "d \<in> set (downstream nodes i)"
  then obtain n where n: "n \<in> set nodes" "d = ID n" "i \<in> set (Deps n)" by (auto simp: set_downstream)
  then have "d \<in> set order" using assms(2) by auto
  then obtain j where j: "j < length order" "order ! j = d" by (auto simp: in_set_conv_nth)
  with n assms(3) have "i \<in> set (take j order)" by (auto simp: deps_before_def)
  then have "length pre < j" using assms(1) by (auto simp: order in_set_conv_nth nth_append nth_Cons split: if_splits nat.splits)
  then have "order ! j = post ! (j - Suc (length pre))" "j - Suc (length pre) < length post"
    using j by (auto simp: order nth_append)
  with j show "d \<in> set post" by auto
qed

lemma backward_pass_longest:
  assumes d: "distinct (map ID nodes)"
  shows "distinct order \<Longrightarrow> set order \<subseteq> ID ` set nodes \<Longrightarrow> succs_after nodes order \<Longrightarrow>
    v \<in> set order \<Longrightarrow>
    longest (starts_at nodes v) (pe - 1 - backward_pass nodes (unit_weight nodes) pe order v)"
proof (induction order arbitrary: v)
  case (Cons i order)
  let ?lst = "backward_pass nodes (unit_weight nodes) pe order" and ?D = "downstream nodes i"
  have after: "set ?D \<subseteq> set order" and sa: "succs_after nodes order"
    using succs_after_Cons [OF Cons.prems(3)] by auto
  have IH: "longest (starts_at nodes u) (pe - 1 - ?lst u)" if "u \<in> set order" for u
    using Cons.IH [OF _ _ sa that] Cons.prems by simp
  have wi: "unit_weight nodes i = 1" using Cons.prems(2) by (simp add: unit_weight)
  have step: "backward_pass nodes (unit_weight nodes) pe (i # order) =
      ?lst(i := (if ?D = [] then pe else min_lst ?lst pe ?D) - 1)"
    by (simp add: backward_pass_def wi)
  show ?case
  proof (cases "v = i")
    case True
    have "longest (starts_at nodes i) (Max (insert 0 ((\<lambda>u. pe - 1 - ?lst u + 1) ` set ?D)))"
    proof (rule longest_grow [where g = "\<lambda>u vs'. u # vs'" and Q = "starts_at nodes"])
      show "starts_at nodes i []" using Cons.prems(2) by (auto simp: starts_at_def dep_chain_def)
      show "longest (starts_at nodes u) (pe - 1 - ?lst u)" if "u \<in> set ?D" for u
        using IH that after by auto
    qed (use starts_at_grow [of i nodes] Cons.prems(2) in auto)
    moreover have "Max (insert 0 ((\<lambda>u. pe - 1 - ?lst u + 1) ` set ?D)) =
        pe - 1 - ((if ?D = [] then pe else min_lst ?lst pe ?D) - 1)"
    proof (cases "?D = []")
      case False
      let ?M = "Min (insert pe (?lst ` set ?D))"
      have le: "?lst u < pe" if "u \<in> set ?D" for u
        using longest_nonneg [OF IH, of u] that after by auto
      have "?M \<in> insert pe (?lst ` set ?D)" by (intro Min_in) auto
      moreover have lo: "?M \<le> ?lst u" if "u \<in> set ?D" for u using that by (intro Min_le) auto
      moreover obtain u0 where "u0 \<in> set ?D" using False by (cases ?D) auto
      ultimately obtain u where u: "u \<in> set ?D" "?M = ?lst u" using le by fastforce
      have "Max (insert 0 ((\<lambda>u. pe - 1 - ?lst u + 1) ` set ?D)) = pe - ?M"
      proof (rule Max_eqI)
        show "pe - ?M \<in> insert 0 ((\<lambda>u. pe - 1 - ?lst u + 1) ` set ?D)" using u by auto
        show "y \<le> pe - ?M" if "y \<in> insert 0 ((\<lambda>u. pe - 1 - ?lst u + 1) ` set ?D)" for y
          using that lo le [OF u(1)] u(2) by auto
      qed simp
      then show ?thesis using False by (simp add: min_lst_def foldl_min)
    qed simp
    ultimately show ?thesis using True by (simp add: step)
  next
    case False
    with Cons.prems IH [of v] show ?thesis by (simp add: step)
  qed
qed simp

lemma ComputeCriticalPath_longest:
  assumes d: "distinct (map ID nodes)" and k: "known_deps nodes" and a: "acyclic (dep_edges nodes)"
    and n: "n \<in> set nodes"
  shows "longest (through nodes (ID n)) (ComputeCriticalPath nodes (ID n))"
proof -
  define order where "order = topologicalSort nodes"
  note T = topologicalSort_spec [OF d k a, folded order_def]
  define est where "est = forward_pass nodes (unit_weight nodes) order"
  define pe where "pe = project_end est (unit_weight nodes) order"
  define lst where "lst = backward_pass nodes (unit_weight nodes) pe order"
  have v: "ID n \<in> set order" using n T(2) by auto
  have e: "longest (ends_at nodes (ID n)) (est (ID n))"
    unfolding est_def using forward_pass_longest [OF d k T(1) _ T(3) v] T(2) by simp
  have l: "longest (starts_at nodes (ID n)) (pe - 1 - lst (ID n))"
    unfolding lst_def using backward_pass_longest [OF d T(1) _ topological_succs_after [OF T] v] T(2) by simp
  have "ComputeCriticalPath nodes (ID n) = pe - (lst (ID n) - est (ID n))"
    using n fold_upd_index [of "\<lambda>v. pe - (lst v - est v)" nodes "\<lambda>_. 0" "ID n"]
    by (simp add: ComputeCriticalPath_def Let_def order_def est_def pe_def lst_def)
  moreover have "pe - (lst (ID n) - est (ID n)) = est (ID n) + 1 + (pe - 1 - lst (ID n))" by simp
  ultimately show ?thesis using longest_through [OF e l] by simp
qed

text \<open>
  C7: the critical-path value of a node of a valid graph is the number of nodes on a longest chain
  of dependencies through it: some chain through the node has that many nodes and none has more.
\<close>

theorem critical_path_longest_chain:
  assumes "ValidateDAG nodes = None" and "n \<in> set nodes"
  shows "longest (through nodes (ID n)) (ComputeCriticalPath nodes (ID n))"
  using assms ComputeCriticalPath_longest [of nodes n] by (simp add: ValidateDAG_None_iff valid_dag_def)

theorem critical_path_longest_chain_witness:
  "ComputeCriticalPath diamond ''b'' = 3 \<and> longest (through diamond ''b'') 3"
proof -
  have "ValidateDAG diamond = None" by code_simp
  moreover have "ComputeCriticalPath diamond ''b'' = 3" by code_simp
  moreover have "bare_node ''b'' [''a''] \<in> set diamond" by (simp add: diamond_def)
  ultimately show ?thesis using critical_path_longest_chain [of diamond "bare_node ''b'' [''a'']"] by simp
qed

end
