(* ===== verification/PrioQueue.thy ===== *)
theory PrioQueue
  imports Prelude "HOL-Library.Product_Lexorder"
begin

text \<open>
  The ready queue of \<open>priority.go\<close>: a slice of items kept as a binary heap by Go's
  \<open>container/heap\<close>, ordered by descending priority and, for equal priorities, by insertion.
  The interface \<open>stable_pqueue\<close> states what the executor relies on; the heap is shown to
  implement it, that is, to refine a list kept in order of priority and arrival.
\<close>

section \<open>The interface\<close>

text \<open>
  The abstract queue is the list of waiting node identifiers with their priorities, the next
  one to run first.  A new element goes behind all elements of at least its priority.
\<close>

definition enqueue_stable :: "string \<Rightarrow> int \<Rightarrow> (string \<times> int) list \<Rightarrow> (string \<times> int) list" where
  "enqueue_stable i p L =
     takeWhile (\<lambda>(_, p'). p' \<ge> p) L @ (i, p) # dropWhile (\<lambda>(_, p'). p' \<ge> p) L"

lemma mset_enqueue_stable: "mset (enqueue_stable i p L) = add_mset (i, p) (mset L)"
proof -
  have "mset L = mset (takeWhile (\<lambda>(_, p'). p' \<ge> p) L) + mset (dropWhile (\<lambda>(_, p'). p' \<ge> p) L)"
    by (metis mset_append takeWhile_dropWhile_id)
  then show ?thesis by (simp add: enqueue_stable_def)
qed

locale stable_pqueue =
  fixes push :: "'q \<Rightarrow> string \<Rightarrow> int \<Rightarrow> 'q"
    and pop :: "'q \<Rightarrow> string \<times> 'q"
    and is_empty :: "'q \<Rightarrow> bool"
    and invar :: "'q \<Rightarrow> bool"
    and waiting :: "'q \<Rightarrow> (string \<times> int) list"
  assumes invar_push: "invar q \<Longrightarrow> invar (push q i p)"
    and waiting_push: "invar q \<Longrightarrow> waiting (push q i p) = enqueue_stable i p (waiting q)"
    and invar_pop: "invar q \<Longrightarrow> waiting q \<noteq> [] \<Longrightarrow> invar (snd (pop q))"
    and waiting_pop: "invar q \<Longrightarrow> waiting q \<noteq> [] \<Longrightarrow>
      waiting q = (fst (pop q), snd (hd (waiting q))) # waiting (snd (pop q))"
    and is_empty_iff: "invar q \<Longrightarrow> is_empty q \<longleftrightarrow> waiting q = []"
begin

definition ids :: "'q \<Rightarrow> string multiset" where
  "ids q = mset (map fst (waiting q))"

lemma ids_push: "invar q \<Longrightarrow> ids (push q i p) = add_mset i (ids q)"
  by (simp add: ids_def waiting_push mset_map mset_enqueue_stable)

lemma ids_pop:
  assumes "invar q" "\<not> is_empty q"
  shows "ids q = add_mset (fst (pop q)) (ids (snd (pop q)))"
proof -
  have "waiting q \<noteq> []" using assms by (simp add: is_empty_iff)
  from waiting_pop [OF assms(1) this] show ?thesis unfolding ids_def
    by (metis fst_conv list.simps(9) mset.simps(2))
qed

lemma ids_empty_iff: "invar q \<Longrightarrow> ids q = {#} \<longleftrightarrow> is_empty q"
  by (simp add: ids_def is_empty_iff)

end

section \<open>Items and their order\<close>

record pitem =
  pi_nodeID :: string
  pi_priority :: int
  pi_index :: int
  pi_order :: int

record pqueue =
  items :: "pitem list"
  pq_seq :: int

definition newPriorityQueue :: pqueue where
  "newPriorityQueue = \<lparr>items = [], pq_seq = 0\<rparr>"

definition item_less :: "pitem \<Rightarrow> pitem \<Rightarrow> bool" where
  "item_less a b =
     (if pi_priority a \<noteq> pi_priority b then pi_priority a > pi_priority b
      else pi_order a < pi_order b)"

definition pq_Less :: "pitem list \<Rightarrow> nat \<Rightarrow> nat \<Rightarrow> bool" where
  "pq_Less xs i j = item_less (xs ! i) (xs ! j)"

definition pq_Swap :: "pitem list \<Rightarrow> nat \<Rightarrow> nat \<Rightarrow> pitem list" where
  "pq_Swap xs i j =
     (let ys = xs[i := xs ! j, j := xs ! i];
          zs = ys[i := (ys ! i)\<lparr>pi_index := int i\<rparr>]
      in zs[j := (zs ! j)\<lparr>pi_index := int j\<rparr>])"

text \<open>The key by which items are ordered: smaller keys leave the queue first.\<close>

definition item_key :: "pitem \<Rightarrow> int \<times> int" where
  "item_key a = (- pi_priority a, pi_order a)"

lemma item_less_key: "item_less a b \<longleftrightarrow> item_key a < item_key b"
  by (auto simp: item_less_def item_key_def)

section \<open>Sifting, as in \<open>container/heap\<close>\<close>

function heap_up :: "pitem list \<Rightarrow> nat \<Rightarrow> pitem list" where
  "heap_up xs j =
     (let i = (j - 1) div 2 in
      if i = j \<or> \<not> pq_Less xs j i then xs else heap_up (pq_Swap xs i j) i)"
  by pat_completeness auto
termination
  by (relation "measure snd") auto

function heap_down :: "pitem list \<Rightarrow> nat \<Rightarrow> nat \<Rightarrow> pitem list" where
  "heap_down xs i n =
     (let j1 = 2 * i + 1 in
      if j1 \<ge> n then xs
      else let j = (if j1 + 1 < n \<and> pq_Less xs (j1 + 1) j1 then j1 + 1 else j1) in
        if \<not> pq_Less xs j i then xs else heap_down (pq_Swap xs i j) j n)"
  by pat_completeness auto
termination
  by (relation "measure (\<lambda>(xs, i, n). n - i)") (auto split: if_splits)

declare heap_up.simps [simp del] heap_down.simps [simp del]

text \<open>\<open>push\<close>: \<open>Push\<close> fills in index and order and appends; then the item is sifted up.\<close>

definition pq_push :: "pqueue \<Rightarrow> string \<Rightarrow> int \<Rightarrow> pqueue" where
  "pq_push q i p =
     (let item = \<lparr>pi_nodeID = i, pi_priority = p, pi_index = int (length (items q)),
                   pi_order = pq_seq q\<rparr>;
          xs = items q @ [item]
      in \<lparr>items = heap_up xs (length xs - 1), pq_seq = pq_seq q + 1\<rparr>)"

text \<open>\<open>pop\<close>: the first and last items are exchanged, the new first one is sifted down in the
  shortened slice, and \<open>Pop\<close> takes the last one off.\<close>

definition pq_pop :: "pqueue \<Rightarrow> string \<times> pqueue" where
  "pq_pop q =
     (let n = length (items q) - 1;
          xs = heap_down (pq_Swap (items q) 0 n) 0 n
      in (pi_nodeID (xs ! n), q\<lparr>items := take n xs\<rparr>))"

definition pq_empty :: "pqueue \<Rightarrow> bool" where
  "pq_empty q \<longleftrightarrow> length (items q) = 0"

section \<open>Facts about exchanging\<close>

definition strip :: "pitem \<Rightarrow> string \<times> int \<times> int" where
  "strip a = (pi_nodeID a, pi_priority a, pi_order a)"

lemma length_pq_Swap [simp]: "length (pq_Swap xs i j) = length xs"
  by (simp add: pq_Swap_def Let_def)

lemma strip_index [simp]: "strip (a\<lparr>pi_index := k\<rparr>) = strip a"
  by (simp add: strip_def)

lemma item_key_index [simp]: "item_key (a\<lparr>pi_index := k\<rparr>) = item_key a"
  by (simp add: item_key_def)

lemma strip_pq_Swap:
  assumes "i < length xs" "j < length xs"
  shows "map strip (pq_Swap xs i j) = (map strip xs)[i := strip (xs ! j), j := strip (xs ! i)]"
  using assms
  by (intro nth_equalityI) (auto simp: pq_Swap_def Let_def nth_list_update)

lemma mset_pq_Swap:
  assumes "i < length xs" "j < length xs"
  shows "mset (map strip (pq_Swap xs i j)) = mset (map strip xs)"
  using assms mset_swap [of j "map strip xs" i] by (simp add: strip_pq_Swap)

lemma key_pq_Swap:
  assumes "i < length xs" "j < length xs" "k < length xs"
  shows "item_key (pq_Swap xs i j ! k) =
    (if k = j then item_key (xs ! i) else if k = i then item_key (xs ! j) else item_key (xs ! k))"
  using assms by (auto simp: pq_Swap_def Let_def nth_list_update)

lemma nth_pq_Swap_other:
  "k \<noteq> i \<Longrightarrow> k \<noteq> j \<Longrightarrow> pq_Swap xs i j ! k = xs ! k"
  by (simp add: pq_Swap_def Let_def)

definition indices_ok :: "pitem list \<Rightarrow> bool" where
  "indices_ok xs \<longleftrightarrow> (\<forall>k<length xs. pi_index (xs ! k) = int k)"

lemma indices_pq_Swap:
  "i < length xs \<Longrightarrow> j < length xs \<Longrightarrow> indices_ok xs \<Longrightarrow> indices_ok (pq_Swap xs i j)"
  by (auto simp: indices_ok_def pq_Swap_def Let_def nth_list_update)

section \<open>The heap order\<close>

text \<open>Every item of the first \<open>n\<close> is not before its parent.\<close>

abbreviation parent :: "nat \<Rightarrow> nat" where
  "parent k \<equiv> (k - 1) div 2"

definition heap_ok :: "pitem list \<Rightarrow> nat \<Rightarrow> bool" where
  "heap_ok xs n \<longleftrightarrow> (\<forall>k<n. 0 < k \<longrightarrow> item_key (xs ! parent k) \<le> item_key (xs ! k))"

text \<open>The same, except possibly between \<open>j\<close> and its parent (while sifting up) or between \<open>i\<close>
  and its children (while sifting down); the order across the gap is kept.\<close>

definition up_ok :: "pitem list \<Rightarrow> nat \<Rightarrow> bool" where
  "up_ok xs j \<longleftrightarrow>
     (\<forall>k<length xs. 0 < k \<longrightarrow> k \<noteq> j \<longrightarrow> item_key (xs ! parent k) \<le> item_key (xs ! k)) \<and>
     (\<forall>k<length xs. 0 < k \<longrightarrow> parent k = j \<longrightarrow> 0 < j \<longrightarrow> item_key (xs ! parent j) \<le> item_key (xs ! k))"

definition down_ok :: "pitem list \<Rightarrow> nat \<Rightarrow> nat \<Rightarrow> bool" where
  "down_ok xs i n \<longleftrightarrow>
     (\<forall>k<n. 0 < k \<longrightarrow> parent k \<noteq> i \<longrightarrow> item_key (xs ! parent k) \<le> item_key (xs ! k)) \<and>
     (\<forall>k<n. 0 < k \<longrightarrow> parent k = i \<longrightarrow> 0 < i \<longrightarrow> item_key (xs ! parent i) \<le> item_key (xs ! k))"

lemma heap_up_facts:
  "j < length xs \<Longrightarrow> length (heap_up xs j) = length xs \<and>
     mset (map strip (heap_up xs j)) = mset (map strip xs) \<and>
     (indices_ok xs \<longrightarrow> indices_ok (heap_up xs j))"
proof (induction xs j rule: heap_up.induct)
  case (1 xs j)
  have p: "parent j < length xs" using "1.prems" by simp
  show ?case
  proof (cases "parent j = j \<or> \<not> pq_Less xs j (parent j)")
    case True
    then show ?thesis by (subst (1 2 3) heap_up.simps) (simp add: Let_def)
  next
    case False
    then have "heap_up xs j = heap_up (pq_Swap xs (parent j) j) (parent j)"
      by (subst heap_up.simps) (simp add: Let_def)
    with "1.IH" [OF refl False] p "1.prems" mset_pq_Swap [OF p "1.prems"]
      indices_pq_Swap [OF p "1.prems"] show ?thesis by simp
  qed
qed

lemma heap_up_ok: "j < length xs \<Longrightarrow> up_ok xs j \<Longrightarrow> heap_ok (heap_up xs j) (length xs)"
proof (induction xs j rule: heap_up.induct)
  case (1 xs j)
  have p: "parent j < length xs" using "1.prems"(1) by simp
  show ?case
  proof (cases "parent j = j \<or> \<not> pq_Less xs j (parent j)")
    case True
    have "item_key (xs ! parent j) \<le> item_key (xs ! j)"
    proof (cases "parent j = j")
      case False
      with True show ?thesis by (auto simp: pq_Less_def item_less_key)
    next
      case True
      then have "j = 0" by arith
      then show ?thesis by simp
    qed
    with "1.prems"(2) have "heap_ok xs (length xs)" by (auto simp: up_ok_def heap_ok_def)
    with True show ?thesis by (subst heap_up.simps) (simp add: Let_def)
  next
    case False
    then have lt: "item_key (xs ! j) < item_key (xs ! parent j)" and j: "parent j < j"
      by (auto simp: pq_Less_def item_less_key)
    let ?ys = "pq_Swap xs (parent j) j"
    note l = p "1.prems"(1)
    have order: "item_key (xs ! parent k) \<le> item_key (xs ! k)" if "k < length xs" "0 < k" "k \<noteq> j" for k
      using "1.prems"(2) that by (simp add: up_ok_def)
    have across: "item_key (xs ! parent j) \<le> item_key (xs ! k)"
      if "k < length xs" "0 < k" "parent k = j" for k
      using "1.prems"(2) that j by (simp add: up_ok_def)
    have "up_ok ?ys (parent j)"
      unfolding up_ok_def length_pq_Swap
    proof (intro conjI allI impI)
      fix k assume k: "k < length xs" "0 < k" "k \<noteq> parent j"
      have kl: "parent k < length xs" using k by simp
      note keys = key_pq_Swap [OF l kl] key_pq_Swap [OF l k(1)]
      consider "k = j" | "k \<noteq> j" "parent k = j" | "k \<noteq> j" "parent k \<noteq> j" "parent k = parent j"
        | "k \<noteq> j" "parent k \<noteq> j" "parent k \<noteq> parent j" by blast
      then show "item_key (?ys ! parent k) \<le> item_key (?ys ! k)"
      proof cases
        case 1
        with keys j lt show ?thesis by simp
      next
        case 2
        with keys j k across [of k] show ?thesis by simp
      next
        case 3
        with keys k order [of k] lt show ?thesis by simp
      next
        case 4
        with keys k order [of k] show ?thesis by simp
      qed
    next
      fix k assume k: "k < length xs" "0 < k" "parent k = parent j" "0 < parent j"
      have "parent (parent j) < length xs" using p by simp
      note keys = key_pq_Swap [OF l this] key_pq_Swap [OF l k(1)]
      have neq: "parent (parent j) \<noteq> j" "parent (parent j) \<noteq> parent j" using k(4) by arith+
      have pj: "item_key (xs ! parent (parent j)) \<le> item_key (xs ! parent j)"
        using order [OF p k(4)] j by simp
      show "item_key (?ys ! parent (parent j)) \<le> item_key (?ys ! k)"
      proof (cases "k = j \<or> k = parent j")
        case True
        with keys neq pj k(3,4) show ?thesis by auto
      next
        case False
        with keys neq pj order [OF k(1,2)] k(3) show ?thesis by auto
      qed
    qed
    with "1.IH" [OF refl False] p False show ?thesis
      by (subst heap_up.simps) (simp add: Let_def)
  qed
qed

text \<open>The child that \<open>down\<close> compares with its parent.\<close>

definition smaller_child :: "pitem list \<Rightarrow> nat \<Rightarrow> nat \<Rightarrow> nat" where
  "smaller_child xs i n =
     (if 2 * i + 2 < n \<and> pq_Less xs (2 * i + 2) (2 * i + 1) then 2 * i + 2 else 2 * i + 1)"

lemma heap_down_unfold:
  "heap_down xs i n =
     (if 2 * i + 1 \<ge> n \<or> \<not> pq_Less xs (smaller_child xs i n) i then xs
      else heap_down (pq_Swap xs i (smaller_child xs i n)) (smaller_child xs i n) n)"
  by (subst heap_down.simps) (simp add: smaller_child_def Let_def)

lemma smaller_child_props:
  assumes "2 * i + 1 < n"
  shows "smaller_child xs i n < n" "i < smaller_child xs i n" "parent (smaller_child xs i n) = i"
    "\<forall>k<n. 0 < k \<longrightarrow> parent k = i \<longrightarrow> item_key (xs ! smaller_child xs i n) \<le> item_key (xs ! k)"
proof -
  show "smaller_child xs i n < n" "i < smaller_child xs i n" "parent (smaller_child xs i n) = i"
    using assms by (auto simp: smaller_child_def)
  have "k = 2 * i + 1 \<or> k = 2 * i + 2" if "0 < k" "parent k = i" for k
    using that by arith
  then show "\<forall>k<n. 0 < k \<longrightarrow> parent k = i \<longrightarrow> item_key (xs ! smaller_child xs i n) \<le> item_key (xs ! k)"
    by (fastforce simp: smaller_child_def pq_Less_def item_less_key)
qed

lemma heap_down_facts:
  "i < n \<Longrightarrow> n \<le> length xs \<Longrightarrow> length (heap_down xs i n) = length xs \<and>
     mset (map strip (heap_down xs i n)) = mset (map strip xs) \<and>
     (indices_ok xs \<longrightarrow> indices_ok (heap_down xs i n)) \<and>
     (\<forall>k. n \<le> k \<longrightarrow> heap_down xs i n ! k = xs ! k)"
proof (induction "n - i" arbitrary: xs i rule: less_induct)
  case less
  let ?c = "smaller_child xs i n"
  show ?case
  proof (cases "2 * i + 1 \<ge> n \<or> \<not> pq_Less xs ?c i")
    case True
    then show ?thesis by (subst (1 2 3 4) heap_down_unfold) simp
  next
    case False
    then have c: "?c < n" "i < ?c" using smaller_child_props(1,2) [of i n xs] by auto
    from False have eq: "heap_down xs i n = heap_down (pq_Swap xs i ?c) ?c n"
      by (subst heap_down_unfold) simp
    have l: "i < length xs" "?c < length xs" using c less.prems by auto
    have "n - ?c < n - i" using c by arith
    from less.hyps [OF this c(1), of "pq_Swap xs i ?c"] less.prems(2) mset_pq_Swap [OF l]
      indices_pq_Swap [OF l] c
    show ?thesis by (auto simp: eq nth_pq_Swap_other)
  qed
qed

lemma heap_down_ok:
  "i < n \<Longrightarrow> n \<le> length xs \<Longrightarrow> down_ok xs i n \<Longrightarrow> heap_ok (heap_down xs i n) n"
proof (induction "n - i" arbitrary: xs i rule: less_induct)
  case less
  let ?c = "smaller_child xs i n"
  show ?case
  proof (cases "2 * i + 1 \<ge> n \<or> \<not> pq_Less xs ?c i")
    case True
    have "item_key (xs ! i) \<le> item_key (xs ! k)" if "k < n" "0 < k" "parent k = i" for k
    proof -
      from that have "2 * i + 1 < n" by arith
      with True smaller_child_props(4) [of i n xs] that show ?thesis
        by (fastforce simp: pq_Less_def item_less_key)
    qed
    with less.prems(3) have "heap_ok xs n" by (auto simp: down_ok_def heap_ok_def)
    with True show ?thesis by (subst heap_down_unfold) simp
  next
    case False
    then have n: "2 * i + 1 < n" and lt: "item_key (xs ! ?c) < item_key (xs ! i)"
      by (auto simp: pq_Less_def item_less_key)
    note c = smaller_child_props [OF n, of xs]
    have l: "i < length xs" "?c < length xs" using c(1,2) less.prems by auto
    let ?ys = "pq_Swap xs i ?c"
    have "down_ok ?ys ?c n"
      unfolding down_ok_def
    proof (intro conjI allI impI)
      fix k assume k: "k < n" "0 < k" "parent k \<noteq> ?c"
      have kl: "k < length xs" "parent k < length xs" using k less.prems(2) by auto
      note keys = key_pq_Swap [OF l kl(1)] key_pq_Swap [OF l kl(2)]
      consider "k = ?c" | "k = i" | "k \<noteq> ?c" "k \<noteq> i" "parent k = i" | "k \<noteq> ?c" "k \<noteq> i" "parent k \<noteq> i"
        by blast
      then show "item_key (?ys ! parent k) \<le> item_key (?ys ! k)"
      proof cases
        case 1
        with keys c(2,3) lt show ?thesis by simp
      next
        case 2
        with k(2) have "parent k \<noteq> i" by arith
        moreover have "item_key (xs ! parent i) \<le> item_key (xs ! ?c)"
          using less.prems(3) 2 k(2) c(1,2,3) unfolding down_ok_def by auto
        ultimately show ?thesis using keys 2 c(2) k(3) by simp
      next
        case 3
        with keys c(2,4) k show ?thesis by simp
      next
        case 4
        with keys k less.prems(3) show ?thesis by (simp add: down_ok_def)
      qed
    next
      fix k assume k: "k < n" "0 < k" "parent k = ?c" "0 < ?c"
      have kl: "k < length xs" using k less.prems(2) by auto
      have pl: "parent ?c < length xs" using c(3) l by simp
      have "k \<noteq> ?c" "k \<noteq> i" using k c(2) by auto
      moreover have "item_key (xs ! ?c) \<le> item_key (xs ! k)"
        using less.prems(3) k c(2) unfolding down_ok_def by auto
      ultimately show "item_key (?ys ! parent ?c) \<le> item_key (?ys ! k)"
        using key_pq_Swap [OF l kl] key_pq_Swap [OF l pl] c(2,3) by simp
    qed
    moreover have "n - ?c < n - i" using c(1,2) by arith
    ultimately show ?thesis
      using less.hyps [of ?c ?ys] c(1) less.prems(2) False by (subst heap_down_unfold) simp
  qed
qed

section \<open>The heap implements the interface\<close>

abbreviation skey :: "string \<times> int \<times> int \<Rightarrow> int \<times> int" where
  "skey \<equiv> \<lambda>(i, p, s). (- p, s)"

definition pq_invar :: "pqueue \<Rightarrow> bool" where
  "pq_invar q \<longleftrightarrow> heap_ok (items q) (length (items q)) \<and> indices_ok (items q) \<and>
     (\<forall>a\<in>set (items q). pi_order a < pq_seq q) \<and> distinct (map pi_order (items q))"

definition pq_waiting :: "pqueue \<Rightarrow> (string \<times> int) list" where
  "pq_waiting q = map (\<lambda>(i, p, s). (i, p)) (sort_key skey (map strip (items q)))"

lemma skey_strip: "skey (strip a) = item_key a"
  by (simp add: strip_def item_key_def)

lemma orders_strip: "map pi_order xs = map (\<lambda>(i, p, s). s) (map strip xs)"
  by (simp add: strip_def)

lemma inj_skey: "distinct (map (\<lambda>(i, p, s). s) L) \<Longrightarrow> inj_on skey (set L)"
  by (auto simp: distinct_map inj_on_def)

lemma insort_takeWhile:
  "insort_key f x ws = takeWhile (\<lambda>y. \<not> f x \<le> f y) ws @ x # dropWhile (\<lambda>y. \<not> f x \<le> f y) ws"
  by (induction ws) auto

lemma heap_root:
  assumes "heap_ok xs n" "k < n"
  shows "item_key (xs ! 0) \<le> item_key (xs ! k)"
  using assms(2)
proof (induction k rule: less_induct)
  case (less k)
  show ?case
  proof (cases "k = 0")
    case False
    then have "parent k < k" "parent k < n" using less.prems by auto
    with less.IH [of "parent k"] False less.prems assms(1) show ?thesis
      by (meson heap_ok_def gr0I order.trans)
  qed simp
qed

lemma pq_push_items:
  fixes q i p
  defines "item \<equiv> \<lparr>pi_nodeID = i, pi_priority = p, pi_index = int (length (items q)), pi_order = pq_seq q\<rparr>"
  shows "mset (map strip (items (pq_push q i p))) = add_mset (i, p, pq_seq q) (mset (map strip (items q)))"
    and "length (items (pq_push q i p)) = Suc (length (items q))"
    and "pq_seq (pq_push q i p) = pq_seq q + 1"
    and "indices_ok (items q) \<Longrightarrow> indices_ok (items (pq_push q i p))"
    and "heap_ok (items q) (length (items q)) \<Longrightarrow>
      heap_ok (items (pq_push q i p)) (length (items (pq_push q i p)))"
proof -
  let ?xs = "items q @ [item]"
  have l: "length (items q) < length ?xs" by simp
  have eq: "items (pq_push q i p) = heap_up ?xs (length (items q))"
    by (simp add: pq_push_def item_def Let_def)
  note facts = heap_up_facts [OF l]
  show "mset (map strip (items (pq_push q i p))) = add_mset (i, p, pq_seq q) (mset (map strip (items q)))"
    using facts unfolding eq by (simp add: item_def strip_def)
  show len: "length (items (pq_push q i p)) = Suc (length (items q))"
    using facts unfolding eq by simp
  show "pq_seq (pq_push q i p) = pq_seq q + 1" by (simp add: pq_push_def Let_def)
  show "indices_ok (items (pq_push q i p))" if "indices_ok (items q)"
  proof -
    have "indices_ok ?xs" using that
      by (auto simp: indices_ok_def nth_append item_def less_Suc_eq)
    with facts show ?thesis unfolding eq by simp
  qed
  show "heap_ok (items (pq_push q i p)) (length (items (pq_push q i p)))"
    if "heap_ok (items q) (length (items q))"
  proof -
    have "up_ok ?xs (length (items q))"
      using that by (auto simp: up_ok_def heap_ok_def nth_append)
    from heap_up_ok [OF l this] facts show ?thesis unfolding eq by simp
  qed
qed

lemma orders_mset: "mset (map pi_order xs) = image_mset (\<lambda>(i, p, s). s) (mset (map strip xs))"
  by (simp only: orders_strip mset_map)

lemma orders_set: "pi_order ` set xs = (\<lambda>(i, p, s). s) ` set (map strip xs)"
  by (metis orders_strip set_map)

lemma pq_invar_push:
  assumes "pq_invar q"
  shows "pq_invar (pq_push q i p)"
proof -
  note P = pq_push_items [where q = q and i = i and p = p]
  have ms: "mset (map pi_order (items (pq_push q i p))) = mset (pq_seq q # map pi_order (items q))"
    by (simp only: orders_mset P(1) image_mset_add_mset mset.simps list.map prod.case)
  have "distinct (pq_seq q # map pi_order (items q))" using assms by (auto simp: pq_invar_def)
  then have "distinct (map pi_order (items (pq_push q i p)))" using ms by (metis mset_eq_imp_distinct_iff)
  moreover have eq: "pi_order ` set (items (pq_push q i p)) = insert (pq_seq q) (pi_order ` set (items q))"
    using mset_eq_setD [OF ms] by simp
  have "\<forall>s \<in> insert (pq_seq q) (pi_order ` set (items q)). s < pq_seq q + 1"
    using assms by (auto simp: pq_invar_def)
  then have "\<forall>a\<in>set (items (pq_push q i p)). pi_order a < pq_seq q + 1"
    unfolding eq [symmetric] by simp
  ultimately show ?thesis using assms P by (simp add: pq_invar_def)
qed

lemma pq_waiting_push:
  assumes "pq_invar q"
  shows "pq_waiting (pq_push q i p) = enqueue_stable i p (pq_waiting q)"
proof -
  let ?ws = "sort_key skey (map strip (items q))"
  let ?x = "(i, p, pq_seq q)"
  have ds: "distinct (map (\<lambda>(i, p, s). s) (map strip (items (pq_push q i p))))"
    using pq_invar_push [OF assms] by (simp only: orders_strip pq_invar_def)
  have "sort_key skey (map strip (items (pq_push q i p))) = insort_key skey ?x ?ws"
  proof (rule sort_key_inj_key_eq)
    show "mset (map strip (items (pq_push q i p))) = mset (insort_key skey ?x ?ws)"
      by (simp add: pq_push_items(1) del: mset_map)
    show "inj_on skey (set (map strip (items (pq_push q i p))))" using ds by (rule inj_skey)
    show "sorted (map skey (insort_key skey ?x ?ws))" by (simp add: sorted_insort_key)
  qed
  moreover have eqv: "(\<not> skey ?x \<le> skey y) = (case y of (i', p', s') \<Rightarrow> p' \<ge> p)" if "y \<in> set ?ws" for y
    using that assms by (auto simp: pq_invar_def strip_def)
  have "takeWhile (\<lambda>y. \<not> skey ?x \<le> skey y) ?ws = takeWhile (\<lambda>(i', p', s'). p' \<ge> p) ?ws"
    by (rule takeWhile_cong [OF refl eqv])
  moreover have "dropWhile (\<lambda>y. \<not> skey ?x \<le> skey y) ?ws = dropWhile (\<lambda>(i', p', s'). p' \<ge> p) ?ws"
    by (rule dropWhile_cong [OF refl eqv])
  ultimately show ?thesis
    unfolding pq_waiting_def enqueue_stable_def insort_takeWhile
    by (simp add: takeWhile_map dropWhile_map comp_def case_prod_unfold)
qed

text \<open>What \<open>pop\<close> leaves: the root is taken out, the rest is a heap again.\<close>

lemma pq_pop_items:
  assumes "pq_invar q" "items q \<noteq> []"
  shows "fst (pq_pop q) = pi_nodeID (items q ! 0)"
    and "mset (map strip (items q)) = add_mset (strip (items q ! 0)) (mset (map strip (items (snd (pq_pop q)))))"
    and "heap_ok (items (snd (pq_pop q))) (length (items (snd (pq_pop q))))"
    and "indices_ok (items (snd (pq_pop q)))"
    and "pq_seq (snd (pq_pop q)) = pq_seq q"
proof -
  define n where "n = length (items q) - 1"
  define ys where "ys = pq_Swap (items q) 0 n"
  define zs where "zs = heap_down ys 0 n"
  have l: "0 < length (items q)" "n < length (items q)" using assms(2) by (auto simp: n_def)
  have len: "length ys = Suc n" using l by (simp add: ys_def n_def)
  have facts: "length zs = length ys \<and> mset (map strip zs) = mset (map strip ys) \<and>
      (indices_ok ys \<longrightarrow> indices_ok zs) \<and> zs ! n = ys ! n \<and> heap_ok zs n"
  proof (cases "n = 0")
    case True
    then show ?thesis unfolding zs_def by (subst (1 2 3 4 5) heap_down_unfold) (simp add: heap_ok_def)
  next
    case False
    have "down_ok ys 0 n"
      unfolding down_ok_def
    proof (intro conjI allI impI)
      fix k assume k: "k < n" "0 < k" "parent k \<noteq> 0"
      have kl: "k < length (items q)" "parent k < length (items q)" "parent k \<noteq> n"
        using k l(2) by auto
      show "item_key (ys ! parent k) \<le> item_key (ys ! k)"
        using key_pq_Swap [OF l kl(1)] key_pq_Swap [OF l kl(2)] k assms(1) kl
        by (simp add: ys_def pq_invar_def heap_ok_def)
    qed auto
    with False show ?thesis
      using heap_down_facts [of 0 n ys] heap_down_ok [of 0 n ys] len unfolding zs_def by simp
  qed
  have pop: "fst (pq_pop q) = pi_nodeID (zs ! n)" "items (snd (pq_pop q)) = take n zs"
    by (simp_all add: pq_pop_def zs_def ys_def n_def Let_def)
  have "map strip ys ! n = strip (items q ! 0)"
    using strip_pq_Swap [OF l] l unfolding ys_def by simp
  then have last: "strip (zs ! n) = strip (items q ! 0)" using facts len by simp
  then show "fst (pq_pop q) = pi_nodeID (items q ! 0)" by (simp add: pop strip_def)
  have "map strip zs = map strip (take n zs) @ [strip (zs ! n)]"
    using facts len by (metis lessI list.simps(8,9) map_append take_Suc_conv_app_nth take_all_iff order_refl)
  then have "mset (map strip zs) = add_mset (strip (zs ! n)) (mset (map strip (take n zs)))"
    by simp
  moreover have "mset (map strip zs) = mset (map strip (items q))"
    using facts mset_pq_Swap [OF l] by (simp add: ys_def)
  ultimately show "mset (map strip (items q)) =
      add_mset (strip (items q ! 0)) (mset (map strip (items (snd (pq_pop q)))))"
    by (simp add: pop last)
  show "heap_ok (items (snd (pq_pop q))) (length (items (snd (pq_pop q))))"
    using facts len by (auto simp: pop heap_ok_def)
  show "indices_ok (items (snd (pq_pop q)))"
    using facts indices_pq_Swap [OF l] assms(1) len by (auto simp: pop indices_ok_def ys_def pq_invar_def)
  show "pq_seq (snd (pq_pop q)) = pq_seq q" by (simp add: pq_pop_def Let_def)
qed

lemma pq_invar_pop:
  assumes "pq_invar q" "items q \<noteq> []"
  shows "pq_invar (snd (pq_pop q))"
proof -
  note P = pq_pop_items [OF assms]
  have ms: "mset (map pi_order (items q)) = mset (pi_order (items q ! 0) # map pi_order (items (snd (pq_pop q))))"
    by (simp only: orders_mset P(2) image_mset_add_mset mset.simps list.map strip_def prod.case)
  have "distinct (map pi_order (items q))" using assms by (simp add: pq_invar_def)
  then have "distinct (pi_order (items q ! 0) # map pi_order (items (snd (pq_pop q))))"
    using mset_eq_imp_distinct_iff [OF ms] by blast
  moreover have "pi_order ` set (items (snd (pq_pop q))) \<subseteq> pi_order ` set (items q)"
    using mset_eq_setD [OF ms] by auto
  then have "\<forall>a\<in>set (items (snd (pq_pop q))). pi_order a < pq_seq q"
    using assms by (fastforce simp: pq_invar_def)
  ultimately show ?thesis using P by (simp add: pq_invar_def)
qed

lemma pq_waiting_pop:
  assumes "pq_invar q" "items q \<noteq> []"
  shows "pq_waiting q = (fst (pq_pop q), pi_priority (items q ! 0)) # pq_waiting (snd (pq_pop q))"
proof -
  note P = pq_pop_items [OF assms]
  let ?x = "strip (items q ! 0)" and ?ws = "sort_key skey (map strip (items (snd (pq_pop q))))"
  have "sort_key skey (map strip (items q)) = ?x # ?ws"
  proof (rule sort_key_inj_key_eq)
    show "mset (map strip (items q)) = mset (?x # ?ws)" by (simp add: P(2) del: mset_map)
    show "inj_on skey (set (map strip (items q)))"
      using assms(1) by (intro inj_skey) (simp only: pq_invar_def orders_strip)
    have "skey ?x \<le> skey y" if "y \<in> set (map strip (items (snd (pq_pop q))))" for y
    proof -
      have "y \<in> set (map strip (items q))" using that mset_eq_setD [of _ "?x # _"] P(2)
        by (metis insert_iff list.set(2) mset.simps(2))
      then obtain k where "k < length (items q)" "y = strip (items q ! k)"
        by (auto simp: in_set_conv_nth)
      with heap_root [of "items q" "length (items q)" k] assms(1) show ?thesis
        unfolding skey_strip by (simp add: skey_strip pq_invar_def)
    qed
    then show "sorted (map skey (?x # ?ws))" by auto
  qed
  then show ?thesis by (simp add: pq_waiting_def P(1)) (simp add: strip_def)
qed

lemma pq_waiting_Nil_iff [simp]: "pq_waiting q = [] \<longleftrightarrow> items q = []"
  by (simp add: pq_waiting_def flip: length_0_conv)

interpretation pq: stable_pqueue pq_push pq_pop pq_empty pq_invar pq_waiting
  by unfold_locales
    (simp_all add: pq_invar_push pq_waiting_push pq_invar_pop pq_waiting_pop pq_empty_def)

lemma pq_new: "pq_invar newPriorityQueue" "pq_waiting newPriorityQueue = []"
  by (simp_all add: newPriorityQueue_def pq_invar_def heap_ok_def indices_ok_def)

section \<open>Refinement of a stable queue\<close>

text \<open>
  Runs of queue operations, on the heap and on the abstract queue; as in \<open>drainPQ\<close>, nothing is popped
  from an empty queue.
\<close>

datatype pq_op = PushNode string int | PopNode

fun pq_run :: "pq_op list \<Rightarrow> pqueue \<Rightarrow> string list" where
  "pq_run [] q = []"
| "pq_run (PushNode i p # ops) q = pq_run ops (pq_push q i p)"
| "pq_run (PopNode # ops) q =
     (if pq_empty q then pq_run ops q else fst (pq_pop q) # pq_run ops (snd (pq_pop q)))"

fun stable_run :: "pq_op list \<Rightarrow> (string \<times> int) list \<Rightarrow> string list" where
  "stable_run [] L = []"
| "stable_run (PushNode i p # ops) L = stable_run ops (enqueue_stable i p L)"
| "stable_run (PopNode # ops) [] = stable_run ops []"
| "stable_run (PopNode # ops) (x # L) = fst x # stable_run ops L"

lemma pq_run_stable: "pq_invar q \<Longrightarrow> pq_run ops q = stable_run ops (pq_waiting q)"
proof (induction ops q rule: pq_run.induct)
  case (3 ops q)
  show ?case
  proof (cases "pq_empty q")
    case True
    then have "pq_waiting q = []" using pq.is_empty_iff [OF "3.prems"] by blast
    with True "3.IH"(1) "3.prems" show ?thesis by (simp del: pq_waiting_Nil_iff)
  next
    case False
    then have ne: "pq_waiting q \<noteq> []" using pq.is_empty_iff [OF "3.prems"] by blast
    have "stable_run (PopNode # ops) (pq_waiting q) = fst (pq_pop q) # stable_run ops (pq_waiting (snd (pq_pop q)))"
      by (subst pq.waiting_pop [OF "3.prems" ne]) simp
    with "3.IH"(2) [OF False pq.invar_pop [OF "3.prems" ne]] False show ?thesis by simp
  qed
qed (simp_all add: pq.invar_push pq.waiting_push)

text \<open>
  C8: the heap of ready nodes is a stable priority queue.  Any sequence of pushes and pops returns
  the nodes that a list kept sorted by falling priority, first in first out within a priority,
  would return.
\<close>

theorem heap_refines_stable_queue: "pq_run ops newPriorityQueue = stable_run ops []"
  using pq_run_stable [OF pq_new(1)] by (simp add: pq_new(2))

end
