(* ===== verification/Aggregate.thy ===== *)
theory Aggregate
  imports Schema
begin

text \<open>
  The aggregators of \<open>aggregator.go\<close>.  The Go map of results is an association list with
  distinct keys, in the order in which the runtime happens to iterate over it; the lemmas show
  that this order does not matter.
\<close>

type_synonym ('m, 'v) results = "(string \<times> ('m, 'v) run_response option) list"

definition result_keys :: "('m, 'v) results \<Rightarrow> string list" where
  "result_keys results = sort (map fst results)"

definition read_result :: "('m, 'v) results \<Rightarrow> string \<Rightarrow> ('m, 'v) run_response option" where
  "read_result results k = (case map_of results k of Some r \<Rightarrow> r | None \<Rightarrow> None)"

definition lastResultAggregator :: "('m, 'v) results \<Rightarrow> ('m, 'v) run_response option res" where
  "lastResultAggregator results =
     (if results = [] then Inr (Some response_zero)
      else Inr (read_result results (last (result_keys results))))"

definition concat_result ::
  "('m, 'v) run_response option \<Rightarrow> ('m, 'v) run_response \<Rightarrow> ('m, 'v) run_response" where
  "concat_result v resp =
     (case v of
        None \<Rightarrow> resp
      | Some r \<Rightarrow>
          (let resp' = resp\<lparr>rs_Messages := rs_Messages resp @ rs_Messages r\<rparr> in
           if rs_SessionID resp' = [] then
             resp'\<lparr>rs_SessionID := rs_SessionID r, rs_Metadata := rs_Metadata r\<rparr>
           else resp'))"

definition concatMessagesAggregator :: "('m, 'v) results \<Rightarrow> ('m, 'v) run_response option res" where
  "concatMessagesAggregator results =
     Inr (Some (fold (\<lambda>k. concat_result (read_result results k)) (result_keys results) response_zero))"

lemma result_keys_perm:
  assumes "mset rs = mset rs'"
  shows "result_keys rs = result_keys rs'"
proof -
  have "mset (map fst rs) = mset (map fst rs')" using assms by (metis mset_map)
  then show ?thesis unfolding result_keys_def
    by (metis mset_sort properties_for_sort sorted_sort)
qed

lemma read_result_perm:
  "mset rs = mset rs' \<Longrightarrow> distinct (map fst rs) \<Longrightarrow> read_result rs = read_result rs'"
  by (rule ext) (metis map_of_inject_set mset_eq_imp_distinct_iff mset_eq_setD mset_map read_result_def)

text \<open>The iteration order of the map does not influence the result.\<close>

lemma concat_perm:
  "mset rs = mset rs' \<Longrightarrow> distinct (map fst rs) \<Longrightarrow>
     concatMessagesAggregator rs = concatMessagesAggregator rs'"
  by (simp only: concatMessagesAggregator_def result_keys_perm [of rs rs'] read_result_perm [of rs rs'])

lemma last_perm:
  "mset rs = mset rs' \<Longrightarrow> distinct (map fst rs) \<Longrightarrow> lastResultAggregator rs = lastResultAggregator rs'"
  using result_keys_perm [of rs rs'] read_result_perm [of rs rs']
  by (auto simp: lastResultAggregator_def)

lemma concat_result_messages [simp]:
  "rs_Messages (concat_result v resp) = rs_Messages resp @ (case v of None \<Rightarrow> [] | Some r \<Rightarrow> rs_Messages r)"
  by (auto simp: concat_result_def Let_def split: option.splits)

lemma fold_concat_messages:
  "rs_Messages (fold (\<lambda>k. concat_result (f k)) ks resp) =
     rs_Messages resp @ concat (map (\<lambda>k. case f k of None \<Rightarrow> [] | Some r \<Rightarrow> rs_Messages r) ks)"
  by (induction ks arbitrary: resp) simp_all

text \<open>The session of the first result, in key order, that has one.\<close>

lemma fold_concat_session:
  "rs_SessionID (fold (\<lambda>k. concat_result (f k)) ks resp) =
     (if rs_SessionID resp \<noteq> [] then rs_SessionID resp
      else case find (\<lambda>k. \<exists>r. f k = Some r \<and> rs_SessionID r \<noteq> []) ks of
             None \<Rightarrow> [] | Some k \<Rightarrow> rs_SessionID (the (f k)))"
proof (induction ks arbitrary: resp)
  case (Cons k ks)
  show ?case using Cons [of "concat_result (f k) resp"]
    by (auto simp: concat_result_def Let_def split: option.splits if_splits)
qed simp

end
