(* ===== verification/DagExec.thy ===== *)
theory DagExec
  imports Saga CriticalPath PrioQueue Aggregate
begin

text \<open>
  The executor of \<open>dag.go\<close>.  Its state is the record \<open>dag_state\<close>; the functions that run
  while the mutex is held are functions on it; the goroutines of the nodes, the event loop and
  the context are driven by events, and \<open>exec_step\<close> gives the state after one event, or
  \<open>None\<close> if the event cannot happen now.
\<close>

section \<open>Configuration and environment\<close>

datatype error_strategy = Abort | Skip | CompensateStrategy

type_synonym ('m, 'v) dnode = "(('m, 'v) run_request, ('m, 'v) run_response) node"

record ('m, 'v) checkpoint_store =
  LoadAll :: "(string \<rightharpoonup> ('m, 'v) run_response option) res"
  Save :: "string \<Rightarrow> ('m, 'v) run_response \<Rightarrow> gerror option"

record ('m, 'v) dag_config =
  MaxConcurrency :: int
  ErrorStrategy :: error_strategy
  EarlyExitFunc :: "(string \<Rightarrow> ('m, 'v) run_response \<Rightarrow> bool) option"
  Aggregator :: "(('m, 'v) results \<Rightarrow> ('m, 'v) run_response option res) option"
  CheckpointStore :: "('m, 'v) checkpoint_store option"
  ReplayMode :: bool
  PriorityScheduling :: bool
  CriticalPathAuto :: bool
  HasBackpressure :: bool
  HasResources :: bool
  CompensateCfg :: "compensate_config option"
  EventHandler :: bool

text \<open>\<open>HasBackpressure\<close> and \<open>HasResources\<close> say that \<open>BackpressureCfg\<close> is not \<open>nil\<close> and
  that some resource limit is set; whether the controllers then grant a slot is an event.\<close>

record ('m, 'v) dag_env =
  de_cfg :: "('m, 'v) dag_config"
  de_nodes :: "('m, 'v) dnode list"
  de_req :: "('m, 'v) run_request"
  de_add :: "usage \<Rightarrow> usage \<Rightarrow> usage"

abbreviation nodeMap :: "('m, 'v) dag_env \<Rightarrow> string \<Rightarrow> ('m, 'v) dnode option" where
  "nodeMap E \<equiv> index_by ID (de_nodes E)"

section \<open>State\<close>

record ('m, 'v) completion =
  c_nodeID :: string
  c_result :: "('m, 'v) run_response res"

datatype phase =
    AcquireSlot
  | AcquireResources
  | Attempting nat
  | Pausing nat gerror
  | Releasing

datatype handler_event =
    OnNodeStart string
  | OnNodeComplete string node_status "gerror option"
  | OnCheckpointError string gerror

datatype drain_exit =
    DrainCtx
  | DrainEarly
  | DrainCancelled
  | DrainAbort gerror
  | DrainCompensate gerror

datatype ('m, 'v) main_phase =
    is_MLoop: MLoop
  | MForward string "('m, 'v) run_request" gerror
  | MDrain nat drain_exit
  | MReturned "gerror option"

text \<open>Being in the loop is decided by the constructor alone, so that states with functions inside
  can be executed.\<close>

lemma equal_MLoop [code_unfold]: "HOL.equal x MLoop \<longleftrightarrow> is_MLoop x"
  by (cases x) (simp_all add: equal_eq)

record ('m, 'v) dag_state =
  NodeStatus :: "string \<Rightarrow> node_status"
  NodeResults :: "string \<Rightarrow> ('m, 'v) run_response option"
  FinalOutput :: "('m, 'v) run_response option"
  res_Usage :: "usage option"
  res_Timeline :: "node_timeline list"
  timeline :: timeline_tracker
  now :: int
  ready :: "pqueue option"
  activePQ :: int
  doneCh :: "('m, 'v) completion list"
  pending :: int
  ctxErr :: "gerror option"
  inDegree :: "string \<Rightarrow> int"
  totalUsage :: usage
  hasUsage :: bool
  goroutines :: "string \<rightharpoonup> ('m, 'v) run_request \<times> phase"
  sem_used :: nat
  handlerLog :: "handler_event list"
  saves :: "(string \<times> ('m, 'v) run_response) list"
  undone :: "(string \<times> nat) list"
  mainPhase :: "('m, 'v) main_phase"

definition set_status :: "string \<Rightarrow> node_status \<Rightarrow> ('m, 'v) dag_state \<Rightarrow> ('m, 'v) dag_state" where
  "set_status i s st = st\<lparr>NodeStatus := (NodeStatus st)(i := s)\<rparr>"

definition emit :: "('m, 'v) dag_env \<Rightarrow> handler_event \<Rightarrow> ('m, 'v) dag_state \<Rightarrow> ('m, 'v) dag_state" where
  "emit E e st = (if EventHandler (de_cfg E) then st\<lparr>handlerLog := handlerLog st @ [e]\<rparr> else st)"

definition countRunning :: "('m, 'v) dag_env \<Rightarrow> ('m, 'v) dag_state \<Rightarrow> nat" where
  "countRunning E st = length (filter (\<lambda>n. NodeStatus st (ID n) = NodeRunning) (de_nodes E))"

section \<open>Inputs of a node\<close>

definition upstream :: "('m, 'v) dnode \<Rightarrow> (string \<Rightarrow> ('m, 'v) run_response option) \<Rightarrow>
    (string \<rightharpoonup> ('m, 'v) run_response option)" where
  "upstream n results = (\<lambda>d. if d \<in> set (Deps n) then Some (results d) else None)"

definition with_messages :: "('m, 'v) run_request \<Rightarrow> 'm list \<Rightarrow> ('m, 'v) run_request" where
  "with_messages q ms = \<lparr>rq_Messages = ms, rq_SessionID = rq_SessionID q,
     rq_Options = rq_Options q, rq_Metadata = rq_Metadata q\<rparr>"

definition buildNodeInput ::
  "('m, 'v) dnode \<Rightarrow> ('m, 'v) run_request \<Rightarrow> (string \<Rightarrow> ('m, 'v) run_response option) \<Rightarrow>
     ('m, 'v) run_request res" where
  "buildNodeInput n req results =
     (case InputMapper n of
        Some f \<Rightarrow>
          (case f (upstream n results) of
             Inl e \<Rightarrow> Inl (Errorf ''orchestrate: InputMapper for node %q: %w'' [AStr (ID n)] (Some e))
           | Inr q \<Rightarrow> Inr q)
      | None \<Rightarrow>
          (case Deps n of
             [] \<Rightarrow> Inr req
           | [d] \<Rightarrow>
               (case results d of
                  Some r \<Rightarrow> Inr (with_messages req (rs_Messages r))
                | None \<Rightarrow> Inr req)
           | ds \<Rightarrow>
               Inr (with_messages req
                 (concat (map (\<lambda>d. case results d of Some r \<Rightarrow> rs_Messages r | None \<Rightarrow> []) ds)))))"

definition condition_false :: "('m, 'v) dnode \<Rightarrow> ('m, 'v) dag_state \<Rightarrow> bool" where
  "condition_false n st \<longleftrightarrow>
     (case Condition n of None \<Rightarrow> False | Some f \<Rightarrow> \<not> f (upstream n (NodeResults st)))"

section \<open>Launching a ready node and propagating completion\<close>

definition launch ::
  "('m, 'v) dnode \<Rightarrow> ('m, 'v) run_request \<Rightarrow> ('m, 'v) dag_state \<Rightarrow> ('m, 'v) dag_state" where
  "launch n q st = (set_status (ID n) NodeRunning st)
     \<lparr>timeline := recordStart (now st) (ID n) (timeline st),
      goroutines := (goroutines st)(ID n \<mapsto> (q, AcquireSlot))\<rparr>"

definition send :: "string \<Rightarrow> ('m, 'v) run_response res \<Rightarrow> ('m, 'v) dag_state \<Rightarrow> ('m, 'v) dag_state" where
  "send i r st = st\<lparr>doneCh := doneCh st @ [\<lparr>c_nodeID = i, c_result = r\<rparr>]\<rparr>"

definition skip_node :: "string \<Rightarrow> ('m, 'v) dag_state \<Rightarrow> ('m, 'v) dag_state" where
  "skip_node i st = (set_status i NodeSkipped st)
     \<lparr>pending := pending st - 1,
      timeline := recordEnd (now st) (now st) i NodeSkipped (recordStart (now st) i (timeline st))\<rparr>"

text \<open>
  \<open>scheduleOne\<close> is \<open>scheduleReady\<close> up to its calls of \<open>propagateDownstream\<close>; the flag says
  that the call is made.
\<close>

definition scheduleOne ::
  "('m, 'v) dag_env \<Rightarrow> string \<Rightarrow> ('m, 'v) dag_state \<Rightarrow> ('m, 'v) dag_state \<times> bool" where
  "scheduleOne E i st =
     (case nodeMap E i of
        None \<Rightarrow> (st, False)
      | Some n \<Rightarrow>
          if ReplayMode (de_cfg E) \<and> CheckpointStore (de_cfg E) \<noteq> None \<and> NodeStatus st i = NodeDone
          then (st\<lparr>pending := pending st - 1\<rparr>, True)
          else if condition_false n st then (skip_node i st, True)
          else (case buildNodeInput n (de_req E) (NodeResults st) of
                  Inl e \<Rightarrow> (send i (Inl e) (set_status i NodeRunning st), False)
                | Inr q \<Rightarrow> (launch n q (emit E (OnNodeStart i) st), False)))"

definition push_ready :: "('m, 'v) dag_env \<Rightarrow> string \<Rightarrow> pqueue \<Rightarrow> ('m, 'v) dag_state \<Rightarrow> ('m, 'v) dag_state" where
  "push_ready E i q st =
     (case nodeMap E i of
        None \<Rightarrow> st
      | Some n \<Rightarrow> st\<lparr>ready := Some (pq_push q i (Priority n))\<rparr>)"

definition dec_degree :: "string \<Rightarrow> ('m, 'v) dag_state \<Rightarrow> ('m, 'v) dag_state" where
  "dec_degree ds st = st\<lparr>inDegree := (inDegree st)(ds := inDegree st ds - 1)\<rparr>"

text \<open>
  \<open>propagateDownstream\<close> and \<open>scheduleReady\<close> call each other; \<open>propagate\<close> is their common
  loop over the successors still to be notified, with the successors of a skipped node put in
  front, which is the order of the recursive calls.
\<close>

definition positive :: "('m, 'v) dag_env \<Rightarrow> ('m, 'v) dag_state \<Rightarrow> string set" where
  "positive E st = {v \<in> ID ` set (de_nodes E). 0 < inDegree st v}"

lemma finite_positive [simp, intro]: "finite (positive E st)"
  by (simp add: positive_def)

lemma positive_dec: "positive E (dec_degree ds st) \<subseteq> positive E st"
  by (auto simp: positive_def dec_degree_def split: if_splits)

lemma card_positive_dec: "card (positive E (dec_degree ds st)) \<le> card (positive E st)"
  by (intro card_mono positive_dec) simp

lemma card_positive_dec_less:
  assumes "inDegree st ds = 1" "ds \<in> ID ` set (de_nodes E)"
  shows "card (positive E (dec_degree ds st)) < card (positive E st)"
proof (rule psubset_card_mono)
  show "positive E (dec_degree ds st) \<subset> positive E st"
    using assms positive_dec [of E ds st] by (auto simp: positive_def dec_degree_def)
qed simp

lemma nodeMap_ids: "nodeMap E i = Some n \<Longrightarrow> i \<in> ID ` set (de_nodes E)"
  using index_by_None [of ID "de_nodes E" i] by auto

lemma scheduleOne_inDegree: "scheduleOne E i st = (st', p) \<Longrightarrow> inDegree st' = inDegree st"
  by (auto simp: scheduleOne_def skip_node_def send_def launch_def set_status_def emit_def
      split: option.splits if_splits sum.splits)

lemma scheduleOne_True: "scheduleOne E i st = (st', True) \<Longrightarrow> i \<in> ID ` set (de_nodes E)"
  by (auto simp: scheduleOne_def dest: nodeMap_ids split: option.splits if_splits sum.splits)

lemma positive_cong: "inDegree st' = inDegree st \<Longrightarrow> positive E st' = positive E st"
  by (simp add: positive_def)

function propagate ::
  "('m, 'v) dag_env \<Rightarrow> string list \<Rightarrow> ('m, 'v) dag_state \<Rightarrow> ('m, 'v) dag_state" where
  "propagate E [] st = st"
| "propagate E (ds # rest) st =
     (if inDegree st ds - 1 = 0 \<and> NodeStatus st ds = NodePending then
        (case ready st of
           Some q \<Rightarrow> propagate E rest (push_ready E ds q (dec_degree ds st))
         | None \<Rightarrow>
             (case scheduleOne E ds (dec_degree ds st) of
                (st', p) \<Rightarrow>
                  propagate E (if p then downstream (de_nodes E) ds @ rest else rest) st'))
      else propagate E rest (dec_degree ds st))"
  by pat_completeness auto

lemma push_ready_inDegree [simp]: "inDegree (push_ready E i q st) = inDegree st"
  by (simp add: push_ready_def split: option.splits)

lemma positive_push_ready [simp]: "positive E (push_ready E i q st) = positive E st"
  by (rule positive_cong) simp

termination propagate
proof (relation "measures [\<lambda>(E, ds, st). card (positive E st), \<lambda>(E, ds, st). length ds]",
    goal_cases)
  case (2 E ds rest st st' p)
  then have s: "scheduleOne E ds (dec_degree ds st) = (st', p)" by simp
  then have eq: "positive E st' = positive E (dec_degree ds st)"
    by (intro positive_cong scheduleOne_inDegree)
  show ?case
  proof (cases p)
    case True
    with s have "ds \<in> ID ` set (de_nodes E)" by (auto dest: scheduleOne_True)
    with 2 card_positive_dec_less [of st ds E] show ?thesis by (simp add: eq)
  next
    case False
    with card_positive_dec [of E ds st] show ?thesis by (auto simp: eq)
  qed
next
  case (3 E ds rest st q)
  then show ?case using card_positive_dec [of E ds st] by auto
next
  case (4 E ds rest st)
  then show ?case using card_positive_dec [of E ds st] by auto
qed simp

definition propagateDownstream ::
  "('m, 'v) dag_env \<Rightarrow> string \<Rightarrow> ('m, 'v) dag_state \<Rightarrow> ('m, 'v) dag_state" where
  "propagateDownstream E i st = propagate E (downstream (de_nodes E) i) st"

definition scheduleReady ::
  "('m, 'v) dag_env \<Rightarrow> string \<Rightarrow> ('m, 'v) dag_state \<Rightarrow> ('m, 'v) dag_state" where
  "scheduleReady E i st =
     (case scheduleOne E i st of (st', p) \<Rightarrow> if p then propagateDownstream E i st' else st')"

definition enqueueReady ::
  "('m, 'v) dag_env \<Rightarrow> string \<Rightarrow> ('m, 'v) dag_state \<Rightarrow> ('m, 'v) dag_state" where
  "enqueueReady E i st =
     (case ready st of Some q \<Rightarrow> push_ready E i q st | None \<Rightarrow> scheduleReady E i st)"

text \<open>The loop is the mutual recursion of the source.\<close>

lemma propagate_append: "propagate E (xs @ ys) st = propagate E ys (propagate E xs st)"
  by (induction E xs st rule: propagate.induct) (auto split: option.splits prod.splits)

lemma propagate_Cons:
  "propagate E (ds # rest) st = propagate E rest
     (if inDegree (dec_degree ds st) ds = 0 \<and> NodeStatus (dec_degree ds st) ds = NodePending
      then enqueueReady E ds (dec_degree ds st) else dec_degree ds st)"
  by (auto simp: enqueueReady_def scheduleReady_def propagateDownstream_def propagate_append dec_degree_def
      split: option.splits prod.splits)

section \<open>The priority queue of ready nodes\<close>

definition queue_size :: "('m, 'v) dag_state \<Rightarrow> nat" where
  "queue_size st = (case ready st of None \<Rightarrow> 0 | Some q \<Rightarrow> length (items q))"

lemma length_pq_push [simp]: "length (items (pq_push q i p)) = Suc (length (items q))"
  by (rule pq_push_items(2))

lemma length_pq_pop: "items q \<noteq> [] \<Longrightarrow> Suc (length (items (snd (pq_pop q)))) = length (items q)"
proof -
  assume "items q \<noteq> []"
  then have "length (heap_down (pq_Swap (items q) 0 (length (items q) - 1)) 0 (length (items q) - 1)) = length (items q)"
    using heap_down_facts [of 0 "length (items q) - 1" "pq_Swap (items q) 0 (length (items q) - 1)"]
    by (cases "length (items q) - 1 = 0") (simp_all add: heap_down_unfold [of _ 0 0])
  with \<open>items q \<noteq> []\<close> show ?thesis by (simp add: pq_pop_def Let_def)
qed

lemma push_ready_size:
  assumes "ready st = Some q" "inDegree st0 ds = 1" "st = dec_degree ds st0"
  shows "card (positive E (push_ready E ds q st)) + queue_size (push_ready E ds q st) \<le>
    card (positive E st0) + queue_size st0"
proof (cases "nodeMap E ds")
  case None
  with assms card_positive_dec [of E ds st0] show ?thesis
    by (simp add: push_ready_def queue_size_def dec_degree_def)
next
  case (Some n)
  then have "ds \<in> ID ` set (de_nodes E)" by (rule nodeMap_ids)
  with card_positive_dec_less [OF assms(2)] have "card (positive E st) < card (positive E st0)"
    by (simp add: assms(3))
  moreover have "ready st0 = Some q" using assms(1,3) by (simp add: dec_degree_def)
  ultimately show ?thesis using Some assms(1) by (simp add: push_ready_def queue_size_def positive_def)
qed

lemma propagate_size:
  "ready st \<noteq> None \<Longrightarrow>
     ready (propagate E ds st) \<noteq> None \<and>
     card (positive E (propagate E ds st)) + queue_size (propagate E ds st) \<le>
       card (positive E st) + queue_size st"
proof (induction E ds st rule: propagate.induct)
  case (2 E ds rest st)
  then obtain q where q: "ready st = Some q" by auto
  show ?case
  proof (cases "inDegree st ds - 1 = 0 \<and> NodeStatus st ds = NodePending")
    case True
    have "ready (push_ready E ds q (dec_degree ds st)) \<noteq> None"
      using q by (simp add: push_ready_def dec_degree_def split: option.splits)
    moreover have "card (positive E (push_ready E ds q (dec_degree ds st))) +
        queue_size (push_ready E ds q (dec_degree ds st)) \<le> card (positive E st) + queue_size st"
      using q True by (intro push_ready_size) (simp_all add: dec_degree_def)
    ultimately show ?thesis using "2.IH"(2) [OF True q] True q by simp
  next
    case False
    have "ready (dec_degree ds st) \<noteq> None" "queue_size (dec_degree ds st) = queue_size st"
      using q by (simp_all add: dec_degree_def queue_size_def)
    with "2.IH"(3) [OF False] card_positive_dec [of E ds st] have
      "ready (propagate E rest (dec_degree ds st)) \<noteq> None \<and>
       card (positive E (propagate E rest (dec_degree ds st))) + queue_size (propagate E rest (dec_degree ds st))
         \<le> card (positive E st) + queue_size st" by linarith
    moreover have "propagate E (ds # rest) st = propagate E rest (dec_degree ds st)" by (simp only: propagate.simps False if_False)
    ultimately show ?thesis by simp
  qed
qed simp

lemma scheduleOne_ready: "scheduleOne E i st = (st', p) \<Longrightarrow> ready st' = ready st"
  by (auto simp: scheduleOne_def skip_node_def send_def launch_def set_status_def emit_def
      split: option.splits if_splits sum.splits)

lemma scheduleReady_size:
  assumes "ready st \<noteq> None"
  shows "ready (scheduleReady E i st) \<noteq> None \<and>
     card (positive E (scheduleReady E i st)) + queue_size (scheduleReady E i st) \<le>
       card (positive E st) + queue_size st"
proof -
  obtain st' p where s: "scheduleOne E i st = (st', p)" by fastforce
  have "ready st' \<noteq> None" "positive E st' = positive E st" "queue_size st' = queue_size st"
    using scheduleOne_ready [OF s] positive_cong [OF scheduleOne_inDegree [OF s]] assms
    by (auto simp: queue_size_def)
  with propagate_size [of st' E "downstream (de_nodes E) i"] show ?thesis
    by (simp add: scheduleReady_def s propagateDownstream_def)
qed

definition drain_pop ::
  "('m, 'v) dag_env \<Rightarrow> pqueue \<Rightarrow> ('m, 'v) dag_state \<Rightarrow> ('m, 'v) dag_state" where
  "drain_pop E q st =
     (let i = fst (pq_pop q);
          st' = scheduleReady E i (st\<lparr>ready := Some (snd (pq_pop q))\<rparr>)
      in if NodeStatus st' i = NodeRunning then st'\<lparr>activePQ := activePQ st' + 1\<rparr> else st')"

definition pq_full :: "('m, 'v) dag_env \<Rightarrow> ('m, 'v) dag_state \<Rightarrow> bool" where
  "pq_full E st \<longleftrightarrow> max (MaxConcurrency (de_cfg E)) 0 > 0 \<and>
     activePQ st \<ge> max (MaxConcurrency (de_cfg E)) 0"

lemma drain_pop_size:
  assumes "ready st = Some q" "\<not> pq_empty q"
  shows "card (positive E (drain_pop E q st)) + queue_size (drain_pop E q st) <
    card (positive E st) + queue_size st"
proof -
  let ?st = "st\<lparr>ready := Some (snd (pq_pop q))\<rparr>"
  have "items q \<noteq> []" using assms(2) by (simp add: pq_empty_def)
  then have "queue_size ?st < queue_size st"
    using length_pq_pop [of q] assms(1) by (simp add: queue_size_def)
  moreover have "positive E ?st = positive E st" by (simp add: positive_def)
  ultimately show ?thesis
    using scheduleReady_size [of ?st E "fst (pq_pop q)"]
    by (auto simp: drain_pop_def Let_def queue_size_def positive_def)
qed

function drainPQ :: "('m, 'v) dag_env \<Rightarrow> ('m, 'v) dag_state \<Rightarrow> ('m, 'v) dag_state" where
  "drainPQ E st =
     (case ready st of
        None \<Rightarrow> st
      | Some q \<Rightarrow>
          (if pq_empty q \<or> pq_full E st then st else drainPQ E (drain_pop E q st)))"
  by pat_completeness auto
termination
proof (relation "measure (\<lambda>(E, st). card (positive E st) + queue_size st)", goal_cases)
  case (2 E st q)
  then show ?case using drain_pop_size [of st q E] by simp
qed simp

declare drainPQ.simps [simp del]

section \<open>Goroutines\<close>

datatype ('m, 'v) worker_event =
    SlotGranted
  | SlotRefused gerror
  | ResourcesGranted
  | ResourcesRefused gerror
  | Returned "('m, 'v) run_response option res"
  | PauseOver
  | PauseCut
  | Released

datatype ('m, 'v) worker_out =
    Go phase nat
  | Finished "('m, 'v) run_response res" node_status "phase option" nat
  | Leave nat

definition has_sem :: "('m, 'v) dag_env \<Rightarrow> bool" where
  "has_sem E \<longleftrightarrow> MaxConcurrency (de_cfg E) > 0 \<and> \<not> HasBackpressure (de_cfg E) \<and>
     \<not> PriorityScheduling (de_cfg E)"

definition sem_cap :: "('m, 'v) dag_env \<Rightarrow> nat" where
  "sem_cap E = nat (MaxConcurrency (de_cfg E))"

definition maxAttempts :: "('m, 'v) dnode \<Rightarrow> int" where
  "maxAttempts n = max (Retries n + 1) 1"

definition nil_response :: "('m, 'v) dnode \<Rightarrow> gerror" where
  "nil_response n = Errorf ''nil response from node %q'' [AStr (ID n)] None"

definition retry_or_fail :: "('m, 'v) dnode \<Rightarrow> nat \<Rightarrow> gerror \<Rightarrow> nat \<Rightarrow> ('m, 'v) worker_out" where
  "retry_or_fail n k err used =
     (if int k < maxAttempts n - 1 then Go (Pausing k err) used
      else Finished (Inl err) NodeFailed (Some Releasing) used)"

text \<open>
  One step of the goroutine of \<open>launchNodeAdvanced\<close>, from the phase it is in.  With
  backpressure the slot is granted or refused by the controller; with a semaphore it is
  granted while there is room and refused when the context is done.  A finished goroutine that
  holds a slot still has to run its deferred releases (\<open>Releasing\<close>).
\<close>

fun worker_step ::
  "('m, 'v) dag_env \<Rightarrow> ('m, 'v) dnode \<Rightarrow> gerror option \<Rightarrow> nat \<Rightarrow> phase \<Rightarrow>
     ('m, 'v) worker_event \<Rightarrow> ('m, 'v) worker_out option" where
  "worker_step E n ctx used AcquireSlot SlotGranted =
     (if has_sem E then (if used < sem_cap E then Some (Go AcquireResources (Suc used)) else None)
      else Some (Go AcquireResources used))"
| "worker_step E n ctx used AcquireSlot (SlotRefused e) =
     (if HasBackpressure (de_cfg E) \<or> has_sem E \<and> ctx = Some e
      then Some (Finished (Inl e) NodeFailed None used) else None)"
| "worker_step E n ctx used AcquireResources ResourcesGranted = Some (Go (Attempting 0) used)"
| "worker_step E n ctx used AcquireResources (ResourcesRefused e) =
     (if HasResources (de_cfg E) \<and> ResourceTags n \<noteq> []
      then Some (Finished (Inl e) NodeFailed (Some Releasing) used) else None)"
| "worker_step E n ctx used (Attempting k) (Returned r) =
     (if Runner n = None then None
      else (case r of
              Inr (Some p) \<Rightarrow> Some (Finished (Inr p) NodeDone (Some Releasing) used)
            | Inr None \<Rightarrow> Some (retry_or_fail n k (nil_response n) used)
            | Inl e \<Rightarrow> Some (retry_or_fail n k e used)))"
| "worker_step E n ctx used (Pausing k err) PauseOver = Some (Go (Attempting (Suc k)) used)"
| "worker_step E n ctx used (Pausing k err) PauseCut =
     (case ctx of
        Some e \<Rightarrow> Some (Finished (Inl e) NodeFailed (Some Releasing) used)
      | None \<Rightarrow> None)"
| "worker_step E n ctx used Releasing Released =
     Some (Leave (if has_sem E then used - 1 else used))"
| "worker_step E n ctx used ph ev = None"

text \<open>The channel has room for \<open>len(nodes)\<close> completions; a send blocks while it is full.\<close>

definition worker_apply ::
  "('m, 'v) dag_env \<Rightarrow> string \<Rightarrow> ('m, 'v) run_request \<Rightarrow> ('m, 'v) worker_out \<Rightarrow>
     ('m, 'v) dag_state \<Rightarrow> ('m, 'v) dag_state option" where
  "worker_apply E i q out st =
     (case out of
        Go ph used \<Rightarrow> Some (st\<lparr>goroutines := (goroutines st)(i \<mapsto> (q, ph)), sem_used := used\<rparr>)
      | Finished r s ph used \<Rightarrow>
          (if length (doneCh st) < length (de_nodes E) then
             Some (send i r (st\<lparr>timeline := recordEnd (now st) (now st) i s (timeline st),
               goroutines := (goroutines st)(i := map_option (Pair q) ph), sem_used := used\<rparr>))
           else None)
      | Leave used \<Rightarrow> Some (st\<lparr>goroutines := (goroutines st)(i := None), sem_used := used\<rparr>))"

definition worker ::
  "('m, 'v) dag_env \<Rightarrow> string \<Rightarrow> ('m, 'v) worker_event \<Rightarrow> ('m, 'v) dag_state \<Rightarrow>
     ('m, 'v) dag_state option" where
  "worker E i ev st =
     (case goroutines st i of
        None \<Rightarrow> None
      | Some (q, ph) \<Rightarrow>
          (case nodeMap E i of
             None \<Rightarrow> None
           | Some n \<Rightarrow>
               (case worker_step E n (ctxErr st) (sem_used st) ph ev of
                  None \<Rightarrow> None
                | Some out \<Rightarrow> worker_apply E i q out st)))"

section \<open>Handling a completion\<close>

definition cancel :: "('m, 'v) dag_state \<Rightarrow> ('m, 'v) dag_state" where
  "cancel st = st\<lparr>ctxErr := (case ctxErr st of None \<Rightarrow> Some CtxCanceled | Some e \<Rightarrow> Some e)\<rparr>"

definition account ::
  "('m, 'v) dag_env \<Rightarrow> ('m, 'v) run_response \<Rightarrow> ('m, 'v) dag_state \<Rightarrow> ('m, 'v) dag_state" where
  "account E p st =
     (case rs_Usage p of
        None \<Rightarrow> st
      | Some u \<Rightarrow> st\<lparr>hasUsage := True, totalUsage := de_add E (totalUsage st) u\<rparr>)"

definition saveCheckpoint ::
  "('m, 'v) dag_env \<Rightarrow> string \<Rightarrow> ('m, 'v) run_response \<Rightarrow> ('m, 'v) dag_state \<Rightarrow> ('m, 'v) dag_state" where
  "saveCheckpoint E i p st =
     (case CheckpointStore (de_cfg E) of
        None \<Rightarrow> st
      | Some cs \<Rightarrow>
          (let st' = st\<lparr>saves := saves st @ [(i, p)]\<rparr> in
           case Save cs i p of
             None \<Rightarrow> st'
           | Some e \<Rightarrow> emit E (OnCheckpointError i e) st'))"

definition settle :: "('m, 'v) dag_env \<Rightarrow> string \<Rightarrow> ('m, 'v) dag_state \<Rightarrow> ('m, 'v) dag_state" where
  "settle E i st = drainPQ E (propagateDownstream E i st)"

text \<open>Leaving the loop: count the running nodes and start draining the channel.\<close>

definition leave_loop ::
  "('m, 'v) dag_env \<Rightarrow> drain_exit \<Rightarrow> ('m, 'v) dag_state \<Rightarrow> ('m, 'v) dag_state" where
  "leave_loop E x st = st\<lparr>mainPhase := MDrain (countRunning E st) x\<rparr>"

definition node_failed :: "string \<Rightarrow> gerror \<Rightarrow> gerror" where
  "node_failed i e = Errorf ''orchestrate: node %q failed: %w'' [AStr i] (Some e)"

definition finish_node ::
  "('m, 'v) dag_env \<Rightarrow> string \<Rightarrow> ('m, 'v) run_response \<Rightarrow> ('m, 'v) dag_state \<Rightarrow> ('m, 'v) dag_state" where
  "finish_node E i p st =
     saveCheckpoint E i p (account E p (emit E (OnNodeComplete i NodeDone None)
       ((set_status i NodeDone st)\<lparr>NodeResults := (NodeResults st)(i := Some p)\<rparr>)))"

definition early_exit :: "('m, 'v) dag_env \<Rightarrow> string \<Rightarrow> ('m, 'v) run_response \<Rightarrow> bool" where
  "early_exit E i p \<longleftrightarrow>
     (case EarlyExitFunc (de_cfg E) of None \<Rightarrow> False | Some f \<Rightarrow> f i p)"

definition handleNodeSuccess ::
  "('m, 'v) dag_env \<Rightarrow> string \<Rightarrow> ('m, 'v) run_response \<Rightarrow> ('m, 'v) dag_state \<Rightarrow> ('m, 'v) dag_state" where
  "handleNodeSuccess E i p st =
     (let st' = finish_node E i p st in
      if early_exit E i p then leave_loop E DrainEarly (cancel st')
      else if ctxErr st' \<noteq> None then leave_loop E DrainCancelled st'
      else settle E i st')"

definition fail_backward ::
  "('m, 'v) dag_env \<Rightarrow> string \<Rightarrow> gerror \<Rightarrow> ('m, 'v) dag_state \<Rightarrow> ('m, 'v) dag_state" where
  "fail_backward E i e st = leave_loop E (DrainCompensate (node_failed i e)) (cancel st)"

definition handleNodeError ::
  "('m, 'v) dag_env \<Rightarrow> string \<Rightarrow> gerror \<Rightarrow> ('m, 'v) dag_state \<Rightarrow> ('m, 'v) dag_state" where
  "handleNodeError E i e st =
     (let st' = emit E (OnNodeComplete i NodeFailed (Some e)) (set_status i NodeFailed st) in
      case nodeMap E i of
        None \<Rightarrow> st'
      | Some n \<Rightarrow>
          if ErrorStrategy (de_cfg E) = CompensateStrategy \<and> CompensateCfg (de_cfg E) \<noteq> None then
            (if Strategy (the (CompensateCfg (de_cfg E))) = ForwardRecovery then
               (case buildNodeInput n (de_req E) (NodeResults st') of
                  Inr q \<Rightarrow> st'\<lparr>mainPhase := MForward i q e\<rparr>
                | Inl _ \<Rightarrow> fail_backward E i e st')
             else fail_backward E i e st')
          else if ErrorStrategy (de_cfg E) = Abort \<or> \<not> Optional n then
            leave_loop E (DrainAbort (node_failed i e)) (cancel st')
          else settle E i (set_status i NodeSkipped st'))"

definition handleCompletion ::
  "('m, 'v) dag_env \<Rightarrow> ('m, 'v) completion \<Rightarrow> ('m, 'v) dag_state \<Rightarrow> ('m, 'v) dag_state" where
  "handleCompletion E c st =
     (let st' = (if ready st \<noteq> None then st\<lparr>activePQ := activePQ st - 1\<rparr> else st) in
      case c_result c of
        Inl e \<Rightarrow> handleNodeError E (c_nodeID c) e st'
      | Inr p \<Rightarrow> handleNodeSuccess E (c_nodeID c) p st')"

text \<open>The return of \<open>executeForwardRecovery\<close>, whose calls of the runner and pauses are
  given by \<open>outs\<close> and \<open>intr\<close>.\<close>

definition forwarded ::
  "('m, 'v) dag_env \<Rightarrow> (nat \<Rightarrow> ('m, 'v) run_response option res) \<Rightarrow> (nat \<Rightarrow> gerror option) \<Rightarrow>
     string \<Rightarrow> gerror \<Rightarrow> ('m, 'v) dag_state \<Rightarrow> ('m, 'v) dag_state option" where
  "forwarded E outs intr i e st =
     (case CompensateCfg (de_cfg E) of
        None \<Rightarrow> None
      | Some cc \<Rightarrow>
          Some (case executeForwardRecovery cc i outs intr of
             Inr p \<Rightarrow>
               (let st' = finish_node E i p st in
                (settle E i (st'\<lparr>timeline := recordEnd (now st') (now st') i NodeDone (timeline st')\<rparr>))
                  \<lparr>mainPhase := MLoop\<rparr>)
           | Inl _ \<Rightarrow> fail_backward E i e st))"

section \<open>Leaving the executor\<close>

definition close_result :: "gerror option \<Rightarrow> ('m, 'v) dag_state \<Rightarrow> ('m, 'v) dag_state" where
  "close_result err st =
     st\<lparr>res_Timeline := timeline_result (timeline st),
        res_Usage := (if hasUsage st then Some (totalUsage st) else res_Usage st),
        mainPhase := MReturned err\<rparr>"

definition done_results ::
  "('m, 'v) dag_env \<Rightarrow> (string \<Rightarrow> bool) \<Rightarrow> ('m, 'v) dag_state \<Rightarrow> ('m, 'v) results" where
  "done_results E P st =
     map (\<lambda>i. (i, NodeResults st i))
       (filter (\<lambda>i. P i \<and> NodeStatus st i = NodeDone) (map ID (de_nodes E)))"

definition is_terminal :: "('m, 'v) dag_env \<Rightarrow> string \<Rightarrow> bool" where
  "is_terminal E i \<longleftrightarrow> downstream (de_nodes E) i = []"

definition final_inputs :: "('m, 'v) dag_env \<Rightarrow> ('m, 'v) dag_state \<Rightarrow> ('m, 'v) results" where
  "final_inputs E st =
     (let term = done_results E (is_terminal E) st
      in if term = [] then done_results E (\<lambda>_. True) st else term)"

definition finalize :: "('m, 'v) dag_env \<Rightarrow> ('m, 'v) dag_state \<Rightarrow> ('m, 'v) dag_state" where
  "finalize E st =
     (let agg = (case Aggregator (de_cfg E) of Some f \<Rightarrow> f | None \<Rightarrow> concatMessagesAggregator) in
      case agg (final_inputs E st) of
        Inl e \<Rightarrow> close_result (Some (Errorf ''orchestrate: aggregation failed: %w'' [] (Some e))) st
      | Inr out \<Rightarrow> close_result None (st\<lparr>FinalOutput := out\<rparr>))"

definition drained ::
  "('m, 'v) dag_env \<Rightarrow> (string \<Rightarrow> nat \<Rightarrow> gerror option) \<Rightarrow> drain_exit \<Rightarrow>
     ('m, 'v) dag_state \<Rightarrow> ('m, 'v) dag_state" where
  "drained E intr x st =
     (case x of
        DrainCtx \<Rightarrow> close_result (ctxErr st) st
      | DrainCancelled \<Rightarrow> close_result (ctxErr st) st
      | DrainAbort e \<Rightarrow> close_result (Some e) st
      | DrainEarly \<Rightarrow> finalize E st
      | DrainCompensate e \<Rightarrow>
          (case executeBackwardCompensation (de_nodes E) (the (CompensateCfg (de_cfg E))) intr
                  (NodeResults st) (NodeStatus st) of
             (_, status', calls) \<Rightarrow>
               close_result (Some e) (st\<lparr>NodeStatus := status', undone := calls\<rparr>)))"

section \<open>Events\<close>

datatype ('m, 'v) event =
    Tick nat
  | Cancelled gerror
  | Worker string "('m, 'v) worker_event"
  | Receive
  | SeeCancel
  | Forwarded "nat \<Rightarrow> ('m, 'v) run_response option res" "nat \<Rightarrow> gerror option"
  | DrainOne
  | Drained "string \<Rightarrow> nat \<Rightarrow> gerror option"
  | AllDone

fun exec_step ::
  "('m, 'v) dag_env \<Rightarrow> ('m, 'v) event \<Rightarrow> ('m, 'v) dag_state \<Rightarrow> ('m, 'v) dag_state option" where
  "exec_step E (Tick d) st = Some (st\<lparr>now := now st + int d\<rparr>)"
| "exec_step E (Cancelled e) st =
     (if ctxErr st = None then Some (st\<lparr>ctxErr := Some e\<rparr>) else None)"
| "exec_step E (Worker i ev) st = worker E i ev st"
| "exec_step E Receive st =
     (if mainPhase st = MLoop \<and> pending st > 0 then
        (case doneCh st of
           [] \<Rightarrow> None
         | c # rest \<Rightarrow>
             Some (handleCompletion E c (st\<lparr>doneCh := rest, pending := pending st - 1\<rparr>)))
      else None)"
| "exec_step E SeeCancel st =
     (if mainPhase st = MLoop \<and> pending st > 0 \<and> ctxErr st \<noteq> None
      then Some (leave_loop E DrainCtx st) else None)"
| "exec_step E (Forwarded outs intr) st =
     (case mainPhase st of MForward i q e \<Rightarrow> forwarded E outs intr i e st | _ \<Rightarrow> None)"
| "exec_step E DrainOne st =
     (case mainPhase st of
        MDrain (Suc k) x \<Rightarrow>
          (case doneCh st of
             [] \<Rightarrow> None
           | c # rest \<Rightarrow> Some (st\<lparr>doneCh := rest, mainPhase := MDrain k x\<rparr>))
      | _ \<Rightarrow> None)"
| "exec_step E (Drained intr) st =
     (case mainPhase st of MDrain 0 x \<Rightarrow> Some (drained E intr x st) | _ \<Rightarrow> None)"
| "exec_step E AllDone st =
     (if mainPhase st = MLoop \<and> pending st \<le> 0 then Some (finalize E st) else None)"

fun exec_events ::
  "('m, 'v) dag_env \<Rightarrow> ('m, 'v) event list \<Rightarrow> ('m, 'v) dag_state \<Rightarrow> ('m, 'v) dag_state option" where
  "exec_events E [] st = Some st"
| "exec_events E (ev # evs) st =
     (case exec_step E ev st of None \<Rightarrow> None | Some st' \<Rightarrow> exec_events E evs st')"

section \<open>Starting\<close>

definition auto_priority :: "('m, 'v) dnode list \<Rightarrow> ('m, 'v) dnode \<Rightarrow> ('m, 'v) dnode" where
  "auto_priority nodes n =
     (if Priority n = 0 then n\<lparr>Priority := ComputeCriticalPath nodes (ID n)\<rparr> else n)"

definition load_checkpoints ::
  "('m, 'v) dag_config \<Rightarrow> (string \<rightharpoonup> ('m, 'v) run_response option) res" where
  "load_checkpoints cfg =
     (case CheckpointStore cfg of
        None \<Rightarrow> Inr Map.empty
      | Some cs \<Rightarrow>
          (case LoadAll cs of
             Inl e \<Rightarrow> Inl (Errorf ''orchestrate: failed to load checkpoints: %w'' [] (Some e))
           | Inr m \<Rightarrow> Inr m))"

definition resumed :: "('m, 'v) dnode list \<Rightarrow> (string \<rightharpoonup> ('m, 'v) run_response option) \<Rightarrow> string \<Rightarrow> bool" where
  "resumed nodes cp i \<longleftrightarrow> i \<in> ID ` set nodes \<and> cp i \<noteq> None"

text \<open>\<open>inDegree[dsID]--\<close> for every successor of a node that is already done.\<close>

definition resume_degrees ::
  "('m, 'v) dnode list \<Rightarrow> (string \<Rightarrow> bool) \<Rightarrow> (string \<Rightarrow> int) \<Rightarrow> (string \<Rightarrow> int)" where
  "resume_degrees nodes isDone indeg =
     fold (\<lambda>n m. if isDone (ID n) then fold (\<lambda>d m. m(d := m d - 1)) (downstream nodes (ID n)) m else m)
       nodes indeg"

definition initial_state ::
  "('m, 'v) dag_config \<Rightarrow> ('m, 'v) dnode list \<Rightarrow> (string \<rightharpoonup> ('m, 'v) run_response option) \<Rightarrow> int \<Rightarrow>
     gerror option \<Rightarrow> ('m, 'v) dag_state" where
  "initial_state cfg nodes cp t ctx =
     \<lparr>NodeStatus = (\<lambda>i. if resumed nodes cp i then NodeDone else NodePending),
      NodeResults = (\<lambda>i. if resumed nodes cp i then the (cp i) else None),
      FinalOutput = None, res_Usage = None, res_Timeline = [],
      timeline = newTimelineTracker, now = t,
      ready = (if PriorityScheduling cfg then Some newPriorityQueue else None),
      activePQ = 0, doneCh = [],
      pending = int (length (filter (\<lambda>n. \<not> resumed nodes cp (ID n)) nodes)),
      ctxErr = ctx,
      inDegree = resume_degrees nodes (resumed nodes cp) (in_degree nodes),
      totalUsage = usage_zero, hasUsage = False, goroutines = Map.empty, sem_used = 0,
      handlerLog = [], saves = [], undone = [], mainPhase = MLoop\<rparr>"

definition newDagExecutor ::
  "('m, 'v) dag_config \<Rightarrow> ('m, 'v) dnode list \<Rightarrow> ('m, 'v) run_request \<Rightarrow> (usage \<Rightarrow> usage \<Rightarrow> usage) \<Rightarrow>
     int \<Rightarrow> gerror option \<Rightarrow> (('m, 'v) dag_env \<times> ('m, 'v) dag_state) res" where
  "newDagExecutor cfg nodes req add t ctx =
     (case ValidateDAG nodes of
        Some e \<Rightarrow> Inl e
      | None \<Rightarrow>
          (let nodes' = (if PriorityScheduling cfg \<and> CriticalPathAuto cfg
                         then map (auto_priority nodes) nodes else nodes) in
           case load_checkpoints cfg of
             Inl e \<Rightarrow> Inl e
           | Inr cp \<Rightarrow>
               Inr (\<lparr>de_cfg = cfg, de_nodes = nodes', de_req = req, de_add = add\<rparr>,
                    initial_state cfg nodes' cp t ctx)))"

fun enqueue_all ::
  "('m, 'v) dag_env \<Rightarrow> ('m, 'v) dnode list \<Rightarrow> ('m, 'v) dag_state \<Rightarrow> ('m, 'v) dag_state" where
  "enqueue_all E [] st = st"
| "enqueue_all E (n # ns) st =
     enqueue_all E ns
       (if inDegree st (ID n) = 0 \<and> NodeStatus st (ID n) = NodePending
        then enqueueReady E (ID n) st else st)"

definition start_run :: "('m, 'v) dag_env \<Rightarrow> ('m, 'v) dag_state \<Rightarrow> ('m, 'v) dag_state" where
  "start_run E st = drainPQ E (enqueue_all E (de_nodes E) st)"

text \<open>\<open>ExecuteDAG\<close>: an empty graph returns the request's messages at once; otherwise the
  executor is set up and the loop entered.\<close>

datatype ('m, 'v) dag_start =
    EmptyResult "('m, 'v) run_response"
  | Started "('m, 'v) dag_env" "('m, 'v) dag_state"

definition ExecuteDAG ::
  "('m, 'v) dag_config \<Rightarrow> ('m, 'v) dnode list \<Rightarrow> ('m, 'v) run_request \<Rightarrow> (usage \<Rightarrow> usage \<Rightarrow> usage) \<Rightarrow>
     int \<Rightarrow> gerror option \<Rightarrow> ('m, 'v) dag_start res" where
  "ExecuteDAG cfg nodes req add t ctx =
     (if nodes = [] then
        Inr (EmptyResult (response_zero\<lparr>rs_Messages := rq_Messages req, rs_SessionID := rq_SessionID req\<rparr>))
      else
        (case newDagExecutor cfg nodes req add t ctx of
           Inl e \<Rightarrow> Inl e
         | Inr (E, st) \<Rightarrow> Inr (Started E (start_run E st))))"

text \<open>The states an execution can be in.\<close>

inductive reaches ::
  "('m, 'v) dag_env \<Rightarrow> ('m, 'v) dag_state \<Rightarrow> ('m, 'v) dag_state \<Rightarrow> bool"
  for E st0 where
  reaches_start: "reaches E st0 st0"
| reaches_step: "reaches E st0 st \<Longrightarrow> exec_step E ev st = Some st' \<Longrightarrow> reaches E st0 st'"

lemma exec_events_reaches: "reaches E st0 st \<Longrightarrow> exec_events E evs st = Some st' \<Longrightarrow> reaches E st0 st'"
  by (induction evs arbitrary: st) (auto intro: reaches_step split: option.splits)

end
