(* ===== verification/DagInv.thy ===== *)
theory DagInv
  imports DagExec
begin

text \<open>
  The invariant of the executor.  \<open>core\<close> holds whenever the event loop is between two
  handlers; while a completion is being propagated it is relative to the successors still to be
  notified (\<open>W\<close>), to the nodes that are about to be scheduled (\<open>T\<close>) and to the failed node that
  is being handled (\<open>F\<close>).
\<close>

section \<open>Sets of nodes\<close>

definition node_ids :: "('m, 'v) dag_env \<Rightarrow> string set" where
  "node_ids E = ID ` set (de_nodes E)"

definition with_status :: "node_status \<Rightarrow> ('m, 'v) dag_env \<Rightarrow> ('m, 'v) dag_state \<Rightarrow> string set" where
  "with_status s E st = {i \<in> node_ids E. NodeStatus st i = s}"

definition settled :: "('m, 'v) dag_state \<Rightarrow> string set" where
  "settled st = {i. NodeStatus st i = NodeDone \<or> NodeStatus st i = NodeSkipped}"

definition ready_set :: "('m, 'v) dag_env \<Rightarrow> ('m, 'v) dag_state \<Rightarrow> string set" where
  "ready_set E st = {i \<in> node_ids E. NodeStatus st i = NodePending \<and> inDegree st i = 0}"

definition alive :: "('m, 'v) dag_state \<Rightarrow> string set" where
  "alive st = {i. \<exists>q ph. goroutines st i = Some (q, ph) \<and> ph \<noteq> Releasing}"

definition holders :: "('m, 'v) dag_state \<Rightarrow> string set" where
  "holders st = {i. \<exists>q ph. goroutines st i = Some (q, ph) \<and> ph \<noteq> AcquireSlot}"

abbreviation sent :: "('m, 'v) dag_state \<Rightarrow> string list" where
  "sent st \<equiv> map c_nodeID (doneCh st)"

lemma finite_node_ids [simp, intro]: "finite (node_ids E)"
  by (simp add: node_ids_def)

lemma finite_with_status [simp, intro]: "finite (with_status s E st)"
  by (simp add: with_status_def)

lemma finite_ready_set [simp, intro]: "finite (ready_set E st)"
  by (simp add: ready_set_def)

section \<open>The invariant\<close>

definition status_ok :: "('m, 'v) dag_env \<Rightarrow> string set \<Rightarrow> ('m, 'v) dag_state \<Rightarrow> bool" where
  "status_ok E F st \<longleftrightarrow>
     (\<forall>i. i \<notin> node_ids E \<longrightarrow> NodeStatus st i = NodePending) \<and>
     (\<forall>i. NodeStatus st i = NodeFailed \<longleftrightarrow> i \<in> F) \<and> (\<forall>i. NodeStatus st i \<noteq> NodeCompensated)"

definition degree_ok :: "('m, 'v) dag_env \<Rightarrow> string list \<Rightarrow> ('m, 'v) dag_state \<Rightarrow> bool" where
  "degree_ok E W st \<longleftrightarrow>
     (\<forall>n\<in>set (de_nodes E). inDegree st (ID n) = int (unmet (settled st) n) + int (count_list W (ID n)))"

text \<open>A node that is not pending any more, and was not loaded from a checkpoint, has had all its
  dependencies settled; a loaded node stays done.\<close>

definition deps_ok :: "('m, 'v) dag_env \<Rightarrow> string set \<Rightarrow> ('m, 'v) dag_state \<Rightarrow> bool" where
  "deps_ok E cp st \<longleftrightarrow>
     (\<forall>i\<in>cp. NodeStatus st i = NodeDone) \<and>
     (\<forall>n\<in>set (de_nodes E). NodeStatus st (ID n) \<noteq> NodePending \<longrightarrow> ID n \<notin> cp \<longrightarrow>
        set (Deps n) \<subseteq> settled st)"

definition graph_inv ::
  "('m, 'v) dag_env \<Rightarrow> string set \<Rightarrow> string list \<Rightarrow> string set \<Rightarrow> ('m, 'v) dag_state \<Rightarrow> bool" where
  "graph_inv E cp W F st \<longleftrightarrow>
     set W \<subseteq> node_ids E \<and> status_ok E F st \<and> degree_ok E W st \<and> deps_ok E cp st"

definition queue_is :: "('m, 'v) dag_state \<Rightarrow> string set \<Rightarrow> bool" where
  "queue_is st X \<longleftrightarrow>
     (case ready st of None \<Rightarrow> X = {} | Some q \<Rightarrow> pq_invar q \<and> pq.ids q = mset_set X)"

definition count_inv :: "('m, 'v) dag_env \<Rightarrow> ('m, 'v) dag_state \<Rightarrow> bool" where
  "count_inv E st \<longleftrightarrow>
     pending st = int (card (with_status NodePending E st)) + int (card (with_status NodeRunning E st))"

definition chan_inv :: "('m, 'v) dag_env \<Rightarrow> ('m, 'v) dag_state \<Rightarrow> bool" where
  "chan_inv E st \<longleftrightarrow>
     distinct (sent st) \<and> set (sent st) \<inter> alive st = {} \<and>
     set (sent st) \<union> alive st = with_status NodeRunning E st \<and>
     (\<forall>i. NodeStatus st i = NodePending \<longrightarrow> goroutines st i = None)"

definition phase_ok :: "('m, 'v) dag_env \<Rightarrow> ('m, 'v) dag_state \<Rightarrow> bool" where
  "phase_ok E st \<longleftrightarrow>
     (\<forall>i q k e n. goroutines st i = Some (q, Pausing k e) \<longrightarrow> nodeMap E i = Some n \<longrightarrow>
        int k < maxAttempts n - 1)"

definition sem_inv :: "('m, 'v) dag_env \<Rightarrow> ('m, 'v) dag_state \<Rightarrow> bool" where
  "sem_inv E st \<longleftrightarrow>
     dom (goroutines st) \<subseteq> node_ids E \<and> phase_ok E st \<and>
     (has_sem E \<longrightarrow> sem_used st = card (holders st) \<and> sem_used st \<le> sem_cap E)"

definition core ::
  "('m, 'v) dag_env \<Rightarrow> string set \<Rightarrow> string list \<Rightarrow> string set \<Rightarrow> string set \<Rightarrow>
     ('m, 'v) dag_state \<Rightarrow> bool" where
  "core E cp W T F st \<longleftrightarrow>
     graph_inv E cp W F st \<and> queue_is st (ready_set E st - T) \<and> count_inv E st \<and>
     chan_inv E st \<and> sem_inv E st"

lemma phase_okI:
  assumes "phase_ok E st"
    and "\<And>i q k e. goroutines st' i = Some (q, Pausing k e) \<Longrightarrow> goroutines st i = Some (q, Pausing k e)"
  shows "phase_ok E st'"
  unfolding phase_ok_def
proof (intro allI impI)
  fix i q k e n
  assume "goroutines st' i = Some (q, Pausing k e)" "nodeMap E i = Some n"
  with assms show "int k < maxAttempts n - 1" unfolding phase_ok_def by blast
qed

lemma coreI:
  "graph_inv E cp W F st \<Longrightarrow> queue_is st (ready_set E st - T) \<Longrightarrow> count_inv E st \<Longrightarrow> chan_inv E st \<Longrightarrow>
     sem_inv E st \<Longrightarrow> core E cp W T F st"
  by (simp add: core_def)

lemma coreD:
  assumes "core E cp W T F st"
  shows "set W \<subseteq> node_ids E" "status_ok E F st" "degree_ok E W st" "deps_ok E cp st"
    "queue_is st (ready_set E st - T)" "count_inv E st" "chan_inv E st" "sem_inv E st"
  using assms by (simp_all add: core_def graph_inv_def)

lemma core_cong:
  assumes "NodeStatus st' = NodeStatus st" "inDegree st' = inDegree st" "pending st' = pending st"
    "ready st' = ready st" "doneCh st' = doneCh st" "goroutines st' = goroutines st"
    "sem_used st' = sem_used st"
  shows "core E cp W T F st' \<longleftrightarrow> core E cp W T F st"
  by (simp add: core_def graph_inv_def status_ok_def degree_ok_def deps_ok_def queue_is_def count_inv_def
      chan_inv_def sem_inv_def phase_ok_def settled_def ready_set_def with_status_def alive_def holders_def assms)

lemma nodeMap_node:
  assumes "valid_dag (de_nodes E)" "n \<in> set (de_nodes E)"
  shows "nodeMap E (ID n) = Some n"
  using assms index_by_Some [of ID "de_nodes E" "ID n" n] by (simp add: valid_dag_def)

lemma node_of_id:
  assumes "i \<in> node_ids E" "valid_dag (de_nodes E)"
  obtains n where "n \<in> set (de_nodes E)" "ID n = i" "nodeMap E i = Some n"
  using assms nodeMap_node by (fastforce simp: node_ids_def)

section \<open>One step of propagation\<close>

lemma ready_set_dec:
  assumes "core E cp (ds # W) T F st" "valid_dag (de_nodes E)"
  shows "ds \<in> node_ids E" "ds \<notin> ready_set E st"
    "ready_set E (dec_degree ds st) =
      (if inDegree st ds - 1 = 0 \<and> NodeStatus st ds = NodePending
       then insert ds (ready_set E st) else ready_set E st)"
proof -
  show ds: "ds \<in> node_ids E" using assms(1) by (simp add: core_def graph_inv_def)
  then obtain n where "n \<in> set (de_nodes E)" "ID n = ds" using assms(2) by (rule node_of_id)
  then have "inDegree st ds > 0" using coreD(3) [OF assms(1)] by (auto simp: degree_ok_def)
  then show "ds \<notin> ready_set E st" by (simp add: ready_set_def)
  with ds \<open>inDegree st ds > 0\<close> show "ready_set E (dec_degree ds st) =
      (if inDegree st ds - 1 = 0 \<and> NodeStatus st ds = NodePending
       then insert ds (ready_set E st) else ready_set E st)"
    by (auto simp: ready_set_def dec_degree_def split: if_splits)
qed

lemma dec_degree_simps [simp]:
  "NodeStatus (dec_degree ds st) = NodeStatus st" "ready (dec_degree ds st) = ready st"
  "pending (dec_degree ds st) = pending st" "doneCh (dec_degree ds st) = doneCh st"
  "goroutines (dec_degree ds st) = goroutines st" "sem_used (dec_degree ds st) = sem_used st"
  "activePQ (dec_degree ds st) = activePQ st" "mainPhase (dec_degree ds st) = mainPhase st"
  by (simp_all add: dec_degree_def)

lemma with_status_cong: "NodeStatus st' = NodeStatus st \<Longrightarrow> with_status s E st' = with_status s E st"
  by (simp add: with_status_def)

lemma settled_cong: "NodeStatus st' = NodeStatus st \<Longrightarrow> settled st' = settled st"
  by (simp add: settled_def)

lemma chan_cong:
  "NodeStatus st' = NodeStatus st \<Longrightarrow> doneCh st' = doneCh st \<Longrightarrow> goroutines st' = goroutines st \<Longrightarrow>
     chan_inv E st' = chan_inv E st"
  by (simp add: chan_inv_def with_status_def alive_def)

lemma sem_cong:
  "goroutines st' = goroutines st \<Longrightarrow> sem_used st' = sem_used st \<Longrightarrow> sem_inv E st' = sem_inv E st"
  by (simp add: sem_inv_def phase_ok_def holders_def)

lemma count_cong:
  "NodeStatus st' = NodeStatus st \<Longrightarrow> pending st' = pending st \<Longrightarrow> count_inv E st' = count_inv E st"
  by (simp add: count_inv_def with_status_def)

lemma graph_cong:
  "NodeStatus st' = NodeStatus st \<Longrightarrow> status_ok E F st' = status_ok E F st"
  "NodeStatus st' = NodeStatus st \<Longrightarrow> deps_ok E cp st' = deps_ok E cp st"
  by (simp_all add: status_ok_def deps_ok_def settled_def)

lemma core_dec:
  assumes C: "core E cp (ds # W) T F st" and v: "valid_dag (de_nodes E)"
  shows "core E cp W (if inDegree st ds - 1 = 0 \<and> NodeStatus st ds = NodePending then insert ds T else T) F
    (dec_degree ds st)"
proof (rule coreI)
  note R = ready_set_dec [OF C v]
  have "degree_ok E W (dec_degree ds st)"
    using coreD(3) [OF C] by (auto simp: degree_ok_def dec_degree_def settled_def)
  then show "graph_inv E cp W F (dec_degree ds st)"
    using coreD(1,2,4) [OF C] graph_cong [of "dec_degree ds st" st] by (simp add: graph_inv_def)
  have "ready_set E (dec_degree ds st) -
      (if inDegree st ds - 1 = 0 \<and> NodeStatus st ds = NodePending then insert ds T else T) =
      ready_set E st - T"
    using R(2) unfolding R(3) by auto
  then show "queue_is (dec_degree ds st) (ready_set E (dec_degree ds st) -
      (if inDegree st ds - 1 = 0 \<and> NodeStatus st ds = NodePending then insert ds T else T))"
    using coreD(5) [OF C] by (simp only:) (simp add: queue_is_def)
qed (use coreD [OF C] chan_cong [of "dec_degree ds st" st E] sem_cong [of "dec_degree ds st" st E]
    count_cong [of "dec_degree ds st" st E] in simp_all)

lemma core_push:
  assumes C: "core E cp W (insert ds T) F st" and v: "valid_dag (de_nodes E)"
    and q: "ready st = Some q" and ds: "ds \<in> ready_set E st" "ds \<notin> T"
  shows "core E cp W T F (push_ready E ds q st)" and "ready (push_ready E ds q st) \<noteq> None"
    and "NodeStatus (push_ready E ds q st) = NodeStatus st" "activePQ (push_ready E ds q st) = activePQ st"
    and "inDegree (push_ready E ds q st) = inDegree st"
proof -
  have "ds \<in> node_ids E" using ds by (simp add: ready_set_def)
  then obtain n where n: "nodeMap E ds = Some n" using v by (rule node_of_id)
  define st' where "st' = st\<lparr>ready := Some (pq_push q ds (Priority n))\<rparr>"
  have eq: "push_ready E ds q st = st'" by (simp add: push_ready_def n st'_def)
  have f: "NodeStatus st' = NodeStatus st" "inDegree st' = inDegree st" "pending st' = pending st"
    "doneCh st' = doneCh st" "goroutines st' = goroutines st" "sem_used st' = sem_used st"
    "ready st' = Some (pq_push q ds (Priority n))" "activePQ st' = activePQ st"
    by (simp_all add: st'_def)
  have qi: "pq_invar q" "pq.ids q = mset_set (ready_set E st - insert ds T)"
    using coreD(5) [OF C] q by (simp_all add: queue_is_def)
  have "ready_set E st - T = insert ds (ready_set E st - insert ds T)" using ds by auto
  then have ms: "mset_set (ready_set E st - T) = add_mset ds (mset_set (ready_set E st - insert ds T))"
    by (metis Diff_iff finite_Diff finite_ready_set insertI1 mset_set.insert)
  have rs: "ready_set E st' = ready_set E st" by (simp add: ready_set_def f)
  have "core E cp W T F st'"
  proof (rule coreI)
    show "queue_is st' (ready_set E st' - T)"
      unfolding rs queue_is_def f(7)
      by (simp only: option.case pq.ids_push [OF qi(1)] pq.invar_push [OF qi(1)] qi(2) ms simp_thms)
    show "graph_inv E cp W F st'"
      using coreD(1-4) [OF C] by (simp add: graph_inv_def graph_cong [OF f(1)] f(2) degree_ok_def settled_cong [OF f(1)])
    show "count_inv E st'" using coreD(6) [OF C] count_cong [OF f(1,3)] by simp
    show "chan_inv E st'" using coreD(7) [OF C] chan_cong [OF f(1,4,5)] by simp
    show "sem_inv E st'" using coreD(8) [OF C] sem_cong [OF f(5,6)] by simp
  qed
  then show "core E cp W T F (push_ready E ds q st)" by (simp add: eq)
  show "ready (push_ready E ds q st) \<noteq> None" "NodeStatus (push_ready E ds q st) = NodeStatus st"
    "activePQ (push_ready E ds q st) = activePQ st" "inDegree (push_ready E ds q st) = inDegree st"
    by (simp_all add: eq f)
qed

section \<open>Scheduling one node\<close>

text \<open>What scheduling a pending node amounts to: it is skipped, it fails at once because its
  input cannot be built, or its goroutine is launched.\<close>

lemma scheduleOne_cases:
  assumes "nodeMap E i = Some n" "NodeStatus st i = NodePending" "ID n = i"
  obtains (skipped) "scheduleOne E i st = (skip_node i st, True)"
  | (failed) e where "scheduleOne E i st = (send i (Inl e) (set_status i NodeRunning st), False)"
  | (launched) q where "scheduleOne E i st = (launch n q (emit E (OnNodeStart i) st), False)"
  using assms by (cases "condition_false n st"; cases "buildNodeInput n (de_req E) (NodeResults st)")
    (auto simp: scheduleOne_def)

lemma emit_simps [simp]:
  "NodeStatus (emit E e st) = NodeStatus st" "inDegree (emit E e st) = inDegree st"
  "pending (emit E e st) = pending st" "ready (emit E e st) = ready st"
  "doneCh (emit E e st) = doneCh st" "goroutines (emit E e st) = goroutines st"
  "sem_used (emit E e st) = sem_used st" "activePQ (emit E e st) = activePQ st"
  "mainPhase (emit E e st) = mainPhase st" "ctxErr (emit E e st) = ctxErr st"
  "timeline (emit E e st) = timeline st" "now (emit E e st) = now st"
  "NodeResults (emit E e st) = NodeResults st"
  by (simp_all add: emit_def)

lemma launch_simps [simp]:
  "NodeStatus (launch n q st) = (NodeStatus st)(ID n := NodeRunning)"
  "inDegree (launch n q st) = inDegree st" "pending (launch n q st) = pending st"
  "ready (launch n q st) = ready st" "doneCh (launch n q st) = doneCh st"
  "goroutines (launch n q st) = (goroutines st)(ID n \<mapsto> (q, AcquireSlot))"
  "sem_used (launch n q st) = sem_used st" "activePQ (launch n q st) = activePQ st"
  "mainPhase (launch n q st) = mainPhase st"
  by (simp_all add: launch_def set_status_def)

lemma send_simps [simp]:
  "NodeStatus (send i r st) = NodeStatus st" "inDegree (send i r st) = inDegree st"
  "pending (send i r st) = pending st" "ready (send i r st) = ready st"
  "sent (send i r st) = sent st @ [i]" "goroutines (send i r st) = goroutines st"
  "sem_used (send i r st) = sem_used st" "activePQ (send i r st) = activePQ st"
  "mainPhase (send i r st) = mainPhase st"
  by (simp_all add: send_def)

lemma skip_node_simps [simp]:
  "NodeStatus (skip_node i st) = (NodeStatus st)(i := NodeSkipped)"
  "inDegree (skip_node i st) = inDegree st" "pending (skip_node i st) = pending st - 1"
  "ready (skip_node i st) = ready st" "doneCh (skip_node i st) = doneCh st"
  "goroutines (skip_node i st) = goroutines st" "sem_used (skip_node i st) = sem_used st"
  "activePQ (skip_node i st) = activePQ st" "mainPhase (skip_node i st) = mainPhase st"
  by (simp_all add: skip_node_def set_status_def)

lemma set_status_simps [simp]:
  "NodeStatus (set_status i s st) = (NodeStatus st)(i := s)"
  "inDegree (set_status i s st) = inDegree st" "pending (set_status i s st) = pending st"
  "ready (set_status i s st) = ready st" "doneCh (set_status i s st) = doneCh st"
  "goroutines (set_status i s st) = goroutines st" "sem_used (set_status i s st) = sem_used st"
  "activePQ (set_status i s st) = activePQ st" "mainPhase (set_status i s st) = mainPhase st"
  by (simp_all add: set_status_def)

lemma unmet_zero_ready:
  assumes "core E cp W T F st" "valid_dag (de_nodes E)" "n \<in> set (de_nodes E)" "ID n \<in> ready_set E st"
  shows "set (Deps n) \<subseteq> settled st" "count_list W (ID n) = 0"
proof -
  have "int (unmet (settled st) n) + int (count_list W (ID n)) = 0"
    using coreD(3) [OF assms(1)] assms(3,4) by (auto simp: degree_ok_def ready_set_def)
  then show "set (Deps n) \<subseteq> settled st" "count_list W (ID n) = 0" by (simp_all flip: unmet_0_iff)
qed

text \<open>Settling a node whose successors go to the front of the work list.\<close>

lemma degree_settle:
  assumes d: "degree_ok E W st" and v: "valid_dag (de_nodes E)"
    and i: "i \<notin> settled st" and s: "settled st' = insert i (settled st)" and f: "inDegree st' = inDegree st"
  shows "degree_ok E (downstream (de_nodes E) i @ W) st'"
  unfolding degree_ok_def
proof
  fix n assume n: "n \<in> set (de_nodes E)"
  have "count_list (downstream (de_nodes E) i) (ID n) = count_list (Deps n) i"
    using v n by (intro count_downstream) (simp_all add: valid_dag_def)
  with unmet_insert [OF i, of n] d n show "inDegree st' (ID n) =
      int (unmet (settled st') n) + int (count_list (downstream (de_nodes E) i @ W) (ID n))"
    by (simp add: degree_ok_def s f)
qed

lemma deps_settle:
  assumes "deps_ok E cp st" "settled st \<subseteq> settled st'"
    and keep: "\<And>i. NodeStatus st i = NodeDone \<Longrightarrow> NodeStatus st' i = NodeDone"
    and "\<And>n. n \<in> set (de_nodes E) \<Longrightarrow> NodeStatus st' (ID n) \<noteq> NodePending \<Longrightarrow>
      NodeStatus st (ID n) = NodePending \<Longrightarrow> set (Deps n) \<subseteq> settled st"
  shows "deps_ok E cp st'"
  unfolding deps_ok_def
proof (intro conjI ballI impI)
  fix i assume "i \<in> cp"
  then show "NodeStatus st' i = NodeDone" using assms(1) keep by (simp add: deps_ok_def)
next
  fix n assume n: "n \<in> set (de_nodes E)" "NodeStatus st' (ID n) \<noteq> NodePending" "ID n \<notin> cp"
  then have "set (Deps n) \<subseteq> settled st"
    using assms(1,4) by (cases "NodeStatus st (ID n) = NodePending") (auto simp: deps_ok_def)
  with assms(2) show "set (Deps n) \<subseteq> settled st'" by blast
qed

lemma card_move:
  assumes "i \<in> A" "finite A"
  shows "int (card (A - {i})) = int (card A) - 1"
  using assms card_Suc_Diff1 [of A i] by linarith

lemma not_failed: "status_ok E F st \<Longrightarrow> NodeStatus st i \<noteq> NodeFailed \<Longrightarrow> i \<notin> F"
  by (auto simp: status_ok_def)

lemma core_skip:
  assumes C: "core E cp W (insert i T) F st" and v: "valid_dag (de_nodes E)" and i: "i \<in> ready_set E st"
  shows "core E cp (downstream (de_nodes E) i @ W) T F (skip_node i st)"
proof (rule coreI)
  let ?st = "skip_node i st"
  have p: "NodeStatus st i = NodePending" and ids: "i \<in> node_ids E" using i by (auto simp: ready_set_def)
  have notin: "i \<notin> settled st" using p by (simp add: settled_def)
  have s: "settled ?st = insert i (settled st)" by (auto simp: settled_def p)
  have "status_ok E F ?st"
    using coreD(2) [OF C] p ids not_failed [OF coreD(2) [OF C], of i] by (auto simp: status_ok_def)
  moreover have "deps_ok E cp ?st"
  proof (rule deps_settle [OF coreD(4) [OF C]])
    show "settled st \<subseteq> settled ?st" using s by auto
    show "NodeStatus ?st j = NodeDone" if "NodeStatus st j = NodeDone" for j using that p by auto
    fix n assume n: "n \<in> set (de_nodes E)" "NodeStatus ?st (ID n) \<noteq> NodePending" "NodeStatus st (ID n) = NodePending"
    then have "ID n = i" by (auto split: if_splits)
    with unmet_zero_ready(1) [OF C v n(1)] i show "set (Deps n) \<subseteq> settled st" by simp
  qed
  moreover have "set (downstream (de_nodes E) i @ W) \<subseteq> node_ids E"
    using coreD(1) [OF C] set_downstream_ids [of "de_nodes E" i] by (auto simp: node_ids_def)
  ultimately show "graph_inv E cp (downstream (de_nodes E) i @ W) F ?st"
    using degree_settle [OF coreD(3) [OF C] v notin s] by (simp add: graph_inv_def)
  have r: "ready_set E ?st - T = ready_set E st - insert i T" by (auto simp: ready_set_def)
  show "queue_is ?st (ready_set E ?st - T)"
    using coreD(5) [OF C] unfolding r by (simp add: queue_is_def)
  have wp: "with_status NodePending E ?st = with_status NodePending E st - {i}"
    and wr: "with_status NodeRunning E ?st = with_status NodeRunning E st"
    using p by (auto simp: with_status_def)
  have "i \<in> with_status NodePending E st" using p ids by (simp add: with_status_def)
  then show "count_inv E ?st"
    using coreD(6) [OF C] card_move [of i "with_status NodePending E st"] by (simp add: count_inv_def wp wr)
  show "chan_inv E ?st"
    using coreD(7) [OF C] wr by (auto simp: chan_inv_def alive_def)
  show "sem_inv E ?st"
    using coreD(8) [OF C] sem_cong [of ?st st E] by simp
qed

text \<open>A node that starts running, with a completion in the channel or a goroutine.\<close>

lemma core_run:
  assumes C: "core E cp W (insert i T) F st" and v: "valid_dag (de_nodes E)" and i: "i \<in> ready_set E st"
    and f: "NodeStatus st' = (NodeStatus st)(i := NodeRunning)" "inDegree st' = inDegree st"
      "pending st' = pending st" "ready st' = ready st" "sem_used st' = sem_used st"
    and g: "sent st' = sent st @ [i] \<and> goroutines st' = goroutines st \<or>
      sent st' = sent st \<and> goroutines st' = (goroutines st)(i \<mapsto> (q, AcquireSlot))"
  shows "core E cp W T F st'"
proof (rule coreI)
  have p: "NodeStatus st i = NodePending" and ids: "i \<in> node_ids E" using i by (auto simp: ready_set_def)
  have s: "settled st' = settled st" by (auto simp: settled_def f p)
  have gi: "goroutines st i = None" using coreD(7) [OF C] p by (simp add: chan_inv_def)
  have "status_ok E F st'" 
    using coreD(2) [OF C] p ids not_failed [OF coreD(2) [OF C], of i] by (auto simp: status_ok_def f)
  moreover have "deps_ok E cp st'"
  proof (rule deps_settle [OF coreD(4) [OF C]])
    show "settled st \<subseteq> settled st'" using s by auto
    show "NodeStatus st' j = NodeDone" if "NodeStatus st j = NodeDone" for j using that p by (auto simp: f)
    fix n assume n: "n \<in> set (de_nodes E)" "NodeStatus st' (ID n) \<noteq> NodePending" "NodeStatus st (ID n) = NodePending"
    then have "ID n = i" by (auto simp: f split: if_splits)
    with unmet_zero_ready(1) [OF C v n(1)] i show "set (Deps n) \<subseteq> settled st" by simp
  qed
  moreover have "degree_ok E W st'" using coreD(3) [OF C] by (simp add: degree_ok_def s f)
  ultimately show "graph_inv E cp W F st'" using coreD(1) [OF C] by (simp add: graph_inv_def)
  have r: "ready_set E st' - T = ready_set E st - insert i T" by (auto simp: ready_set_def f)
  show "queue_is st' (ready_set E st' - T)"
    using coreD(5) [OF C] unfolding r by (simp add: queue_is_def f)
  have wp: "with_status NodePending E st' = with_status NodePending E st - {i}"
    and wr: "with_status NodeRunning E st' = insert i (with_status NodeRunning E st)"
    using ids by (auto simp: with_status_def f)
  have "i \<in> with_status NodePending E st" "i \<notin> with_status NodeRunning E st"
    using p ids by (simp_all add: with_status_def)
  then show "count_inv E st'"
    using coreD(6) [OF C] card_move [of i "with_status NodePending E st"] by (simp add: count_inv_def wp wr f)
  have ninA: "i \<notin> alive st" using gi by (simp add: alive_def)
  have ninS: "i \<notin> set (sent st)"
    using coreD(7) [OF C] \<open>i \<notin> with_status NodeRunning E st\<close> by (auto simp: chan_inv_def)
  have pend: "NodeStatus st j = NodePending \<Longrightarrow> goroutines st j = None" for j
    using coreD(7) [OF C] by (simp add: chan_inv_def)
  have ch: "distinct (sent st)" "set (sent st) \<inter> alive st = {}"
    "set (sent st) \<union> alive st = with_status NodeRunning E st"
    using coreD(7) [OF C] by (simp_all add: chan_inv_def)
  show "chan_inv E st'"
    using g
  proof
    assume g': "sent st' = sent st @ [i] \<and> goroutines st' = goroutines st"
    then have "alive st' = alive st" by (simp add: alive_def)
    with g' ch ninA ninS pend show ?thesis by (auto simp: chan_inv_def wr f simp del: set_map)
  next
    assume g': "sent st' = sent st \<and> goroutines st' = (goroutines st)(i \<mapsto> (q, AcquireSlot))"
    then have "alive st' = insert i (alive st)" by (auto simp: alive_def)
    with g' ch ninA ninS pend show ?thesis by (auto simp: chan_inv_def wr f simp del: set_map)
  qed
  have "holders st' = holders st" using g gi by (auto simp: holders_def split: if_splits)
  moreover have "phase_ok E st'"
  proof (rule phase_okI)
    show "phase_ok E st" using coreD(8) [OF C] by (simp add: sem_inv_def)
    show "goroutines st' j = Some (q', Pausing k e) \<Longrightarrow> goroutines st j = Some (q', Pausing k e)" for j q' k e
      using g by (auto split: if_splits)
  qed
  moreover have "dom (goroutines st') \<subseteq> insert i (dom (goroutines st))"
    using g by (auto simp: dom_def split: if_splits)
  then have "dom (goroutines st') \<subseteq> node_ids E" using coreD(8) [OF C] ids by (auto simp only: sem_inv_def)
  ultimately show "sem_inv E st'" using coreD(8) [OF C] by (auto simp: sem_inv_def f)
qed

lemma core_scheduleOne:
  assumes C: "core E cp W (insert i T) F st" and v: "valid_dag (de_nodes E)" and i: "i \<in> ready_set E st"
    and sch: "scheduleOne E i st = (st', p)"
  shows "core E cp (if p then downstream (de_nodes E) i @ W else W) T F st'"
    and "NodeStatus st' i \<noteq> NodePending" "ready st' = ready st" "activePQ st' = activePQ st"
    and "with_status NodeRunning E st' =
      with_status NodeRunning E st \<union> (if NodeStatus st' i = NodeRunning then {i} else {})"
proof -
  have pend: "NodeStatus st i = NodePending" and ids: "i \<in> node_ids E" using i by (auto simp: ready_set_def)
  from ids v obtain n where n: "n \<in> set (de_nodes E)" "ID n = i" "nodeMap E i = Some n" by (rule node_of_id)
  have "core E cp (if p then downstream (de_nodes E) i @ W else W) T F st' \<and> NodeStatus st' i \<noteq> NodePending \<and>
      ready st' = ready st \<and> activePQ st' = activePQ st \<and> with_status NodeRunning E st' =
      with_status NodeRunning E st \<union> (if NodeStatus st' i = NodeRunning then {i} else {})"
    using n(3) pend n(2)
  proof (cases rule: scheduleOne_cases)
    case skipped
    with sch core_skip [OF C v i] show ?thesis by (auto simp: with_status_def pend split: if_splits)
  next
    case (failed e)
    then have "st' = send i (Inl e) (set_status i NodeRunning st)" "\<not> p" using sch by auto
    moreover have "core E cp W T F (send i (Inl e) (set_status i NodeRunning st))"
      by (rule core_run [OF C v i]) (simp_all add: send_def)
    ultimately show ?thesis using ids by (auto simp: with_status_def)
  next
    case (launched q)
    then have "st' = launch n q (emit E (OnNodeStart i) st)" "\<not> p" using sch by auto
    moreover have "core E cp W T F (launch n q (emit E (OnNodeStart i) st))"
      by (rule core_run [OF C v i, where q = q]) (simp_all add: n)
    ultimately show ?thesis using ids n by (auto simp: with_status_def)
  qed
  then show "core E cp (if p then downstream (de_nodes E) i @ W else W) T F st'"
    "NodeStatus st' i \<noteq> NodePending" "ready st' = ready st" "activePQ st' = activePQ st"
    "with_status NodeRunning E st' =
      with_status NodeRunning E st \<union> (if NodeStatus st' i = NodeRunning then {i} else {})"
    by blast+
qed

section \<open>Propagation\<close>

text \<open>With a priority queue propagation only pushes; the statuses do not change.\<close>

lemma push_ready_status [simp]:
  "NodeStatus (push_ready E i q st) = NodeStatus st" "activePQ (push_ready E i q st) = activePQ st"
  "mainPhase (push_ready E i q st) = mainPhase st"
  by (simp_all add: push_ready_def split: option.splits)

lemma push_ready_Some: "ready st \<noteq> None \<Longrightarrow> ready (push_ready E i q st) \<noteq> None"
  by (simp add: push_ready_def split: option.splits)

lemma propagate_pq:
  "ready st \<noteq> None \<Longrightarrow> ready (propagate E L st) \<noteq> None \<and>
     NodeStatus (propagate E L st) = NodeStatus st \<and> activePQ (propagate E L st) = activePQ st"
proof (induction E L st rule: propagate.induct)
  case (2 E ds rest st)
  then obtain q where q: "ready st = Some q" by auto
  show ?case
  proof (cases "inDegree st ds - 1 = 0 \<and> NodeStatus st ds = NodePending")
    case True
    have "ready (push_ready E ds q (dec_degree ds st)) \<noteq> None" by (rule push_ready_Some) (simp add: q)
    with "2.IH"(2) [OF True q] True q show ?thesis by simp
  next
    case False
    have "propagate E (ds # rest) st = propagate E rest (dec_degree ds st)"
      by (simp only: propagate.simps False if_False)
    with "2.IH"(3) [OF False] q show ?thesis by simp
  qed
qed simp

lemma scheduleOne_main: "scheduleOne E i st = (st', p) \<Longrightarrow> mainPhase st' = mainPhase st"
  by (auto simp: scheduleOne_def split: option.splits if_splits sum.splits)

lemma propagate_main [simp]: "mainPhase (propagate E L st) = mainPhase st"
proof (induction E L st rule: propagate.induct)
  case (2 E ds rest st)
  then show ?case
    by (auto split: option.splits prod.splits dest: scheduleOne_main)
qed simp

lemma propagate_core:
  assumes v: "valid_dag (de_nodes E)"
  shows "core E cp L T F st \<Longrightarrow> ready st = None \<or> T = {} \<Longrightarrow>
    core E cp [] T F (propagate E L st) \<and> (ready (propagate E L st) = None \<longleftrightarrow> ready st = None) \<and>
    (\<forall>i. NodeStatus st i \<noteq> NodePending \<longrightarrow> NodeStatus (propagate E L st) i \<noteq> NodePending)"
  using v
proof (induction E L st rule: propagate.induct)
  case (2 E ds rest st)
  note C = "2.prems"(1) and T = "2.prems"(2) and v = "2.prems"(3)
  let ?st = "dec_degree ds st"
  note D = core_dec [OF C v]
  note R = ready_set_dec [OF C v]
  show ?case
  proof (cases "inDegree st ds - 1 = 0 \<and> NodeStatus st ds = NodePending")
    case True
    have D': "core E cp rest (insert ds T) F ?st" using D True by simp
    have rd: "ds \<in> ready_set E ?st" using True R(3) by simp
    show ?thesis
    proof (cases "ready st")
      case (Some q)
      with T have nT: "ds \<notin> T" by simp
      have "ready ?st = Some q" using Some by simp
      note P = core_push [OF D' v this rd nT]
      have eq: "propagate E (ds # rest) st = propagate E rest (push_ready E ds q ?st)"
        by (simp only: propagate.simps True Some if_True option.case simp_thms)
      have "ready (push_ready E ds q ?st) = None \<or> T = {}" using T Some by simp
      from "2.IH"(2) [OF True Some P(1) this v] P(2) Some show ?thesis by (simp only: eq) simp
    next
      case None
      obtain st' p where s: "scheduleOne E ds ?st = (st', p)" by fastforce
      note S = core_scheduleOne [OF D' v rd s]
      have eq: "propagate E (ds # rest) st =
          propagate E (if p then downstream (de_nodes E) ds @ rest else rest) st'"
        by (simp only: propagate.simps True None if_True option.case simp_thms s prod.case)
      have "ready st' = None \<or> T = {}" using S(3) None by simp
      note IH = "2.IH"(1) [OF True None s [symmetric] S(1) this v]
      have keep: "NodeStatus st' i \<noteq> NodePending" if "NodeStatus st i \<noteq> NodePending" for i
      proof -
        obtain n where n: "nodeMap E ds = Some n" "ID n = ds"
          using node_of_id [OF R(1) v] by metis
        show ?thesis using n(1) _ n(2)
        proof (cases rule: scheduleOne_cases [where E = E and i = ds and st = ?st])
          show "NodeStatus ?st ds = NodePending" using True by simp
        qed (use s that n in auto)
      qed
      from IH S(3) None keep show ?thesis unfolding eq by simp
    qed
  next
    case False
    have eq: "propagate E (ds # rest) st = propagate E rest ?st"
      by (simp only: propagate.simps False if_False)
    have "core E cp rest T F ?st" using D False by (simp split: if_splits)
    from "2.IH"(3) [OF False this _ v] T show ?thesis by (simp only: eq) simp
  qed
qed simp

text \<open>Scheduling a ready node and everything that follows from it.\<close>

lemma core_scheduleReady:
  assumes v: "valid_dag (de_nodes E)" and C: "core E cp [] (insert i T) F st" and i: "i \<in> ready_set E st"
    and T: "ready st = None \<or> T = {}"
  shows "core E cp [] T F (scheduleReady E i st)"
    and "ready (scheduleReady E i st) = None \<longleftrightarrow> ready st = None"
    and "NodeStatus (scheduleReady E i st) i \<noteq> NodePending"
    and "ready st \<noteq> None \<Longrightarrow> activePQ (scheduleReady E i st) = activePQ st \<and>
      with_status NodeRunning E (scheduleReady E i st) =
        with_status NodeRunning E st \<union> (if NodeStatus (scheduleReady E i st) i = NodeRunning then {i} else {})"
proof -
  obtain st' p where s: "scheduleOne E i st = (st', p)" by fastforce
  note S = core_scheduleOne [OF C v i s]
  have T': "ready st' = None \<or> T = {}" using T S(3) by simp
  have eq: "scheduleReady E i st = propagate E (if p then downstream (de_nodes E) i else []) st'"
    by (simp add: scheduleReady_def s propagateDownstream_def)
  have C': "core E cp (if p then downstream (de_nodes E) i else []) T F st'"
    using S(1) by (cases p) simp_all
  note P = propagate_core [OF v C' T', folded eq]
  show "core E cp [] T F (scheduleReady E i st)" using P by blast
  show "ready (scheduleReady E i st) = None \<longleftrightarrow> ready st = None" using P S(3) by simp
  show "NodeStatus (scheduleReady E i st) i \<noteq> NodePending" using P S(2) by blast
  assume r: "ready st \<noteq> None"
  have r': "ready st' \<noteq> None" using r S(3) by simp
  note Q = propagate_pq [OF r', where E = E and L = "if p then downstream (de_nodes E) i else []", folded eq]
  show "activePQ (scheduleReady E i st) = activePQ st \<and>
      with_status NodeRunning E (scheduleReady E i st) =
        with_status NodeRunning E st \<union> (if NodeStatus (scheduleReady E i st) i = NodeRunning then {i} else {})"
    using Q S(4,5) with_status_cong [of "scheduleReady E i st" st' NodeRunning E] by simp
qed

lemma scheduleReady_main [simp]: "mainPhase (scheduleReady E i st) = mainPhase st"
proof -
  obtain st' p where s: "scheduleOne E i st = (st', p)" by fastforce
  then show ?thesis using scheduleOne_main [OF s] by (simp add: scheduleReady_def propagateDownstream_def)
qed

section \<open>Draining the priority queue\<close>

definition pq_ok :: "('m, 'v) dag_env \<Rightarrow> ('m, 'v) dag_state \<Rightarrow> bool" where
  "pq_ok E st \<longleftrightarrow> (ready st \<noteq> None \<longrightarrow>
     activePQ st = int (card (with_status NodeRunning E st)) \<and>
     (MaxConcurrency (de_cfg E) > 0 \<longrightarrow> activePQ st \<le> MaxConcurrency (de_cfg E)))"

definition pq_idle :: "('m, 'v) dag_env \<Rightarrow> ('m, 'v) dag_state \<Rightarrow> bool" where
  "pq_idle E st \<longleftrightarrow> (ready st \<noteq> None \<longrightarrow> ready_set E st = {} \<or> pq_full E st)"

lemma pq_pop_ready:
  assumes C: "core E cp [] {} F st" and q: "ready st = Some q" and ne: "\<not> pq_empty q"
  shows "fst (pq_pop q) \<in> ready_set E st"
    and "core E cp [] {fst (pq_pop q)} F (st\<lparr>ready := Some (snd (pq_pop q))\<rparr>)"
proof -
  let ?x = "fst (pq_pop q)" and ?q = "snd (pq_pop q)"
  have qi: "pq_invar q" "pq.ids q = mset_set (ready_set E st)"
    using coreD(5) [OF C] q by (simp_all add: queue_is_def)
  have pop: "mset_set (ready_set E st) = add_mset ?x (pq.ids ?q)"
    using pq.ids_pop [OF qi(1) ne] qi(2) by simp
  then have "?x \<in># mset_set (ready_set E st)" by simp
  then show x: "?x \<in> ready_set E st" by simp
  have "pq.ids ?q = mset_set (ready_set E st - {?x})"
    using pop mset_set.remove [OF finite_ready_set x] by simp
  moreover have "pq_waiting q \<noteq> []" using ne by (simp add: pq_empty_def)
  then have "pq_invar ?q" using pq.invar_pop [OF qi(1)] by simp
  ultimately have "queue_is (st\<lparr>ready := Some ?q\<rparr>) (ready_set E st - {?x})"
    by (simp add: queue_is_def)
  moreover have "core E cp [] {?x} F (st\<lparr>ready := Some ?q\<rparr>) \<longleftrightarrow>
      graph_inv E cp [] F st \<and> queue_is (st\<lparr>ready := Some ?q\<rparr>) (ready_set E st - {?x}) \<and>
      count_inv E st \<and> chan_inv E st \<and> sem_inv E st"
    by (simp add: core_def graph_inv_def status_ok_def degree_ok_def deps_ok_def count_inv_def
        chan_inv_def sem_inv_def phase_ok_def settled_def ready_set_def with_status_def alive_def holders_def)
  ultimately show "core E cp [] {?x} F (st\<lparr>ready := Some ?q\<rparr>)" using C by (simp add: core_def)
qed

lemma drain_pop_core:
  assumes v: "valid_dag (de_nodes E)" and C: "core E cp [] {} F st" and q: "ready st = Some q"
    and ne: "\<not> pq_empty q" and nf: "\<not> pq_full E st" and ok: "pq_ok E st"
  shows "core E cp [] {} F (drain_pop E q st) \<and> pq_ok E (drain_pop E q st) \<and>
    ready (drain_pop E q st) \<noteq> None \<and> mainPhase (drain_pop E q st) = mainPhase st"
proof -
  define x where "x = fst (pq_pop q)"
  define st1 where "st1 = st\<lparr>ready := Some (snd (pq_pop q))\<rparr>"
  define st2 where "st2 = scheduleReady E x st1"
  note P = pq_pop_ready [OF C q ne, folded x_def st1_def]
  have x: "x \<in> ready_set E st1" using P(1) by (simp add: st1_def ready_set_def)
  have r1: "ready st1 \<noteq> None" by (simp add: st1_def)
  note S = core_scheduleReady [OF v P(2) x disjI2 [OF refl], folded st2_def]
  have r2: "ready st2 \<noteq> None" using S(2) r1 by simp
  have act: "activePQ st2 = activePQ st" using S(4) [OF r1] by (simp add: st1_def)
  have run: "with_status NodeRunning E st2 = with_status NodeRunning E st \<union> (if NodeStatus st2 x = NodeRunning then {x} else {})"
    using S(4) [OF r1] by (simp add: st1_def with_status_def)
  have xn: "x \<notin> with_status NodeRunning E st" using P(1) by (simp add: ready_set_def with_status_def)
  have a0: "activePQ st = int (card (with_status NodeRunning E st))" using ok q by (simp add: pq_ok_def)
  define st3 where "st3 = (if NodeStatus st2 x = NodeRunning then st2\<lparr>activePQ := activePQ st2 + 1\<rparr> else st2)"
  have eq: "drain_pop E q st = st3" by (simp add: drain_pop_def Let_def st3_def st2_def st1_def x_def)
  have fields: "NodeStatus st3 = NodeStatus st2" "inDegree st3 = inDegree st2" "pending st3 = pending st2"
    "ready st3 = ready st2" "doneCh st3 = doneCh st2" "goroutines st3 = goroutines st2"
    "sem_used st3 = sem_used st2" "mainPhase st3 = mainPhase st2" by (simp_all add: st3_def)
  have "core E cp [] {} F st3" using S(1) core_cong [OF fields(1-7)] by blast
  moreover have "activePQ st3 = int (card (with_status NodeRunning E st3))"
    using run xn a0 act with_status_cong [OF fields(1)] by (simp add: st3_def split: if_splits)
  moreover have "MaxConcurrency (de_cfg E) > 0 \<longrightarrow> activePQ st3 \<le> MaxConcurrency (de_cfg E)"
    using nf act a0 ok q by (auto simp: st3_def pq_full_def pq_ok_def)
  moreover have "mainPhase st3 = mainPhase st" by (simp add: fields(8) st2_def) (simp add: st1_def)
  ultimately show ?thesis using r2 by (simp add: eq pq_ok_def fields(4))
qed

lemma drainPQ_core:
  "valid_dag (de_nodes E) \<Longrightarrow> core E cp [] {} F st \<Longrightarrow> pq_ok E st \<Longrightarrow>
     core E cp [] {} F (drainPQ E st) \<and> pq_ok E (drainPQ E st) \<and> pq_idle E (drainPQ E st) \<and>
     mainPhase (drainPQ E st) = mainPhase st"
proof (induction E st rule: drainPQ.induct)
  case (1 E st)
  note v = "1.prems"(1) and C = "1.prems"(2) and ok = "1.prems"(3)
  show ?case
  proof (cases "ready st")
    case None
    then have "drainPQ E st = st" by (simp add: drainPQ.simps)
    with None C ok show ?thesis by (simp add: pq_idle_def)
  next
    case (Some q)
    show ?thesis
    proof (cases "pq_empty q \<or> pq_full E st")
      case True
      then have eq: "drainPQ E st = st" using Some by (simp add: drainPQ.simps)
      have "ready_set E st = {}" if "pq_empty q"
      proof -
        have qi: "pq_invar q" "pq.ids q = mset_set (ready_set E st)"
          using coreD(5) [OF C] Some by (simp_all add: queue_is_def)
        then have "mset_set (ready_set E st) = {#}" using pq.ids_empty_iff [OF qi(1)] that by simp
        then show ?thesis by (simp add: mset_set_empty_iff)
      qed
      with True C ok show ?thesis by (auto simp: eq pq_idle_def)
    next
      case False
      then have eq: "drainPQ E st = drainPQ E (drain_pop E q st)"
        using Some by (subst drainPQ.simps) simp
      have "\<not> pq_empty q" "\<not> pq_full E st" using False by auto
      note D = drain_pop_core [OF v C Some this ok]
      from "1.IH" [OF Some False v] D show ?thesis by (simp add: eq)
    qed
  qed
qed

section \<open>Settling a node\<close>

lemma settle_core:
  assumes v: "valid_dag (de_nodes E)" and C: "core E cp (downstream (de_nodes E) i) {} F st" and ok: "pq_ok E st"
  shows "core E cp [] {} F (settle E i st) \<and> pq_ok E (settle E i st) \<and> pq_idle E (settle E i st) \<and>
    mainPhase (settle E i st) = mainPhase st"
proof -
  let ?st = "propagateDownstream E i st"
  have P: "core E cp [] {} F ?st" "ready ?st = None \<longleftrightarrow> ready st = None"
    using propagate_core [OF v C] by (simp_all add: propagateDownstream_def)
  have "pq_ok E ?st"
  proof (cases "ready st = None")
    case True
    then show ?thesis using P by (simp add: pq_ok_def)
  next
    case False
    from propagate_pq [OF this, of E "downstream (de_nodes E) i"] ok False show ?thesis
      by (auto simp: pq_ok_def propagateDownstream_def with_status_def)
  qed
  from drainPQ_core [OF v P(1) this] show ?thesis
    by (simp add: settle_def propagateDownstream_def)
qed

text \<open>Taking the completion of a running node off the channel turns it into the failed node
  being handled; recording the node as done or skipped makes its successors the work list.\<close>

lemma core_take:
  assumes C: "core E cp [] {} {} st" and d: "doneCh st = c # rest"
    and f: "NodeStatus st' = (NodeStatus st)(c_nodeID c := NodeFailed)" "inDegree st' = inDegree st"
      "pending st' = pending st - 1" "ready st' = ready st" "doneCh st' = rest"
      "goroutines st' = goroutines st" "sem_used st' = sem_used st"
  shows "core E cp [] {} {c_nodeID c} st'"
    and "c_nodeID c \<in> with_status NodeRunning E st"
    and "with_status NodeRunning E st' = with_status NodeRunning E st - {c_nodeID c}"
proof -
  let ?i = "c_nodeID c"
  have ch: "distinct (sent st)" "set (sent st) \<inter> alive st = {}"
    "set (sent st) \<union> alive st = with_status NodeRunning E st"
    using coreD(7) [OF C] by (simp_all add: chan_inv_def)
  show i: "?i \<in> with_status NodeRunning E st" using ch(3) d by auto
  then have run: "NodeStatus st ?i = NodeRunning" "?i \<in> node_ids E" by (auto simp: with_status_def)
  show wr: "with_status NodeRunning E st' = with_status NodeRunning E st - {?i}"
    by (auto simp: with_status_def f)
  have wp: "with_status NodePending E st' = with_status NodePending E st"
    using run by (auto simp: with_status_def f)
  have s: "settled st' = settled st" using run by (auto simp: settled_def f)
  have al: "alive st' = alive st" by (simp add: alive_def f)
  have r: "ready_set E st' = ready_set E st" using run by (auto simp: ready_set_def f)
  show "core E cp [] {} {?i} st'"
  proof (rule coreI)
    have "status_ok E {?i} st'" using coreD(2) [OF C] run by (auto simp: status_ok_def f)
    moreover have "deps_ok E cp st'"
      by (rule deps_settle [OF coreD(4) [OF C]]) (use s run in \<open>auto simp: f split: if_splits\<close>)
    moreover have "degree_ok E [] st'" using coreD(3) [OF C] by (simp add: degree_ok_def s f)
    ultimately show "graph_inv E cp [] {?i} st'" by (simp add: graph_inv_def)
    show "queue_is st' (ready_set E st' - {})" using coreD(5) [OF C] by (simp add: r queue_is_def f)
    show "count_inv E st'"
      using coreD(6) [OF C] card_move [OF i] by (simp add: count_inv_def wr wp f)
    show "chan_inv E st'"
      unfolding chan_inv_def al wr
      using ch d run coreD(7) [OF C] by (auto simp: chan_inv_def f split: if_splits)
    show "sem_inv E st'" using coreD(8) [OF C] sem_cong [OF f(6,7)] by simp
  qed
qed

lemma core_settle:
  assumes C: "core E cp [] {} {i} st" and v: "valid_dag (de_nodes E)" and s: "s = NodeDone \<or> s = NodeSkipped"
    and f: "NodeStatus st' = (NodeStatus st)(i := s)" "inDegree st' = inDegree st"
      "pending st' = pending st" "ready st' = ready st" "doneCh st' = doneCh st"
      "goroutines st' = goroutines st" "sem_used st' = sem_used st"
  shows "core E cp (downstream (de_nodes E) i) {} {} st'"
    and "with_status NodeRunning E st' = with_status NodeRunning E st"
proof -
  have fail: "NodeStatus st i = NodeFailed" using coreD(2) [OF C] by (simp add: status_ok_def)
  have wr: "with_status NodeRunning E st' = with_status NodeRunning E st"
    and wp: "with_status NodePending E st' = with_status NodePending E st"
    using fail s by (auto simp: with_status_def f split: if_splits)
  have st: "settled st' = insert i (settled st)" and ns: "i \<notin> settled st"
    using fail s by (auto simp: settled_def f)
  have al: "alive st' = alive st" by (simp add: alive_def f)
  have r: "ready_set E st' = ready_set E st" using fail s by (auto simp: ready_set_def f split: if_splits)
  have "i \<notin> node_ids E \<Longrightarrow> NodeStatus st i = NodePending" using coreD(2) [OF C] by (simp add: status_ok_def)
  then have ids: "i \<in> node_ids E" using fail by auto
  show "with_status NodeRunning E st' = with_status NodeRunning E st" by (rule wr)
  show "core E cp (downstream (de_nodes E) i) {} {} st'"
  proof (rule coreI)
    have "status_ok E {} st'" using coreD(2) [OF C] s ids by (auto simp: status_ok_def f)
    moreover have "deps_ok E cp st'"
      by (rule deps_settle [OF coreD(4) [OF C]]) (use st fail in \<open>auto simp: f split: if_splits\<close>)
    moreover have "degree_ok E (downstream (de_nodes E) i) st'"
      using degree_settle [OF coreD(3) [OF C] v ns st f(2)] by simp
    ultimately show "graph_inv E cp (downstream (de_nodes E) i) {} st'"
      using set_downstream_ids [of "de_nodes E" i] by (simp add: graph_inv_def node_ids_def)
    show "queue_is st' (ready_set E st' - {})" using coreD(5) [OF C] by (simp add: r queue_is_def f)
    show "count_inv E st'" using coreD(6) [OF C] by (simp add: count_inv_def wr wp f)
    show "chan_inv E st'"
      unfolding chan_inv_def al wr using coreD(7) [OF C] s by (auto simp: chan_inv_def f)
    show "sem_inv E st'" using coreD(8) [OF C] sem_cong [OF f(6,7)] by simp
  qed
qed

end
