(* ===== verification/DagSafety.thy ===== *)
theory DagSafety
  imports DagInv
begin

text \<open>
  The invariant of every reachable state of an execution, by phase of the event loop, and its
  preservation by every event.
\<close>

section \<open>Goroutine steps\<close>

lemma worker_step_shape:
  assumes "worker_step E n ctx used ph ev = Some out"
  shows "case out of
      Go ph' u \<Rightarrow> ph \<noteq> Releasing \<and> ph' \<noteq> Releasing \<and> ph' \<noteq> AcquireSlot \<and>
        (\<forall>k e. ph' = Pausing k e \<longrightarrow> int k < maxAttempts n - 1) \<and>
        (if ph = AcquireSlot \<and> has_sem E then used < sem_cap E \<and> u = Suc used else u = used)
    | Finished r s ph' u \<Rightarrow> ph \<noteq> Releasing \<and> u = used \<and>
        (ph = AcquireSlot \<and> ph' = None \<or> ph \<noteq> AcquireSlot \<and> ph' = Some Releasing)
    | Leave u \<Rightarrow> ph = Releasing \<and> u = (if has_sem E then used - 1 else used)"
  using assms
  by (cases ph; cases ev)
    (auto simp: retry_or_fail_def split: if_splits option.splits sum.splits)

text \<open>The effect of a goroutine step on what the event loop sees.\<close>

lemma worker_cases:
  assumes "worker E i ev st = Some st'"
  obtains (go) q ph ph' where "goroutines st i = Some (q, ph)" "ph \<noteq> Releasing" "ph' \<noteq> Releasing"
      "ph' \<noteq> AcquireSlot" "\<And>n k e. nodeMap E i = Some n \<Longrightarrow> ph' = Pausing k e \<Longrightarrow> int k < maxAttempts n - 1"
      "goroutines st' = (goroutines st)(i \<mapsto> (q, ph'))" "doneCh st' = doneCh st"
      "if ph = AcquireSlot \<and> has_sem E then sem_used st < sem_cap E \<and> sem_used st' = Suc (sem_used st)
       else sem_used st' = sem_used st"
  | (finished) q ph ph' r where "goroutines st i = Some (q, ph)" "ph \<noteq> Releasing"
      "ph = AcquireSlot \<and> ph' = None \<or> ph \<noteq> AcquireSlot \<and> ph' = Some Releasing"
      "goroutines st' = (goroutines st)(i := map_option (Pair q) ph')"
      "doneCh st' = doneCh st @ [\<lparr>c_nodeID = i, c_result = r\<rparr>]" "sem_used st' = sem_used st"
  | (leave) q where "goroutines st i = Some (q, Releasing)" "goroutines st' = (goroutines st)(i := None)"
      "doneCh st' = doneCh st" "sem_used st' = (if has_sem E then sem_used st - 1 else sem_used st)"
proof -
  obtain q ph n out where g: "goroutines st i = Some (q, ph)" and n: "nodeMap E i = Some n"
    and s: "worker_step E n (ctxErr st) (sem_used st) ph ev = Some out"
    and a: "worker_apply E i q out st = Some st'"
    using assms by (auto simp: worker_def split: option.splits)
  note shape = worker_step_shape [OF s]
  show thesis
  proof (cases out)
    case (Go ph' u)
    with a have "st' = st\<lparr>goroutines := (goroutines st)(i \<mapsto> (q, ph')), sem_used := u\<rparr>"
      by (simp add: worker_apply_def)
    with shape Go n show ?thesis by (intro go [OF g, of ph']) (auto split: if_splits)
  next
    case (Finished r s' ph' u)
    with a have "st' = send i r (st\<lparr>timeline := recordEnd (now st) (now st) i s' (timeline st),
        goroutines := (goroutines st)(i := map_option (Pair q) ph'), sem_used := u\<rparr>)"
      by (simp add: worker_apply_def split: if_splits)
    with shape Finished show ?thesis by (intro finished [OF g, of ph' r]) (auto simp: send_def)
  next
    case (Leave u)
    with a have "st' = st\<lparr>goroutines := (goroutines st)(i := None), sem_used := u\<rparr>"
      by (simp add: worker_apply_def)
    with shape Leave g show ?thesis by (intro leave [of q]) auto
  qed
qed

lemma worker_fields:
  assumes "worker E i ev st = Some st'"
  shows "NodeStatus st' = NodeStatus st" "inDegree st' = inDegree st" "pending st' = pending st"
    "ready st' = ready st" "activePQ st' = activePQ st" "mainPhase st' = mainPhase st"
    "ctxErr st' = ctxErr st" "NodeResults st' = NodeResults st" "hasUsage st' = hasUsage st"
    "FinalOutput st' = FinalOutput st" "saves st' = saves st"
  using assms
  by (auto simp: worker_def worker_apply_def send_def split: option.splits worker_out.splits if_splits)

text \<open>Either nothing changes for the event loop, or one live goroutine sends its completion.\<close>

lemma worker_alive:
  assumes "worker E i ev st = Some st'"
  shows "alive st' = alive st \<and> sent st' = sent st \<or>
    i \<in> alive st \<and> alive st' = alive st - {i} \<and> sent st' = sent st @ [i]"
  using assms
proof (cases rule: worker_cases)
  case (go q ph ph')
  then have "alive st' = alive st" by (auto simp: alive_def)
  with go show ?thesis by simp
next
  case (finished q ph ph' r)
  then have "alive st' = alive st - {i}" "i \<in> alive st" by (auto simp: alive_def)
  with finished show ?thesis by simp
next
  case (leave q)
  then have "alive st' = alive st" by (auto simp: alive_def)
  with leave show ?thesis by simp
qed

lemma worker_dom: "worker E i ev st = Some st' \<Longrightarrow> dom (goroutines st') \<subseteq> dom (goroutines st)"
  by (erule worker_cases) (auto simp: dom_def split: if_splits)

lemma holders_finite:
  assumes "sem_inv E st"
  shows "finite (holders st)"
proof (rule finite_subset)
  show "holders st \<subseteq> node_ids E" using assms by (auto simp: sem_inv_def holders_def)
qed simp

lemma worker_sem:
  assumes I: "sem_inv E st" and w: "worker E i ev st = Some st'"
  shows "sem_inv E st'"
proof -
  note fin = holders_finite [OF I]
  have ph_ok: "phase_ok E st" using I by (simp add: sem_inv_def)
  have "phase_ok E st'"
    unfolding phase_ok_def
  proof (intro allI impI)
    fix j q k e n assume p: "goroutines st' j = Some (q, Pausing k e)" "nodeMap E j = Some n"
    show "int k < maxAttempts n - 1"
    proof (cases "goroutines st j = Some (q, Pausing k e)")
      case True
      then show ?thesis using ph_ok p(2) unfolding phase_ok_def by blast
    next
      case False
      from w show ?thesis
        by (cases rule: worker_cases) (use p False in \<open>auto split: if_splits\<close>)
    qed
  qed
  moreover have "has_sem E \<longrightarrow> sem_used st' = card (holders st') \<and> sem_used st' \<le> sem_cap E"
  proof
    assume sem: "has_sem E"
    have used: "sem_used st = card (holders st)" "sem_used st \<le> sem_cap E" using I sem by (auto simp: sem_inv_def)
    from w show "sem_used st' = card (holders st') \<and> sem_used st' \<le> sem_cap E"
    proof (cases rule: worker_cases)
      case (go q ph ph')
      show ?thesis
      proof (cases "ph = AcquireSlot")
        case True
        with go have "holders st' = insert i (holders st)" "i \<notin> holders st" by (auto simp: holders_def)
        with go(8) True sem used fin show ?thesis by auto
      next
        case False
        with go have "holders st' = holders st" by (auto simp: holders_def)
        with go(8) False used show ?thesis by auto
      qed
    next
      case (finished q ph ph' r)
      then have "holders st' = holders st" by (auto simp: holders_def split: if_splits)
      with finished used show ?thesis by simp
    next
      case (leave q)
      then have "holders st' = holders st - {i}" "i \<in> holders st" by (auto simp: holders_def)
      with leave(4) sem used fin show ?thesis by simp
    qed
  qed
  ultimately show ?thesis using I worker_dom [OF w] by (auto simp: sem_inv_def)
qed

section \<open>The invariant by phase\<close>

definition drain_inv :: "('m, 'v) dag_env \<Rightarrow> string set \<Rightarrow> nat \<Rightarrow> ('m, 'v) dag_state \<Rightarrow> bool" where
  "drain_inv E cp k st \<longleftrightarrow>
     distinct (sent st) \<and> set (sent st) \<inter> alive st = {} \<and>
     set (sent st) \<union> alive st \<subseteq> with_status NodeRunning E st \<and>
     k = length (doneCh st) + card (alive st) \<and>
     sem_inv E st \<and> deps_ok E cp st \<and>
     (ready st \<noteq> None \<longrightarrow> MaxConcurrency (de_cfg E) > 0 \<longrightarrow>
        int (card (with_status NodeRunning E st)) \<le> MaxConcurrency (de_cfg E))"

definition comp_exit_ok :: "('m, 'v) dag_env \<Rightarrow> drain_exit \<Rightarrow> bool" where
  "comp_exit_ok E x \<longleftrightarrow> (\<forall>e. x = DrainCompensate e \<longrightarrow> CompensateCfg (de_cfg E) \<noteq> None)"

definition inv :: "('m, 'v) dag_env \<Rightarrow> string set \<Rightarrow> ('m, 'v) dag_state \<Rightarrow> bool" where
  "inv E cp st \<longleftrightarrow> (ready st = None \<longleftrightarrow> \<not> PriorityScheduling (de_cfg E)) \<and>
     (case mainPhase st of
        MLoop \<Rightarrow> core E cp [] {} {} st \<and> pq_ok E st \<and> pq_idle E st
      | MForward i q e \<Rightarrow> core E cp [] {} {i} st \<and> pq_ok E st \<and> CompensateCfg (de_cfg E) \<noteq> None
      | MDrain k x \<Rightarrow> drain_inv E cp k st \<and> comp_exit_ok E x
      | MReturned r \<Rightarrow> alive st = {} \<and> doneCh st = [] \<and> sem_inv E st)"

lemma countRunning_card:
  assumes "valid_dag (de_nodes E)"
  shows "countRunning E st = card (with_status NodeRunning E st)"
proof -
  have "with_status NodeRunning E st = ID ` set (filter (\<lambda>n. NodeStatus st (ID n) = NodeRunning) (de_nodes E))"
    by (auto simp: with_status_def node_ids_def)
  moreover have "distinct (map ID (filter (\<lambda>n. NodeStatus st (ID n) = NodeRunning) (de_nodes E)))"
    using assms by (simp add: valid_dag_def distinct_map_filter)
  ultimately show ?thesis
    unfolding countRunning_def by (metis distinct_card length_map list.set_map)
qed

lemma sent_alive_card:
  assumes "chan_inv E st"
  shows "card (with_status NodeRunning E st) = length (doneCh st) + card (alive st)"
proof -
  have ch: "distinct (sent st)" "set (sent st) \<inter> alive st = {}"
    "set (sent st) \<union> alive st = with_status NodeRunning E st"
    using assms by (simp_all add: chan_inv_def)
  have "finite (alive st)" using ch(3) by (metis finite_Un finite_with_status)
  then have "card (set (sent st) \<union> alive st) = card (set (sent st)) + card (alive st)"
    using ch(2) by (intro card_Un_disjoint) auto
  moreover have "card (set (sent st)) = length (doneCh st)" using distinct_card [OF ch(1)] by simp
  ultimately show ?thesis using ch(3) by simp
qed

text \<open>Leaving the loop from any intermediate state keeps the count of what is still running.\<close>

lemma leave_loop_inv:
  assumes v: "valid_dag (de_nodes E)" and C: "core E cp W T F st" and ok: "pq_ok E st"
    and x: "comp_exit_ok E x" and r: "ready st = None \<longleftrightarrow> \<not> PriorityScheduling (de_cfg E)"
    and f: "NodeStatus st' = NodeStatus st" "doneCh st' = doneCh st" "goroutines st' = goroutines st"
      "sem_used st' = sem_used st" "ready st' = ready st"
  shows "inv E cp (leave_loop E x st')"
proof -
  let ?s = "leave_loop E x st'"
  have k: "mainPhase ?s = MDrain (card (with_status NodeRunning E st)) x"
    using countRunning_card [OF v, of st'] with_status_cong [OF f(1)] by (simp add: leave_loop_def)
  have g: "NodeStatus ?s = NodeStatus st" "doneCh ?s = doneCh st" "goroutines ?s = goroutines st"
    "sem_used ?s = sem_used st" "ready ?s = ready st"
    using f by (simp_all add: leave_loop_def)
  have al: "alive ?s = alive st" by (simp add: alive_def g)
  note D = coreD [OF C]
  have "drain_inv E cp (card (with_status NodeRunning E st)) ?s"
    unfolding drain_inv_def al g(2) with_status_cong [OF g(1)] graph_cong(2) [OF g(1)] sem_cong [OF g(3,4)]
    using D(4,7,8) sent_alive_card [OF D(7)] ok
    by (auto simp: chan_inv_def pq_ok_def g(5))
  with x r show ?thesis by (simp add: inv_def k g(5))
qed

section \<open>Events preserve the invariant\<close>

lemma cancel_simps [simp]:
  "NodeStatus (cancel st) = NodeStatus st" "inDegree (cancel st) = inDegree st"
  "pending (cancel st) = pending st" "ready (cancel st) = ready st" "doneCh (cancel st) = doneCh st"
  "goroutines (cancel st) = goroutines st" "sem_used (cancel st) = sem_used st"
  "activePQ (cancel st) = activePQ st" "mainPhase (cancel st) = mainPhase st"
  by (simp_all add: cancel_def)

lemma account_simps [simp]:
  "NodeStatus (account E p st) = NodeStatus st" "inDegree (account E p st) = inDegree st"
  "pending (account E p st) = pending st" "ready (account E p st) = ready st"
  "doneCh (account E p st) = doneCh st" "goroutines (account E p st) = goroutines st"
  "sem_used (account E p st) = sem_used st" "activePQ (account E p st) = activePQ st"
  "mainPhase (account E p st) = mainPhase st" "ctxErr (account E p st) = ctxErr st"
  "NodeResults (account E p st) = NodeResults st" "saves (account E p st) = saves st"
  by (simp_all add: account_def split: option.splits)

lemma saveCheckpoint_simps [simp]:
  "NodeStatus (saveCheckpoint E i p st) = NodeStatus st" "inDegree (saveCheckpoint E i p st) = inDegree st"
  "pending (saveCheckpoint E i p st) = pending st" "ready (saveCheckpoint E i p st) = ready st"
  "doneCh (saveCheckpoint E i p st) = doneCh st" "goroutines (saveCheckpoint E i p st) = goroutines st"
  "sem_used (saveCheckpoint E i p st) = sem_used st" "activePQ (saveCheckpoint E i p st) = activePQ st"
  "mainPhase (saveCheckpoint E i p st) = mainPhase st" "ctxErr (saveCheckpoint E i p st) = ctxErr st"
  "NodeResults (saveCheckpoint E i p st) = NodeResults st"
  by (simp_all add: saveCheckpoint_def Let_def split: option.splits)

lemma finish_node_simps [simp]:
  "NodeStatus (finish_node E i p st) = (NodeStatus st)(i := NodeDone)"
  "inDegree (finish_node E i p st) = inDegree st"
  "pending (finish_node E i p st) = pending st" "ready (finish_node E i p st) = ready st"
  "doneCh (finish_node E i p st) = doneCh st" "goroutines (finish_node E i p st) = goroutines st"
  "sem_used (finish_node E i p st) = sem_used st" "activePQ (finish_node E i p st) = activePQ st"
  "mainPhase (finish_node E i p st) = mainPhase st" "ctxErr (finish_node E i p st) = ctxErr st"
  by (simp_all add: finish_node_def) (simp_all add: set_status_def)

text \<open>Whether a priority queue is in use never changes.\<close>

lemma drain_pop_ready: "ready (drain_pop E q st) \<noteq> None"
  using scheduleReady_size [of "st\<lparr>ready := Some (snd (pq_pop q))\<rparr>" E "fst (pq_pop q)"]
  by (auto simp: drain_pop_def Let_def)

lemma drainPQ_ready: "ready (drainPQ E st) = None \<longleftrightarrow> ready st = None"
proof (induction E st rule: drainPQ.induct)
  case (1 E st)
  then show ?case using drain_pop_ready [of E _ st]
    by (subst drainPQ.simps) (auto split: option.splits)
qed

lemma propagate_ready: "ready (propagate E L st) = None \<longleftrightarrow> ready st = None"
proof (cases "ready st = None")
  case False
  then show ?thesis using propagate_pq [of st E L] by auto
next
  case True
  have "ready st = None \<Longrightarrow> ready (propagate E L st) = None" for L st
  proof (induction E L st rule: propagate.induct)
    case (2 E ds rest st)
    show ?case
    proof (cases "inDegree st ds - 1 = 0 \<and> NodeStatus st ds = NodePending")
      case True
      obtain st' p where s: "scheduleOne E ds (dec_degree ds st) = (st', p)" by fastforce
      have eq: "propagate E (ds # rest) st =
          propagate E (if p then downstream (de_nodes E) ds @ rest else rest) st'"
        by (simp only: propagate.simps True "2.prems" if_True option.case simp_thms s prod.case)
      have "ready st' = None" using scheduleOne_ready [OF s] "2.prems" by simp
      from "2.IH"(1) [OF True "2.prems" s [symmetric] this] show ?thesis by (simp only: eq)
    next
      case False
      have "ready (dec_degree ds st) = None" using "2.prems" by simp
      from "2.IH"(3) [OF False this] show ?thesis by (simp only: propagate.simps False if_False)
    qed
  qed simp
  with True show ?thesis by simp
qed

lemma settle_ready: "ready (settle E i st) = None \<longleftrightarrow> ready st = None"
  by (simp add: settle_def drainPQ_ready propagate_ready propagateDownstream_def)

lemma settle_inv:
  assumes v: "valid_dag (de_nodes E)" and C: "core E cp (downstream (de_nodes E) i) {} {} st"
    and ok: "pq_ok E st" and r: "ready st = None \<longleftrightarrow> \<not> PriorityScheduling (de_cfg E)"
    and m: "mainPhase st = MLoop"
  shows "inv E cp (settle E i st)"
  using settle_core [OF v C ok] m r by (simp add: inv_def settle_ready)

lemma pq_ok_cong:
  "NodeStatus st' = NodeStatus st \<Longrightarrow> ready st' = ready st \<Longrightarrow> activePQ st' = activePQ st \<Longrightarrow>
     pq_ok E st' = pq_ok E st"
  by (simp add: pq_ok_def with_status_def)

text \<open>A completion is handled.\<close>

lemma handleCompletion_inv:
  assumes v: "valid_dag (de_nodes E)" and I: "inv E cp st" and m: "mainPhase st = MLoop"
    and d: "doneCh st = c # rest"
  shows "inv E cp (handleCompletion E c (st\<lparr>doneCh := rest, pending := pending st - 1\<rparr>))"
proof -
  let ?i = "c_nodeID c"
  have C: "core E cp [] {} {} st" and ok: "pq_ok E st"
    and r: "ready st = None \<longleftrightarrow> \<not> PriorityScheduling (de_cfg E)"
    using I m by (simp_all add: inv_def)
  define s0 where "s0 = (if ready st \<noteq> None then
      st\<lparr>doneCh := rest, pending := pending st - 1, activePQ := activePQ st - 1\<rparr>
    else st\<lparr>doneCh := rest, pending := pending st - 1\<rparr>)"
  have f0: "NodeStatus s0 = NodeStatus st" "inDegree s0 = inDegree st" "pending s0 = pending st - 1"
    "ready s0 = ready st" "doneCh s0 = rest" "goroutines s0 = goroutines st" "sem_used s0 = sem_used st"
    "mainPhase s0 = MLoop" by (simp_all add: s0_def m)
  define s1 where "s1 = set_status ?i NodeFailed s0"
  have f1: "NodeStatus s1 = (NodeStatus st)(?i := NodeFailed)" "inDegree s1 = inDegree st"
    "pending s1 = pending st - 1" "ready s1 = ready st" "doneCh s1 = rest"
    "goroutines s1 = goroutines st" "sem_used s1 = sem_used st" "mainPhase s1 = MLoop"
    "activePQ s1 = activePQ s0"
    by (simp_all add: s1_def f0)
  note K = core_take [OF C d f1(1-7)]
  have ok1: "pq_ok E s1"
  proof (cases "ready st = None")
    case True
    then show ?thesis by (simp add: pq_ok_def f1)
  next
    case False
    have "activePQ s1 = activePQ st - 1" using False by (simp add: f1 s0_def)
    moreover have "activePQ st = int (card (with_status NodeRunning E st))"
      "MaxConcurrency (de_cfg E) > 0 \<longrightarrow> activePQ st \<le> MaxConcurrency (de_cfg E)"
      using ok False by (auto simp: pq_ok_def)
    moreover have "int (card (with_status NodeRunning E s1)) = int (card (with_status NodeRunning E st)) - 1"
      unfolding K(3) by (rule card_move [OF K(2) finite_with_status])
    ultimately show ?thesis unfolding pq_ok_def by linarith
  qed
  have eq: "handleCompletion E c (st\<lparr>doneCh := rest, pending := pending st - 1\<rparr>) =
      (case c_result c of Inl e \<Rightarrow> handleNodeError E ?i e s0 | Inr p \<Rightarrow> handleNodeSuccess E ?i p s0)"
    by (cases "c_result c") (simp_all add: handleCompletion_def s0_def)
  have ids: "?i \<in> node_ids E" using K(2) by (simp add: with_status_def)
  obtain n where n: "nodeMap E ?i = Some n" using ids v by (rule node_of_id)
  show ?thesis
  proof (cases "c_result c")
    case (Inr p)
    define s2 where "s2 = finish_node E ?i p s0"
    have f2: "NodeStatus s2 = (NodeStatus s1)(?i := NodeDone)" "inDegree s2 = inDegree s1"
      "pending s2 = pending s1" "ready s2 = ready s1" "doneCh s2 = doneCh s1"
      "goroutines s2 = goroutines s1" "sem_used s2 = sem_used s1" "mainPhase s2 = MLoop"
      "activePQ s2 = activePQ s1"
      by (simp_all add: s2_def s1_def f0)
    note S = core_settle [OF K(1) v disjI1 [OF refl] f2(1-7)]
    have ok2: "pq_ok E s2" using ok1 S(2) by (auto simp: pq_ok_def f2)
    have r2: "ready s2 = None \<longleftrightarrow> \<not> PriorityScheduling (de_cfg E)" using r by (simp add: f2 f1)
    have "inv E cp (handleNodeSuccess E ?i p s0)"
      unfolding handleNodeSuccess_def Let_def s2_def [symmetric]
      using leave_loop_inv [OF v S(1) ok2 _ r2, of DrainEarly "cancel s2"]
        leave_loop_inv [OF v S(1) ok2 _ r2, of DrainCancelled s2] settle_inv [OF v S(1) ok2 r2 f2(8)]
      by (simp add: comp_exit_ok_def)
    then show ?thesis by (simp add: eq Inr)
  next
    case (Inl e)
    define s2 where "s2 = emit E (OnNodeComplete ?i NodeFailed (Some e)) s1"
    have f2: "NodeStatus s2 = NodeStatus s1" "inDegree s2 = inDegree s1"
      "pending s2 = pending s1" "ready s2 = ready s1" "doneCh s2 = doneCh s1"
      "goroutines s2 = goroutines s1" "sem_used s2 = sem_used s1" "mainPhase s2 = MLoop"
      "activePQ s2 = activePQ s1"
      by (simp_all add: s2_def f1)
    have C2: "core E cp [] {} {?i} s2" using K(1) core_cong [OF f2(1-7)] by blast
    have ok2: "pq_ok E s2" using ok1 pq_ok_cong [OF f2(1,4,9)] by simp
    have r2: "ready s2 = None \<longleftrightarrow> \<not> PriorityScheduling (de_cfg E)" using r by (simp add: f2 f1)
    have fail: "inv E cp (fail_backward E ?i e s2)" if "CompensateCfg (de_cfg E) \<noteq> None"
      unfolding fail_backward_def
      using leave_loop_inv [OF v C2 ok2 _ r2, of _ "cancel s2"] that by (simp add: comp_exit_ok_def)
    have abort: "inv E cp (leave_loop E (DrainAbort (node_failed ?i e)) (cancel s2))"
      using leave_loop_inv [OF v C2 ok2 _ r2, of _ "cancel s2"] by (simp add: comp_exit_ok_def)
    have fwd: "inv E cp (s2\<lparr>mainPhase := MForward ?i q e\<rparr>)" if "CompensateCfg (de_cfg E) \<noteq> None" for q
    proof -
      let ?s = "s2\<lparr>mainPhase := MForward ?i q e\<rparr>"
      have "core E cp [] {} {?i} ?s" using C2 core_cong [of ?s s2] by simp
      moreover have "pq_ok E ?s" using ok2 pq_ok_cong [of ?s s2] by simp
      ultimately show ?thesis using that r2 by (simp add: inv_def)
    qed
    define s3 where "s3 = set_status ?i NodeSkipped s2"
    have f3: "NodeStatus s3 = (NodeStatus s2)(?i := NodeSkipped)" "inDegree s3 = inDegree s2"
      "pending s3 = pending s2" "ready s3 = ready s2" "doneCh s3 = doneCh s2"
      "goroutines s3 = goroutines s2" "sem_used s3 = sem_used s2" "mainPhase s3 = MLoop"
      "activePQ s3 = activePQ s2"
      by (simp_all add: s3_def f2)
    note S = core_settle [OF C2 v disjI2 [OF refl] f3(1-7)]
    have ok3: "pq_ok E s3" using ok2 S(2) by (auto simp: pq_ok_def f3)
    have r3: "ready s3 = None \<longleftrightarrow> \<not> PriorityScheduling (de_cfg E)" using r2 by (simp add: f3)
    note skip = settle_inv [OF v S(1) ok3 r3 f3(8)]
    have "inv E cp (handleNodeError E ?i e s0)"
      unfolding handleNodeError_def Let_def s1_def [symmetric] s2_def [symmetric] s3_def [symmetric] n option.case
      using fail fwd abort skip by (auto split: sum.splits)
    then show ?thesis by (simp add: eq Inl)
  qed
qed

lemma forwarded_inv:
  assumes v: "valid_dag (de_nodes E)" and I: "inv E cp st" and m: "mainPhase st = MForward i q e"
    and s: "forwarded E outs intr i e st = Some st'"
  shows "inv E cp st'"
proof -
  have C: "core E cp [] {} {i} st" and ok: "pq_ok E st" and cc: "CompensateCfg (de_cfg E) \<noteq> None"
    and r: "ready st = None \<longleftrightarrow> \<not> PriorityScheduling (de_cfg E)"
    using I m by (simp_all add: inv_def)
  obtain cfg where cfg: "CompensateCfg (de_cfg E) = Some cfg" using cc by auto
  show ?thesis
  proof (cases "executeForwardRecovery cfg i outs intr")
    case (Inl e')
    then have "st' = fail_backward E i e st" using s cfg by (simp add: forwarded_def)
    then show ?thesis
      unfolding fail_backward_def
      using leave_loop_inv [OF v C ok _ r, of _ "cancel st"] cc by (simp add: comp_exit_ok_def)
  next
    case (Inr p)
    define s1 where "s1 = finish_node E i p st"
    define s2 where "s2 = s1\<lparr>timeline := recordEnd (now s1) (now s1) i NodeDone (timeline s1)\<rparr>"
    have st': "st' = (settle E i s2)\<lparr>mainPhase := MLoop\<rparr>"
      using s cfg Inr by (simp add: forwarded_def s1_def s2_def Let_def)
    have f: "NodeStatus s2 = (NodeStatus st)(i := NodeDone)" "inDegree s2 = inDegree st"
      "pending s2 = pending st" "ready s2 = ready st" "doneCh s2 = doneCh st"
      "goroutines s2 = goroutines st" "sem_used s2 = sem_used st" "activePQ s2 = activePQ st"
      by (simp_all add: s2_def s1_def)
    note S = core_settle [OF C v disjI1 [OF refl] f(1-7)]
    have ok2: "pq_ok E s2" using ok S(2) by (auto simp: pq_ok_def f)
    have T: "core E cp [] {} {} (settle E i s2)" "pq_ok E (settle E i s2)" "pq_idle E (settle E i s2)"
      using settle_core [OF v S(1) ok2] by simp_all
    have "core E cp [] {} {} st'" using T(1) core_cong [of st' "settle E i s2"] by (simp add: st')
    moreover have "pq_ok E st'" "pq_idle E st'"
      using T(2,3) pq_ok_cong [of st' "settle E i s2" E]
      by (simp_all add: st' pq_idle_def ready_set_def pq_full_def)
    moreover have "ready st' = None \<longleftrightarrow> \<not> PriorityScheduling (de_cfg E)"
      using r settle_ready [of E i s2] by (simp add: st' f)
    ultimately show ?thesis by (simp add: inv_def st')
  qed
qed

lemma close_result_simps [simp]:
  "NodeStatus (close_result r st) = NodeStatus st" "doneCh (close_result r st) = doneCh st"
  "goroutines (close_result r st) = goroutines st" "sem_used (close_result r st) = sem_used st"
  "ready (close_result r st) = ready st" "mainPhase (close_result r st) = MReturned r"
  "NodeResults (close_result r st) = NodeResults st" "FinalOutput (close_result r st) = FinalOutput st"
  by (simp_all add: close_result_def)

text \<open>A state in which everything sent has been received and no goroutine is alive.\<close>

lemma returned_inv:
  assumes "sem_inv E st" "alive st = {}" "doneCh st = []"
    and "ready st = None \<longleftrightarrow> \<not> PriorityScheduling (de_cfg E)"
    and "doneCh st' = doneCh st" "goroutines st' = goroutines st" "sem_used st' = sem_used st"
      "ready st' = ready st" "mainPhase st' = MReturned r"
  shows "inv E cp st'"
  using assms sem_cong [of st' st E] by (simp add: inv_def alive_def)

lemma finalize_fields:
  "doneCh (finalize E st) = doneCh st \<and> goroutines (finalize E st) = goroutines st \<and>
     sem_used (finalize E st) = sem_used st \<and> ready (finalize E st) = ready st \<and>
     NodeStatus (finalize E st) = NodeStatus st \<and> NodeResults (finalize E st) = NodeResults st \<and>
     (\<exists>r. mainPhase (finalize E st) = MReturned r)"
  by (auto simp: finalize_def Let_def split: sum.splits)

lemma drained_fields:
  "doneCh (drained E intr x st) = doneCh st \<and> goroutines (drained E intr x st) = goroutines st \<and>
     sem_used (drained E intr x st) = sem_used st \<and> ready (drained E intr x st) = ready st \<and>
     (\<exists>r. mainPhase (drained E intr x st) = MReturned r)"
  using finalize_fields [of E st]
  by (cases x) (auto simp: drained_def split: prod.splits)

lemma worker_inv:
  assumes v: "valid_dag (de_nodes E)" and I: "inv E cp st" and w: "worker E i ev st = Some st'"
  shows "inv E cp st'"
proof -
  note f = worker_fields [OF w] and A = worker_alive [OF w]
  have gone: "NodeStatus st j = NodePending \<longrightarrow> goroutines st j = None \<Longrightarrow>
      NodeStatus st' j = NodePending \<longrightarrow> goroutines st' j = None" for j
    using worker_dom [OF w] f(1) by auto
  have chan: "chan_inv E st \<Longrightarrow> chan_inv E st'"
    using A gone with_status_cong [OF f(1), of NodeRunning E]
    by (auto simp: chan_inv_def simp del: set_map)
  have core: "core E cp W T F st \<Longrightarrow> core E cp W T F st'" for W T F
  proof (rule coreI)
    assume C: "core E cp W T F st"
    note D = coreD [OF C]
    have rs: "ready_set E st' = ready_set E st" by (simp add: ready_set_def f)
    show "graph_inv E cp W F st'"
      using D(1-4) by (simp add: graph_inv_def graph_cong [OF f(1)] degree_ok_def settled_cong [OF f(1)] f)
    show "queue_is st' (ready_set E st' - T)" using D(5) by (simp add: rs queue_is_def f)
    show "count_inv E st'" using D(6) count_cong [OF f(1,3)] by simp
    show "chan_inv E st'" by (rule chan [OF D(7)])
    show "sem_inv E st'" by (rule worker_sem [OF D(8) w])
  qed
  have pq: "pq_ok E st' = pq_ok E st" by (rule pq_ok_cong [OF f(1,4,5)])
  have idle: "pq_idle E st' = pq_idle E st" by (simp add: pq_idle_def ready_set_def pq_full_def f)
  have drain: "drain_inv E cp k st'" if D: "drain_inv E cp k st" for k
  proof -
    have fin: "finite (alive st)" using D finite_with_status finite_subset by (auto simp: drain_inv_def)
    have len: "length (doneCh st') + card (alive st') = length (doneCh st) + card (alive st)"
    proof -
      have l: "length (doneCh st') = length (sent st')" "length (doneCh st) = length (sent st)" by simp_all
      show ?thesis
        using A
      proof
        assume "alive st' = alive st \<and> sent st' = sent st"
        then show ?thesis unfolding l by simp
      next
        assume a: "i \<in> alive st \<and> alive st' = alive st - {i} \<and> sent st' = sent st @ [i]"
        then have "card (alive st') + 1 = card (alive st)" using fin card_Suc_Diff1 [of "alive st" i] by simp
        then show ?thesis unfolding l using a by simp
      qed
    qed
    have "distinct (sent st') \<and> set (sent st') \<inter> alive st' = {} \<and>
        set (sent st') \<union> alive st' \<subseteq> with_status NodeRunning E st"
      using A D by (auto simp: drain_inv_def simp del: set_map)
    moreover have "sem_inv E st'" using worker_sem [OF _ w] D by (simp add: drain_inv_def)
    ultimately show ?thesis
      using D len by (simp add: drain_inv_def graph_cong [OF f(1)] with_status_cong [OF f(1)] f)
  qed
  show ?thesis
  proof (cases "mainPhase st")
    case (MReturned r)
    with I have a: "alive st = {}" "doneCh st = []" "sem_inv E st" by (simp_all add: inv_def)
    with A have "alive st' = {}" "doneCh st' = []" by auto
    with a worker_sem [OF a(3) w] I MReturned show ?thesis by (simp add: inv_def f)
  next
    case MLoop
    with I core pq idle show ?thesis by (simp add: inv_def f)
  next
    case (MForward j q e)
    with I core pq show ?thesis by (simp add: inv_def f)
  next
    case (MDrain k x)
    with I drain show ?thesis by (simp add: inv_def f)
  qed
qed

lemma inv_cong:
  assumes "NodeStatus st' = NodeStatus st" "inDegree st' = inDegree st" "pending st' = pending st"
    "ready st' = ready st" "doneCh st' = doneCh st" "goroutines st' = goroutines st"
    "sem_used st' = sem_used st" "activePQ st' = activePQ st" "mainPhase st' = mainPhase st"
  shows "inv E cp st' \<longleftrightarrow> inv E cp st"
proof -
  have "alive st' = alive st" by (simp add: alive_def assms)
  then show ?thesis
    using core_cong [OF assms(1-7)] pq_ok_cong [OF assms(1,4,8)] sem_cong [OF assms(6,7)]
      with_status_cong [OF assms(1)] graph_cong(2) [OF assms(1)]
    by (simp add: inv_def drain_inv_def pq_idle_def ready_set_def pq_full_def assms split: main_phase.split)
qed

lemma MLoop_all_received:
  assumes "core E cp W T F st" "pending st \<le> 0"
  shows "with_status NodePending E st = {}" "with_status NodeRunning E st = {}" "alive st = {}" "doneCh st = []"
proof -
  note D = coreD [OF assms(1)]
  have "card (with_status NodePending E st) = 0 \<and> card (with_status NodeRunning E st) = 0"
    using D(6) assms(2) unfolding count_inv_def by linarith
  then show p: "with_status NodePending E st = {}" "with_status NodeRunning E st = {}" by simp_all
  then show "alive st = {}" "doneCh st = []" using D(7) by (auto simp: chan_inv_def)
qed

lemma exec_step_inv:
  assumes v: "valid_dag (de_nodes E)" and I: "inv E cp st" and s: "exec_step E ev st = Some st'"
  shows "inv E cp st'"
proof (cases ev)
  case (Tick d)
  then show ?thesis using s I inv_cong [of st' st E cp] by auto
next
  case (Cancelled e)
  then show ?thesis using s I inv_cong [of st' st E cp] by (auto split: if_splits)
next
  case (Worker i wev)
  then show ?thesis using s worker_inv [OF v I] by simp
next
  case Receive
  then obtain c rest where m: "mainPhase st = MLoop" and d: "doneCh st = c # rest"
    and "st' = handleCompletion E c (st\<lparr>doneCh := rest, pending := pending st - 1\<rparr>)"
    using s by (auto split: if_splits list.splits)
  then show ?thesis using handleCompletion_inv [OF v I m d] by simp
next
  case SeeCancel
  then have m: "mainPhase st = MLoop" and st': "st' = leave_loop E DrainCtx st"
    using s by (auto split: if_splits)
  have "core E cp [] {} {} st" "pq_ok E st" "ready st = None \<longleftrightarrow> \<not> PriorityScheduling (de_cfg E)"
    using I m by (simp_all add: inv_def)
  from leave_loop_inv [OF v this(1,2) _ this(3), of DrainCtx st] show ?thesis
    by (simp add: st' comp_exit_ok_def)
next
  case (Forwarded outs intr)
  then show ?thesis using s forwarded_inv [OF v I] by (auto split: main_phase.splits)
next
  case DrainOne
  then obtain k x c rest where m: "mainPhase st = MDrain (Suc k) x" and d: "doneCh st = c # rest"
    and st': "st' = st\<lparr>doneCh := rest, mainPhase := MDrain k x\<rparr>"
    using s by (auto split: main_phase.splits nat.splits list.splits)
  have D: "drain_inv E cp (Suc k) st" using I m by (simp add: inv_def)
  have "drain_inv E cp k st'"
    using D d sem_cong [of st' st E] with_status_cong [of st' st NodeRunning E] graph_cong(2) [of st' st E cp]
    by (auto simp: drain_inv_def st' alive_def)
  with I m show ?thesis by (simp add: inv_def st')
next
  case (Drained intr)
  then obtain x where m: "mainPhase st = MDrain 0 x" and st': "st' = drained E intr x st"
    using s by (auto split: main_phase.splits nat.splits)
  have D: "drain_inv E cp 0 st" and r: "ready st = None \<longleftrightarrow> \<not> PriorityScheduling (de_cfg E)"
    using I m by (simp_all add: inv_def)
  have "finite (alive st)" using D finite_with_status finite_subset by (auto simp: drain_inv_def)
  then have "alive st = {}" "doneCh st = []" "sem_inv E st" using D by (simp_all add: drain_inv_def)
  then show ?thesis using drained_fields [of E intr x st] r
    by (auto simp: st' intro: returned_inv)
next
  case AllDone
  then have m: "mainPhase st = MLoop" and p: "pending st \<le> 0" and st': "st' = finalize E st"
    using s by (auto split: if_splits)
  have C: "core E cp [] {} {} st" and r: "ready st = None \<longleftrightarrow> \<not> PriorityScheduling (de_cfg E)"
    using I m by (simp_all add: inv_def)
  from MLoop_all_received [OF C p] coreD(8) [OF C] r finalize_fields [of E st] show ?thesis
    by (auto simp: st' intro: returned_inv)
qed

end
