(* ===== verification/DagStart.thy ===== *)
theory DagStart
  imports DagSafety
begin

text \<open>
  The state in which the event loop starts satisfies the invariant, from scratch and when
  resuming from a checkpoint, so it holds in every state an execution reaches.
\<close>

section \<open>Resuming\<close>

lemma resume_degrees_apply:
  "resume_degrees nodes P m v = m v - int (\<Sum>n\<leftarrow>nodes. if P (ID n) then count_list (downstream nodes (ID n)) v else 0)"
proof -
  have inner: "fold (\<lambda>d m. m(d := m d - 1)) ds m v = m v - int (count_list ds v)" for ds and m :: "string \<Rightarrow> int"
    by (induction ds arbitrary: m) auto
  have "fold (\<lambda>n m. if P (ID n) then fold (\<lambda>d m. m(d := m d - 1)) (downstream nodes (ID n)) m else m) ns m v =
      m v - int (\<Sum>n\<leftarrow>ns. if P (ID n) then count_list (downstream nodes (ID n)) v else 0)" for ns m
    by (induction ns arbitrary: m) (auto simp: inner)
  then show ?thesis by (simp add: resume_degrees_def)
qed

lemma sum_count_filter:
  assumes "distinct (map ID nodes)"
  shows "(\<Sum>n\<leftarrow>nodes. if P (ID n) then count_list ds (ID n) else 0) =
    length (filter (\<lambda>d. d \<in> ID ` set nodes \<and> P d) ds)"
proof (induction ds)
  case Nil
  show ?case by auto
next
  case (Cons d ds)
  have "(\<Sum>n\<leftarrow>nodes. if P (ID n) then count_list (d # ds) (ID n) else 0) =
      (\<Sum>n\<leftarrow>nodes. (if ID n = d then (if P d then 1 else 0) else 0) + (if P (ID n) then count_list ds (ID n) else 0))"
    by (rule arg_cong [of _ _ sum_list], rule map_cong) auto
  also have "\<dots> = (\<Sum>n\<leftarrow>nodes. if ID n = d then (if P d then 1 else 0) else 0) +
      (\<Sum>n\<leftarrow>nodes. if P (ID n) then count_list ds (ID n) else 0)"
    by (rule sum_list_addf)
  also have "(\<Sum>n\<leftarrow>nodes. if ID n = d then (if P d then 1 else 0) else 0) =
      (if d \<in> ID ` set nodes \<and> P d then 1 else 0 :: nat)"
  proof (cases "d \<in> ID ` set nodes")
    case True
    then obtain n where n: "n \<in> set nodes" "d = ID n" by auto
    from sum_list_count_single [OF assms n(1), of "\<lambda>_. if P d then 1 else 0"] n show ?thesis by auto
  next
    case False
    then have "\<forall>n\<in>set nodes. (if ID n = d then (if P d then 1 else 0) else 0 :: nat) = 0" by auto
    with False show ?thesis by (auto simp: sum_list_eq_0_iff)
  qed
  finally show ?case using Cons by simp
qed

definition resumed_ids ::
  "('m, 'v) dnode list \<Rightarrow> (string \<rightharpoonup> ('m, 'v) run_response option) \<Rightarrow> string set" where
  "resumed_ids nodes cp = {i. resumed nodes cp i}"

lemma resume_degrees_unmet:
  assumes v: "valid_dag nodes" and n: "n \<in> set nodes"
  shows "resume_degrees nodes (resumed nodes cp) (in_degree nodes) (ID n) = int (unmet (resumed_ids nodes cp) n)"
proof -
  have d: "distinct (map ID nodes)" using v by (simp add: valid_dag_def)
  have "(\<Sum>m\<leftarrow>nodes. if resumed nodes cp (ID m) then count_list (downstream nodes (ID m)) (ID n) else 0) =
      (\<Sum>m\<leftarrow>nodes. if resumed nodes cp (ID m) then count_list (Deps n) (ID m) else 0)"
    by (rule arg_cong [of _ _ sum_list], rule map_cong) (auto simp: count_downstream [OF d n])
  also have "\<dots> = length (filter (\<lambda>x. x \<in> resumed_ids nodes cp) (Deps n))"
    unfolding sum_count_filter [OF d]
    by (intro arg_cong [of _ _ length] filter_cong) (auto simp: resumed_ids_def resumed_def)
  finally show ?thesis
    using in_degree_node [OF d n] sum_length_filter_compl [of "\<lambda>x. x \<in> resumed_ids nodes cp" "Deps n"]
    by (simp add: resume_degrees_apply unmet_def)
qed

lemma initial_core:
  assumes v: "valid_dag nodes" and E: "de_nodes E = nodes"
  shows "core E (resumed_ids nodes cp) [] (ID ` set nodes) {} (initial_state cfg nodes cp t ctx)"
proof (rule coreI)
  let ?s = "initial_state cfg nodes cp t ctx"
  have st: "NodeStatus ?s = (\<lambda>i. if resumed nodes cp i then NodeDone else NodePending)"
    by (simp add: initial_state_def)
  have se: "settled ?s = resumed_ids nodes cp" by (auto simp: settled_def st resumed_ids_def)
  have res: "resumed nodes cp i \<Longrightarrow> i \<in> node_ids E" for i by (auto simp: resumed_def node_ids_def E)
  have wr: "with_status NodeRunning E ?s = {}" by (auto simp: with_status_def st)
  have "status_ok E {} ?s" using res by (auto simp: status_ok_def st)
  moreover have "degree_ok E [] ?s"
    using resume_degrees_unmet [OF v, where cp = cp] by (simp add: degree_ok_def E se) (simp add: initial_state_def)
  moreover have "deps_ok E (resumed_ids nodes cp) ?s" by (auto simp: deps_ok_def st resumed_ids_def)
  ultimately show "graph_inv E (resumed_ids nodes cp) [] {} ?s" by (simp add: graph_inv_def)
  have "ready_set E ?s - ID ` set nodes = {}" by (auto simp: ready_set_def node_ids_def E)
  then show "queue_is ?s (ready_set E ?s - ID ` set nodes)"
    using pq_new by (simp only:) (simp add: queue_is_def initial_state_def pq.ids_def)
  have d: "distinct (map ID nodes)" using v by (simp add: valid_dag_def)
  have "with_status NodePending E ?s = ID ` set (filter (\<lambda>n. \<not> resumed nodes cp (ID n)) nodes)"
    by (auto simp: with_status_def st node_ids_def E)
  moreover have "card (ID ` set (filter (\<lambda>n. \<not> resumed nodes cp (ID n)) nodes)) =
      length (filter (\<lambda>n. \<not> resumed nodes cp (ID n)) nodes)"
    using distinct_card [OF distinct_map_filter [OF d, of "\<lambda>n. \<not> resumed nodes cp (ID n)"]] by simp
  ultimately show "count_inv E ?s" by (simp add: count_inv_def wr) (simp add: initial_state_def)
  show "chan_inv E ?s" by (simp add: chan_inv_def wr) (simp add: initial_state_def alive_def)
  show "sem_inv E ?s" by (simp add: sem_inv_def phase_ok_def initial_state_def holders_def)
qed

section \<open>Entering the loop\<close>

lemma enqueue_all_core:
  assumes v: "valid_dag (de_nodes E)"
  shows "distinct (map ID ns) \<Longrightarrow> set ns \<subseteq> set (de_nodes E) \<Longrightarrow> core E cp [] (ID ` set ns) {} st \<Longrightarrow>
    pq_ok E st \<Longrightarrow>
    core E cp [] {} {} (enqueue_all E ns st) \<and> pq_ok E (enqueue_all E ns st) \<and>
    (ready (enqueue_all E ns st) = None \<longleftrightarrow> ready st = None) \<and>
    mainPhase (enqueue_all E ns st) = mainPhase st"
proof (induction ns arbitrary: st)
  case (Cons n ns)
  let ?c = "inDegree st (ID n) = 0 \<and> NodeStatus st (ID n) = NodePending"
  let ?st = "if ?c then enqueueReady E (ID n) st else st"
  have C: "core E cp [] (insert (ID n) (ID ` set ns)) {} st" using Cons.prems(3) by simp
  have ids: "ID n \<in> node_ids E" using Cons.prems(2) by (auto simp: node_ids_def)
  have nT: "ID n \<notin> ID ` set ns" using Cons.prems(1) by auto
  have "core E cp [] (ID ` set ns) {} ?st \<and> pq_ok E ?st \<and> (ready ?st = None \<longleftrightarrow> ready st = None) \<and>
      mainPhase ?st = mainPhase st"
  proof (cases ?c)
    case False
    then have "ready_set E st - insert (ID n) (ID ` set ns) = ready_set E st - ID ` set ns"
      by (auto simp: ready_set_def)
    with C have "core E cp [] (ID ` set ns) {} st" by (simp add: core_def)
    with False Cons.prems(4) show ?thesis by (simp only: if_False simp_thms)
  next
    case True
    then have rd: "ID n \<in> ready_set E st" using ids by (simp add: ready_set_def)
    show ?thesis
    proof (cases "ready st")
      case None
      note S = core_scheduleReady [OF v C rd disjI1 [OF None]]
      with None True show ?thesis by (simp add: enqueueReady_def pq_ok_def)
    next
      case (Some q)
      note P = core_push [OF C v Some rd nT]
      have "pq_ok E (push_ready E (ID n) q st)"
        using Cons.prems(4) P(2) Some by (auto simp: pq_ok_def with_status_def)
      with P(1,2) Some True show ?thesis by (simp add: enqueueReady_def)
    qed
  qed
  with Cons.IH [of ?st] Cons.prems(1,2) show ?case by simp
qed simp

lemma start_run_inv:
  assumes v: "valid_dag nodes" and E: "de_nodes E = nodes" "de_cfg E = cfg"
  shows "inv E (resumed_ids nodes cp) (start_run E (initial_state cfg nodes cp t ctx))"
proof -
  let ?s = "initial_state cfg nodes cp t ctx"
  have v': "valid_dag (de_nodes E)" using v E by simp
  have d: "distinct (map ID nodes)" using v by (simp add: valid_dag_def)
  have r: "ready ?s = None \<longleftrightarrow> \<not> PriorityScheduling (de_cfg E)" and m: "mainPhase ?s = MLoop"
    by (simp_all add: initial_state_def E)
  have "with_status NodeRunning E ?s = {}" by (auto simp: with_status_def initial_state_def)
  then have ok: "pq_ok E ?s" by (simp add: pq_ok_def) (simp add: initial_state_def)
  note A = enqueue_all_core [OF v' d _ initial_core [OF v E(1)] ok]
  have sub: "set nodes \<subseteq> set (de_nodes E)" by (simp add: E)
  let ?q = "enqueue_all E nodes ?s"
  have Q: "core E (resumed_ids nodes cp) [] {} {} ?q" "pq_ok E ?q" "ready ?q = None \<longleftrightarrow> ready ?s = None"
    "mainPhase ?q = MLoop"
    using A [OF sub] m by simp_all
  have eq: "start_run E ?s = drainPQ E ?q" by (simp add: start_run_def E)
  have "mainPhase (drainPQ E ?q) = MLoop" "ready (drainPQ E ?q) = None \<longleftrightarrow> \<not> PriorityScheduling (de_cfg E)"
    using drainPQ_core [OF v' Q(1,2)] Q(3,4) r drainPQ_ready [of E ?q] by simp_all
  then show ?thesis using drainPQ_core [OF v' Q(1,2)] by (simp add: eq inv_def)
qed

text \<open>Priorities assigned from the critical path do not change the graph.\<close>

lemma auto_priority_simps [simp]:
  "ID (auto_priority nodes n) = ID n" "Deps (auto_priority nodes n) = Deps n"
  "Runner (auto_priority nodes n) = Runner n"
  by (simp_all add: auto_priority_def)

lemma valid_dag_cong:
  fixes nodes nodes' :: "('a, 'b) node list"
  assumes "map ID nodes' = map ID nodes" "map Deps nodes' = map Deps nodes" "valid_dag nodes"
  shows "valid_dag nodes'"
proof -
  have pairs: "map (\<lambda>n. (ID n, Deps n)) nodes' = map (\<lambda>n. (ID n, Deps n)) nodes"
    using assms(1,2) by (auto simp: list_eq_iff_nth_eq)
  have sets: "(\<lambda>n. (ID n, Deps n)) ` set nodes' = (\<lambda>n. (ID n, Deps n)) ` set nodes"
    using pairs by (metis list.set_map)
  have ids: "ID ` set nodes' = ID ` set nodes" using assms(1) by (metis list.set_map)
  have de: "dep_edges ns = {(d, i). \<exists>ds. (i, ds) \<in> (\<lambda>n. (ID n, Deps n)) ` set ns \<and> d \<in> set ds}" for ns :: "('a, 'b) node list"
    by (auto simp: dep_edges_def image_iff)
  have e: "dep_edges nodes' = dep_edges nodes" unfolding de [of nodes'] de [of nodes] sets ..
  have k: "known_deps ns \<longleftrightarrow> (\<forall>(i, ds) \<in> (\<lambda>n. (ID n, Deps n)) ` set ns. set ds \<subseteq> ID ` set ns)" for ns :: "('a, 'b) node list"
    by (auto simp: known_deps_def)
  have l: "links nodes' = links nodes" using e by (simp add: links_def)
  have cg: "connected_graph ns \<longleftrightarrow> (\<forall>i\<in>ID ` set ns. \<forall>j\<in>ID ` set ns. (i, j) \<in> (links ns)\<^sup>*)"
    for ns :: "('a, 'b) node list"
    by (auto simp: connected_graph_def)
  have "connected_graph nodes'"
    using assms(3) unfolding valid_dag_def cg ids l by simp
  with assms(1,3) e show ?thesis unfolding valid_dag_def k sets ids by simp
qed

lemma newDagExecutor_Inr:
  assumes "newDagExecutor cfg nodes req add t ctx = Inr (E, st)"
  obtains nodes' cp where "valid_dag nodes'" "de_nodes E = nodes'" "de_cfg E = cfg" "de_req E = req"
    "load_checkpoints cfg = Inr cp" "st = initial_state cfg nodes' cp t ctx"
    "map ID nodes' = map ID nodes" "map Deps nodes' = map Deps nodes" "map Runner nodes' = map Runner nodes"
    "valid_dag nodes"
proof -
  let ?n = "if PriorityScheduling cfg \<and> CriticalPathAuto cfg then map (auto_priority nodes) nodes else nodes"
  from assms obtain cp where v: "valid_dag nodes" and cp: "load_checkpoints cfg = Inr cp"
    and E: "E = \<lparr>de_cfg = cfg, de_nodes = ?n, de_req = req, de_add = add\<rparr>" and st: "st = initial_state cfg ?n cp t ctx"
    by (auto simp: newDagExecutor_def Let_def ValidateDAG_None_iff split: option.splits sum.splits)
  have m: "map ID ?n = map ID nodes" "map Deps ?n = map Deps nodes" "map Runner ?n = map Runner nodes" by simp_all
  from that [of ?n cp] valid_dag_cong [OF m(1,2) v] v cp E st m show thesis by simp
qed

section \<open>Every reachable state\<close>

lemma reaches_inv:
  assumes "reaches E st0 st" "valid_dag (de_nodes E)" "inv E cp st0"
  shows "inv E cp st"
  using assms by (induction rule: reaches.induct) (auto intro: exec_step_inv)

text \<open>The nodes whose results an execution starts with.\<close>

definition loaded_ids :: "('m, 'v) dag_config \<Rightarrow> ('m, 'v) dag_env \<Rightarrow> string set" where
  "loaded_ids cfg E =
     (case load_checkpoints cfg of Inl e \<Rightarrow> {} | Inr cp \<Rightarrow> resumed_ids (de_nodes E) cp)"

lemma ExecuteDAG_Started:
  assumes "ExecuteDAG cfg nodes req add t ctx = Inr (Started E st0)"
  shows "valid_dag (de_nodes E)" "valid_dag nodes" "de_cfg E = cfg"
    "map ID (de_nodes E) = map ID nodes" "map Deps (de_nodes E) = map Deps nodes"
    "map Runner (de_nodes E) = map Runner nodes"
    "inv E (loaded_ids cfg E) st0"
proof -
  obtain st where n: "newDagExecutor cfg nodes req add t ctx = Inr (E, st)" and s: "st0 = start_run E st"
    using assms by (auto simp: ExecuteDAG_def split: if_splits sum.splits prod.splits)
  from n obtain nodes' cp where "valid_dag nodes'" "de_nodes E = nodes'" "de_cfg E = cfg"
    "load_checkpoints cfg = Inr cp" "st = initial_state cfg nodes' cp t ctx" "map ID nodes' = map ID nodes"
    "map Deps nodes' = map Deps nodes" "map Runner nodes' = map Runner nodes" "valid_dag nodes"
    by (rule newDagExecutor_Inr)
  then show "valid_dag (de_nodes E)" "valid_dag nodes" "de_cfg E = cfg"
    "map ID (de_nodes E) = map ID nodes" "map Deps (de_nodes E) = map Deps nodes"
    "map Runner (de_nodes E) = map Runner nodes"
    "inv E (loaded_ids cfg E) st0"
    using start_run_inv [of nodes' E cfg cp t ctx] by (simp_all add: s loaded_ids_def)
qed

lemma execution_inv:
  assumes "ExecuteDAG cfg nodes req add t ctx = Inr (Started E st0)" "reaches E st0 st"
  shows "inv E (loaded_ids cfg E) st"
  using reaches_inv [OF assms(2)] ExecuteDAG_Started [OF assms(1)] by simp

end
