(* ===== verification/DagLive.thy ===== *)
theory DagLive
  imports DagStart
begin

text \<open>
  Progress and termination of the executor: until it has returned, some event other than the
  passing of time or an outside cancellation is possible, and only boundedly many such events
  can follow a state.
\<close>

section \<open>Progress\<close>

definition outside :: "('m, 'v) event \<Rightarrow> bool" where
  "outside ev \<longleftrightarrow> (case ev of Tick d \<Rightarrow> True | Cancelled e \<Rightarrow> True | _ \<Rightarrow> False)"

lemma outside_simps [simp]:
  "outside (Tick d)" "outside (Cancelled e)" "\<not> outside (Worker i w)" "\<not> outside Receive"
  "\<not> outside SeeCancel" "\<not> outside (Forwarded outs intr)" "\<not> outside DrainOne"
  "\<not> outside (Drained intrs)" "\<not> outside AllDone"
  by (simp_all add: outside_def)

definition has_runners :: "('m, 'v) dag_env \<Rightarrow> bool" where
  "has_runners E \<longleftrightarrow> (\<forall>n\<in>set (de_nodes E). Runner n \<noteq> None)"

lemma worker_can_step:
  assumes v: "valid_dag (de_nodes E)" and r: "has_runners E" and S: "sem_inv E st"
    and d: "doneCh st = []" and g: "goroutines st i = Some (q, ph)"
    and slot: "ph = AcquireSlot \<Longrightarrow> has_sem E \<Longrightarrow> sem_used st < sem_cap E"
  shows "\<exists>ev st'. worker E i ev st = Some st'"
proof -
  have "i \<in> dom (goroutines st)" using g by blast
  then have "i \<in> node_ids E" using S unfolding sem_inv_def by blast
  then obtain n where n: "n \<in> set (de_nodes E)" "nodeMap E i = Some n" using v by (rule node_of_id)
  have R: "Runner n \<noteq> None" using r n(1) by (simp add: has_runners_def)
  have room: "length (doneCh st) < length (de_nodes E)" using d n(1) by (cases "de_nodes E") auto
  have "\<exists>ev out. worker_step E n (ctxErr st) (sem_used st) ph ev = Some out"
  proof (cases ph)
    case AcquireSlot
    with slot have "worker_step E n (ctxErr st) (sem_used st) ph SlotGranted \<noteq> None" by simp
    then show ?thesis by blast
  next
    case AcquireResources
    then have "worker_step E n (ctxErr st) (sem_used st) ph ResourcesGranted \<noteq> None" by simp
    then show ?thesis by blast
  next
    case (Attempting k)
    then have "worker_step E n (ctxErr st) (sem_used st) ph (Returned (Inl CtxCanceled)) \<noteq> None"
      using R by simp
    then show ?thesis by blast
  next
    case (Pausing k e)
    then have "worker_step E n (ctxErr st) (sem_used st) ph PauseOver \<noteq> None" by simp
    then show ?thesis by blast
  next
    case Releasing
    then have "worker_step E n (ctxErr st) (sem_used st) ph Released \<noteq> None" by simp
    then show ?thesis by blast
  qed
  then obtain ev out where s: "worker_step E n (ctxErr st) (sem_used st) ph ev = Some out" by blast
  have "\<exists>st'. worker_apply E i q out st = Some st'"
    using room by (cases out) (simp_all add: worker_apply_def)
  with g n s show ?thesis by (intro exI [of _ ev]) (simp add: worker_def)
qed

text \<open>Some goroutine can step: one without a slot only waits while another one holds it.\<close>

lemma some_worker_steps:
  assumes v: "valid_dag (de_nodes E)" and r: "has_runners E" and S: "sem_inv E st"
    and d: "doneCh st = []" and a: "alive st \<noteq> {}"
  shows "\<exists>j ev st'. worker E j ev st = Some st'"
proof -
  obtain i q ph where g: "goroutines st i = Some (q, ph)" using a by (auto simp: alive_def)
  show ?thesis
  proof (cases "has_sem E \<and> \<not> sem_used st < sem_cap E")
    case False
    then show ?thesis using worker_can_step [OF v r S d g] by blast
  next
    case True
    then have "sem_cap E > 0" by (simp add: has_sem_def sem_cap_def)
    then have "card (holders st) > 0" using S True by (auto simp: sem_inv_def)
    then obtain j where "j \<in> holders st" by (metis all_not_in_conv card.empty less_irrefl)
    then obtain q' ph' where "goroutines st j = Some (q', ph')" "ph' \<noteq> AcquireSlot"
      by (auto simp: holders_def)
    from worker_can_step [OF v r S d this(1)] this(2) show ?thesis by blast
  qed
qed

text \<open>While the loop waits for something, some node is running: a pending node that is minimal
  in the dependency order would be ready.\<close>

lemma loop_has_running:
  assumes v: "valid_dag (de_nodes E)" and C: "core E cp [] {} {} st" and i: "pq_idle E st" and ok: "pq_ok E st"
    and p: "pending st > 0"
  shows "with_status NodeRunning E st \<noteq> {}"
proof
  assume none: "with_status NodeRunning E st = {}"
  note D = coreD [OF C]
  let ?P = "with_status NodePending E st"
  have "card ?P > 0" using D(6) p none by (simp add: count_inv_def)
  then obtain x where x: "x \<in> ?P" by (metis all_not_in_conv card.empty less_irrefl)
  have "wf (dep_edges (de_nodes E))"
    using v by (intro finite_acyclic_wf) (simp_all add: valid_dag_def)
  from wfE_min [OF this x] obtain z where z: "z \<in> ?P" and min: "\<And>y. (y, z) \<in> dep_edges (de_nodes E) \<Longrightarrow> y \<notin> ?P"
    by blast
  have zi: "z \<in> node_ids E" "NodeStatus st z = NodePending" using z by (auto simp: with_status_def)
  from zi(1) v obtain n where n: "n \<in> set (de_nodes E)" "ID n = z" by (rule node_of_id)
  have "set (Deps n) \<subseteq> settled st"
  proof
    fix y assume y: "y \<in> set (Deps n)"
    then have "(y, z) \<in> dep_edges (de_nodes E)" using n by (auto simp: dep_edges_def)
    then have "y \<notin> ?P" by (rule min)
    moreover have yi: "y \<in> node_ids E" using v n(1) y by (auto simp: valid_dag_def known_deps_def node_ids_def)
    moreover have "NodeStatus st y \<noteq> NodeRunning" using none yi by (auto simp: with_status_def)
    moreover have "NodeStatus st y \<noteq> NodeFailed" "NodeStatus st y \<noteq> NodeCompensated"
      using D(2) by (simp_all add: status_ok_def)
    ultimately show "y \<in> settled st"
      by (cases "NodeStatus st y") (auto simp: with_status_def settled_def)
  qed
  then have "inDegree st z = 0" using D(3) n by (auto simp: degree_ok_def unmet_0_iff simp flip: n(2))
  then have rz: "z \<in> ready_set E st" using zi by (simp add: ready_set_def)
  show False
  proof (cases "ready st")
    case None
    then show False using D(5) rz by (auto simp: queue_is_def)
  next
    case (Some q)
    have "pq_full E st" using i rz Some by (auto simp: pq_idle_def)
    moreover have "activePQ st = 0" using ok Some none by (simp add: pq_ok_def)
    ultimately show False by (auto simp: pq_full_def max_def split: if_splits)
  qed
qed

lemma progress:
  assumes v: "valid_dag (de_nodes E)" and r: "has_runners E" and I: "inv E cp st"
    and nr: "\<And>res. mainPhase st \<noteq> MReturned res"
  shows "\<exists>ev st'. \<not> outside ev \<and> exec_step E ev st = Some st'"
proof (cases "mainPhase st")
  case MLoop
  have C: "core E cp [] {} {} st" "pq_ok E st" "pq_idle E st" using I MLoop by (simp_all add: inv_def)
  show ?thesis
  proof (cases "pending st \<le> 0")
    case True
    with MLoop show ?thesis by (intro exI [of _ AllDone]) simp
  next
    case False
    show ?thesis
    proof (cases "doneCh st")
      case (Cons c rest)
      with MLoop False show ?thesis by (intro exI [of _ Receive]) simp
    next
      case Nil
      have "with_status NodeRunning E st \<noteq> {}" using loop_has_running [OF v C(1,3,2)] False by simp
      then have "alive st \<noteq> {}" using coreD(7) [OF C(1)] Nil by (auto simp: chan_inv_def)
      from some_worker_steps [OF v r coreD(8) [OF C(1)] Nil this] obtain j ev st' where
        "worker E j ev st = Some st'" by blast
      then show ?thesis by (intro exI [of _ "Worker j ev"]) simp
    qed
  qed
next
  case (MForward i q e)
  then have "CompensateCfg (de_cfg E) \<noteq> None" using I by (simp add: inv_def)
  with MForward show ?thesis
    by (intro exI [of _ "Forwarded (\<lambda>_. Inl e) (\<lambda>_. None)"]) (auto simp: forwarded_def)
next
  case (MDrain k x)
  show ?thesis
  proof (cases k)
    case 0
    with MDrain show ?thesis by (intro exI [of _ "Drained (\<lambda>_ _. None)"]) simp
  next
    case (Suc m)
    show ?thesis
    proof (cases "doneCh st")
      case (Cons c rest)
      with MDrain Suc show ?thesis by (intro exI [of _ DrainOne]) simp
    next
      case Nil
      have D: "drain_inv E cp (Suc m) st" using I MDrain Suc by (simp add: inv_def)
      then have "alive st \<noteq> {}" using Nil by (auto simp: drain_inv_def)
      moreover have "sem_inv E st" using D by (simp add: drain_inv_def)
      ultimately obtain j ev st' where "worker E j ev st = Some st'"
        using some_worker_steps [OF v r _ Nil] by blast
      then show ?thesis by (intro exI [of _ "Worker j ev"]) simp
    qed
  qed
next
  case (MReturned res)
  with nr show ?thesis by blast
qed

section \<open>A bound on the remaining work\<close>

definition attempts :: "('m, 'v) dnode \<Rightarrow> nat" where
  "attempts n = nat (maxAttempts n)"

fun phase_work :: "('m, 'v) dnode \<Rightarrow> phase \<Rightarrow> nat" where
  "phase_work n AcquireSlot = 2 * attempts n + 7"
| "phase_work n AcquireResources = 2 * attempts n + 6"
| "phase_work n (Attempting k) = 2 * (attempts n - k) + 5"
| "phase_work n (Pausing k e) = 2 * (attempts n - k) + 4"
| "phase_work n Releasing = 1"

definition node_work :: "('m, 'v) dag_state \<Rightarrow> ('m, 'v) dnode \<Rightarrow> nat" where
  "node_work st n =
     (if NodeStatus st (ID n) = NodePending then 2 * attempts n + 7 else 0) +
     (case goroutines st (ID n) of None \<Rightarrow> 0 | Some (q, ph) \<Rightarrow> phase_work n ph)"

fun main_work :: "('m, 'v) main_phase \<Rightarrow> nat" where
  "main_work MLoop = 2"
| "main_work (MForward i q e) = 3"
| "main_work (MDrain k x) = 1"
| "main_work (MReturned r) = 0"

definition graph_work :: "('m, 'v) dag_env \<Rightarrow> ('m, 'v) dag_state \<Rightarrow> nat" where
  "graph_work E st = (\<Sum>n\<leftarrow>de_nodes E. node_work st n) + 3 * length (doneCh st)"

definition work :: "('m, 'v) dag_env \<Rightarrow> ('m, 'v) dag_state \<Rightarrow> nat" where
  "work E st = graph_work E st + main_work (mainPhase st)"

lemma sum_list_change_one:
  fixes f g :: "'a \<Rightarrow> nat"
  assumes "distinct (map key xs)" "x \<in> set xs" "\<And>y. y \<in> set xs \<Longrightarrow> key y \<noteq> key x \<Longrightarrow> g y = f y"
  shows "(\<Sum>y\<leftarrow>xs. g y) + f x = (\<Sum>y\<leftarrow>xs. f y) + g x"
  using assms
proof (induction xs)
  case (Cons y ys)
  show ?case
  proof (cases "x = y")
    case True
    have "\<forall>z\<in>set ys. g z = f z" using Cons.prems True by (auto simp: image_iff)
    then have "sum_list (map g ys) = sum_list (map f ys)" by (intro arg_cong [of _ _ sum_list]) simp
    with True show ?thesis by simp
  next
    case False
    then have x: "x \<in> set ys" using Cons.prems(2) by simp
    have "key y \<noteq> key x" using Cons.prems(1) x by auto
    then have "g y = f y" using Cons.prems(3) by simp
    with Cons.IH [OF _ x] Cons.prems(1,3) show ?thesis by simp
  qed
qed simp

lemma graph_work_change:
  assumes v: "valid_dag (de_nodes E)" and n: "n \<in> set (de_nodes E)"
    and s: "\<And>i. i \<noteq> ID n \<Longrightarrow> NodeStatus st' i = NodeStatus st i"
    and g: "\<And>i. i \<noteq> ID n \<Longrightarrow> goroutines st' i = goroutines st i"
  shows "graph_work E st' + node_work st n + 3 * length (doneCh st) =
    graph_work E st + node_work st' n + 3 * length (doneCh st')"
proof -
  have "(\<Sum>m\<leftarrow>de_nodes E. node_work st' m) + node_work st n = (\<Sum>m\<leftarrow>de_nodes E. node_work st m) + node_work st' n"
  proof (rule sum_list_change_one [where key = ID])
    show "distinct (map ID (de_nodes E))" using v by (simp add: valid_dag_def)
  qed (use n s g in \<open>auto simp: node_work_def\<close>)
  then show ?thesis by (simp add: graph_work_def)
qed

lemma graph_work_cong:
  "NodeStatus st' = NodeStatus st \<Longrightarrow> goroutines st' = goroutines st \<Longrightarrow> doneCh st' = doneCh st \<Longrightarrow>
     graph_work E st' = graph_work E st"
  by (simp add: graph_work_def node_work_def)

definition pend_ok :: "('m, 'v) dag_state \<Rightarrow> bool" where
  "pend_ok st \<longleftrightarrow> (\<forall>i. NodeStatus st i = NodePending \<longrightarrow> goroutines st i = None)"

lemma scheduleOne_work:
  assumes v: "valid_dag (de_nodes E)" and p: "pend_ok st" and i: "NodeStatus st i = NodePending"
    and s: "scheduleOne E i st = (st', b)"
  shows "pend_ok st' \<and> graph_work E st' \<le> graph_work E st"
proof (cases "nodeMap E i")
  case None
  with s p show ?thesis by (auto simp: scheduleOne_def)
next
  case (Some n)
  then have n: "n \<in> set (de_nodes E)" "ID n = i"
    using index_by_Some [of ID "de_nodes E" i n] v by (auto simp: valid_dag_def)
  have g: "goroutines st i = None" using p i by (simp add: pend_ok_def)
  have w: "node_work st n = 2 * attempts n + 7" using i g n(2) by (simp add: node_work_def)
  show ?thesis using Some i n(2)
  proof (cases rule: scheduleOne_cases)
    case skipped
    then have st': "st' = skip_node i st" using s by simp
    have "graph_work E st' + node_work st n + 3 * length (doneCh st) =
        graph_work E st + node_work st' n + 3 * length (doneCh st')"
      by (rule graph_work_change [OF v n(1)]) (simp_all add: st' n)
    moreover have "node_work st' n = 0" using g n(2) by (simp add: node_work_def st')
    ultimately show ?thesis using p by (auto simp: st' pend_ok_def)
  next
    case (failed e)
    then have st': "st' = send i (Inl e) (set_status i NodeRunning st)" using s by simp
    have "graph_work E st' + node_work st n + 3 * length (doneCh st) =
        graph_work E st + node_work st' n + 3 * length (doneCh st')"
      by (rule graph_work_change [OF v n(1)]) (simp_all add: st' n)
    moreover have "node_work st' n = 0" using g n(2) by (simp add: node_work_def st')
    moreover have "length (doneCh st') = Suc (length (doneCh st))" by (simp add: st' send_def)
    ultimately show ?thesis using p w by (auto simp: st' pend_ok_def)
  next
    case (launched q)
    then have st': "st' = launch n q (emit E (OnNodeStart i) st)" using s by simp
    have "graph_work E st' + node_work st n + 3 * length (doneCh st) =
        graph_work E st + node_work st' n + 3 * length (doneCh st')"
      by (rule graph_work_change [OF v n(1)]) (simp_all add: st' n)
    moreover have "node_work st' n = 2 * attempts n + 7" by (simp add: node_work_def st' n(2))
    ultimately show ?thesis using p w by (auto simp: st' pend_ok_def)
  qed
qed

lemma dec_degree_work [simp]:
  "graph_work E (dec_degree ds st) = graph_work E st" "pend_ok (dec_degree ds st) = pend_ok st"
  by (simp_all add: graph_work_def node_work_def pend_ok_def)

lemma push_ready_work [simp]:
  "graph_work E (push_ready E' i q st) = graph_work E st" "pend_ok (push_ready E' i q st) = pend_ok st"
  by (simp_all add: graph_work_def node_work_def pend_ok_def push_ready_def split: option.splits)

lemma propagate_work:
  "valid_dag (de_nodes E) \<Longrightarrow> pend_ok st \<Longrightarrow>
     pend_ok (propagate E L st) \<and> graph_work E (propagate E L st) \<le> graph_work E st"
proof (induction E L st rule: propagate.induct)
  case (2 E ds rest st)
  show ?case
  proof (cases "inDegree st ds - 1 = 0 \<and> NodeStatus st ds = NodePending")
    case True
    show ?thesis
    proof (cases "ready st")
      case (Some q)
      have eq: "propagate E (ds # rest) st = propagate E rest (push_ready E ds q (dec_degree ds st))"
        by (simp only: propagate.simps True Some if_True option.case simp_thms)
      from "2.IH"(2) [OF True Some "2.prems"(1)] "2.prems"(2) show ?thesis by (simp only: eq) simp
    next
      case None
      obtain st' p where s: "scheduleOne E ds (dec_degree ds st) = (st', p)" by fastforce
      have eq: "propagate E (ds # rest) st =
          propagate E (if p then downstream (de_nodes E) ds @ rest else rest) st'"
        by (simp only: propagate.simps True None if_True option.case simp_thms s prod.case)
      have "pend_ok (dec_degree ds st)" "NodeStatus (dec_degree ds st) ds = NodePending"
        using "2.prems"(2) True by simp_all
      note S = scheduleOne_work [OF "2.prems"(1) this s]
      from "2.IH"(1) [OF True None s [symmetric] "2.prems"(1)] S show ?thesis unfolding eq by auto
    qed
  next
    case False
    have eq: "propagate E (ds # rest) st = propagate E rest (dec_degree ds st)"
      by (simp only: propagate.simps False if_False)
    from "2.IH"(3) [OF False "2.prems"(1)] "2.prems"(2) show ?thesis by (simp only: eq) simp
  qed
qed simp

lemma core_pend_ok: "core E cp W T F st \<Longrightarrow> pend_ok st"
  using coreD(7) [of E cp W T F st] by (auto simp: chan_inv_def pend_ok_def)

lemma drain_pop_work:
  assumes v: "valid_dag (de_nodes E)" and C: "core E cp [] {} F st" and q: "ready st = Some q" and ne: "\<not> pq_empty q"
  shows "graph_work E (drain_pop E q st) \<le> graph_work E st"
proof -
  define x where "x = fst (pq_pop q)"
  define st1 where "st1 = st\<lparr>ready := Some (snd (pq_pop q))\<rparr>"
  note P = pq_pop_ready [OF C q ne, folded x_def st1_def]
  obtain st2 p where s: "scheduleOne E x st1 = (st2, p)" by fastforce
  have "NodeStatus st1 x = NodePending" using P(1) by (simp add: st1_def ready_set_def)
  note S = scheduleOne_work [OF v core_pend_ok [OF P(2)] this s]
  have w1: "graph_work E st1 = graph_work E st" by (rule graph_work_cong) (simp_all add: st1_def)
  have "graph_work E (scheduleReady E x st1) \<le> graph_work E st"
    using propagate_work [OF v, of st2 "downstream (de_nodes E) x"] S w1
    by (auto simp: scheduleReady_def s propagateDownstream_def)
  moreover have "graph_work E (drain_pop E q st) = graph_work E (scheduleReady E x st1)"
    by (rule graph_work_cong) (simp_all add: drain_pop_def Let_def x_def st1_def)
  ultimately show ?thesis by simp
qed

lemma drainPQ_work:
  "valid_dag (de_nodes E) \<Longrightarrow> core E cp [] {} F st \<Longrightarrow> pq_ok E st \<Longrightarrow>
     graph_work E (drainPQ E st) \<le> graph_work E st"
proof (induction E st rule: drainPQ.induct)
  case (1 E st)
  show ?case
  proof (cases "ready st")
    case None
    then show ?thesis by (simp add: drainPQ.simps)
  next
    case (Some q)
    show ?thesis
    proof (cases "pq_empty q \<or> pq_full E st")
      case True
      then show ?thesis using Some by (simp add: drainPQ.simps)
    next
      case False
      then have eq: "drainPQ E st = drainPQ E (drain_pop E q st)" using Some by (subst drainPQ.simps) simp
      have ne: "\<not> pq_empty q" "\<not> pq_full E st" using False by auto
      note D = drain_pop_core [OF "1.prems"(1,2) Some ne "1.prems"(3)]
      from "1.IH" [OF Some False "1.prems"(1)] D drain_pop_work [OF "1.prems"(1,2) Some ne(1)]
      show ?thesis by (auto simp: eq)
    qed
  qed
qed

lemma settle_work:
  assumes v: "valid_dag (de_nodes E)" and C: "core E cp (downstream (de_nodes E) i) {} F st" and ok: "pq_ok E st"
  shows "graph_work E (settle E i st) \<le> graph_work E st"
proof -
  let ?st = "propagateDownstream E i st"
  have P: "core E cp [] {} F ?st" "ready ?st = None \<longleftrightarrow> ready st = None"
    using propagate_core [OF v C] by (simp_all add: propagateDownstream_def)
  have "pq_ok E ?st"
  proof (cases "ready st = None")
    case True
    then show ?thesis using P by (simp add: pq_ok_def)
  next
    case False
    from propagate_pq [OF this, of E "downstream (de_nodes E) i"] ok False show ?thesis
      by (auto simp: pq_ok_def propagateDownstream_def with_status_def)
  qed
  from drainPQ_work [OF v P(1) this] propagate_work [OF v core_pend_ok [OF C]] show ?thesis
    by (auto simp: settle_def propagateDownstream_def intro: order.trans)
qed

section \<open>Every event of the execution uses up work\<close>

lemma attempts_pos: "0 < attempts n"
  by (simp add: attempts_def maxAttempts_def)

lemma worker_step_work:
  assumes "worker_step E n ctx used ph ev = Some out"
    and "\<And>k e. ph = Pausing k e \<Longrightarrow> k < attempts n"
  shows "case out of Go ph' u \<Rightarrow> phase_work n ph' < phase_work n ph
    | Finished r s None u \<Rightarrow> 3 < phase_work n ph
    | Finished r s (Some ph') u \<Rightarrow> phase_work n ph' + 3 < phase_work n ph
    | Leave u \<Rightarrow> 0 < phase_work n ph"
  using assms
  by (cases ph; cases ev)
    (auto simp: retry_or_fail_def split: if_splits option.splits sum.splits)

lemma worker_work:
  assumes v: "valid_dag (de_nodes E)" and S: "sem_inv E st" and w: "worker E i ev st = Some st'"
  shows "graph_work E st' < graph_work E st"
proof -
  obtain q ph n out where g: "goroutines st i = Some (q, ph)" and n: "nodeMap E i = Some n"
    and s: "worker_step E n (ctxErr st) (sem_used st) ph ev = Some out"
    and a: "worker_apply E i q out st = Some st'"
    using w by (auto simp: worker_def split: option.splits)
  have ns: "n \<in> set (de_nodes E)" "ID n = i"
    using index_by_Some [of ID "de_nodes E" i n] v n by (auto simp: valid_dag_def)
  have "k < attempts n" if "ph = Pausing k e" for k e
  proof -
    have "goroutines st i = Some (q, Pausing k e)" using g that by simp
    then have "int k < maxAttempts n - 1" using S n unfolding sem_inv_def phase_ok_def by blast
    then show ?thesis by (simp add: attempts_def)
  qed
  note W = worker_step_work [OF s this]
  have f: "NodeStatus st' = NodeStatus st" by (rule worker_fields(1) [OF w])
  have "\<And>j. j \<noteq> i \<Longrightarrow> goroutines st' j = goroutines st j"
    using a by (auto simp: worker_apply_def send_def split: worker_out.splits if_splits)
  then have ch: "graph_work E st' + node_work st n + 3 * length (doneCh st) =
      graph_work E st + node_work st' n + 3 * length (doneCh st')"
    by (intro graph_work_change [OF v ns(1)]) (simp_all add: f ns(2))
  define p where "p = (if NodeStatus st i = NodePending then 2 * attempts n + 7 else 0)"
  have old: "node_work st n = p + phase_work n ph" by (simp add: node_work_def g ns(2) p_def)
  have "node_work st' n + 3 * length (doneCh st') < p + phase_work n ph + 3 * length (doneCh st)"
  proof (cases out)
    case (Go ph' u)
    then have "node_work st' n = p + phase_work n ph'" "doneCh st' = doneCh st"
      using a f by (auto simp: worker_apply_def node_work_def ns(2) p_def)
    with W Go show ?thesis by simp
  next
    case (Finished r s' ph' u)
    then have "node_work st' n = p + (case ph' of None \<Rightarrow> 0 | Some x \<Rightarrow> phase_work n x)"
      "length (doneCh st') = Suc (length (doneCh st))"
      using a f by (auto simp: worker_apply_def node_work_def ns(2) p_def send_def split: if_splits option.splits)
    with W Finished show ?thesis by (auto split: option.splits)
  next
    case (Leave u)
    then have "node_work st' n = p" "doneCh st' = doneCh st"
      using a f by (auto simp: worker_apply_def node_work_def ns(2) p_def)
    with W Leave show ?thesis by simp
  qed
  with ch old show ?thesis by linarith
qed

text \<open>Setting the status of a node that is not pending does not add work.\<close>

lemma graph_work_status:
  assumes "\<And>j. NodeStatus st' j = NodePending \<longleftrightarrow> NodeStatus st j = NodePending"
    and "goroutines st' = goroutines st"
  shows "graph_work E st' + 3 * length (doneCh st) = graph_work E st + 3 * length (doneCh st')"
  using assms by (simp add: graph_work_def node_work_def)

lemma main_work_leave [simp]: "main_work (mainPhase (leave_loop E x st)) = 1"
  by (simp add: leave_loop_def)

lemma graph_work_leave [simp]: "graph_work E (leave_loop E' x st) = graph_work E st"
  by (rule graph_work_cong) (simp_all add: leave_loop_def)

lemma graph_work_cancel [simp]: "graph_work E (cancel st) = graph_work E st"
  by (rule graph_work_cong) simp_all

lemma settle_main: "mainPhase (settle E i st) = mainPhase st"
proof -
  have pop: "mainPhase (drain_pop E q st) = mainPhase st" for E :: "('a, 'b) dag_env" and q st
    by (simp add: drain_pop_def Let_def)
  have "mainPhase (drainPQ E st) = mainPhase st" for st
    by (induction E st rule: drainPQ.induct) (subst drainPQ.simps, simp add: pop split: option.splits)
  then show ?thesis by (simp add: settle_def propagateDownstream_def)
qed

lemma handleCompletion_work:
  assumes v: "valid_dag (de_nodes E)" and I: "inv E cp st" and m: "mainPhase st = MLoop"
    and d: "doneCh st = c # rest"
  shows "work E (handleCompletion E c (st\<lparr>doneCh := rest, pending := pending st - 1\<rparr>)) < work E st"
proof -
  let ?i = "c_nodeID c"
  have C: "core E cp [] {} {} st" and ok: "pq_ok E st" using I m by (simp_all add: inv_def)
  define s0 where "s0 = (if ready st \<noteq> None then
      st\<lparr>doneCh := rest, pending := pending st - 1, activePQ := activePQ st - 1\<rparr>
    else st\<lparr>doneCh := rest, pending := pending st - 1\<rparr>)"
  have f0: "NodeStatus s0 = NodeStatus st" "inDegree s0 = inDegree st" "pending s0 = pending st - 1"
    "ready s0 = ready st" "doneCh s0 = rest" "goroutines s0 = goroutines st" "sem_used s0 = sem_used st"
    "mainPhase s0 = MLoop" by (simp_all add: s0_def m)
  define s1 where "s1 = set_status ?i NodeFailed s0"
  have f1: "NodeStatus s1 = (NodeStatus st)(?i := NodeFailed)" "inDegree s1 = inDegree st"
    "pending s1 = pending st - 1" "ready s1 = ready st" "doneCh s1 = rest"
    "goroutines s1 = goroutines st" "sem_used s1 = sem_used st"
    by (simp_all add: s1_def f0)
  note K = core_take [OF C d f1]
  have run: "NodeStatus st ?i = NodeRunning" using K(2) by (simp add: with_status_def)
  have ok1: "pq_ok E s1"
  proof (cases "ready st = None")
    case False
    have "activePQ s1 = activePQ st - 1" using False by (simp add: s1_def s0_def)
    moreover have "activePQ st = int (card (with_status NodeRunning E st))"
      "MaxConcurrency (de_cfg E) > 0 \<longrightarrow> activePQ st \<le> MaxConcurrency (de_cfg E)"
      using ok False by (auto simp: pq_ok_def)
    moreover have "int (card (with_status NodeRunning E s1)) = int (card (with_status NodeRunning E st)) - 1"
      unfolding K(3) by (rule card_move [OF K(2) finite_with_status])
    ultimately show ?thesis unfolding pq_ok_def by linarith
  qed (simp add: pq_ok_def f1)
  have eq: "handleCompletion E c (st\<lparr>doneCh := rest, pending := pending st - 1\<rparr>) =
      (case c_result c of Inl e \<Rightarrow> handleNodeError E ?i e s0 | Inr p \<Rightarrow> handleNodeSuccess E ?i p s0)"
    by (cases "c_result c") (simp_all add: handleCompletion_def s0_def)
  obtain n where n: "nodeMap E ?i = Some n"
    using node_of_id [OF _ v, of ?i] K(2) by (auto simp: with_status_def)
  have less: "graph_work E s + 3 = graph_work E st"
    if "\<And>j. NodeStatus s j = NodePending \<longleftrightarrow> NodeStatus st j = NodePending"
      "goroutines s = goroutines st" "doneCh s = rest" for s
    using graph_work_status [of s st E, OF that(1,2)] d that(3) by simp
  have mw: "main_work (mainPhase st) = 2" by (simp add: m)
  show ?thesis
  proof (cases "c_result c")
    case (Inr p)
    define s2 where "s2 = finish_node E ?i p s0"
    have f2: "NodeStatus s2 = (NodeStatus s1)(?i := NodeDone)" "inDegree s2 = inDegree s1"
      "pending s2 = pending s1" "ready s2 = ready s1" "doneCh s2 = doneCh s1"
      "goroutines s2 = goroutines s1" "sem_used s2 = sem_used s1"
      by (simp_all add: s2_def s1_def f0)
    have m2: "mainPhase s2 = MLoop" by (simp add: s2_def f0)
    have w2: "graph_work E s2 + 3 = graph_work E st"
      by (rule less) (use run in \<open>auto simp: f2 f1\<close>)
    note S = core_settle [OF K(1) v disjI1 [OF refl] f2]
    have "activePQ s2 = activePQ s1" by (simp add: s2_def s1_def)
    then have ok2: "pq_ok E s2" using ok1 S(2) by (auto simp: pq_ok_def f2)
    have "work E (handleNodeSuccess E ?i p s0) < work E st"
      using settle_work [OF v S(1) ok2] w2 mw m2 settle_main [of E ?i s2]
      by (auto simp: handleNodeSuccess_def Let_def work_def simp flip: s2_def)
    then show ?thesis by (simp add: eq Inr)
  next
    case (Inl e)
    define s2 where "s2 = emit E (OnNodeComplete ?i NodeFailed (Some e)) s1"
    have f2: "NodeStatus s2 = NodeStatus s1" "inDegree s2 = inDegree s1"
      "pending s2 = pending s1" "ready s2 = ready s1" "doneCh s2 = doneCh s1"
      "goroutines s2 = goroutines s1" "sem_used s2 = sem_used s1"
      by (simp_all add: s2_def f1)
    have C2: "core E cp [] {} {?i} s2" using K(1) core_cong [OF f2] by blast
    have m2: "mainPhase s2 = MLoop" by (simp add: s2_def s1_def f0)
    have w2: "graph_work E s2 + 3 = graph_work E st"
      by (rule less) (use run in \<open>auto simp: f2 f1\<close>)
    have "graph_work E (s2\<lparr>mainPhase := MForward ?i q e\<rparr>) = graph_work E s2" for q
      by (rule graph_work_cong) simp_all
    then have fwd: "work E (s2\<lparr>mainPhase := MForward ?i q e\<rparr>) < work E st" for q
      using w2 mw by (simp add: work_def)
    have bwd: "work E (leave_loop E x (cancel s2)) < work E st" for x
      using w2 mw by (simp add: work_def)
    define s3 where "s3 = set_status ?i NodeSkipped s2"
    have f3: "NodeStatus s3 = (NodeStatus s2)(?i := NodeSkipped)" "inDegree s3 = inDegree s2"
      "pending s3 = pending s2" "ready s3 = ready s2" "doneCh s3 = doneCh s2"
      "goroutines s3 = goroutines s2" "sem_used s3 = sem_used s2"
      by (simp_all add: s3_def)
    have w3: "graph_work E s3 + 3 = graph_work E st"
      by (rule less) (use run in \<open>auto simp: f3 f2 f1\<close>)
    note S = core_settle [OF C2 v disjI2 [OF refl] f3]
    have "activePQ s3 = activePQ s1" by (simp add: s3_def s2_def)
    then have ok3: "pq_ok E s3"
      using ok1 S(2) with_status_cong [OF f2(1)] by (auto simp: pq_ok_def f3 f2)
    have skip: "work E (settle E ?i s3) < work E st"
      using settle_work [OF v S(1) ok3] w3 mw m2 settle_main [of E ?i s3]
      by (simp add: work_def s3_def)
    have "work E (handleNodeError E ?i e s0) < work E st"
      unfolding handleNodeError_def Let_def s1_def [symmetric] s2_def [symmetric] s3_def [symmetric] n option.case
        fail_backward_def
      using fwd bwd skip by (auto split: sum.splits)
    then show ?thesis by (simp add: eq Inl)
  qed
qed

lemma forwarded_work:
  assumes v: "valid_dag (de_nodes E)" and I: "inv E cp st" and m: "mainPhase st = MForward i q e"
    and s: "forwarded E outs intr i e st = Some st'"
  shows "work E st' < work E st"
proof -
  have C: "core E cp [] {} {i} st" and ok: "pq_ok E st" using I m by (simp_all add: inv_def)
  have fail: "NodeStatus st i = NodeFailed" using coreD(2) [OF C] by (simp add: status_ok_def)
  obtain cfg where cfg: "CompensateCfg (de_cfg E) = Some cfg" using s by (auto simp: forwarded_def split: option.splits)
  have mw: "main_work (mainPhase st) = 3" by (simp add: m)
  show ?thesis
  proof (cases "executeForwardRecovery cfg i outs intr")
    case (Inl e')
    then have "st' = fail_backward E i e st" using s cfg by (simp add: forwarded_def)
    then show ?thesis using mw by (simp add: work_def fail_backward_def)
  next
    case (Inr p)
    define s1 where "s1 = finish_node E i p st"
    define s2 where "s2 = s1\<lparr>timeline := recordEnd (now s1) (now s1) i NodeDone (timeline s1)\<rparr>"
    have st': "st' = (settle E i s2)\<lparr>mainPhase := MLoop\<rparr>"
      using s cfg Inr by (simp add: forwarded_def s1_def s2_def Let_def)
    have f: "NodeStatus s2 = (NodeStatus st)(i := NodeDone)" "inDegree s2 = inDegree st"
      "pending s2 = pending st" "ready s2 = ready st" "doneCh s2 = doneCh st"
      "goroutines s2 = goroutines st" "sem_used s2 = sem_used st"
      by (simp_all add: s2_def s1_def)
    note S = core_settle [OF C v disjI1 [OF refl] f]
    have "activePQ s2 = activePQ st" by (simp add: s2_def s1_def)
    then have ok2: "pq_ok E s2" using ok S(2) by (auto simp: pq_ok_def f)
    have "graph_work E s2 = graph_work E st"
      using graph_work_status [of s2 st E] fail by (auto simp: f)
    moreover have "graph_work E st' = graph_work E (settle E i s2)"
      by (rule graph_work_cong) (simp_all add: st')
    ultimately show ?thesis using settle_work [OF v S(1) ok2] mw by (simp add: work_def st')
  qed
qed

lemma finalize_work:
  "graph_work E (finalize E st) = graph_work E st \<and> main_work (mainPhase (finalize E st)) = 0"
proof -
  have "graph_work E (finalize E st) = graph_work E st"
    using finalize_fields [of E st] by (intro graph_work_cong) auto
  then show ?thesis using finalize_fields [of E st] by auto
qed

lemma drained_work:
  "graph_work E (drained E intr x st) = graph_work E st"
proof (cases x)
  case (DrainCompensate e)
  obtain err status' calls where b: "executeBackwardCompensation (de_nodes E)
      (the (CompensateCfg (de_cfg E))) intr (NodeResults st) (NodeStatus st) = (err, status', calls)"
    by (metis prod.exhaust)
  have "status' j = NodePending \<longleftrightarrow> NodeStatus st j = NodePending" for j
    using executeBackwardCompensation_spec(1) [OF b, of j] by auto
  then have "graph_work E (drained E intr x st) + 3 * length (doneCh st) =
      graph_work E st + 3 * length (doneCh (drained E intr x st))"
    by (intro graph_work_status) (simp_all add: drained_def DrainCompensate b)
  then show ?thesis by (simp add: drained_def DrainCompensate b)
next
  case DrainEarly
  then show ?thesis using finalize_work [of E st] by (simp add: drained_def)
next
  case DrainCtx
  then show ?thesis by (simp add: drained_def) (rule graph_work_cong; simp)
next
  case DrainCancelled
  then show ?thesis by (simp add: drained_def) (rule graph_work_cong; simp)
next
  case (DrainAbort e)
  then show ?thesis by (simp add: drained_def) (rule graph_work_cong; simp)
qed

lemma exec_step_work:
  assumes v: "valid_dag (de_nodes E)" and I: "inv E cp st" and s: "exec_step E ev st = Some st'"
  shows "if outside ev then work E st' = work E st else work E st' < work E st"
proof (cases ev)
  case (Tick d)
  then show ?thesis using s graph_work_cong [of st' st E] by (auto simp: work_def)
next
  case (Cancelled e)
  then show ?thesis using s graph_work_cong [of st' st E] by (auto simp: work_def split: if_splits)
next
  case (Worker i wev)
  have S: "sem_inv E st" using I by (auto simp: inv_def drain_inv_def core_def split: main_phase.splits)
  have w: "worker E i wev st = Some st'" using s Worker by simp
  from worker_work [OF v S w] worker_fields(6) [OF w] show ?thesis by (simp add: work_def Worker)
next
  case Receive
  then obtain c rest where m: "mainPhase st = MLoop" and d: "doneCh st = c # rest"
    and "st' = handleCompletion E c (st\<lparr>doneCh := rest, pending := pending st - 1\<rparr>)"
    using s by (auto split: if_splits list.splits)
  then show ?thesis using handleCompletion_work [OF v I m d] Receive by simp
next
  case SeeCancel
  then show ?thesis using s by (auto simp: work_def split: if_splits)
next
  case (Forwarded outs intr)
  then show ?thesis using s forwarded_work [OF v I] by (auto split: main_phase.splits)
next
  case DrainOne
  then obtain k x c rest where m: "mainPhase st = MDrain (Suc k) x" and d: "doneCh st = c # rest"
    and st': "st' = st\<lparr>doneCh := rest, mainPhase := MDrain k x\<rparr>"
    using s by (auto split: main_phase.splits nat.splits list.splits)
  have "graph_work E st' + 3 * length (doneCh st) = graph_work E st + 3 * length (doneCh st')"
    by (rule graph_work_status) (simp_all add: st')
  then have "graph_work E st' < graph_work E st" by (simp add: st' d)
  then show ?thesis using DrainOne m by (simp add: work_def st')
next
  case (Drained intr)
  then obtain x where m: "mainPhase st = MDrain 0 x" and st': "st' = drained E intr x st"
    using s by (auto split: main_phase.splits nat.splits)
  have "main_work (mainPhase st') = 0" using drained_fields [of E intr x st] by (auto simp: st')
  then show ?thesis using Drained m drained_work [of E intr x st] by (simp add: work_def st')
next
  case AllDone
  then have "mainPhase st = MLoop" "st' = finalize E st" using s by (auto split: if_splits)
  then show ?thesis using AllDone finalize_work [of E st] by (simp add: work_def)
qed

text \<open>So executions end: however the environment behaves, at most \<open>work\<close> events of the
  execution itself can follow, and from every state such events lead to a return.\<close>

lemma exec_events_bound:
  "valid_dag (de_nodes E) \<Longrightarrow> inv E cp st \<Longrightarrow> exec_events E evs st = Some st' \<Longrightarrow>
     length (filter (\<lambda>ev. \<not> outside ev) evs) + work E st' \<le> work E st"
proof (induction evs arbitrary: st)
  case (Cons ev evs)
  then obtain st1 where s: "exec_step E ev st = Some st1" and r: "exec_events E evs st1 = Some st'"
    by (auto split: option.splits)
  note I1 = exec_step_inv [OF Cons.prems(1,2) s]
  from Cons.IH [OF Cons.prems(1) I1 r] exec_step_work [OF Cons.prems(1,2) s] show ?case
    by (auto split: if_splits)
qed simp

lemma can_return:
  "valid_dag (de_nodes E) \<Longrightarrow> has_runners E \<Longrightarrow> inv E cp st \<Longrightarrow>
     \<exists>evs st' r. (\<forall>ev\<in>set evs. \<not> outside ev) \<and> exec_events E evs st = Some st' \<and> mainPhase st' = MReturned r"
proof (induction "work E st" arbitrary: st rule: less_induct)
  case less
  show ?case
  proof (cases "\<exists>r. mainPhase st = MReturned r")
    case True
    then show ?thesis by (intro exI [of _ "[]"]) auto
  next
    case False
    then obtain ev st1 where s: "\<not> outside ev" "exec_step E ev st = Some st1"
      using progress [OF less.prems] by blast
    have I: "inv E cp st1" by (rule exec_step_inv [OF less.prems(1,3) s(2)])
    have "work E st1 < work E st" using exec_step_work [OF less.prems(1,3) s(2)] s(1) by simp
    from less.hyps [OF this less.prems(1,2) I] obtain evs st' r where
      "\<forall>ev\<in>set evs. \<not> outside ev" "exec_events E evs st1 = Some st'" "mainPhase st' = MReturned r" by blast
    with s show ?thesis by (intro exI [of _ "ev # evs"]) auto
  qed
qed

end
