(* ===== verification/DagProps.thy ===== *)
theory DagProps
  imports DagLive
begin

text \<open>
  The properties of an execution of the executor, each instantiated on the execution of a graph of
  two nodes, \<open>a\<close> and \<open>b\<close>, where \<open>b\<close> depends on \<open>a\<close>.
\<close>

section \<open>After the event loop has been left\<close>

definition left_with :: "drain_exit \<Rightarrow> ('m, 'v) dag_state \<Rightarrow> ('m, 'v) dag_state \<Rightarrow> bool" where
  "left_with x st st' \<longleftrightarrow>
     ((\<exists>k. mainPhase st' = MDrain k x) \<and> NodeStatus st' = NodeStatus st \<or>
      (\<exists>r. mainPhase st' = MReturned r \<and> (\<forall>e. x = DrainAbort e \<longrightarrow> r = Some e))) \<and>
     (\<forall>i. goroutines st i = None \<longrightarrow> goroutines st' i = None) \<and>
     (\<forall>i. NodeStatus st i \<noteq> NodeDone \<longrightarrow> NodeStatus st' i = NodeStatus st i)"

lemma finalize_returned: "\<exists>r. mainPhase (finalize E st) = MReturned r"
  using finalize_fields by blast

lemma drained_status:
  assumes "NodeStatus st i \<noteq> NodeDone"
  shows "NodeStatus (drained E intr x st) i = NodeStatus st i"
proof (cases x)
  case (DrainCompensate e)
  obtain err status' calls where b: "executeBackwardCompensation (de_nodes E) (the (CompensateCfg (de_cfg E)))
      intr (NodeResults st) (NodeStatus st) = (err, status', calls)" by (rule prod_cases3)
  show ?thesis using executeBackwardCompensation_spec(1) [OF b, of i] assms DrainCompensate
    by (simp add: drained_def b)
qed (use finalize_fields [of E st] in \<open>simp_all add: drained_def\<close>)

lemma left_with_step:
  assumes L: "left_with x st0 st" and s: "exec_step E ev st = Some st'"
  shows "left_with x st0 st'"
proof (cases ev)
  case (Worker i w)
  then have w: "worker E i w st = Some st'" using s by simp
  have "goroutines st' i = None" if "goroutines st i = None" for i
    using worker_dom [OF w] that by blast
  then show ?thesis using L worker_fields [OF w] by (auto simp: left_with_def)
next
  case (Drained intr)
  then obtain x' where m: "mainPhase st = MDrain 0 x'" and st': "st' = drained E intr x' st"
    using s by (auto split: main_phase.splits nat.splits)
  then have x': "x' = x" and "NodeStatus st = NodeStatus st0" and
    d: "\<forall>i. goroutines st0 i = None \<longrightarrow> goroutines st i = None" using L by (auto simp: left_with_def)
  then have "NodeStatus st' i = NodeStatus st0 i" if "NodeStatus st0 i \<noteq> NodeDone" for i
    using drained_status [of st i E intr x'] that by (simp add: st')
  moreover have "x = DrainAbort e \<Longrightarrow> mainPhase st' = MReturned (Some e)" for e
    by (simp add: st' x' drained_def)
  ultimately show ?thesis
    using drained_fields [of E intr x' st] d unfolding left_with_def st'
    by (metis main_phase.inject(3))
qed (use L s in \<open>auto simp: left_with_def split: if_splits main_phase.splits nat.splits list.splits\<close>)

lemma left_with_events: "left_with x st0 st \<Longrightarrow> exec_events E evs st = Some st' \<Longrightarrow> left_with x st0 st'"
  by (induction evs arbitrary: st) (auto split: option.splits intro: left_with_step)

lemma left_with_start: "mainPhase st = MDrain k x \<Longrightarrow> left_with x st st"
  by (simp add: left_with_def)

section \<open>Facts about all phases\<close>

lemma inv_sem: "inv E cp st \<Longrightarrow> sem_inv E st"
  by (auto simp: inv_def core_def drain_inv_def split: main_phase.splits)

lemma inv_alive_running:
  assumes "inv E cp st" "i \<in> alive st"
  shows "NodeStatus st i = NodeRunning \<and> deps_ok E cp st \<and>
    (ready st \<noteq> None \<longrightarrow> MaxConcurrency (de_cfg E) > 0 \<longrightarrow>
       int (card (with_status NodeRunning E st)) \<le> MaxConcurrency (de_cfg E))"
  using assms
  by (auto simp: inv_def core_def drain_inv_def chan_inv_def graph_inv_def pq_ok_def with_status_def
      split: main_phase.splits)

lemma deps_okD:
  "deps_ok E cp st \<Longrightarrow> n \<in> set (de_nodes E) \<Longrightarrow> NodeStatus st (ID n) \<noteq> NodePending \<Longrightarrow> ID n \<notin> cp \<Longrightarrow>
     set (Deps n) \<subseteq> settled st"
  unfolding deps_ok_def by blast

lemma started_node:
  assumes "ExecuteDAG cfg nodes req add t ctx = Inr (Started E st0)" "n \<in> set nodes"
  obtains n' where "n' \<in> set (de_nodes E)" "ID n' = ID n" "Deps n' = Deps n" "Runner n' = Runner n"
proof -
  note st = ExecuteDAG_Started [OF assms(1)]
  obtain k where k: "k < length nodes" "n = nodes ! k" using assms(2) by (auto simp: in_set_conv_nth)
  have "length (de_nodes E) = length nodes" using st(4) by (rule map_eq_imp_length_eq)
  then show thesis
    using that [of "de_nodes E ! k"] k st(4-6) by (metis nth_map nth_mem)
qed

definition final_ids :: "('m, 'v) dag_env \<Rightarrow> ('m, 'v) dag_state \<Rightarrow> string list" where
  "final_ids E st = sort (map fst (final_inputs E st))"

definition messages_of :: "('m, 'v) run_response option \<Rightarrow> 'm list" where
  "messages_of r = (case r of None \<Rightarrow> [] | Some p \<Rightarrow> rs_Messages p)"

lemma done_results_eq: "(i, r) \<in> set (done_results E P st) \<Longrightarrow> r = NodeResults st i"
  by (auto simp: done_results_def)

lemma final_inputs_read:
  assumes "i \<in> set (map fst (final_inputs E st))"
  shows "read_result (final_inputs E st) i = NodeResults st i"
proof -
  obtain r where r: "map_of (final_inputs E st) i = Some r"
    using assms by (metis image_set map_of_eq_None_iff option.exhaust)
  then have "(i, r) \<in> set (final_inputs E st)" by (rule map_of_SomeD)
  then have "r = NodeResults st i" by (auto simp: final_inputs_def Let_def dest: done_results_eq split: if_splits)
  with r show ?thesis by (simp add: read_result_def)
qed

lemma concat_final:
  "\<exists>out. concatMessagesAggregator (final_inputs E st) = Inr (Some out) \<and>
     rs_Messages out = concat (map (\<lambda>i. messages_of (NodeResults st i)) (final_ids E st))"
proof -
  let ?out = "fold (\<lambda>k. concat_result (read_result (final_inputs E st) k)) (final_ids E st) response_zero"
  have eq: "map (\<lambda>i. messages_of (read_result (final_inputs E st) i)) (final_ids E st) =
      map (\<lambda>i. messages_of (NodeResults st i)) (final_ids E st)"
    by (intro map_cong refl arg_cong [where f = messages_of] final_inputs_read) (simp add: final_ids_def)
  have "rs_Messages ?out = concat (map (\<lambda>i. messages_of (read_result (final_inputs E st) i)) (final_ids E st))"
    by (simp add: fold_concat_messages messages_of_def response_zero_def)
  moreover have "concatMessagesAggregator (final_inputs E st) = Inr (Some ?out)"
    by (simp add: concatMessagesAggregator_def final_ids_def result_keys_def)
  ultimately show ?thesis by (simp only: eq) simp
qed


section \<open>A demonstration graph\<close>

definition demo_response :: "nat \<Rightarrow> (nat, nat) run_response" where
  "demo_response k = response_zero\<lparr>rs_Messages := [k]\<rparr>"

definition demo_node :: "string \<Rightarrow> string list \<Rightarrow> (nat, nat) dnode" where
  "demo_node i ds = (bare_node i ds)\<lparr>Runner := Some \<lparr>Run = \<lambda>_ _. Inr (Some (demo_response 1)),
     Compensate = Some (\<lambda>_ _. None), Idempotent = False\<rparr>\<rparr>"

definition demo_nodes :: "(nat, nat) dnode list" where
  "demo_nodes = [demo_node ''a'' [], demo_node ''b'' [''a'']]"

definition demo_cfg :: "(nat, nat) dag_config" where
  "demo_cfg = \<lparr>MaxConcurrency = 1, ErrorStrategy = Abort, EarlyExitFunc = None, Aggregator = None,
     CheckpointStore = None, ReplayMode = False, PriorityScheduling = False, CriticalPathAuto = False,
     HasBackpressure = False, HasResources = False, CompensateCfg = None, EventHandler = True\<rparr>"

definition demo_req :: "(nat, nat) run_request" where
  "demo_req = \<lparr>rq_Messages = [0], rq_SessionID = ''s'', rq_Options = None, rq_Metadata = Map.empty\<rparr>"

definition demo_env :: "(nat, nat) dag_env" where
  "demo_env = \<lparr>de_cfg = demo_cfg, de_nodes = demo_nodes, de_req = demo_req, de_add = usage_plus\<rparr>"

definition demo_start :: "(nat, nat) dag_state" where
  "demo_start = start_run demo_env (initial_state demo_cfg demo_nodes Map.empty 0 None)"

lemma demo_valid: "ValidateDAG demo_nodes = None"
  by code_simp

lemma demo_started: "ExecuteDAG demo_cfg demo_nodes demo_req usage_plus 0 None = Inr (Started demo_env demo_start)"
  using demo_valid
  by (simp add: ExecuteDAG_def newDagExecutor_def load_checkpoints_def demo_start_def demo_env_def)
    (simp add: demo_cfg_def demo_nodes_def)

text \<open>The events of one node: it succeeds at the first attempt, or is attempted and fails.\<close>

definition node_runs :: "string \<Rightarrow> (nat, nat) event list" where
  "node_runs i = [Worker i SlotGranted, Worker i ResourcesGranted]"

definition node_events :: "string \<Rightarrow> (nat, nat) event list" where
  "node_events i = node_runs i @ [Worker i (Returned (Inr (Some (demo_response 1)))), Worker i Released]"

definition node_fails :: "string \<Rightarrow> (nat, nat) event list" where
  "node_fails i = node_runs i @ [Worker i (Returned (Inl (External ''down''))), Worker i Released]"

definition demo_after :: "(nat, nat) event list \<Rightarrow> (nat, nat) dag_state" where
  "demo_after evs = the (exec_events demo_env evs demo_start)"

lemma demo_case:
  assumes "case exec_events demo_env evs demo_start of None \<Rightarrow> False | Some st \<Rightarrow> P st"
  shows "exec_events demo_env evs demo_start = Some (demo_after evs)"
    and "reaches demo_env demo_start (demo_after evs)" and "P (demo_after evs)"
  using assms exec_events_reaches [OF reaches_start]
  by (auto simp: demo_after_def split: option.splits)

section \<open>Properties\<close>

text \<open>
  C1: dependencies come first.  Whenever the goroutine of a node is at work, that is waiting for a slot,
  attempting the node or pausing between attempts, every dependency of the node is done or skipped.
\<close>

theorem dependencies_first:
  assumes "ExecuteDAG cfg nodes req add t ctx = Inr (Started E st0)" and "reaches E st0 st"
    and "n \<in> set nodes" and "goroutines st (ID n) = Some (q, ph)" and "ph \<noteq> Releasing"
  shows "\<forall>d\<in>set (Deps n). NodeStatus st d = NodeDone \<or> NodeStatus st d = NodeSkipped"
proof -
  have I: "inv E (loaded_ids cfg E) st" by (rule execution_inv [OF assms(1,2)])
  obtain n' where n': "n' \<in> set (de_nodes E)" "ID n' = ID n" "Deps n' = Deps n"
    using started_node [OF assms(1,3)] by blast
  have "ID n' \<in> alive st" using assms(4,5) n'(2) by (auto simp: alive_def)
  from inv_alive_running [OF I this] have r: "NodeStatus st (ID n') = NodeRunning" "deps_ok E (loaded_ids cfg E) st"
    by blast+
  then have "ID n' \<notin> loaded_ids cfg E" by (auto simp: deps_ok_def)
  then have "set (Deps n') \<subseteq> settled st" using deps_okD [OF r(2) n'(1)] r(1) by simp
  then have "set (Deps n) \<subseteq> settled st" by (simp add: n'(3))
  then show ?thesis by (auto simp: settled_def)
qed

theorem dependencies_first_witness:
  "goroutines (demo_after (node_events ''a'' @ [Receive])) ''b'' \<noteq> None \<and>
     NodeStatus (demo_after (node_events ''a'' @ [Receive])) ''a'' = NodeDone"
proof -
  let ?st = "demo_after (node_events ''a'' @ [Receive])"
  have "case exec_events demo_env (node_events ''a'' @ [Receive]) demo_start of None \<Rightarrow> False
     | Some st \<Rightarrow> map_option snd (goroutines st ''b'') = Some AcquireSlot \<and> NodeStatus st ''a'' \<noteq> NodeSkipped"
    by code_simp
  note st = demo_case [OF this]
  then obtain q where g: "goroutines ?st ''b'' = Some (q, AcquireSlot)" by auto
  have n: "demo_node ''b'' [''a''] \<in> set demo_nodes" "ID (demo_node ''b'' [''a'']) = ''b''"
    "Deps (demo_node ''b'' [''a'']) = [''a'']"
    by (simp_all add: demo_nodes_def demo_node_def)
  from dependencies_first [OF demo_started st(2) n(1)] g n st(3) show ?thesis by auto
qed



text \<open>
  An execution cleans up.  When the executor has returned, no completion is left unread and every
  goroutine that still exists has nothing left to do but its deferred releases.
\<close>

lemma execution_leaves_nothing:
  assumes "ExecuteDAG cfg nodes req add t ctx = Inr (Started E st0)" and "reaches E st0 st"
    and "mainPhase st = MReturned r"
  shows "doneCh st = [] \<and> (\<forall>i q ph. goroutines st i = Some (q, ph) \<longrightarrow> ph = Releasing)"
  using execution_inv [OF assms(1,2)] assms(3) by (auto simp: inv_def alive_def)

definition demo_all :: "(nat, nat) event list" where
  "demo_all = node_events ''a'' @ [Receive] @ node_events ''b'' @ [Receive]"

theorem execution_leaves_nothing_witness:
  "mainPhase (demo_after (demo_all @ [AllDone])) = MReturned None \<and> doneCh (demo_after (demo_all @ [AllDone])) = []"
proof -
  have "case exec_events demo_env (demo_all @ [AllDone]) demo_start of None \<Rightarrow> False
     | Some st \<Rightarrow> (case mainPhase st of MReturned r \<Rightarrow> r = None | _ \<Rightarrow> False)"
    by code_simp
  note st = demo_case [OF this]
  then have m: "mainPhase (demo_after (demo_all @ [AllDone])) = MReturned None"
    by (auto split: main_phase.splits)
  from execution_leaves_nothing [OF demo_started st(2) m] m show ?thesis by simp
qed

lemma settled_status:
  assumes "ExecuteDAG cfg nodes req add t ctx = Inr (Started E st0)" and "reaches E st0 st"
    and "exec_step E AllDone st = Some st'" and n: "n \<in> set nodes"
  shows "NodeStatus st' (ID n) \<in> {NodeDone, NodeSkipped}"
proof -
  have I: "inv E (loaded_ids cfg E) st" by (rule execution_inv [OF assms(1,2)])
  have m: "mainPhase st = MLoop" and p: "pending st \<le> 0" and st': "st' = finalize E st"
    using assms(3) by (auto split: if_splits)
  have C: "core E (loaded_ids cfg E) [] {} {} st" using I m by (simp add: inv_def)
  note all = MLoop_all_received [OF C p]
  obtain n' where "n' \<in> set (de_nodes E)" "ID n' = ID n" using started_node [OF assms(1) n] by blast
  then have i: "ID n \<in> node_ids E" unfolding node_ids_def by (metis imageI)
  have ok: "status_ok E {} st" using C by (simp add: core_def graph_inv_def)
  have "NodeStatus st (ID n) \<noteq> NodePending" "NodeStatus st (ID n) \<noteq> NodeRunning"
    using all(1,2) i by (auto simp: with_status_def)
  moreover have "NodeStatus st (ID n) \<noteq> NodeFailed" "NodeStatus st (ID n) \<noteq> NodeCompensated"
    using ok by (auto simp: status_ok_def)
  ultimately have "NodeStatus st (ID n) \<in> {NodeDone, NodeSkipped}" by (cases "NodeStatus st (ID n)") auto
  then show ?thesis using finalize_fields [of E st] by (simp add: st')
qed

text \<open>
  A run to the end settles every node.  When the loop finds nothing pending, every node is done
  or skipped; and with the default aggregator the executor then returns without an error, with
  the messages of the nodes that count for the output concatenated in the order of their names.
\<close>

lemma execution_settles_all:
  assumes "ExecuteDAG cfg nodes req add t ctx = Inr (Started E st0)" and "reaches E st0 st"
    and "exec_step E AllDone st = Some st'"
  shows "(\<forall>n\<in>set nodes. NodeStatus st' (ID n) \<in> {NodeDone, NodeSkipped}) \<and>
    (Aggregator cfg = None \<longrightarrow> mainPhase st' = MReturned None \<and>
      (\<exists>out. FinalOutput st' = Some out \<and>
        rs_Messages out = concat (map (\<lambda>i. messages_of (NodeResults st' i)) (final_ids E st))))"
proof -
  have st': "st' = finalize E st" using assms(3) by (auto split: if_splits)
  have "\<forall>n\<in>set nodes. NodeStatus st' (ID n) \<in> {NodeDone, NodeSkipped}"
    using settled_status [OF assms] by blast
  moreover have "mainPhase st' = MReturned None \<and> (\<exists>out. FinalOutput st' = Some out \<and>
      rs_Messages out = concat (map (\<lambda>i. messages_of (NodeResults st' i)) (final_ids E st)))"
    if "Aggregator cfg = None"
    using that concat_final [of E st] ExecuteDAG_Started(3) [OF assms(1)]
    by (auto simp: st' finalize_def)
  ultimately show ?thesis by blast
qed

theorem execution_settles_all_witness:
  "\<exists>st'. exec_step demo_env AllDone (demo_after demo_all) = Some st' \<and> NodeStatus st' ''b'' \<in> {NodeDone, NodeSkipped}"
proof -
  have "case exec_events demo_env demo_all demo_start of None \<Rightarrow> False
     | Some st \<Rightarrow> is_MLoop (mainPhase st) \<and> pending st \<le> 0"
    by code_simp
  note st = demo_case [OF this]
  then obtain st' where s: "exec_step demo_env AllDone (demo_after demo_all) = Some st'"
    by (auto simp: is_MLoop_def)
  have "demo_node ''b'' [''a''] \<in> set demo_nodes" "ID (demo_node ''b'' [''a'']) = ''b''"
    by (simp_all add: demo_nodes_def demo_node_def)
  with execution_settles_all [OF demo_started st(2) s] s show ?thesis by metis
qed



text \<open>
  Leaving the loop is final.  Once the loop has been left, for whatever reason, and whatever
  happens afterwards, no goroutine is started for any node that has none, and the status of a node
  that is not done does not change any more; in particular pending nodes stay pending, and a node
  whose successful completion is only drained stays running and is not compensated.
\<close>

lemma leaving_is_final:
  assumes "mainPhase st = MDrain k x" and "exec_events E evs st = Some st'"
  shows "(\<forall>i. goroutines st i = None \<longrightarrow> goroutines st' i = None) \<and>
    (\<forall>i. NodeStatus st i \<noteq> NodeDone \<longrightarrow> NodeStatus st' i = NodeStatus st i)"
  using left_with_events [OF left_with_start [OF assms(1)] assms(2)] by (simp add: left_with_def)

theorem leaving_is_final_witness:
  "\<exists>st'. exec_events demo_env [Drained (\<lambda>_ _. None)] (demo_after (node_fails ''a'' @ [Receive])) = Some st' \<and>
     NodeStatus (demo_after (node_fails ''a'' @ [Receive])) ''b'' = NodePending \<and> NodeStatus st' ''b'' = NodePending"
proof -
  let ?st = "demo_after (node_fails ''a'' @ [Receive])"
  have "case exec_events demo_env (node_fails ''a'' @ [Receive]) demo_start of None \<Rightarrow> False
     | Some st \<Rightarrow> NodeStatus st ''b'' = NodePending \<and> (case mainPhase st of MDrain k x \<Rightarrow> k = 0 | _ \<Rightarrow> False)"
    by code_simp
  note st = demo_case [OF this]
  then obtain x where m: "mainPhase ?st = MDrain 0 x" by (auto split: main_phase.splits)
  then obtain st' where s: "exec_events demo_env [Drained (\<lambda>_ _. None)] ?st = Some st'" by simp
  from leaving_is_final [OF m s] st(3) s show ?thesis by auto
qed

text \<open>
  C4: a failure aborts.  With the Abort strategy, when the loop receives the failure of a node, then
  whatever happens afterwards, if the executor returns, it returns the error of that node.
\<close>

theorem abort_returns_the_error:
  assumes "ExecuteDAG cfg nodes req add t ctx = Inr (Started E st0)" and "reaches E st0 st"
    and "ErrorStrategy cfg = Abort" and "doneCh st = \<lparr>c_nodeID = i, c_result = Inl e\<rparr> # rest"
    and "exec_events E (Receive # evs) st = Some st'" and "mainPhase st' = MReturned r"
  shows "r = Some (node_failed i e)"
proof -
  have I: "inv E (loaded_ids cfg E) st" by (rule execution_inv [OF assms(1,2)])
  have cfg: "de_cfg E = cfg" and v: "valid_dag (de_nodes E)" using ExecuteDAG_Started [OF assms(1)] by blast+
  obtain st1 where s: "exec_step E Receive st = Some st1" and evs: "exec_events E evs st1 = Some st'"
    using assms(5) by (auto split: option.splits)
  have m: "mainPhase st = MLoop"
    and st1: "st1 = handleCompletion E \<lparr>c_nodeID = i, c_result = Inl e\<rparr> (st\<lparr>doneCh := rest, pending := pending st - 1\<rparr>)"
    using s assms(4) by (auto split: if_splits)
  have "core E (loaded_ids cfg E) [] {} {} st" using I m by (simp add: inv_def)
  then have "i \<in> node_ids E" using assms(4) by (auto simp: core_def chan_inv_def with_status_def)
  then obtain n where "nodeMap E i = Some n"
    using index_by_None [of ID "de_nodes E" i] by (cases "nodeMap E i") (auto simp: node_ids_def)
  then obtain k where "mainPhase st1 = MDrain k (DrainAbort (node_failed i e))"
    using assms(3) cfg by (auto simp: st1 handleCompletion_def handleNodeError_def leave_loop_def Let_def)
  from left_with_events [OF left_with_start [OF this] evs] show ?thesis
    using assms(6) by (auto simp: left_with_def)
qed

theorem abort_returns_the_error_witness:
  "\<exists>st'. exec_events demo_env [Receive, Drained (\<lambda>_ _. None)] (demo_after (node_fails ''a'')) = Some st' \<and>
     mainPhase st' = MReturned (Some (node_failed ''a'' (External ''down'')))"
proof -
  let ?st = "demo_after (node_fails ''a'')" and ?c = "\<lparr>c_nodeID = ''a'', c_result = Inl (External ''down'')\<rparr>"
  have "case exec_events demo_env (node_fails ''a'') demo_start of None \<Rightarrow> False
     | Some st \<Rightarrow> (case doneCh st of [c] \<Rightarrow> c_nodeID c = ''a'' \<and> (case c_result c of Inl e \<Rightarrow> e = External ''down'' | _ \<Rightarrow> False)
                   | _ \<Rightarrow> False) \<and>
        (case exec_events demo_env [Receive, Drained (\<lambda>_ _. None)] st of None \<Rightarrow> False
         | Some st' \<Rightarrow> (case mainPhase st' of MReturned r \<Rightarrow> True | _ \<Rightarrow> False))"
    by code_simp
  note st = demo_case [OF this]
  then obtain st' r where s: "exec_events demo_env [Receive, Drained (\<lambda>_ _. None)] ?st = Some st'"
    and m: "mainPhase st' = MReturned r"
    by (auto split: option.splits main_phase.splits)
  obtain c where "doneCh ?st = [c]" "c_nodeID c = ''a''" "c_result c = Inl (External ''down'')"
    using st(3) by (auto split: list.splits sum.splits)
  then have d: "doneCh ?st = [?c]" by (cases c) simp
  have "ErrorStrategy demo_cfg = Abort" by (simp add: demo_cfg_def)
  from abort_returns_the_error [OF demo_started st(2) this d s m] s m show ?thesis by simp
qed

end
