(* ===== verification/DagFlow.thy ===== *)
theory DagFlow
  imports DagProps
begin

text \<open>
  What an execution computes.  When the outcome of every attempt is a function \<open>A\<close> of the node and the
  request it is given, the results of an execution that runs to the end are those of visiting the nodes
  one after the other in topological order, whatever the concurrency, the priorities, the retries and the
  order in which nodes finish.
\<close>

section \<open>The sequential reference\<close>

type_synonym ('m, 'v) answers = "string \<Rightarrow> ('m, 'v) run_request \<Rightarrow> ('m, 'v) run_response option res"

definition holds_condition :: "('m, 'v) dnode \<Rightarrow> (string \<Rightarrow> ('m, 'v) run_response option) \<Rightarrow> bool" where
  "holds_condition n results \<longleftrightarrow> (case Condition n of None \<Rightarrow> True | Some f \<Rightarrow> f (upstream n results))"

definition visit_node ::
  "('m, 'v) answers \<Rightarrow> ('m, 'v) run_request \<Rightarrow> ('m, 'v) dnode \<Rightarrow> (string \<Rightarrow> ('m, 'v) run_response option) \<Rightarrow>
     (string \<Rightarrow> ('m, 'v) run_response option)" where
  "visit_node A req n results =
     (if holds_condition n results then
        (case buildNodeInput n req results of
           Inl _ \<Rightarrow> results
         | Inr q \<Rightarrow>
             (case A (ID n) q of
                Inr (Some p) \<Rightarrow> results(ID n := Some p)
              | _ \<Rightarrow> results))
      else results)"

definition visit_id ::
  "('m, 'v) answers \<Rightarrow> ('m, 'v) dnode list \<Rightarrow> ('m, 'v) run_request \<Rightarrow> string \<Rightarrow>
     (string \<Rightarrow> ('m, 'v) run_response option) \<Rightarrow> (string \<Rightarrow> ('m, 'v) run_response option)" where
  "visit_id A nodes req i results =
     (case index_by ID nodes i of None \<Rightarrow> results | Some n \<Rightarrow> visit_node A req n results)"

definition sequential ::
  "('m, 'v) answers \<Rightarrow> ('m, 'v) dnode list \<Rightarrow> ('m, 'v) run_request \<Rightarrow> string \<Rightarrow> ('m, 'v) run_response option" where
  "sequential A nodes req = fold (visit_id A nodes req) (topologicalSort nodes) (\<lambda>_. None)"

lemma upstream_cong: "(\<And>d. d \<in> set (Deps n) \<Longrightarrow> r d = r' d) \<Longrightarrow> upstream n r = upstream n r'"
  by (auto simp: upstream_def)

lemma buildNodeInput_cong:
  assumes "\<And>d. d \<in> set (Deps n) \<Longrightarrow> r d = r' d"
  shows "buildNodeInput n req r = buildNodeInput n req r'"
proof (cases "InputMapper n")
  case (Some f)
  then show ?thesis using upstream_cong [of n r r', OF assms] by (simp add: buildNodeInput_def)
next
  case None
  have "concat (map (\<lambda>d. case r d of Some r \<Rightarrow> rs_Messages r | None \<Rightarrow> []) (Deps n)) =
      concat (map (\<lambda>d. case r' d of Some r \<Rightarrow> rs_Messages r | None \<Rightarrow> []) (Deps n))"
    using assms by (intro arg_cong [where f = concat] map_cong) simp_all
  then show ?thesis using None assms by (auto simp: buildNodeInput_def split: list.split)
qed

lemma holds_condition_cong:
  "(\<And>d. d \<in> set (Deps n) \<Longrightarrow> r d = r' d) \<Longrightarrow> holds_condition n r = holds_condition n r'"
  using upstream_cong [of n r r'] by (simp add: holds_condition_def split: option.split)

text \<open>The reference in equations: every node has the result that its dependencies' results give.\<close>

definition node_result ::
  "('m, 'v) answers \<Rightarrow> ('m, 'v) run_request \<Rightarrow> ('m, 'v) dnode \<Rightarrow> (string \<Rightarrow> ('m, 'v) run_response option) \<Rightarrow>
     ('m, 'v) run_response option" where
  "node_result A req n results =
     (if holds_condition n results then
        (case buildNodeInput n req results of
           Inl _ \<Rightarrow> None
         | Inr q \<Rightarrow> (case A (ID n) q of Inr r \<Rightarrow> r | Inl _ \<Rightarrow> None))
      else None)"

lemma visit_node_result:
  "results (ID n) = None \<Longrightarrow> visit_node A req n results = results(ID n := node_result A req n results)"
  by (auto simp: visit_node_def node_result_def split: sum.split option.split)

lemma node_result_cong:
  "(\<And>d. d \<in> set (Deps n) \<Longrightarrow> r d = r' d) \<Longrightarrow> node_result A req n r = node_result A req n r'"
  using holds_condition_cong [of n r r'] buildNodeInput_cong [of n r r' req] by (simp add: node_result_def)

lemma deps_before_closed:
  "deps_before nodes order \<Longrightarrow> n \<in> set nodes \<Longrightarrow> ID n \<in> set order \<Longrightarrow> set (Deps n) \<subseteq> set order"
  unfolding deps_before_def by (metis in_set_conv_nth in_set_takeD subset_iff)

lemma sequential_prefix:
  assumes d: "distinct (map ID nodes)"
  shows "distinct order \<Longrightarrow> set order \<subseteq> ID ` set nodes \<Longrightarrow> deps_before nodes order \<Longrightarrow>
    F = fold (visit_id A nodes req) order (\<lambda>_. None) \<Longrightarrow>
    (\<forall>j. j \<notin> set order \<longrightarrow> F j = None) \<and>
    (\<forall>n\<in>set nodes. ID n \<in> set order \<longrightarrow> F (ID n) = node_result A req n F)"
proof (induction order arbitrary: F rule: rev_induct)
  case (snoc c order)
  let ?G = "fold (visit_id A nodes req) order (\<lambda>_. None)"
  have b: "deps_before nodes order" and bc: "\<forall>n\<in>set nodes. ID n = c \<longrightarrow> set (Deps n) \<subseteq> set order"
    using snoc.prems(3) deps_before_snoc by blast+
  have G: "\<forall>j. j \<notin> set order \<longrightarrow> ?G j = None" "\<forall>n\<in>set nodes. ID n \<in> set order \<longrightarrow> ?G (ID n) = node_result A req n ?G"
    using snoc.IH [OF _ _ b refl] snoc.prems(1,2) by auto
  obtain m where m: "m \<in> set nodes" "ID m = c" using snoc.prems(2) by auto
  then have "index_by ID nodes c = Some m" using index_by_Some [OF d] by blast
  moreover have "?G c = None" using G(1) snoc.prems(1) by simp
  ultimately have F: "F = ?G(c := node_result A req m ?G)"
    using visit_node_result [of ?G m A req] m(2) visit_id_def [of A nodes req c ?G]
    by (simp add: snoc.prems(4) fun_upd_def)
  have same: "node_result A req n F = node_result A req n ?G" if "n \<in> set nodes" "ID n \<in> set (order @ [c])" for n
  proof (rule node_result_cong)
    fix e assume "e \<in> set (Deps n)"
    then have "e \<in> set order" using bc that deps_before_closed [OF b that(1)] by auto
    then show "F e = ?G e" using snoc.prems(1) by (auto simp: F)
  qed
  have "F (ID n) = node_result A req n F" if n: "n \<in> set nodes" "ID n \<in> set (order @ [c])" for n
  proof (cases "ID n = c")
    case True
    then have "n = m" using n(1) m d by (auto simp: distinct_map inj_on_def)
    then show ?thesis using same [OF n] m(2) by (simp add: F)
  next
    case False
    then show ?thesis using same [OF n] G(2) n by (simp add: F)
  qed
  moreover have "F j = None" if "j \<notin> set (order @ [c])" for j using that G(1) by (simp add: F)
  ultimately show ?case by blast
qed simp

lemma sequential_eq:
  assumes "valid_dag nodes" "n \<in> set nodes"
  shows "sequential A nodes req (ID n) = node_result A req n (sequential A nodes req)"
  using sequential_prefix [OF _ _ _ _ refl, of nodes "topologicalSort nodes" A req] topologicalSort_spec [of nodes] assms
  by (simp add: valid_dag_def sequential_def)

section \<open>Executions with given answers\<close>

definition answers_by :: "('m, 'v) answers \<Rightarrow> ('m, 'v) event \<Rightarrow> ('m, 'v) dag_state \<Rightarrow> bool" where
  "answers_by A ev st \<longleftrightarrow>
     (case ev of
        Worker i (Returned r) \<Rightarrow> (case goroutines st i of None \<Rightarrow> True | Some (q, _) \<Rightarrow> r = A i q)
      | Forwarded outs _ \<Rightarrow>
          (case mainPhase st of MForward i q _ \<Rightarrow> \<forall>k. outs k = A i q | _ \<Rightarrow> True)
      | _ \<Rightarrow> True)"

inductive reaches_by ::
  "('m, 'v) answers \<Rightarrow> ('m, 'v) dag_env \<Rightarrow> ('m, 'v) dag_state \<Rightarrow> ('m, 'v) dag_state \<Rightarrow> bool"
  for A E st0 where
  by_start: "reaches_by A E st0 st0"
| by_step: "reaches_by A E st0 st \<Longrightarrow> answers_by A ev st \<Longrightarrow> exec_step E ev st = Some st' \<Longrightarrow> reaches_by A E st0 st'"

lemma reaches_by_reaches: "reaches_by A E st0 st \<Longrightarrow> reaches E st0 st"
  by (induction rule: reaches_by.induct) (auto intro: reaches.intros)

section \<open>The invariant\<close>

definition wanted :: "('m, 'v) dag_env \<Rightarrow> (string \<Rightarrow> ('m, 'v) run_response option) \<Rightarrow> string \<Rightarrow> bool" where
  "wanted E res i \<longleftrightarrow> (\<exists>n. nodeMap E i = Some n \<and> holds_condition n res)"

definition input_is ::
  "('m, 'v) dag_env \<Rightarrow> (string \<Rightarrow> ('m, 'v) run_response option) \<Rightarrow> string \<Rightarrow> ('m, 'v) run_request \<Rightarrow> bool" where
  "input_is E res i q \<longleftrightarrow> (\<exists>n. nodeMap E i = Some n \<and> buildNodeInput n (de_req E) res = Inr q)"

definition produced ::
  "('m, 'v) answers \<Rightarrow> ('m, 'v) dag_env \<Rightarrow> (string \<Rightarrow> ('m, 'v) run_response option) \<Rightarrow> string \<Rightarrow>
     ('m, 'v) run_response \<Rightarrow> bool" where
  "produced A E res i p \<longleftrightarrow> wanted E res i \<and> (\<exists>q. input_is E res i q \<and> A i q = Inr (Some p))"

text \<open>Goroutines, completions and recorded results all come from the results there are.\<close>

definition flow :: "('m, 'v) answers \<Rightarrow> ('m, 'v) dag_env \<Rightarrow> ('m, 'v) dag_state \<Rightarrow> bool" where
  "flow A E st \<longleftrightarrow> (let res = NodeResults st in
     (\<forall>i q ph. goroutines st i = Some (q, ph) \<longrightarrow> wanted E res i \<and> input_is E res i q) \<and>
     (\<forall>c\<in>set (doneCh st). wanted E res (c_nodeID c) \<and>
        (\<forall>p. c_result c = Inr p \<longrightarrow> produced A E res (c_nodeID c) p)) \<and>
     (\<forall>i. NodeStatus st i = NodeDone \<longrightarrow> (\<exists>p. produced A E res i p \<and> res i = Some p)) \<and>
     (\<forall>i. NodeStatus st i = NodeSkipped \<longrightarrow> \<not> wanted E res i \<and> res i = None) \<and>
     (\<forall>i. NodeStatus st i = NodePending \<longrightarrow> res i = None) \<and>
     (\<forall>i q e. mainPhase st = MForward i q e \<longrightarrow> wanted E res i \<and> input_is E res i q))"

lemma flowI:
  assumes "\<And>i q ph. goroutines st i = Some (q, ph) \<Longrightarrow> wanted E (NodeResults st) i \<and> input_is E (NodeResults st) i q"
    and "\<And>c. c \<in> set (doneCh st) \<Longrightarrow> wanted E (NodeResults st) (c_nodeID c) \<and>
        (\<forall>p. c_result c = Inr p \<longrightarrow> produced A E (NodeResults st) (c_nodeID c) p)"
    and "\<And>i. NodeStatus st i = NodeDone \<Longrightarrow> \<exists>p. produced A E (NodeResults st) i p \<and> NodeResults st i = Some p"
    and "\<And>i. NodeStatus st i = NodeSkipped \<Longrightarrow> \<not> wanted E (NodeResults st) i \<and> NodeResults st i = None"
    and "\<And>i. NodeStatus st i = NodePending \<Longrightarrow> NodeResults st i = None"
    and "\<And>i q e. mainPhase st = MForward i q e \<Longrightarrow> wanted E (NodeResults st) i \<and> input_is E (NodeResults st) i q"
  shows "flow A E st"
  using assms unfolding flow_def Let_def by blast

lemma flowD:
  assumes "flow A E st"
  shows "goroutines st i = Some (q, ph) \<Longrightarrow> wanted E (NodeResults st) i \<and> input_is E (NodeResults st) i q"
    and "c \<in> set (doneCh st) \<Longrightarrow> wanted E (NodeResults st) (c_nodeID c)"
    and "c \<in> set (doneCh st) \<Longrightarrow> c_result c = Inr p \<Longrightarrow> produced A E (NodeResults st) (c_nodeID c) p"
    and "NodeStatus st i = NodeDone \<Longrightarrow> \<exists>p. produced A E (NodeResults st) i p \<and> NodeResults st i = Some p"
    and "NodeStatus st i = NodeSkipped \<Longrightarrow> \<not> wanted E (NodeResults st) i \<and> NodeResults st i = None"
    and "NodeStatus st i = NodePending \<Longrightarrow> NodeResults st i = None"
    and "mainPhase st = MForward i q e \<Longrightarrow> wanted E (NodeResults st) i \<and> input_is E (NodeResults st) i q"
  using assms unfolding flow_def Let_def by blast+

text \<open>Less to account for keeps the invariant.\<close>

lemma flow_less:
  assumes "flow A E st" "NodeResults st' = NodeResults st" "NodeStatus st' = NodeStatus st"
    "\<And>i q ph. goroutines st' i = Some (q, ph) \<Longrightarrow> \<exists>ph'. goroutines st i = Some (q, ph')"
    "set (doneCh st') \<subseteq> set (doneCh st)" "\<And>i q e. mainPhase st' = MForward i q e \<Longrightarrow> mainPhase st = MForward i q e"
  shows "flow A E st'"
proof (rule flowI, goal_cases)
  case (1 i q ph)
  with assms(2,4) show ?case using flowD(1) [OF assms(1)] by metis
next
  case (2 c)
  with assms(2,5) show ?case using flowD(2,3) [OF assms(1)] by (metis subsetD)
qed (use assms(2,3,6) flowD(4-7) [OF assms(1)] in simp_all)

lemma flow_scheduleOne:
  assumes "flow A E st" "NodeStatus st i = NodePending" "scheduleOne E i st = (st', p)"
  shows "flow A E st' \<and> NodeResults st' = NodeResults st"
proof (cases "nodeMap E i")
  case None
  then show ?thesis using assms by (simp add: scheduleOne_def)
next
  case (Some n)
  have w: "wanted E res i \<longleftrightarrow> holds_condition n res" for res using Some by (simp add: wanted_def)
  have c: "condition_false n st \<longleftrightarrow> \<not> wanted E (NodeResults st) i"
    by (simp add: w condition_false_def holds_condition_def split: option.split)
  note D = flowD [OF assms(1)]
  show ?thesis
  proof (cases "condition_false n st")
    case True
    then have st': "st' = skip_node i st" using assms(2,3) Some by (simp add: scheduleOne_def)
    show ?thesis unfolding st'
      by (intro conjI flowI) (use D c True assms(2) in \<open>auto simp: skip_node_def set_status_def split: if_splits\<close>)
  next
    case False
    then have wi: "wanted E (NodeResults st) i" using c by simp
    show ?thesis
    proof (cases "buildNodeInput n (de_req E) (NodeResults st)")
      case (Inl e)
      then have st': "st' = send i (Inl e) (set_status i NodeRunning st)"
        using assms(2,3) Some False by (auto simp: scheduleOne_def)
      show ?thesis unfolding st'
        by (intro conjI flowI) (use D wi assms(2) in \<open>auto simp: send_def set_status_def split: if_splits\<close>)
    next
      case (Inr q)
      then have st': "st' = launch n q (emit E (OnNodeStart i) st)"
        using assms(2,3) Some False by (auto simp: scheduleOne_def)
      have q: "input_is E (NodeResults st) i q" using Some Inr by (simp add: input_is_def)
      have "ID n = i" using Some index_by_map_of [of ID "de_nodes E"]
        by (auto dest!: map_of_SomeD)
      then show ?thesis unfolding st'
        by (intro conjI flowI)
          (use D wi q assms(2) in \<open>auto simp: launch_def set_status_def emit_def split: if_splits\<close>)
    qed
  qed
qed

lemma push_ready_fields [simp]:
  "NodeResults (push_ready E i q st) = NodeResults st" "goroutines (push_ready E i q st) = goroutines st"
  "doneCh (push_ready E i q st) = doneCh st"
  by (simp_all add: push_ready_def split: option.split)

lemma dec_degree_fields [simp]:
  "NodeResults (dec_degree i st) = NodeResults st" "goroutines (dec_degree i st) = goroutines st"
  "doneCh (dec_degree i st) = doneCh st" "mainPhase (dec_degree i st) = mainPhase st"
  by (simp_all add: dec_degree_def)

lemma flow_dec: "flow A E st \<Longrightarrow> flow A E (dec_degree i st)"
  by (erule flow_less) simp_all

lemma flow_push: "flow A E st \<Longrightarrow> flow A E (push_ready E i q st)"
  by (erule flow_less) simp_all

lemma flow_propagate:
  "flow A E st \<Longrightarrow> flow A E (propagate E L st) \<and> NodeResults (propagate E L st) = NodeResults st"
proof (induction E L st rule: propagate.induct)
  case (2 E ds rest st)
  note dec = flow_dec [OF "2.prems", of ds]
  show ?case
  proof (cases "inDegree st ds - 1 = 0 \<and> NodeStatus st ds = NodePending")
    case False
    have eq: "propagate E (ds # rest) st = propagate E rest (dec_degree ds st)"
      by (simp only: propagate.simps False if_False)
    show ?thesis unfolding eq using "2.IH"(3) [OF False dec] by simp
  next
    case True
    show ?thesis
    proof (cases "ready st")
      case (Some q)
      have eq: "propagate E (ds # rest) st = propagate E rest (push_ready E ds q (dec_degree ds st))"
        by (simp only: propagate.simps True Some if_True option.case simp_thms)
      show ?thesis unfolding eq using "2.IH"(2) [OF True Some flow_push [OF dec]] by simp
    next
      case None
      obtain st' p where s: "scheduleOne E ds (dec_degree ds st) = (st', p)" by fastforce
      have "NodeStatus (dec_degree ds st) ds = NodePending" using True by simp
      note S = flow_scheduleOne [OF dec this s]
      have eq: "propagate E (ds # rest) st = propagate E (if p then downstream (de_nodes E) ds @ rest else rest) st'"
        by (simp only: propagate.simps True None if_True option.case simp_thms s prod.case)
      show ?thesis unfolding eq using "2.IH"(1) [OF True None s [symmetric] conjunct1 [OF S]] S by simp
    qed
  qed
qed simp

lemma flow_scheduleReady:
  assumes "flow A E st" "NodeStatus st i = NodePending"
  shows "flow A E (scheduleReady E i st)"
proof -
  obtain st' p where s: "scheduleOne E i st = (st', p)" by fastforce
  from flow_scheduleOne [OF assms s] flow_propagate [of A E st' "downstream (de_nodes E) i"] show ?thesis
    by (simp add: scheduleReady_def s propagateDownstream_def)
qed

lemma flow_drain_pop:
  assumes "flow A E st" "core E cp [] {} F st" "ready st = Some q" "\<not> pq_empty q"
  shows "flow A E (drain_pop E q st)"
proof -
  have p: "NodeStatus st (fst (pq_pop q)) = NodePending"
    using pq_pop_ready(1) [OF assms(2-4)] by (simp add: ready_set_def)
  have "flow A E (st\<lparr>ready := Some (snd (pq_pop q))\<rparr>)" by (rule flow_less [OF assms(1)]) simp_all
  then have "flow A E (scheduleReady E (fst (pq_pop q)) (st\<lparr>ready := Some (snd (pq_pop q))\<rparr>))"
    using p by (intro flow_scheduleReady) simp_all
  then show ?thesis unfolding drain_pop_def Let_def by (auto intro: flow_less)
qed

lemma flow_drainPQ:
  "valid_dag (de_nodes E) \<Longrightarrow> core E cp [] {} F st \<Longrightarrow> pq_ok E st \<Longrightarrow> flow A E st \<Longrightarrow> flow A E (drainPQ E st)"
proof (induction E st rule: drainPQ.induct)
  case (1 E st)
  show ?case
  proof (cases "ready st")
    case None
    then show ?thesis using "1.prems" by (simp add: drainPQ.simps)
  next
    case (Some q)
    show ?thesis
    proof (cases "pq_empty q \<or> pq_full E st")
      case True
      then show ?thesis using Some "1.prems" by (simp add: drainPQ.simps)
    next
      case False
      then have eq: "drainPQ E st = drainPQ E (drain_pop E q st)"
        using Some by (subst drainPQ.simps) simp
      have "\<not> pq_empty q" "\<not> pq_full E st" using False by auto
      then show ?thesis
        using "1.IH" [OF Some False "1.prems"(1)] drain_pop_core [OF "1.prems"(1,2) Some _ _ "1.prems"(3)]
          flow_drain_pop [OF "1.prems"(4,2) Some] by (simp add: eq)
    qed
  qed
qed

lemma flow_settle:
  assumes "valid_dag (de_nodes E)" "core E cp (downstream (de_nodes E) i) {} F st" "pq_ok E st" "flow A E st"
  shows "flow A E (settle E i st)"
proof -
  let ?st = "propagateDownstream E i st"
  have P: "core E cp [] {} F ?st" "ready ?st = None \<longleftrightarrow> ready st = None"
    using propagate_core [OF assms(1,2)] by (simp_all add: propagateDownstream_def)
  have "pq_ok E ?st"
  proof (cases "ready st = None")
    case True
    then show ?thesis using P by (simp add: pq_ok_def)
  next
    case False
    from propagate_pq [OF this, of E "downstream (de_nodes E) i"] assms(3) False show ?thesis
      by (auto simp: pq_ok_def propagateDownstream_def with_status_def)
  qed
  from flow_drainPQ [OF assms(1) P(1) this] flow_propagate [OF assms(4)] show ?thesis
    by (simp add: settle_def propagateDownstream_def)
qed

lemma flow_enqueue_all: "flow A E st \<Longrightarrow> flow A E (enqueue_all E ns st)"
proof (induction ns arbitrary: st)
  case (Cons n ns)
  have "flow A E (if inDegree st (ID n) = 0 \<and> NodeStatus st (ID n) = NodePending then enqueueReady E (ID n) st else st)"
    using Cons.prems flow_push [OF Cons.prems] flow_scheduleReady [OF Cons.prems]
    by (auto simp: enqueueReady_def split: option.split)
  with Cons.IH show ?case by simp
qed simp

section \<open>Recording a result\<close>

lemma stable_node:
  assumes "\<And>n. nodeMap E j = Some n \<Longrightarrow> i \<notin> set (Deps n)"
  shows "wanted E (res(i := x)) j \<longleftrightarrow> wanted E res j" "input_is E (res(i := x)) j q \<longleftrightarrow> input_is E res j q"
    "produced A E (res(i := x)) j p \<longleftrightarrow> produced A E res j p"
proof -
  have h: "holds_condition n (res(i := x)) \<longleftrightarrow> holds_condition n res" if "nodeMap E j = Some n" for n
    by (rule holds_condition_cong) (use assms [OF that] in auto)
  have b: "buildNodeInput n (de_req E) (res(i := x)) = buildNodeInput n (de_req E) res" if "nodeMap E j = Some n" for n
    by (rule buildNodeInput_cong) (use assms [OF that] in auto)
  show w: "wanted E (res(i := x)) j \<longleftrightarrow> wanted E res j" using h by (auto simp: wanted_def)
  show q: "input_is E (res(i := x)) j q \<longleftrightarrow> input_is E res j q" for q using b by (auto simp: input_is_def)
  show "produced A E (res(i := x)) j p \<longleftrightarrow> produced A E res j p" by (simp add: produced_def w q)
qed

lemma started_stable:
  assumes "valid_dag (de_nodes E)" "deps_ok E {} st" "NodeStatus st j \<noteq> NodePending" "i \<notin> settled st" "nodeMap E j = Some n"
  shows "i \<notin> set (Deps n)"
proof -
  have n: "n \<in> set (de_nodes E)" "ID n = j"
    using assms(1,5) index_by_Some [of ID "de_nodes E"] by (auto simp: valid_dag_def)
  then have "set (Deps n) \<subseteq> settled st" using deps_okD [OF assms(2) n(1)] assms(3) by simp
  then show ?thesis using assms(4) by blast
qed

lemma flow_finish:
  assumes "flow A E st" "valid_dag (de_nodes E)" "core E {} [] {} F st"
    and "NodeStatus st i = NodeRunning \<or> NodeStatus st i = NodeFailed" "produced A E (NodeResults st) i p"
    and "NodeResults st' = (NodeResults st)(i := Some p)" "NodeStatus st' = (NodeStatus st)(i := NodeDone)"
      "goroutines st' = goroutines st" "set (doneCh st') \<subseteq> set (doneCh st)"
      "\<And>j q e. mainPhase st' = MForward j q e \<Longrightarrow> mainPhase st = MForward j q e \<and> NodeStatus st j \<noteq> NodePending"
  shows "flow A E st'"
proof -
  note C = coreD [OF assms(3)] and D = flowD [OF assms(1)]
  have ns: "i \<notin> settled st" using assms(4) by (auto simp: settled_def)
  note dep = started_stable [OF assms(2) C(4) _ ns]
  have ok: "wanted E (NodeResults st') j \<longleftrightarrow> wanted E (NodeResults st) j"
      "input_is E (NodeResults st') j q \<longleftrightarrow> input_is E (NodeResults st) j q"
      "produced A E (NodeResults st') j r \<longleftrightarrow> produced A E (NodeResults st) j r"
    if "NodeStatus st j \<noteq> NodePending" for j q r
    unfolding assms(6) using stable_node [of E j i, OF dep [OF that]] by simp_all
  have g: "NodeStatus st j \<noteq> NodePending" if "goroutines st j = Some x" for j x
    using C(7) that by (auto simp: chan_inv_def)
  have c: "NodeStatus st (c_nodeID x) \<noteq> NodePending" if "x \<in> set (doneCh st)" for x
  proof -
    have "c_nodeID x \<in> with_status NodeRunning E st" using C(7) that by (auto simp: chan_inv_def)
    then show ?thesis by (simp add: with_status_def)
  qed
  show ?thesis
  proof (rule flowI, goal_cases)
    case (1 j q ph)
    then show ?case using D(1) ok g assms(8) by metis
  next
    case (2 x)
    then have x: "x \<in> set (doneCh st)" using assms(9) by blast
    show ?case using D(2,3) [OF x] ok [OF c [OF x]] by simp
  next
    case (3 j)
    show ?case
    proof (cases "j = i")
      case True
      then show ?thesis using assms(4-6) ok [of i] by auto
    next
      case False
      then have "NodeStatus st j = NodeDone" using 3 assms(7) by simp
      then show ?thesis using D(4) ok [of j] False assms(6) by auto
    qed
  next
    case (4 j)
    then have "j \<noteq> i" "NodeStatus st j = NodeSkipped" using assms(7) by (auto split: if_splits)
    then show ?case using D(5) ok [of j] assms(6) by auto
  next
    case (5 j)
    then have "j \<noteq> i" "NodeStatus st j = NodePending" using assms(7) by (auto split: if_splits)
    then show ?case using D(6) assms(6) by auto
  next
    case (6 j q e)
    then show ?case using D(7) [of j q e] ok(1,2) [of j] assms(10) [OF 6] by blast
  qed
qed

lemma flow_failed:
  assumes "flow A E st" "NodeResults st' = NodeResults st" "NodeStatus st' = (NodeStatus st)(i := NodeFailed)"
    "goroutines st' = goroutines st" "set (doneCh st') \<subseteq> set (doneCh st)"
    "\<And>j q e. mainPhase st' = MForward j q e \<Longrightarrow> wanted E (NodeResults st) j \<and> input_is E (NodeResults st) j q"
  shows "flow A E st'"
proof (rule flowI, goal_cases)
  case (2 c)
  then show ?case using flowD(2,3) [OF assms(1)] assms(2,5) by (metis subsetD)
qed (use assms flowD [OF assms(1)] in \<open>auto split: if_splits\<close>)

definition no_optional :: "('m, 'v) dag_env \<Rightarrow> bool" where
  "no_optional E \<longleftrightarrow> (\<forall>n\<in>set (de_nodes E). \<not> Optional n)"

text \<open>Up to the return.\<close>

definition flowing :: "('m, 'v) answers \<Rightarrow> ('m, 'v) dag_env \<Rightarrow> ('m, 'v) dag_state \<Rightarrow> bool" where
  "flowing A E st \<longleftrightarrow> (\<exists>r. mainPhase st = MReturned r) \<or> flow A E st"

lemma finish_node_results [simp]:
  "NodeResults (finish_node E i p st) = (NodeResults st)(i := Some p)"
  by (simp add: finish_node_def saveCheckpoint_def account_def emit_def set_status_def Let_def split: option.split)

lemma flow_cancel: "flow A E st \<Longrightarrow> flow A E (cancel st)"
  by (erule flow_less) (simp_all add: cancel_def)

lemma flow_leave: "flow A E st \<Longrightarrow> flow A E (leave_loop E x st)"
  by (erule flow_less) (simp_all add: leave_loop_def)

section \<open>Every step\<close>

text \<open>The state in which a successful completion has been recorded.\<close>

lemma finished_core:
  assumes v: "valid_dag (de_nodes E)" and I: "inv E cp st" and m: "mainPhase st = MLoop" and d: "doneCh st = c # rest"
    and s0: "s0 = (if ready st \<noteq> None then st\<lparr>doneCh := rest, pending := pending st - 1, activePQ := activePQ st - 1\<rparr>
      else st\<lparr>doneCh := rest, pending := pending st - 1\<rparr>)"
  shows "core E cp (downstream (de_nodes E) (c_nodeID c)) {} {} (finish_node E (c_nodeID c) p s0) \<and>
    pq_ok E (finish_node E (c_nodeID c) p s0)"
proof -
  let ?i = "c_nodeID c"
  have C: "core E cp [] {} {} st" and ok: "pq_ok E st" using I m by (simp_all add: inv_def)
  define s1 where "s1 = set_status ?i NodeFailed s0"
  have f1: "NodeStatus s1 = (NodeStatus st)(?i := NodeFailed)" "inDegree s1 = inDegree st"
    "pending s1 = pending st - 1" "ready s1 = ready st" "doneCh s1 = rest"
    "goroutines s1 = goroutines st" "sem_used s1 = sem_used st" "activePQ s1 = activePQ s0"
    by (simp_all add: s1_def s0)
  note K = core_take [OF C d f1(1-7)]
  define s2 where "s2 = finish_node E ?i p s0"
  have f2: "NodeStatus s2 = (NodeStatus s1)(?i := NodeDone)" "inDegree s2 = inDegree s1"
    "pending s2 = pending s1" "ready s2 = ready s1" "doneCh s2 = doneCh s1"
    "goroutines s2 = goroutines s1" "sem_used s2 = sem_used s1" "activePQ s2 = activePQ s1"
    by (simp_all add: s2_def s1_def)
  note S = core_settle [OF K(1) v disjI1 [OF refl] f2(1-7)]
  have "pq_ok E s2"
  proof (cases "ready st = None")
    case True
    then show ?thesis by (simp add: pq_ok_def f1 f2)
  next
    case False
    have "activePQ s2 = activePQ st - 1" using False by (simp add: f1 f2 s0)
    moreover have "activePQ st = int (card (with_status NodeRunning E st))"
      "MaxConcurrency (de_cfg E) > 0 \<longrightarrow> activePQ st \<le> MaxConcurrency (de_cfg E)"
      using ok False by (auto simp: pq_ok_def)
    moreover have "int (card (with_status NodeRunning E s2)) = int (card (with_status NodeRunning E st)) - 1"
      unfolding S(2) K(3) by (rule card_move [OF K(2) finite_with_status])
    ultimately show ?thesis unfolding pq_ok_def by linarith
  qed
  with S(1) show ?thesis by (simp add: s2_def)
qed

lemma flow_handle:
  assumes v: "valid_dag (de_nodes E)" and I: "inv E {} st" and m: "mainPhase st = MLoop" and d: "doneCh st = c # rest"
    and fl: "flow A E st" and no: "no_optional E"
  shows "flow A E (handleCompletion E c (st\<lparr>doneCh := rest, pending := pending st - 1\<rparr>))"
proof -
  let ?i = "c_nodeID c"
  define s0 where "s0 = (if ready st \<noteq> None then
      st\<lparr>doneCh := rest, pending := pending st - 1, activePQ := activePQ st - 1\<rparr>
    else st\<lparr>doneCh := rest, pending := pending st - 1\<rparr>)"
  have f0: "NodeStatus s0 = NodeStatus st" "NodeResults s0 = NodeResults st" "goroutines s0 = goroutines st"
      "doneCh s0 = rest" "mainPhase s0 = MLoop"
    by (simp_all add: s0_def m)
  have C: "core E {} [] {} {} st" using I m by (simp add: inv_def)
  have c: "c \<in> set (doneCh st)" using d by simp
  have run: "?i \<in> with_status NodeRunning E st" using coreD(7) [OF C] c by (auto simp: chan_inv_def)
  have sub: "set rest \<subseteq> set (doneCh st)" using d by auto
  have eq: "handleCompletion E c (st\<lparr>doneCh := rest, pending := pending st - 1\<rparr>) =
      (case c_result c of Inl e \<Rightarrow> handleNodeError E ?i e s0 | Inr p \<Rightarrow> handleNodeSuccess E ?i p s0)"
    by (cases "c_result c") (simp_all add: handleCompletion_def s0_def)
  show ?thesis
  proof (cases "c_result c")
    case (Inr p)
    let ?s2 = "finish_node E ?i p s0"
    have "flow A E ?s2"
      by (rule flow_finish [OF fl v C _ flowD(3) [OF fl c Inr]])
        (use run sub f0 in \<open>auto simp: with_status_def\<close>)
    moreover note finished_core [OF v I m d s0_def, of p]
    ultimately show ?thesis
      using flow_settle [OF v, of "{}" ?i "{}" ?s2 A] flow_leave [of A E ?s2] flow_leave [of A E "cancel ?s2"]
        flow_cancel [of A E ?s2]
      by (simp add: eq Inr handleNodeSuccess_def Let_def)
  next
    case (Inl e)
    define s1 where "s1 = emit E (OnNodeComplete ?i NodeFailed (Some e)) (set_status ?i NodeFailed s0)"
    have f1: "NodeStatus s1 = (NodeStatus st)(?i := NodeFailed)" "NodeResults s1 = NodeResults st"
        "goroutines s1 = goroutines st" "doneCh s1 = rest" "mainPhase s1 = MLoop"
      by (simp_all add: s1_def f0 emit_def set_status_def)
    have f: "flow A E s1" by (rule flow_failed [OF fl f1(2,1,3)]) (use sub f1 in simp_all)
    obtain n where n: "nodeMap E ?i = Some n" "n \<in> set (de_nodes E)"
      using run v by (auto simp: with_status_def elim: node_of_id)
    have "flow A E (s1\<lparr>mainPhase := MForward ?i q e\<rparr>)" if "buildNodeInput n (de_req E) (NodeResults s1) = Inr q" for q
      by (rule flow_failed [OF fl, where i = ?i])
        (use that sub f1 n flowD(2) [OF fl c] in \<open>auto simp: input_is_def\<close>)
    then show ?thesis
      using no n(2) flow_leave [OF flow_cancel [OF f]]
      by (auto simp: eq Inl handleNodeError_def Let_def s1_def [symmetric] n(1) no_optional_def fail_backward_def
        split: sum.split)
  qed
qed

lemma worker_success:
  "worker_step E n ctx used ph ev = Some (Finished (Inr p) s ph' u) \<Longrightarrow> ev = Returned (Inr (Some p))"
  by (cases ph; cases ev) (auto simp: retry_or_fail_def split: if_splits option.splits sum.splits)

lemma flow_worker:
  assumes fl: "flow A E st" and w: "worker E i ev st = Some st'" and a: "answers_by A (Worker i ev) st"
  shows "flow A E st'"
proof -
  obtain q ph n out where g: "goroutines st i = Some (q, ph)" and n: "nodeMap E i = Some n"
    and s: "worker_step E n (ctxErr st) (sem_used st) ph ev = Some out" and ap: "worker_apply E i q out st = Some st'"
    using w by (auto simp: worker_def split: option.splits)
  note D = flowD [OF fl]
  have wi: "wanted E (NodeResults st) i" "input_is E (NodeResults st) i q" using D(1) [OF g] by auto
  show ?thesis
  proof (cases out)
    case (Go ph' u)
    with ap have "st' = st\<lparr>goroutines := (goroutines st)(i \<mapsto> (q, ph')), sem_used := u\<rparr>" by (simp add: worker_apply_def)
    then show ?thesis using g by (intro flow_less [OF fl]) (auto split: if_splits)
  next
    case (Leave u)
    with ap have "st' = st\<lparr>goroutines := (goroutines st)(i := None), sem_used := u\<rparr>" by (simp add: worker_apply_def)
    then show ?thesis by (intro flow_less [OF fl]) (auto split: if_splits)
  next
    case (Finished r s' ph' u)
    define st1 where "st1 = st\<lparr>timeline := recordEnd (now st) (now st) i s' (timeline st),
        goroutines := (goroutines st)(i := map_option (Pair q) ph'), sem_used := u\<rparr>"
    have st': "st' = send i r st1" using ap Finished by (simp add: worker_apply_def st1_def split: if_splits)
    have f1: "flow A E st1" using g by (intro flow_less [OF fl]) (auto simp: st1_def split: if_splits)
    have r: "produced A E (NodeResults st) i p" if "r = Inr p" for p
    proof -
      have "ev = Returned (Inr (Some p))" using worker_success s Finished that by blast
      then have "A i q = Inr (Some p)" using a g by (simp add: answers_by_def)
      then show ?thesis using wi by (auto simp: produced_def)
    qed
    have same: "NodeResults st1 = NodeResults st" by (simp add: st1_def)
    show ?thesis unfolding st'
      by (rule flowI) (use flowD [OF f1] r wi same in \<open>auto simp: send_def\<close>)
  qed
qed

lemma flow_forwarded:
  assumes v: "valid_dag (de_nodes E)" and I: "inv E {} st" and m: "mainPhase st = MForward i q e"
    and s: "forwarded E outs intr i e st = Some st'" and fl: "flow A E st" and a: "\<forall>k. outs k = A i q"
  shows "flow A E st'"
proof -
  have C: "core E {} [] {} {i} st" and ok: "pq_ok E st" and cc: "CompensateCfg (de_cfg E) \<noteq> None"
    using I m by (simp_all add: inv_def)
  obtain cfg where cfg: "CompensateCfg (de_cfg E) = Some cfg" using cc by auto
  show ?thesis
  proof (cases "executeForwardRecovery cfg i outs intr")
    case (Inl e')
    then have "st' = leave_loop E (DrainCompensate (node_failed i e)) (cancel st)"
      using s cfg by (simp add: forwarded_def fail_backward_def)
    then show ?thesis by (intro flow_less [OF fl]) (simp_all add: leave_loop_def cancel_def)
  next
    case (Inr p)
    define s2 where "s2 = finish_node E i p st
      \<lparr>timeline := recordEnd (now (finish_node E i p st)) (now (finish_node E i p st)) i NodeDone (timeline (finish_node E i p st))\<rparr>"
    have st': "st' = (settle E i s2)\<lparr>mainPhase := MLoop\<rparr>"
      using s cfg Inr by (simp add: forwarded_def s2_def Let_def)
    have f: "NodeStatus s2 = (NodeStatus st)(i := NodeDone)" "inDegree s2 = inDegree st"
      "pending s2 = pending st" "ready s2 = ready st" "doneCh s2 = doneCh st"
      "goroutines s2 = goroutines st" "sem_used s2 = sem_used st" "activePQ s2 = activePQ st"
      "NodeResults s2 = (NodeResults st)(i := Some p)" "mainPhase s2 = mainPhase st"
      by (simp_all add: s2_def)
    have "A i q = Inr (Some p)"
      using Inr a by (auto simp: executeForwardRecovery_def recovery_loop_Inr recovers_by_def)
    then have pr: "produced A E (NodeResults st) i p" using flowD(7) [OF fl m] by (auto simp: produced_def)
    have failed: "NodeStatus st i = NodeFailed" using coreD(2) [OF C] by (simp add: status_ok_def)
    have "flow A E s2"
      by (rule flow_finish [OF fl v C _ pr]) (use f failed m in simp_all)
    moreover note S = core_settle [OF C v disjI1 [OF refl] f(1-7)]
    moreover have "pq_ok E s2" using ok S(2) by (auto simp: pq_ok_def f)
    ultimately have "flow A E (settle E i s2)" using flow_settle [OF v] by blast
    then show ?thesis unfolding st' by (rule flow_less) simp_all
  qed
qed

lemma flow_step:
  assumes v: "valid_dag (de_nodes E)" and I: "inv E {} st" and no: "no_optional E" and fl: "flowing A E st"
    and a: "answers_by A ev st" and s: "exec_step E ev st = Some st'"
  shows "flowing A E st'"
proof (cases "\<exists>r. mainPhase st = MReturned r")
  case True
  then obtain r where m: "mainPhase st = MReturned r" by blast
  have "mainPhase st' = MReturned r"
    using s m by (cases ev) (auto dest: worker_fields(6) split: if_splits)
  then show ?thesis by (simp add: flowing_def)
next
  case False
  then have f: "flow A E st" using fl by (simp add: flowing_def)
  show ?thesis
  proof (cases ev)
    case (Tick d)
    then have "flow A E st'" using s by (intro flow_less [OF f]) auto
    then show ?thesis by (simp add: flowing_def)
  next
    case (Cancelled e)
    then have "flow A E st'" using s by (intro flow_less [OF f]) (auto split: if_splits)
    then show ?thesis by (simp add: flowing_def)
  next
    case (Worker i wev)
    then show ?thesis using flow_worker [OF f, of i wev st'] s a by (simp add: flowing_def)
  next
    case Receive
    then obtain c rest where m: "mainPhase st = MLoop" and d: "doneCh st = c # rest"
      and "st' = handleCompletion E c (st\<lparr>doneCh := rest, pending := pending st - 1\<rparr>)"
      using s by (auto split: if_splits list.splits)
    then show ?thesis using flow_handle [OF v I m d f no] by (simp add: flowing_def)
  next
    case SeeCancel
    then show ?thesis using s flow_leave [OF f] by (auto simp: flowing_def split: if_splits)
  next
    case (Forwarded outs intr)
    then show ?thesis
      using s flow_forwarded [OF v I _ _ f] a by (auto simp: flowing_def answers_by_def split: main_phase.splits)
  next
    case DrainOne
    then obtain k x c rest where "mainPhase st = MDrain (Suc k) x" "doneCh st = c # rest"
      "st' = st\<lparr>doneCh := rest, mainPhase := MDrain k x\<rparr>"
      using s by (auto split: main_phase.splits nat.splits list.splits)
    then have "flow A E st'" by (intro flow_less [OF f]) auto
    then show ?thesis by (simp add: flowing_def)
  next
    case (Drained intr)
    then obtain x where "st' = drained E intr x st" using s by (auto split: main_phase.splits nat.splits)
    then show ?thesis
      using finalize_returned [of E st] by (auto simp: flowing_def drained_def split: drain_exit.split prod.split)
  next
    case AllDone
    then show ?thesis using s finalize_returned [of E st] by (auto simp: flowing_def split: if_splits)
  qed
qed

lemma started_state:
  assumes "ExecuteDAG cfg nodes req add t ctx = Inr (Started E st0)" "CheckpointStore cfg = None"
  shows "st0 = start_run E (initial_state cfg (de_nodes E) Map.empty t ctx)" "de_req E = req" "loaded_ids cfg E = {}"
    "de_nodes E = (if PriorityScheduling cfg \<and> CriticalPathAuto cfg then map (auto_priority nodes) nodes else nodes)"
  using assms
  by (auto simp: ExecuteDAG_def newDagExecutor_def load_checkpoints_def Let_def loaded_ids_def resumed_ids_def resumed_def
      split: if_splits option.splits)

lemma flow_start:
  assumes "ExecuteDAG cfg nodes req add t ctx = Inr (Started E st0)" "CheckpointStore cfg = None"
  shows "flow A E st0 \<and> mainPhase st0 = MLoop"
proof -
  let ?s = "initial_state cfg (de_nodes E) Map.empty t ctx"
  note st = started_state [OF assms]
  have v: "valid_dag (de_nodes E)" and cfg: "de_cfg E = cfg" using ExecuteDAG_Started [OF assms(1)] by simp_all
  have d: "distinct (map ID (de_nodes E))" using v by (simp add: valid_dag_def)
  have "with_status NodeRunning E ?s = {}" by (auto simp: with_status_def initial_state_def)
  then have ok: "pq_ok E ?s" by (simp add: pq_ok_def) (simp add: initial_state_def)
  note A = enqueue_all_core [OF v d subset_refl initial_core [OF v refl] ok]
  have "flow A E ?s"
    by (rule flowI) (auto simp: initial_state_def resumed_def)
  then have f: "flow A E (enqueue_all E (de_nodes E) ?s)" by (rule flow_enqueue_all)
  have A': "core E (resumed_ids (de_nodes E) Map.empty) [] {} {} (enqueue_all E (de_nodes E) ?s)"
      "pq_ok E (enqueue_all E (de_nodes E) ?s)" "mainPhase (enqueue_all E (de_nodes E) ?s) = MLoop"
    using A by (simp_all add: initial_state_def)
  show ?thesis
    unfolding st(1) start_run_def using flow_drainPQ [OF v A'(1,2) f] drainPQ_core [OF v A'(1,2)] A'(3) by simp
qed

section \<open>The end of an execution\<close>

lemma index_by_map:
  assumes "\<And>n. key (f n) = key n"
  shows "index_by key (map f xs) i = map_option f (index_by key xs i)"
proof -
  have "rev (map (\<lambda>x. (key x, x)) (map f xs)) = map (\<lambda>(k, v). (k, f v)) (rev (map (\<lambda>x. (key x, x)) xs))"
    by (simp add: rev_map assms)
  then show ?thesis by (simp add: index_by_map_of map_of_map)
qed

lemma auto_priority_keeps [simp]:
  "Condition (auto_priority ns n) = Condition n" "InputMapper (auto_priority ns n) = InputMapper n"
  "Optional (auto_priority ns n) = Optional n" "upstream (auto_priority ns n) = upstream n"
  by (auto simp: auto_priority_def upstream_def)

lemma visit_auto_priority: "visit_node A req (auto_priority ns n) results = visit_node A req n results"
  by (unfold visit_node_def holds_condition_def buildNodeInput_def auto_priority_keeps auto_priority_simps, rule refl)

lemma visit_id_auto: "visit_id A (map (auto_priority ns) nodes) req = visit_id A nodes req"
  by (intro ext) (simp add: visit_id_def index_by_map visit_auto_priority split: option.split)

lemma flow_visit:
  assumes fl: "flow A E st" and st: "NodeStatus st i \<in> {NodeDone, NodeSkipped}" and n: "nodeMap E i = Some n" "ID n = i"
    and same: "\<And>d. d \<in> set (Deps n) \<Longrightarrow> results d = NodeResults st d" and none: "results i = None"
  shows "visit_id A (de_nodes E) (de_req E) i results = results(i := NodeResults st i)"
proof -
  have h: "holds_condition n results \<longleftrightarrow> wanted E (NodeResults st) i"
    using holds_condition_cong [OF same] n(1) by (simp add: wanted_def)
  have b: "buildNodeInput n (de_req E) results = buildNodeInput n (de_req E) (NodeResults st)"
    by (rule buildNodeInput_cong [OF same])
  show ?thesis
  proof (cases "NodeStatus st i = NodeDone")
    case True
    then obtain p where p: "produced A E (NodeResults st) i p" "NodeResults st i = Some p"
      using flowD(4) [OF fl] by blast
    then show ?thesis
      using n by (auto simp: visit_id_def visit_node_def h b produced_def input_is_def)
  next
    case False
    then have "\<not> wanted E (NodeResults st) i" "NodeResults st i = None" using st flowD(5) [OF fl] by blast+
    then show ?thesis using n none by (auto simp: visit_id_def visit_node_def h)
  qed
qed

lemma flow_prefix:
  assumes fl: "flow A E st" and st: "\<And>i. i \<in> node_ids E \<Longrightarrow> NodeStatus st i \<in> {NodeDone, NodeSkipped}"
    and v: "valid_dag (de_nodes E)"
  shows "distinct order \<Longrightarrow> set order \<subseteq> node_ids E \<Longrightarrow> deps_before (de_nodes E) order \<Longrightarrow>
    fold (visit_id A (de_nodes E) (de_req E)) order (\<lambda>_. None) =
      (\<lambda>i. if i \<in> set order then NodeResults st i else None)"
proof (induction order rule: rev_induct)
  case (snoc i order)
  have b: "deps_before (de_nodes E) order" and dep: "\<forall>n\<in>set (de_nodes E). ID n = i \<longrightarrow> set (Deps n) \<subseteq> set order"
    using snoc.prems(3) deps_before_snoc by blast+
  obtain n where n: "n \<in> set (de_nodes E)" "ID n = i" "nodeMap E i = Some n"
    using snoc.prems(2) v by (auto elim: node_of_id)
  let ?r = "\<lambda>i. if i \<in> set order then NodeResults st i else None"
  have "visit_id A (de_nodes E) (de_req E) i ?r = ?r(i := NodeResults st i)"
    by (rule flow_visit [OF fl st n(3,2)]) (use snoc.prems(1,2) dep n in auto)
  then show ?case using snoc b by auto
qed simp

lemma finished_results:
  assumes "ExecuteDAG cfg nodes req add t ctx = Inr (Started E st0)" and "reaches_by A E st0 st"
    and "exec_step E AllDone st = Some st'" and "CheckpointStore cfg = None" and "\<forall>n\<in>set nodes. \<not> Optional n"
    and "n \<in> set nodes"
  shows "NodeResults st' (ID n) = sequential A nodes req (ID n) \<and>
    (NodeStatus st' (ID n) = NodeSkipped \<longleftrightarrow> sequential A nodes req (ID n) = None)"
proof -
  have v: "valid_dag (de_nodes E)" "valid_dag nodes" and ids: "map ID (de_nodes E) = map ID nodes"
      "map Deps (de_nodes E) = map Deps nodes" and inv0: "inv E {} st0"
    using ExecuteDAG_Started [OF assms(1)] started_state(3) [OF assms(1,4)] by simp_all
  note S = started_state [OF assms(1,4)]
  have no: "no_optional E" using S(4) assms(5) by (auto simp: no_optional_def auto_priority_def)
  have "inv E {} st \<and> flowing A E st"
    using assms(2)
  proof (induction rule: reaches_by.induct)
    case by_start
    then show ?case using flow_start [OF assms(1,4)] inv0 by (simp add: flowing_def)
  next
    case (by_step st ev st')
    then show ?case using exec_step_inv [OF v(1)] flow_step [OF v(1) _ no] by blast
  qed
  then have I: "inv E {} st" and fl: "flowing A E st" by auto
  have m: "mainPhase st = MLoop" and p: "pending st \<le> 0" and st': "st' = finalize E st"
    using assms(3) by (auto split: if_splits)
  have f: "flow A E st" using fl m by (simp add: flowing_def)
  have C: "core E {} [] {} {} st" using I m by (simp add: inv_def)
  have ends: "NodeStatus st i \<in> {NodeDone, NodeSkipped}" if "i \<in> node_ids E" for i
    using MLoop_all_received(1,2) [OF C p] coreD(2) [OF C] that
    by (cases "NodeStatus st i") (auto simp: with_status_def status_ok_def)
  have visit: "visit_id A (de_nodes E) = visit_id A nodes" using S(4) by (intro ext) (simp add: visit_id_auto)
  have T: "distinct (topologicalSort nodes)" "set (topologicalSort nodes) = ID ` set nodes"
      "deps_before nodes (topologicalSort nodes)"
    using topologicalSort_spec [of nodes] v(2) by (simp_all add: valid_dag_def)
  have ni: "node_ids E = ID ` set nodes" unfolding node_ids_def using ids(1) by (metis list.set_map)
  have b: "deps_before (de_nodes E) (topologicalSort nodes)"
    using T(3) by (auto simp: deps_before_def S(4))
  from flow_prefix [OF f ends v(1) T(1) _ b]
  have "sequential A nodes req = (\<lambda>i. if i \<in> ID ` set nodes then NodeResults st i else None)"
    by (simp add: sequential_def visit S(2) T(2) ni)
  then have seq: "sequential A nodes req (ID n) = NodeResults st (ID n)" using assms(6) by simp
  have d: "NodeStatus st (ID n) \<in> {NodeDone, NodeSkipped}" using ends ni assms(6) by blast
  have "NodeStatus st (ID n) = NodeSkipped \<longleftrightarrow> NodeResults st (ID n) = None"
  proof (cases "NodeStatus st (ID n) = NodeDone")
    case True
    then show ?thesis using flowD(4) [OF f True] by auto
  next
    case False
    then have sk: "NodeStatus st (ID n) = NodeSkipped" using d by simp
    show ?thesis using flowD(5) [OF f sk] sk by simp
  qed
  then show ?thesis using finalize_fields [of E st] seq by (simp add: st')
qed


definition demo_answers :: "(nat, nat) answers" where
  "demo_answers i q = Inr (Some (demo_response 1))"

lemma exec_events_reaches_by:
  "reaches_by A E st0 st \<Longrightarrow> (\<And>ev st. ev \<in> set evs \<Longrightarrow> answers_by A ev st) \<Longrightarrow> exec_events E evs st = Some st' \<Longrightarrow>
     reaches_by A E st0 st'"
proof (induction evs arbitrary: st)
  case (Cons ev evs)
  then obtain s where s: "exec_step E ev st = Some s" "exec_events E evs s = Some st'"
    by (auto split: option.splits)
  from by_step [OF Cons.prems(1) Cons.prems(2) s(1)] have "reaches_by A E st0 s" by simp
  from Cons.IH [OF this Cons.prems(2) s(2)] show ?case by simp
qed simp

lemma demo_answered: "ev \<in> set demo_all \<Longrightarrow> answers_by demo_answers ev st"
  by (auto simp: demo_all_def node_events_def node_runs_def answers_by_def demo_answers_def split: option.split)


end
