(* ===== verification/LoopNode.thy ===== *)
theory LoopNode
  imports DagExec "HOL-Library.AList"
begin

text \<open>
  Loop, conditional and spawn nodes (\<open>loop.go\<close>, \<open>conditional.go\<close>, \<open>spawn.go\<close>).  The loop may
  run forever, so it is a partial function whose value \<open>None\<close> means that it does not return.
\<close>

section \<open>Loops\<close>

type_synonym ('m, 'v) drunner = "(('m, 'v) run_request, ('m, 'v) run_response) runner"

record ('m, 'v) loop_node =
  Body :: "('m, 'v) drunner option"
  LoopCondition :: "(('m, 'v) run_response option \<Rightarrow> bool) option"
  MaxIters :: int
  ConvergenceFunc :: "(('m, 'v) run_response \<Rightarrow> ('m, 'v) run_response \<Rightarrow> bool) option"

record ('m, 'v) loop_state =
  currentReq :: "('m, 'v) run_request"
  prevResp :: "('m, 'v) run_response option"
  loop_usage :: usage
  loop_hasUsage :: bool
  lastResp :: "('m, 'v) run_response option"

datatype ('m, 'v) loop_next =
    LoopReturn "('m, 'v) run_response res"
  | LoopBreak "('m, 'v) loop_state"
  | LoopContinue "('m, 'v) loop_state"

definition iteration_failed :: "nat \<Rightarrow> gerror \<Rightarrow> gerror" where
  "iteration_failed k e = Errorf ''orchestrate: loop iteration %d: %w'' [AInt (int k)] (Some e)"

definition iteration_nil :: "nat \<Rightarrow> gerror" where
  "iteration_nil k = Errorf ''orchestrate: loop iteration %d: nil response'' [AInt (int k)] None"

definition record_iteration ::
  "(usage \<Rightarrow> usage \<Rightarrow> usage) \<Rightarrow> ('m, 'v) run_response \<Rightarrow> ('m, 'v) loop_state \<Rightarrow> ('m, 'v) loop_state" where
  "record_iteration add resp s =
     (case rs_Usage resp of
        None \<Rightarrow> s\<lparr>lastResp := Some resp\<rparr>
      | Some u \<Rightarrow> s\<lparr>lastResp := Some resp, loop_hasUsage := True, loop_usage := add (loop_usage s) u\<rparr>)"

definition stops :: "('m, 'v) loop_node \<Rightarrow> ('m, 'v) run_response option \<Rightarrow> ('m, 'v) run_response \<Rightarrow> bool" where
  "stops loop prev resp \<longleftrightarrow>
     (case LoopCondition loop of None \<Rightarrow> False | Some f \<Rightarrow> \<not> f (Some resp)) \<or>
     (case ConvergenceFunc loop of
        None \<Rightarrow> False
      | Some g \<Rightarrow> (case prev of None \<Rightarrow> False | Some p \<Rightarrow> g p resp))"

definition loop_iteration ::
  "(usage \<Rightarrow> usage \<Rightarrow> usage) \<Rightarrow> (nat \<Rightarrow> gerror option) \<Rightarrow> ('m, 'v) loop_node \<Rightarrow> ('m, 'v) drunner \<Rightarrow>
     ('m, 'v) run_request \<Rightarrow> nat \<Rightarrow> ('m, 'v) loop_state \<Rightarrow> ('m, 'v) loop_next" where
  "loop_iteration add ctx loop body req k s =
     (case ctx k of
        Some e \<Rightarrow> LoopReturn (Inl e)
      | None \<Rightarrow>
          (case Run body k (currentReq s) of
             Inl e \<Rightarrow> LoopReturn (Inl (iteration_failed k e))
           | Inr None \<Rightarrow> LoopReturn (Inl (iteration_nil k))
           | Inr (Some resp) \<Rightarrow>
               if stops loop (prevResp s) resp then LoopBreak (record_iteration add resp s)
               else LoopContinue ((record_iteration add resp s)
                 \<lparr>prevResp := Some resp, currentReq := with_messages req (rs_Messages resp)\<rparr>)))"

definition loop_result :: "('m, 'v) run_request \<Rightarrow> ('m, 'v) loop_state \<Rightarrow> ('m, 'v) run_response" where
  "loop_result req s =
     (case lastResp s of
        None \<Rightarrow> response_zero\<lparr>rs_Messages := rq_Messages req, rs_SessionID := rq_SessionID req\<rparr>
      | Some l \<Rightarrow> response_zero\<lparr>rs_Messages := rs_Messages l, rs_Metadata := rs_Metadata l,
          rs_SessionID := rq_SessionID req,
          rs_Usage := (if loop_hasUsage s then Some (loop_usage s) else None)\<rparr>)"

partial_function (option) loop_from ::
  "(usage \<Rightarrow> usage \<Rightarrow> usage) \<Rightarrow> (nat \<Rightarrow> gerror option) \<Rightarrow> ('m, 'v) loop_node \<Rightarrow> ('m, 'v) drunner \<Rightarrow>
     ('m, 'v) run_request \<Rightarrow> nat \<Rightarrow> ('m, 'v) loop_state \<Rightarrow> ('m, 'v) run_response res option" where
  "loop_from add ctx loop body req k s =
     (if MaxIters loop \<le> 0 \<or> int k < MaxIters loop then
        (case loop_iteration add ctx loop body req k s of
           LoopReturn r \<Rightarrow> Some r
         | LoopBreak s' \<Rightarrow> Some (Inr (loop_result req s'))
         | LoopContinue s' \<Rightarrow> loop_from add ctx loop body req (Suc k) s')
      else Some (Inr (loop_result req s)))"

definition loop_start :: "('m, 'v) run_request \<Rightarrow> ('m, 'v) loop_state" where
  "loop_start req = \<lparr>currentReq = req, prevResp = None, loop_usage = usage_zero,
     loop_hasUsage = False, lastResp = None\<rparr>"

definition ExecuteLoop ::
  "(usage \<Rightarrow> usage \<Rightarrow> usage) \<Rightarrow> (nat \<Rightarrow> gerror option) \<Rightarrow> ('m, 'v) loop_node \<Rightarrow> ('m, 'v) run_request \<Rightarrow>
     ('m, 'v) run_response res option" where
  "ExecuteLoop add ctx loop req =
     (case Body loop of
        None \<Rightarrow> Some (Inl (Errorf ''orchestrate: loop body is nil'' [] None))
      | Some body \<Rightarrow>
          if (case LoopCondition loop of None \<Rightarrow> False | Some f \<Rightarrow> \<not> f None) then
            Some (Inr (response_zero\<lparr>rs_Messages := rq_Messages req, rs_SessionID := rq_SessionID req\<rparr>))
          else loop_from add ctx loop body req 0 (loop_start req))"

text \<open>A bounded loop returns.\<close>

lemma loop_from_returns:
  assumes "0 < MaxIters loop"
  shows "\<exists>r. loop_from add ctx loop body req k s = Some r"
proof (induction "nat (MaxIters loop) - k" arbitrary: k s rule: less_induct)
  case less
  show ?case
  proof (cases "int k < MaxIters loop")
    case True
    then have "nat (MaxIters loop) - Suc k < nat (MaxIters loop) - k" by simp
    from less [OF this] show ?thesis
      by (subst loop_from.simps) (auto split: loop_next.split)
  next
    case False
    with assms show ?thesis by (subst loop_from.simps) simp
  qed
qed

text \<open>
  What a successful loop has done: it ran the body on the request, then on each response's
  messages, until a response asked to stop or the bound was reached; usage is summed over all
  iterations.
\<close>

definition loop_request :: "('m, 'v) run_request \<Rightarrow> ('m, 'v) run_response list \<Rightarrow> nat \<Rightarrow> ('m, 'v) run_request" where
  "loop_request req rs k = (case k of 0 \<Rightarrow> req | Suc j \<Rightarrow> with_messages req (rs_Messages (rs ! j)))"

definition previous :: "('m, 'v) run_response list \<Rightarrow> nat \<Rightarrow> ('m, 'v) run_response option" where
  "previous rs k = (case k of 0 \<Rightarrow> None | Suc j \<Rightarrow> Some (rs ! j))"

definition iterated ::
  "('m, 'v) loop_node \<Rightarrow> ('m, 'v) drunner \<Rightarrow> ('m, 'v) run_request \<Rightarrow> ('m, 'v) run_response list \<Rightarrow> bool" where
  "iterated loop body req rs \<longleftrightarrow>
     (\<forall>k<length rs. Run body k (loop_request req rs k) = Inr (Some (rs ! k))) \<and>
     (\<forall>k. Suc k < length rs \<longrightarrow> \<not> stops loop (previous rs k) (rs ! k))"

definition usages :: "('m, 'v) run_response list \<Rightarrow> usage list" where
  "usages rs = map the (filter (\<lambda>u. u \<noteq> None) (map rs_Usage rs))"

definition loop_output ::
  "(usage \<Rightarrow> usage \<Rightarrow> usage) \<Rightarrow> ('m, 'v) run_request \<Rightarrow> ('m, 'v) run_response list \<Rightarrow> ('m, 'v) run_response" where
  "loop_output add req rs =
     (if rs = [] then response_zero\<lparr>rs_Messages := rq_Messages req, rs_SessionID := rq_SessionID req\<rparr>
      else response_zero\<lparr>rs_Messages := rs_Messages (last rs), rs_Metadata := rs_Metadata (last rs),
        rs_SessionID := rq_SessionID req,
        rs_Usage := (if usages rs = [] then None else Some (foldl add usage_zero (usages rs)))\<rparr>)"

definition loop_inv ::
  "(usage \<Rightarrow> usage \<Rightarrow> usage) \<Rightarrow> ('m, 'v) run_request \<Rightarrow> ('m, 'v) run_response list \<Rightarrow>
     ('m, 'v) loop_state \<Rightarrow> bool" where
  "loop_inv add req rs s \<longleftrightarrow>
     lastResp s = (if rs = [] then None else Some (last rs)) \<and>
     loop_hasUsage s = (usages rs \<noteq> []) \<and> loop_usage s = foldl add usage_zero (usages rs)"

lemma loop_inv_record:
  "loop_inv add req rs s \<Longrightarrow> loop_inv add req (rs @ [resp]) (record_iteration add resp s)"
  by (auto simp: loop_inv_def record_iteration_def usages_def split: option.splits)

lemma loop_inv_result: "loop_inv add req rs s \<Longrightarrow> loop_result req s = loop_output add req rs"
  by (simp add: loop_inv_def loop_result_def loop_output_def)

lemma iterated_snoc:
  assumes "iterated loop body req rs" "Run body (length rs) (loop_request req rs (length rs)) = Inr (Some resp)"
    and "rs \<noteq> [] \<Longrightarrow> \<not> stops loop (previous rs (length rs - 1)) (last rs)"
  shows "iterated loop body req (rs @ [resp])"
proof -
  have req: "loop_request req (rs @ [resp]) k = loop_request req rs k" if "k \<le> length rs" for k
    using that by (auto simp: loop_request_def nth_append split: nat.splits)
  have prev: "previous (rs @ [resp]) k = previous rs k" if "k \<le> length rs" for k
    using that by (auto simp: previous_def nth_append split: nat.splits)
  have "\<not> stops loop (previous rs k) (rs ! k)" if "Suc k \<le> length rs" for k
  proof (cases "Suc k < length rs")
    case True
    then show ?thesis using assms(1) by (simp add: iterated_def)
  next
    case False
    then have "k = length rs - 1" "rs \<noteq> []" using that by auto
    then show ?thesis using assms(3) by (simp add: last_conv_nth)
  qed
  then show ?thesis
    using assms(1,2) by (auto simp: iterated_def req prev nth_append less_Suc_eq)
qed

definition loop_ended :: "('m, 'v) loop_node \<Rightarrow> ('m, 'v) run_response list \<Rightarrow> bool" where
  "loop_ended loop rs \<longleftrightarrow>
     rs \<noteq> [] \<and> stops loop (previous rs (length rs - 1)) (last rs) \<or>
     0 < MaxIters loop \<and> int (length rs) = MaxIters loop"

definition loop_meets ::
  "('m, 'v) loop_node \<Rightarrow> ('m, 'v) drunner \<Rightarrow> (usage \<Rightarrow> usage \<Rightarrow> usage) \<Rightarrow> ('m, 'v) run_request \<Rightarrow> nat \<Rightarrow>
     ('m, 'v) loop_state \<Rightarrow> ('m, 'v) run_response list \<Rightarrow> bool" where
  "loop_meets loop body add req k s rs \<longleftrightarrow>
     iterated loop body req rs \<and> loop_inv add req rs s \<and> k = length rs \<and>
     currentReq s = loop_request req rs k \<and> prevResp s = previous rs k \<and>
     (rs \<noteq> [] \<longrightarrow> \<not> stops loop (previous rs (length rs - 1)) (last rs)) \<and>
     (MaxIters loop \<le> 0 \<or> int k \<le> MaxIters loop)"

lemma record_iteration_simps [simp]:
  "currentReq (record_iteration add resp s) = currentReq s"
  "prevResp (record_iteration add resp s) = prevResp s"
  by (simp_all add: record_iteration_def split: option.splits)

lemma loop_inv_upd [simp]: "loop_inv add req rs (s\<lparr>prevResp := p, currentReq := q\<rparr>) = loop_inv add req rs s"
  by (simp add: loop_inv_def)

lemma loop_from_history:
  assumes run: "loop_from add ctx loop body req k s = Some out"
  shows "\<forall>rs r. out = Inr r \<longrightarrow> loop_meets loop body add req k s rs \<longrightarrow>
    (\<exists>rs'. iterated loop body req rs' \<and> loop_ended loop rs' \<and> r = loop_output add req rs')"
proof (rule loop_from.raw_induct [OF _ run, where P = "\<lambda>add ctx loop body req k s out.
    \<forall>rs r. out = Inr r \<longrightarrow> loop_meets loop body add req k s rs \<longrightarrow>
    (\<exists>rs'. iterated loop body req rs' \<and> loop_ended loop rs' \<and> r = loop_output add req rs')"], goal_cases)
  case (1 f add ctx loop body req k s out)
  note IH = "1"(1) and eq = "1"(2)
  show ?case
  proof (intro allI impI)
    fix rs r assume o: "out = Inr r" and M: "loop_meets loop body add req k s rs"
    show "\<exists>rs'. iterated loop body req rs' \<and> loop_ended loop rs' \<and> r = loop_output add req rs'"
    proof (cases "MaxIters loop \<le> 0 \<or> int k < MaxIters loop")
      case False
      with eq o have "r = loop_result req s" by simp
      moreover have "loop_ended loop rs" using False M by (auto simp: loop_ended_def loop_meets_def)
      ultimately show ?thesis using M loop_inv_result unfolding loop_meets_def by blast
    next
      case True
      show ?thesis
      proof (cases "loop_iteration add ctx loop body req k s")
        case (LoopReturn e)
        then have "\<exists>x. e = Inl x" by (auto simp: loop_iteration_def split: option.splits sum.splits if_splits)
        with eq o True LoopReturn show ?thesis by auto
      next
        case (LoopBreak s')
        then obtain resp where run: "Run body k (currentReq s) = Inr (Some resp)"
          and st: "stops loop (prevResp s) resp" and s': "s' = record_iteration add resp s"
          by (auto simp: loop_iteration_def split: option.splits sum.splits if_splits)
        have it: "iterated loop body req (rs @ [resp])"
          using M run by (intro iterated_snoc) (auto simp: loop_meets_def)
        have "previous (rs @ [resp]) (length rs) = previous rs (length rs)"
          by (auto simp: previous_def nth_append split: nat.splits)
        then have "loop_ended loop (rs @ [resp])"
          using M st by (simp add: loop_ended_def loop_meets_def)
        moreover have "r = loop_output add req (rs @ [resp])"
          using eq o True LoopBreak s' loop_inv_result [OF loop_inv_record, of add req rs s resp] M
          by (simp add: loop_meets_def)
        ultimately show ?thesis using it by blast
      next
        case (LoopContinue s')
        then obtain resp where run: "Run body k (currentReq s) = Inr (Some resp)"
          and st: "\<not> stops loop (prevResp s) resp"
          and s': "s' = (record_iteration add resp s)
            \<lparr>prevResp := Some resp, currentReq := with_messages req (rs_Messages resp)\<rparr>"
          by (auto simp: loop_iteration_def split: option.splits sum.splits if_splits)
        have it: "iterated loop body req (rs @ [resp])"
          using M run by (intro iterated_snoc) (auto simp: loop_meets_def)
        have prev: "previous (rs @ [resp]) (length rs) = previous rs (length rs)"
          by (auto simp: previous_def nth_append split: nat.splits)
        have "loop_inv add req (rs @ [resp]) s'"
          using M loop_inv_record [of add req rs s resp] by (simp add: s' loop_meets_def)
        then have "loop_meets loop body add req (Suc k) s' (rs @ [resp])"
          using M it st prev True by (auto simp: loop_meets_def s' loop_request_def previous_def)
        moreover have "f add ctx loop body req (Suc k) s' = Some out"
          using eq True LoopContinue by simp
        ultimately show ?thesis using IH o by blast
      qed
    qed
  qed
qed

lemma ExecuteLoop_history:
  assumes "Body loop = Some body" "ExecuteLoop add ctx loop req = Some (Inr r)"
    and "\<And>f. LoopCondition loop = Some f \<Longrightarrow> f None"
  shows "\<exists>rs. iterated loop body req rs \<and> loop_ended loop rs \<and> r = loop_output add req rs"
proof -
  have run: "loop_from add ctx loop body req 0 (loop_start req) = Some (Inr r)"
    using assms by (auto simp: ExecuteLoop_def split: option.splits if_splits)
  have "loop_meets loop body add req 0 (loop_start req) []"
    by (auto simp: loop_meets_def iterated_def loop_inv_def loop_start_def loop_request_def previous_def usages_def)
  with loop_from_history [OF run] show ?thesis by blast
qed

section \<open>Conditional nodes\<close>

record ('m, 'v) branch =
  BranchCondition :: "((string \<rightharpoonup> ('m, 'v) run_response option) \<Rightarrow> bool) option"
  TargetID :: string

record ('m, 'v) conditional_node =
  cn_Node :: "('m, 'v) dnode"
  Branches :: "('m, 'v) branch list"
  Default :: string
  Exhaustive :: bool

fun validate_branches :: "string \<Rightarrow> nat \<Rightarrow> ('m, 'v) branch list \<Rightarrow> gerror option" where
  "validate_branches i k [] = None"
| "validate_branches i k (b # bs) =
     (if BranchCondition b = None then
        Some (Errorf ''orchestrate: ConditionalNode %q branch %d has nil Condition'' [AStr i, AInt (int k)] None)
      else if TargetID b = [] then
        Some (Errorf ''orchestrate: ConditionalNode %q branch %d has empty TargetID'' [AStr i, AInt (int k)] None)
      else validate_branches i (Suc k) bs)"

definition ValidateConditionalNode :: "('m, 'v) conditional_node \<Rightarrow> gerror option" where
  "ValidateConditionalNode cn =
     (if Exhaustive cn \<and> Default cn = [] then
        Some (Errorf ''orchestrate: ConditionalNode %q has Exhaustive=true but no Default branch''
          [AStr (ID (cn_Node cn))] None)
      else validate_branches (ID (cn_Node cn)) 0 (Branches cn))"

text \<open>A branch without a condition would be a nil call; a validated node has none.\<close>

fun first_branch ::
  "(string \<rightharpoonup> ('m, 'v) run_response option) \<Rightarrow> ('m, 'v) branch list \<Rightarrow> string \<Rightarrow> string" where
  "first_branch results [] dflt = dflt"
| "first_branch results (b # bs) dflt =
     (case BranchCondition b of
        Some f \<Rightarrow> if f results then TargetID b else first_branch results bs dflt
      | None \<Rightarrow> first_branch results bs dflt)"

definition EvaluateBranches ::
  "('m, 'v) conditional_node \<Rightarrow> (string \<rightharpoonup> ('m, 'v) run_response option) \<Rightarrow> string" where
  "EvaluateBranches cn results = first_branch results (Branches cn) (Default cn)"

definition ExecuteConditional ::
  "('m, 'v) conditional_node \<Rightarrow> ('m, 'v) run_request \<Rightarrow> (string \<rightharpoonup> ('m, 'v) run_response option) \<Rightarrow>
     (('m, 'v) run_response option \<times> string) res" where
  "ExecuteConditional cn req results =
     (case ValidateConditionalNode cn of
        Some e \<Rightarrow> Inl e
      | None \<Rightarrow>
          (case Runner (cn_Node cn) of
             None \<Rightarrow> Inr (None, EvaluateBranches cn results)
           | Some r \<Rightarrow>
               (case Run r 0 req of
                  Inl e \<Rightarrow> Inl (Errorf ''orchestrate: ConditionalNode %q runner failed: %w''
                    [AStr (ID (cn_Node cn))] (Some e))
                | Inr resp \<Rightarrow> Inr (resp, EvaluateBranches cn results))))"

lemma validate_branches_None:
  "validate_branches i k bs = None \<longleftrightarrow> (\<forall>b\<in>set bs. BranchCondition b \<noteq> None \<and> TargetID b \<noteq> [])"
  by (induction i k bs rule: validate_branches.induct) auto

lemma first_branch_find:
  "\<forall>b\<in>set bs. BranchCondition b \<noteq> None \<Longrightarrow> first_branch results bs dflt =
     (case find (\<lambda>b. the (BranchCondition b) results) bs of Some b \<Rightarrow> TargetID b | None \<Rightarrow> dflt)"
  by (induction bs) (auto split: option.splits)

text \<open>A validated node that is exhaustive always selects a target.\<close>

lemma conditional_target:
  assumes "ValidateConditionalNode cn = None"
  shows "EvaluateBranches cn results =
      (case find (\<lambda>b. the (BranchCondition b) results) (Branches cn) of
         Some b \<Rightarrow> TargetID b | None \<Rightarrow> Default cn)"
    and "Exhaustive cn \<Longrightarrow> EvaluateBranches cn results \<noteq> []"
proof -
  have b: "\<forall>b\<in>set (Branches cn). BranchCondition b \<noteq> None \<and> TargetID b \<noteq> []"
    using assms by (auto simp: ValidateConditionalNode_def validate_branches_None split: if_splits)
  then show eq: "EvaluateBranches cn results =
      (case find (\<lambda>b. the (BranchCondition b) results) (Branches cn) of
         Some b \<Rightarrow> TargetID b | None \<Rightarrow> Default cn)"
    by (simp add: EvaluateBranches_def first_branch_find)
  assume "Exhaustive cn"
  then have "Default cn \<noteq> []" using assms by (auto simp: ValidateConditionalNode_def split: if_splits)
  with b show "EvaluateBranches cn results \<noteq> []"
    by (auto simp: eq split: option.splits dest: find_SomeD)
qed

section \<open>Spawn nodes\<close>

record ('m, 'v) spawn_node =
  sp_Node :: "('m, 'v) dnode"
  Spawner :: "(('m, 'v) run_response option \<Rightarrow> ('m, 'v) dnode list res) option"
  SpawnAggregator :: "(('m, 'v) results \<Rightarrow> ('m, 'v) run_response option res) option"
  MaxSpawnCount :: int
  SpawnDepthLimit :: int

text \<open>
  The children run in parallel and send their results over one channel, which is read until it
  is closed or holds an error.  \<open>arrivals\<close> is the order in which the children finish; a repeated
  identifier overwrites the earlier result of that identifier.
\<close>

fun collect_children ::
  "string \<Rightarrow> (string \<times> ('m, 'v) run_response option res) list \<Rightarrow> ('m, 'v) results \<Rightarrow> ('m, 'v) results res" where
  "collect_children i [] acc = Inr acc"
| "collect_children i ((c, r) # rest) acc =
     (case r of
        Inl e \<Rightarrow> Inl (Errorf ''orchestrate: DynamicSpawnNode %q child %q failed: %w'' [AStr i, AStr c] (Some e))
      | Inr p \<Rightarrow> collect_children i rest (AList.update c p acc))"

definition spawn_output ::
  "('m, 'v) spawn_node \<Rightarrow> ('m, 'v) run_request \<Rightarrow> ('m, 'v) run_response option res" where
  "spawn_output dsn req =
     (case Runner (sp_Node dsn) of
        None \<Rightarrow> Inr (Some (response_zero\<lparr>rs_Messages := rq_Messages req, rs_SessionID := rq_SessionID req\<rparr>))
      | Some r \<Rightarrow>
          (case Run r 0 req of
             Inl e \<Rightarrow> Inl (Errorf ''orchestrate: DynamicSpawnNode %q runner failed: %w''
               [AStr (ID (sp_Node dsn))] (Some e))
           | Inr p \<Rightarrow> Inr p))"

definition child_result ::
  "('m, 'v) run_request \<Rightarrow> ('m, 'v) run_response option \<Rightarrow> ('m, 'v) dnode \<Rightarrow>
     string \<times> ('m, 'v) run_response option res" where
  "child_result req output c =
     (ID c, Run (the (Runner c)) 0
        (with_messages req (case output of None \<Rightarrow> [] | Some p \<Rightarrow> rs_Messages p)))"

definition ExecuteDynamicSpawn ::
  "('m, 'v) spawn_node \<Rightarrow> int \<Rightarrow> (nat list) \<Rightarrow> ('m, 'v) run_request \<Rightarrow> ('m, 'v) run_response option res" where
  "ExecuteDynamicSpawn dsn depth arrival req =
     (let i = ID (sp_Node dsn) in
      case Spawner dsn of
        None \<Rightarrow> Inl (Errorf ''orchestrate: DynamicSpawnNode %q has nil Spawner'' [AStr i] None)
      | Some spawn \<Rightarrow>
          if SpawnDepthLimit dsn > 0 \<and> depth \<ge> SpawnDepthLimit dsn then
            Inl (Errorf ''orchestrate: DynamicSpawnNode %q exceeded SpawnDepthLimit (%d)''
              [AStr i, AInt (SpawnDepthLimit dsn)] None)
          else bindR (spawn_output dsn req) (\<lambda>output.
            (case spawn output of
               Inl e \<Rightarrow> Inl (Errorf ''orchestrate: DynamicSpawnNode %q Spawner failed: %w'' [AStr i] (Some e))
             | Inr children \<Rightarrow>
                 if MaxSpawnCount dsn > 0 \<and> int (length children) > MaxSpawnCount dsn then
                   Inl (Errorf ''orchestrate: DynamicSpawnNode %q spawned %d nodes, exceeds MaxSpawnCount %d''
                     [AStr i, AInt (int (length children)), AInt (MaxSpawnCount dsn)] None)
                 else if children = [] then Inr output
                 else bindR (collect_children i
                        (map (\<lambda>k. child_result req output (children ! k)) arrival) [])
                   (case SpawnAggregator dsn of Some f \<Rightarrow> f | None \<Rightarrow> concatMessagesAggregator))))"

lemma collect_children_Inr:
  assumes "\<forall>(c, r)\<in>set rs. \<exists>p. r = Inr p" "distinct (map fst rs)" "set (map fst rs) \<inter> set (map fst acc) = {}"
  shows "collect_children i rs acc = Inr (acc @ map (\<lambda>(c, r). (c, projr r)) rs)"
  using assms
proof (induction i rs acc rule: collect_children.induct)
  case (2 i c r rest acc)
  then obtain p where p: "r = Inr p" by auto
  have "c \<notin> set (map fst acc)" using "2.prems"(3) by auto
  then have u: "AList.update c p acc = acc @ [(c, p)]"
    by (induction acc) auto
  have "set (map fst rest) \<inter> set (map fst (acc @ [(c, p)])) = {}" using "2.prems"(2,3) by auto
  with "2.IH" [OF p] "2.prems"(1,2) u show ?case by (simp add: p)
qed simp

text \<open>The order in which the children finish does not influence the aggregated result.\<close>

lemma spawn_order_irrelevant:
  assumes ch: "\<forall>c\<in>set children. \<exists>p. snd (child_result req output c) = Inr p"
    and d: "distinct (map ID children)"
    and a: "mset arrival = mset [0..<length children]" "mset arrival' = mset [0..<length children]"
  shows "bindR (collect_children i (map (\<lambda>k. child_result req output (children ! k)) arrival) []) concatMessagesAggregator =
    bindR (collect_children i (map (\<lambda>k. child_result req output (children ! k)) arrival') []) concatMessagesAggregator"
proof -
  let ?f = "\<lambda>k. child_result req output (children ! k)"
  have props: "(\<forall>(c, r)\<in>set (map ?f ar). \<exists>p. r = Inr p) \<and> distinct (map fst (map ?f ar))"
    if "mset ar = mset [0..<length children]" for ar
  proof
    have s: "set ar = {0..<length children}" using that by (metis atLeastLessThan_upt mset_eq_setD)
    then show "\<forall>(c, r)\<in>set (map ?f ar). \<exists>p. r = Inr p" using ch by (auto simp: case_prod_unfold)
    have e: "map fst (map ?f ar) = map (\<lambda>k. ID (children ! k)) ar" by (simp add: child_result_def)
    have "mset (map fst (map ?f ar)) = mset (map (\<lambda>k. ID (children ! k)) [0..<length children])"
      unfolding e mset_map that ..
    also have "map (\<lambda>k. ID (children ! k)) [0..<length children] = map ID children"
      by (rule nth_equalityI) simp_all
    finally have ms: "mset (map fst (map ?f ar)) = mset (map ID children)" .
    show "distinct (map fst (map ?f ar))" by (rule iffD2 [OF mset_eq_imp_distinct_iff [OF ms] d])
  qed
  let ?g = "\<lambda>(c, r). (c, projr r)"
  have c: "collect_children i (map ?f arrival) [] = Inr (map ?g (map ?f arrival))"
    "collect_children i (map ?f arrival') [] = Inr (map ?g (map ?f arrival'))"
    using collect_children_Inr [of "map ?f arrival" "[]" i] collect_children_Inr [of "map ?f arrival'" "[]" i]
      props [OF a(1)] props [OF a(2)] by simp_all
  have "mset (map ?g (map ?f arrival)) = mset (map ?g (map ?f arrival'))"
    unfolding mset_map a ..
  moreover have "distinct (map fst (map ?g (map ?f arrival)))"
  proof -
    have "map fst (map ?g xs) = map fst xs" for xs :: "(string \<times> ('a, 'b) run_response option res) list"
      by (simp add: case_prod_unfold comp_def)
    from this [of "map ?f arrival"] props [OF a(1)] show ?thesis by (simp only: simp_thms)
  qed
  ultimately have "concatMessagesAggregator (map ?g (map ?f arrival)) = concatMessagesAggregator (map ?g (map ?f arrival'))"
    by (rule concat_perm)
  then show ?thesis by (simp only: c bindR_simps)
qed

section \<open>Properties\<close>

text \<open>
  What a loop returns.  With a bound the loop always returns.  If it returns a response, the body
  was run on the request and then on the messages of each response in turn, no response but the
  last asked to stop, the run ended because the last one did or the bound was reached, and the
  result has the messages of the last response and the usage summed over all iterations.
\<close>

lemma loop_history:
  assumes "Body loop = Some body" and "\<forall>f. LoopCondition loop = Some f \<longrightarrow> f None"
  shows "(0 < MaxIters loop \<longrightarrow> (\<exists>out. ExecuteLoop add ctx loop req = Some out)) \<and>
    (\<forall>r. ExecuteLoop add ctx loop req = Some (Inr r) \<longrightarrow>
      (\<exists>rs. iterated loop body req rs \<and> loop_ended loop rs \<and> r = loop_output add req rs))"
proof (intro conjI impI allI)
  assume "0 < MaxIters loop"
  then show "\<exists>out. ExecuteLoop add ctx loop req = Some out"
    using loop_from_returns [of loop add ctx body req 0 "loop_start req"] assms(1)
    by (auto simp: ExecuteLoop_def)
next
  fix r assume "ExecuteLoop add ctx loop req = Some (Inr r)"
  then show "\<exists>rs. iterated loop body req rs \<and> loop_ended loop rs \<and> r = loop_output add req rs"
    using ExecuteLoop_history [of loop body add ctx req r] assms by blast
qed

text \<open>A loop that stops when the response has three messages.\<close>

definition growing_body :: "(nat, unit) drunner" where
  "growing_body = \<lparr>Run = \<lambda>k q. Inr (Some (response_zero\<lparr>rs_Messages := k # rq_Messages q\<rparr>)),
     Compensate = None, Idempotent = False\<rparr>"

definition growing_loop :: "(nat, unit) loop_node" where
  "growing_loop = \<lparr>Body = Some growing_body,
     LoopCondition = Some (\<lambda>r. case r of None \<Rightarrow> True | Some p \<Rightarrow> length (rs_Messages p) < 3),
     MaxIters = 5, ConvergenceFunc = None\<rparr>"

definition empty_request :: "(nat, unit) run_request" where
  "empty_request = \<lparr>rq_Messages = [], rq_SessionID = ''s'', rq_Options = None, rq_Metadata = Map.empty\<rparr>"

theorem loop_history_witness:
  "(\<exists>out. ExecuteLoop usage_plus (\<lambda>_. None) growing_loop empty_request = Some out) \<and>
   map_option (map_sum id rs_Messages) (ExecuteLoop usage_plus (\<lambda>_. None) growing_loop empty_request) =
     Some (Inr [2, 1, 0])"
proof -
  have h: "Body growing_loop = Some growing_body" "\<forall>f. LoopCondition growing_loop = Some f \<longrightarrow> f None"
    by (auto simp: growing_loop_def)
  have "map_option (map_sum id rs_Messages) (ExecuteLoop usage_plus (\<lambda>_. None) growing_loop empty_request) =
     Some (Inr [2, 1, 0])"
    by (simp add: ExecuteLoop_def growing_loop_def growing_body_def empty_request_def loop_start_def
        loop_from.simps loop_iteration_def stops_def record_iteration_def loop_result_def
        response_zero_def with_messages_def)
  moreover have "0 < MaxIters growing_loop" by (simp add: growing_loop_def)
  ultimately show ?thesis using loop_history [OF h, of usage_plus "\<lambda>_. None" empty_request] by blast
qed

text \<open>
  A conditional node that passed validation takes the first branch whose condition holds, and the
  default otherwise; if it is exhaustive, it always names a target.
\<close>

lemma conditional_first_match:
  assumes "ValidateConditionalNode cn = None"
  shows "EvaluateBranches cn results =
      (case find (\<lambda>b. the (BranchCondition b) results) (Branches cn) of
         Some b \<Rightarrow> TargetID b | None \<Rightarrow> Default cn) \<and>
    (Exhaustive cn \<longrightarrow> EvaluateBranches cn results \<noteq> [])"
  using conditional_target [OF assms] by blast

definition two_way :: "(nat, unit) conditional_node" where
  "two_way = \<lparr>cn_Node = bare_node ''route'' [],
     Branches = [\<lparr>BranchCondition = Some (\<lambda>r. r ''a'' \<noteq> None), TargetID = ''left''\<rparr>],
     Default = ''right'', Exhaustive = True\<rparr>"

theorem conditional_first_match_witness:
  "EvaluateBranches two_way Map.empty = ''right'' \<and> EvaluateBranches two_way Map.empty \<noteq> []"
proof -
  have "ValidateConditionalNode two_way = None"
    by (simp add: two_way_def ValidateConditionalNode_def)
  from conditional_first_match [OF this, of Map.empty] show ?thesis by (simp add: two_way_def)
qed

text \<open>
  The result of a spawn node does not depend on the order in which its children finish, provided
  that all of them succeed, their identifiers differ and the default aggregator is used.
\<close>

lemma spawn_deterministic:
  assumes "Spawner dsn = Some spawn" and "spawn_output dsn req = Inr outp" and "spawn outp = Inr children"
    and "SpawnAggregator dsn = None" and "distinct (map ID children)"
    and "\<forall>c\<in>set children. \<exists>p. snd (child_result req outp c) = Inr p"
    and "mset arrival = mset [0..<length children]" and "mset arrival' = mset [0..<length children]"
  shows "ExecuteDynamicSpawn dsn depth arrival req = ExecuteDynamicSpawn dsn depth arrival' req"
  using spawn_order_irrelevant [OF assms(6,5,7,8), of "ID (sp_Node dsn)"] assms(1-4)
  by (simp add: ExecuteDynamicSpawn_def Let_def)

definition spawn_child :: "string \<Rightarrow> nat \<Rightarrow> (nat, unit) dnode" where
  "spawn_child i m = (bare_node i [])\<lparr>Runner := Some \<lparr>Run = \<lambda>_ _. Inr (Some (response_zero\<lparr>rs_Messages := [m]\<rparr>)),
     Compensate = None, Idempotent = False\<rparr>\<rparr>"

definition spawn_two :: "(nat, unit) spawn_node" where
  "spawn_two = \<lparr>sp_Node = bare_node ''s'' [],
     Spawner = Some (\<lambda>_. Inr [spawn_child ''x'' 1, spawn_child ''y'' 2]), SpawnAggregator = None,
     MaxSpawnCount = 2, SpawnDepthLimit = 0\<rparr>"

theorem spawn_deterministic_witness:
  "ExecuteDynamicSpawn spawn_two 0 [1, 0] empty_request = ExecuteDynamicSpawn spawn_two 0 [0, 1] empty_request"
  by (rule spawn_deterministic [where children = "[spawn_child ''x'' 1, spawn_child ''y'' 2]"
        and spawn = "\<lambda>_. Inr [spawn_child ''x'' 1, spawn_child ''y'' 2]"
        and outp = "Some (response_zero\<lparr>rs_Messages := [], rs_SessionID := ''s''\<rparr>)"])
    (simp_all add: spawn_two_def spawn_child_def child_result_def bare_node_def spawn_output_def
      empty_request_def upt_rec)

end
