(* ===== verification/Workflow.thy ===== *)
theory Workflow
  imports DagFlow LoopNode
begin

text \<open>
  Workflow agents (\<open>agent/workflowagent/workflow.go\<close>): a sequence of agents, a graph, or a loop.  A graph is
  executed by \<open>ExecuteDAG\<close>; since its schedule is open, what it returned is an argument of \<open>Run\<close>, and
  \<open>dag_returns\<close> says what it can be.  The result \<open>None\<close> of \<open>Run\<close> means that a loop does not return.
\<close>

section \<open>Agents\<close>

datatype workflow_mode = modeSequence | modeDAG | modeLoop

record ('m, 'v) sub_agent =
  sub_ID :: string
  sub_Run :: "nat \<Rightarrow> ('m, 'v) run_request \<Rightarrow> ('m, 'v) run_response option res"

record ('m, 'v) workflow =
  wf_ID :: string
  wf_mode :: workflow_mode
  wf_steps :: "('m, 'v) sub_agent list"
  wf_dagCfg :: "('m, 'v) dag_config option"
  wf_dagNodes :: "('m, 'v) dnode list"
  wf_loopNode :: "('m, 'v) loop_node option"

definition wf_New :: "string \<Rightarrow> ('m, 'v) sub_agent list \<Rightarrow> ('m, 'v) workflow" where
  "wf_New cfg_ID steps =
     \<lparr>wf_ID = cfg_ID, wf_mode = modeSequence, wf_steps = steps, wf_dagCfg = None, wf_dagNodes = [],
      wf_loopNode = None\<rparr>"

definition NewDAG ::
  "string \<Rightarrow> ('m, 'v) dag_config \<Rightarrow> ('m, 'v) dnode list \<Rightarrow> ('m, 'v) workflow res" where
  "NewDAG cfg_ID dagCfg nodes =
     (case ValidateDAG nodes of
        Some err \<Rightarrow> Inl err
      | None \<Rightarrow> Inr \<lparr>wf_ID = cfg_ID, wf_mode = modeDAG, wf_steps = [], wf_dagCfg = Some dagCfg,
          wf_dagNodes = nodes, wf_loopNode = None\<rparr>)"

definition NewDAGWithEdges ::
  "string \<Rightarrow> ('m, 'v) dag_config \<Rightarrow> ('m, 'v) dnode list \<Rightarrow> edge list \<Rightarrow> ('m, 'v) workflow res" where
  "NewDAGWithEdges cfg_ID dagCfg nodes edges =
     (case BuildDAG nodes edges of
        Inl err \<Rightarrow> Inl err
      | Inr dagNodes \<Rightarrow> Inr \<lparr>wf_ID = cfg_ID, wf_mode = modeDAG, wf_steps = [], wf_dagCfg = Some dagCfg,
          wf_dagNodes = dagNodes, wf_loopNode = None\<rparr>)"

definition NewLoop ::
  "string \<Rightarrow> ('m, 'v) drunner \<Rightarrow> (('m, 'v) run_response option \<Rightarrow> bool) option \<Rightarrow> int \<Rightarrow> ('m, 'v) workflow" where
  "NewLoop cfg_ID body condition maxIters =
     \<lparr>wf_ID = cfg_ID, wf_mode = modeLoop, wf_steps = [], wf_dagCfg = None, wf_dagNodes = [],
      wf_loopNode = Some \<lparr>Body = Some body, LoopCondition = condition, MaxIters = maxIters, ConvergenceFunc = None\<rparr>\<rparr>"

section \<open>Sequences\<close>

definition step_failed :: "nat \<Rightarrow> string \<Rightarrow> gerror \<Rightarrow> gerror" where
  "step_failed k i e = Errorf ''workflowagent: workflow step %d (%s): %w'' [AInt (int k), AStr i] (Some e)"

definition step_nil :: "nat \<Rightarrow> string \<Rightarrow> gerror" where
  "step_nil k i = Errorf ''workflowagent: workflow step %d (%s): nil response'' [AInt (int k), AStr i] None"

record ('m, 'v) sequence_state =
  sq_currentReq :: "('m, 'v) run_request"
  sq_totalUsage :: usage
  sq_hasUsage :: bool
  sq_lastResp :: "('m, 'v) run_response"

text \<open>The loop over the steps; \<open>ctx k\<close> is the error of the context before step \<open>k\<close>.\<close>

fun run_steps ::
  "(usage \<Rightarrow> usage \<Rightarrow> usage) \<Rightarrow> (nat \<Rightarrow> gerror option) \<Rightarrow> ('m, 'v) run_request \<Rightarrow> nat \<Rightarrow> ('m, 'v) sub_agent list \<Rightarrow>
     ('m, 'v) sequence_state \<Rightarrow> ('m, 'v) sequence_state res" where
  "run_steps add ctx req k [] s = Inr s"
| "run_steps add ctx req k (step # steps) s =
     (case ctx k of
        Some err \<Rightarrow> Inl err
      | None \<Rightarrow>
          (case sub_Run step k (sq_currentReq s) of
             Inl err \<Rightarrow> Inl (step_failed (k + 1) (sub_ID step) err)
           | Inr None \<Rightarrow> Inl (step_nil (k + 1) (sub_ID step))
           | Inr (Some resp) \<Rightarrow>
               (let s1 = (case rs_Usage resp of
                            Some u \<Rightarrow> s\<lparr>sq_hasUsage := True, sq_totalUsage := add (sq_totalUsage s) u\<rparr>
                          | None \<Rightarrow> s)
                in run_steps add ctx req (k + 1) steps
                     (s1\<lparr>sq_lastResp := resp, sq_currentReq := with_messages req (rs_Messages resp)\<rparr>))))"

definition runSequence ::
  "(usage \<Rightarrow> usage \<Rightarrow> usage) \<Rightarrow> (nat \<Rightarrow> gerror option) \<Rightarrow> ('m, 'v) sub_agent list \<Rightarrow> ('m, 'v) run_request \<Rightarrow>
     ('m, 'v) run_response res" where
  "runSequence add ctx steps req =
     (if length steps = 0 then
        Inr (response_zero\<lparr>rs_Messages := rq_Messages req, rs_SessionID := rq_SessionID req\<rparr>)
      else
        (case run_steps add ctx req 0 steps \<lparr>sq_currentReq = req, sq_totalUsage = usage_zero, sq_hasUsage = False,
                sq_lastResp = response_zero\<rparr> of
           Inl err \<Rightarrow> Inl err
         | Inr s \<Rightarrow>
             Inr (response_zero\<lparr>rs_Messages := rs_Messages (sq_lastResp s), rs_Metadata := rs_Metadata (sq_lastResp s),
               rs_SessionID := rq_SessionID req,
               rs_Usage := (if sq_hasUsage s then Some (sq_totalUsage s) else None)\<rparr>)))"

section \<open>Graphs and loops\<close>

record ('m, 'v) dag_result =
  dr_FinalOutput :: "('m, 'v) run_response option"
  dr_Usage :: "usage option"

definition runDAG ::
  "('m, 'v) dag_result res \<Rightarrow> ('m, 'v) run_request \<Rightarrow> ('m, 'v) run_response res" where
  "runDAG executed req =
     (case executed of
        Inl err \<Rightarrow> Inl err
      | Inr dagResult \<Rightarrow>
          (let resp = (case dr_FinalOutput dagResult of
                         Some r \<Rightarrow> r
                       | None \<Rightarrow> response_zero\<lparr>rs_Messages := rq_Messages req, rs_SessionID := rq_SessionID req\<rparr>);
               resp1 = resp\<lparr>rs_SessionID := rq_SessionID req\<rparr>
           in Inr (case dr_Usage dagResult of Some u \<Rightarrow> resp1\<lparr>rs_Usage := Some u\<rparr> | None \<Rightarrow> resp1)))"

definition runLoop ::
  "(usage \<Rightarrow> usage \<Rightarrow> usage) \<Rightarrow> (nat \<Rightarrow> gerror option) \<Rightarrow> ('m, 'v) loop_node \<Rightarrow> ('m, 'v) run_request \<Rightarrow>
     ('m, 'v) run_response res option" where
  "runLoop add ctx loop req =
     (case ExecuteLoop add ctx loop req of
        None \<Rightarrow> None
      | Some (Inl err) \<Rightarrow> Some (Inl err)
      | Some (Inr resp) \<Rightarrow> Some (Inr (resp\<lparr>rs_SessionID := rq_SessionID req\<rparr>)))"

definition wf_Run ::
  "('m, 'v) workflow \<Rightarrow> (usage \<Rightarrow> usage \<Rightarrow> usage) \<Rightarrow> (nat \<Rightarrow> gerror option) \<Rightarrow> ('m, 'v) dag_result res \<Rightarrow> int \<Rightarrow>
     ('m, 'v) run_request \<Rightarrow> ('m, 'v) run_response res option" where
  "wf_Run a add ctx executed duration req =
     (case (case wf_mode a of
              modeSequence \<Rightarrow> Some (runSequence add ctx (wf_steps a) req)
            | modeDAG \<Rightarrow> Some (runDAG executed req)
            | modeLoop \<Rightarrow> (case wf_loopNode a of Some loop \<Rightarrow> runLoop add ctx loop req | None \<Rightarrow> None)) of
        None \<Rightarrow> None
      | Some (Inl err) \<Rightarrow> Some (Inl err)
      | Some (Inr resp) \<Rightarrow> Some (Inr (resp\<lparr>rs_Duration := duration\<rparr>)))"

text \<open>What an execution of the graph can return, with the answers given by \<open>A\<close>.\<close>

inductive dag_returns ::
  "('m, 'v) answers \<Rightarrow> ('m, 'v) dag_config \<Rightarrow> ('m, 'v) dnode list \<Rightarrow> ('m, 'v) run_request \<Rightarrow>
     (usage \<Rightarrow> usage \<Rightarrow> usage) \<Rightarrow> ('m, 'v) dag_result res \<Rightarrow> bool"
  for A cfg nodes req add where
  ret_error: "ExecuteDAG cfg nodes req add t ctx = Inl e \<Longrightarrow> dag_returns A cfg nodes req add (Inl e)"
| ret_empty: "ExecuteDAG cfg nodes req add t ctx = Inr (EmptyResult p) \<Longrightarrow>
    dag_returns A cfg nodes req add (Inr \<lparr>dr_FinalOutput = Some p, dr_Usage = None\<rparr>)"
| ret_run: "ExecuteDAG cfg nodes req add t ctx = Inr (Started E st0) \<Longrightarrow> reaches_by A E st0 st \<Longrightarrow>
    mainPhase st = MReturned r \<Longrightarrow>
    dag_returns A cfg nodes req add (case r of
      Some e \<Rightarrow> Inl e
    | None \<Rightarrow> Inr \<lparr>dr_FinalOutput = FinalOutput st, dr_Usage = res_Usage st\<rparr>)"

section \<open>When an execution returns without an error\<close>

text \<open>Without an early exit the loop is only left with an error in hand.\<close>

definition leaves_with_error :: "('m, 'v) dag_state \<Rightarrow> bool" where
  "leaves_with_error st \<longleftrightarrow> (\<forall>k x. mainPhase st = MDrain k x \<longrightarrow>
     x \<noteq> DrainEarly \<and> (x = DrainCtx \<or> x = DrainCancelled \<longrightarrow> ctxErr st \<noteq> None))"

lemma handleCompletion_leaves:
  assumes "EarlyExitFunc (de_cfg E) = None" "mainPhase st = MLoop"
  shows "leaves_with_error (handleCompletion E c st)"
proof -
  define s0 where "s0 = (if ready st \<noteq> None then st\<lparr>activePQ := activePQ st - 1\<rparr> else st)"
  have m0: "mainPhase s0 = MLoop" using assms(2) by (simp add: s0_def)
  have "leaves_with_error (handleNodeSuccess E i p s0)" for i p
    using assms(1) m0
    by (auto simp: handleNodeSuccess_def Let_def early_exit_def leaves_with_error_def leave_loop_def settle_main)
  moreover have "leaves_with_error (handleNodeError E i e s0)" for i e
    using m0
    by (auto simp: handleNodeError_def Let_def leaves_with_error_def leave_loop_def fail_backward_def settle_main
        emit_def set_status_def split: option.splits sum.splits)
  ultimately show ?thesis
    unfolding handleCompletion_def Let_def s0_def [symmetric] by (simp split: sum.split)
qed

lemma step_leaves:
  assumes "EarlyExitFunc (de_cfg E) = None" "leaves_with_error st" "exec_step E ev st = Some st'"
  shows "leaves_with_error st'"
proof (cases ev)
  case (Worker i wev)
  then show ?thesis using assms(2,3) worker_fields [of E i wev st st'] by (simp add: leaves_with_error_def)
next
  case Receive
  then show ?thesis using assms(1,3) handleCompletion_leaves [of E]
    by (auto split: if_splits list.splits)
next
  case (Forwarded outs intr)
  then show ?thesis using assms(3)
    by (auto simp: forwarded_def leaves_with_error_def fail_backward_def leave_loop_def Let_def
        split: main_phase.splits option.splits sum.splits)
next
  case (Drained intr)
  then obtain x where "st' = drained E intr x st" using assms(3) by (auto split: main_phase.splits nat.splits)
  then have "\<exists>r. mainPhase st' = MReturned r"
    using finalize_returned [of E st] by (auto simp: drained_def split: drain_exit.split prod.split)
  then show ?thesis by (auto simp: leaves_with_error_def)
next
  case AllDone
  then have "\<exists>r. mainPhase st' = MReturned r" using assms(3) finalize_returned [of E st] by (auto split: if_splits)
  then show ?thesis by (auto simp: leaves_with_error_def)
qed (use assms(2,3) in \<open>auto simp: leaves_with_error_def leave_loop_def
  split: if_splits main_phase.splits nat.splits list.splits\<close>)

text \<open>A return without an error is the one for which nothing was left to do.\<close>

definition same_output :: "('m, 'v) dag_state \<Rightarrow> ('m, 'v) dag_state \<Rightarrow> bool" where
  "same_output st st' \<longleftrightarrow> FinalOutput st = FinalOutput st' \<and> res_Usage st = res_Usage st' \<and>
     NodeResults st = NodeResults st' \<and> NodeStatus st = NodeStatus st'"

lemma step_after_return:
  assumes "mainPhase st = MReturned r" "exec_step E ev st = Some st'"
  shows "mainPhase st' = MReturned r \<and> same_output st' st"
  using assms
  by (cases ev)
    (auto simp: same_output_def worker_def worker_apply_def send_def
      split: if_splits option.splits worker_out.splits)

lemma returned_all_done:
  assumes "reaches_by A E st0 st" "EarlyExitFunc (de_cfg E) = None" "mainPhase st0 = MLoop" "mainPhase st = MReturned None"
  shows "\<exists>st1 st2. reaches_by A E st0 st1 \<and> exec_step E AllDone st1 = Some st2 \<and> same_output st st2"
proof -
  have "leaves_with_error st \<and> (mainPhase st = MReturned None \<longrightarrow>
      (\<exists>st1 st2. reaches_by A E st0 st1 \<and> exec_step E AllDone st1 = Some st2 \<and> same_output st st2))"
    using assms(1)
  proof (induction rule: reaches_by.induct)
    case by_start
    then show ?case using assms(3) by (simp add: leaves_with_error_def)
  next
    case (by_step st ev st')
    have l: "leaves_with_error st'" using step_leaves [OF assms(2)] by_step by blast
    have "\<exists>st1 st2. reaches_by A E st0 st1 \<and> exec_step E AllDone st1 = Some st2 \<and> same_output st' st2"
      if r: "mainPhase st' = MReturned None"
    proof (cases "\<exists>r. mainPhase st = MReturned r")
      case True
      then obtain r' where m: "mainPhase st = MReturned r'" by blast
      note s = step_after_return [OF m by_step(3)]
      then have "mainPhase st = MReturned None" using r m by simp
      then show ?thesis using by_step.IH s by (fastforce simp: same_output_def)
    next
      case False
      have "ev = AllDone"
      proof (rule ccontr)
        assume "ev \<noteq> AllDone"
        then obtain intr x where x: "mainPhase st = MDrain 0 x" "st' = drained E intr x st"
          using by_step(3) False r
          by (cases ev) (auto dest: worker_fields(6) simp: handleCompletion_def handleNodeSuccess_def handleNodeError_def
            Let_def leave_loop_def fail_backward_def settle_main emit_def set_status_def forwarded_def
            split: if_splits list.splits main_phase.splits nat.splits option.splits sum.splits)
        then show False
          using by_step.IH r by (auto simp: drained_def leaves_with_error_def split: drain_exit.splits prod.splits)
      qed
      then show ?thesis using by_step.hyps unfolding same_output_def by blast
    qed
    with l show ?case by blast
  qed
  with assms(4) show ?thesis by blast
qed

section \<open>The answer of a graph workflow\<close>

text \<open>The nodes that count for the output: those without successors, if one of them has a result, else all.\<close>

definition output_ids ::
  "('m, 'v) dnode list \<Rightarrow> (string \<Rightarrow> ('m, 'v) run_response option) \<Rightarrow> string list" where
  "output_ids nodes results =
     (let ids = filter (\<lambda>i. results i \<noteq> None) (map ID nodes); term = filter (\<lambda>i. downstream nodes i = []) ids
      in sort (if term = [] then ids else term))"

definition output_messages ::
  "('m, 'v) dnode list \<Rightarrow> (string \<Rightarrow> ('m, 'v) run_response option) \<Rightarrow> 'm list" where
  "output_messages nodes results = concat (map (\<lambda>i. messages_of (results i)) (output_ids nodes results))"

lemma downstream_auto: "downstream (map (auto_priority ns) nodes) i = downstream nodes i"
  by (simp add: downstream_concat comp_def)

lemma final_ids_output:
  assumes "de_nodes E = nodes \<or> de_nodes E = map (auto_priority ns) nodes"
    and "\<And>i. i \<in> ID ` set nodes \<Longrightarrow> NodeStatus st i = NodeDone \<longleftrightarrow> results i \<noteq> None"
  shows "final_ids E st = output_ids nodes results"
proof -
  have ids: "map ID (de_nodes E) = map ID nodes" and ds: "downstream (de_nodes E) i = downstream nodes i" for i
    using assms(1) by (auto simp: downstream_auto)
  let ?ids = "filter (\<lambda>i. results i \<noteq> None) (map ID nodes)"
  have d: "map fst (done_results E P st) = filter P ?ids" for P
  proof -
    have "map fst (done_results E P st) = filter (\<lambda>i. P i \<and> NodeStatus st i = NodeDone) (map ID nodes)"
      by (simp add: done_results_def ids comp_def)
    also have "\<dots> = filter (\<lambda>i. P i \<and> results i \<noteq> None) (map ID nodes)"
      by (rule filter_cong) (use assms(2) in auto)
    also have "\<dots> = filter P ?ids" by (auto intro: filter_cong)
    finally show ?thesis .
  qed
  have t: "map fst (done_results E (is_terminal E) st) = filter (\<lambda>i. downstream nodes i = []) ?ids"
    and a: "map fst (done_results E (\<lambda>_. True) st) = ?ids"
    unfolding d by (simp_all add: is_terminal_def ds)
  show ?thesis
  proof (cases "done_results E (is_terminal E) st = []")
    case True
    then have "filter (\<lambda>i. downstream nodes i = []) ?ids = []" using t by simp
    with True a show ?thesis by (simp only: final_ids_def final_inputs_def output_ids_def Let_def simp_thms if_True)
  next
    case False
    then have ne: "filter (\<lambda>i. downstream nodes i = []) ?ids \<noteq> []" using t by (metis map_is_Nil_conv)
    with False t show ?thesis by (simp only: final_ids_def final_inputs_def output_ids_def Let_def if_False)
  qed
qed

lemma dag_run_output:
  assumes "ExecuteDAG cfg nodes req add t ctx = Inr (Started E st0)" and "reaches_by A E st0 st"
    and "mainPhase st = MReturned None" and "EarlyExitFunc cfg = None" "Aggregator cfg = None" "CheckpointStore cfg = None"
    and "\<forall>n\<in>set nodes. \<not> Optional n"
  shows "\<exists>out. FinalOutput st = Some out \<and> rs_Messages out = output_messages nodes (sequential A nodes req)"
proof -
  have cfg: "de_cfg E = cfg" by (rule ExecuteDAG_Started(3) [OF assms(1)])
  have m0: "mainPhase st0 = MLoop" using flow_start [OF assms(1,6)] by blast
  obtain st1 st2 where r: "reaches_by A E st0 st1" "exec_step E AllDone st1 = Some st2" "same_output st st2"
    using returned_all_done [OF assms(2) _ m0 assms(3)] assms(4) cfg by auto
  have st2: "st2 = finalize E st1" using r(2) by (auto split: if_splits)
  have res: "NodeResults st1 i = sequential A nodes req i \<and>
      (NodeStatus st1 i = NodeDone \<longleftrightarrow> sequential A nodes req i \<noteq> None)" if i: "i \<in> ID ` set nodes" for i
  proof -
    obtain n where n: "n \<in> set nodes" "i = ID n" using i by blast
    note f = finished_results [OF assms(1) r(1,2) assms(6,7) n(1)]
    have "NodeStatus st2 i \<in> {NodeDone, NodeSkipped}"
      using settled_status [OF assms(1) reaches_by_reaches [OF r(1)] r(2) n(1)] n(2) by simp
    then show ?thesis using f n(2) finalize_fields [of E st1] by (auto simp: st2)
  qed
  have E: "de_nodes E = nodes \<or> de_nodes E = map (auto_priority nodes) nodes"
    using started_state(4) [OF assms(1,6)] by (auto split: if_splits)
  have ids: "final_ids E st1 = output_ids nodes (sequential A nodes req)"
    using final_ids_output [OF E] res by blast
  have sub: "set (output_ids nodes results) \<subseteq> ID ` set nodes" for results
    by (auto simp: output_ids_def Let_def)
  have "concat (map (\<lambda>i. messages_of (NodeResults st1 i)) (final_ids E st1)) =
      output_messages nodes (sequential A nodes req)"
    unfolding ids output_messages_def
    by (intro arg_cong [where f = concat] map_cong refl arg_cong [where f = messages_of]) (use res sub in blast)
  moreover obtain out where "concatMessagesAggregator (final_inputs E st1) = Inr (Some out)"
      "rs_Messages out = concat (map (\<lambda>i. messages_of (NodeResults st1 i)) (final_ids E st1))"
    using concat_final [of E st1] by blast
  moreover have "FinalOutput st = FinalOutput st2" using r(3) by (simp add: same_output_def)
  ultimately show ?thesis
    using assms(5) by (auto simp: st2 finalize_def cfg close_result_def)
qed

lemma dag_workflow_messages:
  assumes "NewDAG i cfg nodes = Inr w" "nodes \<noteq> []" "\<forall>n\<in>set nodes. \<not> Optional n"
    and "EarlyExitFunc cfg = None" "Aggregator cfg = None" "CheckpointStore cfg = None"
    and "dag_returns A cfg nodes req add (Inr dr)"
  shows "\<exists>resp. wf_Run w add ctx (Inr dr) t req = Some (Inr resp) \<and>
    rs_Messages resp = output_messages nodes (sequential A nodes req) \<and> rs_SessionID resp = rq_SessionID req"
proof -
  obtain t0 ctx0 E st0 st where r: "ExecuteDAG cfg nodes req add t0 ctx0 = Inr (Started E st0)" "reaches_by A E st0 st"
      "mainPhase st = MReturned None" "dr = \<lparr>dr_FinalOutput = FinalOutput st, dr_Usage = res_Usage st\<rparr>"
    using assms(7)
  proof (cases rule: dag_returns.cases)
    case (ret_empty t ctx p)
    then show ?thesis using assms(2) by (simp add: ExecuteDAG_def split: sum.splits prod.splits)
  next
    case (ret_run t ctx E st0 st r)
    then show ?thesis using that by (cases r) auto
  qed
  obtain out where "FinalOutput st = Some out" "rs_Messages out = output_messages nodes (sequential A nodes req)"
    using dag_run_output [OF r(1-3) assms(4-6,3)] by blast
  moreover have "wf_mode w = modeDAG" using assms(1) by (auto simp: NewDAG_def split: option.splits)
  ultimately show ?thesis by (simp add: wf_Run_def runDAG_def r(4) Let_def split: option.split)
qed

section \<open>A sequence is a chain\<close>

text \<open>The graph of a sequence, and the answers its steps give.\<close>

definition chain_node :: "('m, 'v) sub_agent list \<Rightarrow> nat \<Rightarrow> ('m, 'v) dnode" where
  "chain_node steps k =
     (bare_node (sub_ID (steps ! k)) (case k of 0 \<Rightarrow> [] | Suc j \<Rightarrow> [sub_ID (steps ! j)]))
       \<lparr>Runner := Some \<lparr>Run = sub_Run (steps ! k), Compensate = None, Idempotent = False\<rparr>\<rparr>"

definition chain :: "('m, 'v) sub_agent list \<Rightarrow> ('m, 'v) dnode list" where
  "chain steps = map (chain_node steps) [0..<length steps]"

definition step_answers :: "('m, 'v) sub_agent list \<Rightarrow> ('m, 'v) answers" where
  "step_answers steps i q =
     (case find (\<lambda>s. sub_ID s = i) steps of Some s \<Rightarrow> sub_Run s 0 q | None \<Rightarrow> Inr None)"

lemma chain_node_simps [simp]:
  "ID (chain_node steps k) = sub_ID (steps ! k)" "Condition (chain_node steps k) = None"
  "InputMapper (chain_node steps k) = None" "Optional (chain_node steps k) = False"
  "Deps (chain_node steps k) = (case k of 0 \<Rightarrow> [] | Suc j \<Rightarrow> [sub_ID (steps ! j)])"
  by (simp_all add: chain_node_def bare_node_def)

lemma step_answers_nth:
  assumes "distinct (map sub_ID steps)" "k < length steps"
  shows "step_answers steps (sub_ID (steps ! k)) q = sub_Run (steps ! k) 0 q"
proof -
  obtain s where s: "find (\<lambda>s. sub_ID s = sub_ID (steps ! k)) steps = Some s"
    using assms(2) by (metis (mono_tags, lifting) find_None_iff nth_mem option.exhaust)
  then have "s \<in> set steps" "sub_ID s = sub_ID (steps ! k)" by (auto simp: find_Some_iff)
  then have "s = steps ! k" using assms by (auto simp: distinct_map inj_on_def)
  then show ?thesis using s by (simp add: step_answers_def)
qed

text \<open>What the loop over the steps does: the responses one after the other.\<close>

definition step_request :: "('m, 'v) run_request \<Rightarrow> ('m, 'v) run_response list \<Rightarrow> ('m, 'v) run_request" where
  "step_request req rs = (if rs = [] then req else with_messages req (rs_Messages (last rs)))"

lemma run_steps_responses:
  assumes "\<forall>s\<in>set steps. \<forall>k q. sub_Run s k q = sub_Run s 0 q"
    and "run_steps add ctx req k steps s = Inr s'" "sq_currentReq s = step_request req rs" "rs \<noteq> [] \<Longrightarrow> sq_lastResp s = last rs"
  shows "\<exists>rs'. length rs' = length steps \<and>
    (\<forall>j<length steps. sub_Run (steps ! j) 0 (step_request req (rs @ take j rs')) = Inr (Some (rs' ! j))) \<and>
    (rs @ rs' \<noteq> [] \<longrightarrow> sq_lastResp s' = last (rs @ rs'))"
  using assms
proof (induction steps arbitrary: k s rs)
  case (Cons step steps)
  obtain resp where c: "ctx k = None" "sub_Run step k (sq_currentReq s) = Inr (Some resp)"
    using Cons.prems(2) by (auto split: option.splits sum.splits)
  define s1 where "s1 = (case rs_Usage resp of
      Some u \<Rightarrow> s\<lparr>sq_hasUsage := True, sq_totalUsage := add (sq_totalUsage s) u\<rparr> | None \<Rightarrow> s)"
  define s2 where "s2 = s1\<lparr>sq_lastResp := resp, sq_currentReq := with_messages req (rs_Messages resp)\<rparr>"
  have r: "run_steps add ctx req (k + 1) steps s2 = Inr s'"
    using Cons.prems(2) c by (simp add: s1_def s2_def Let_def)
  have q: "sq_currentReq s2 = step_request req (rs @ [resp])" "sq_lastResp s2 = last (rs @ [resp])"
    by (simp_all add: s2_def step_request_def)
  have same: "\<forall>s\<in>set steps. \<forall>k q. sub_Run s k q = sub_Run s 0 q"
    using Cons.prems(1) by (meson list.set_intros(2))
  have IH: "\<exists>rs'. length rs' = length steps \<and>
      (\<forall>j<length steps. sub_Run (steps ! j) 0 (step_request req ((rs @ [resp]) @ take j rs')) = Inr (Some (rs' ! j))) \<and>
      ((rs @ [resp]) @ rs' \<noteq> [] \<longrightarrow> sq_lastResp s' = last ((rs @ [resp]) @ rs'))"
    by (rule Cons.IH [OF same r q(1) q(2)])
  then obtain rs' where rs': "length rs' = length steps"
      "\<forall>j<length steps. sub_Run (steps ! j) 0 (step_request req (rs @ resp # take j rs')) = Inr (Some (rs' ! j))"
      "sq_lastResp s' = last (rs @ resp # rs')"
    by auto
  have "sub_Run step 0 (step_request req rs) = Inr (Some resp)"
    using c(2) Cons.prems(1,3) by (metis list.set_intros(1))
  then have "sub_Run ((step # steps) ! j) 0 (step_request req (rs @ take j (resp # rs'))) = Inr (Some ((resp # rs') ! j))"
    if "j < length (step # steps)" for j
    using that rs'(2) by (cases j) auto
  then show ?case using rs' by (intro exI [of _ "resp # rs'"]) auto
qed auto

lemma chain_sequential:
  assumes d: "distinct (map sub_ID steps)" and v: "valid_dag (chain steps)" and len: "length rs = length steps"
    and rs: "\<And>j. j < length steps \<Longrightarrow> sub_Run (steps ! j) 0 (step_request req (take j rs)) = Inr (Some (rs ! j))"
  shows "k < length steps \<Longrightarrow> sequential (step_answers steps) (chain steps) req (sub_ID (steps ! k)) = Some (rs ! k)"
proof (induction k)
  case 0
  then have "chain_node steps 0 \<in> set (chain steps)" by (simp add: chain_def)
  from sequential_eq [OF v this] step_answers_nth [OF d 0] rs [OF 0] show ?case
    by (simp add: node_result_def holds_condition_def buildNodeInput_def step_request_def)
next
  case (Suc k)
  then have n: "chain_node steps (Suc k) \<in> set (chain steps)" by (simp add: chain_def)
  have "take (Suc k) rs \<noteq> []" "last (take (Suc k) rs) = rs ! k"
    using Suc.prems len by (auto simp: take_Suc_conv_app_nth)
  then have "step_request req (take (Suc k) rs) = with_messages req (rs_Messages (rs ! k))" by (simp add: step_request_def)
  with sequential_eq [OF v n] step_answers_nth [OF d Suc.prems] rs [OF Suc.prems] Suc show ?case
    by (simp add: node_result_def holds_condition_def buildNodeInput_def)
qed

lemma chain_output:
  assumes d: "distinct (map sub_ID steps)" and ne: "steps \<noteq> []" and len: "length rs = length steps"
    and res: "\<And>k. k < length steps \<Longrightarrow> results (sub_ID (steps ! k)) = Some (rs ! k)"
  shows "output_messages (chain steps) results = rs_Messages (last rs)"
proof -
  have ids: "map ID (chain steps) = map sub_ID steps"
    by (rule nth_equalityI) (simp_all add: chain_def)
  have "i \<in> set (map sub_ID steps) \<Longrightarrow> results i \<noteq> None" for i using res by (auto simp: in_set_conv_nth)
  then have all: "filter (\<lambda>i. results i \<noteq> None) (map sub_ID steps) = map sub_ID steps" by (simp add: filter_id_conv)
  obtain xs x where s: "steps = xs @ [x]" using ne by (meson rev_exhaust)
  have inner: "downstream (chain steps) (sub_ID y) \<noteq> []" if y: "y \<in> set xs" for y
  proof -
    obtain k where k: "k < length xs" "y = xs ! k" using y by (auto simp: in_set_conv_nth)
    have "Suc k < length steps" using k(1) by (simp add: s)
    then have "chain_node steps (Suc k) \<in> set (chain steps)" by (simp add: chain_def)
    moreover have "sub_ID y \<in> set (Deps (chain_node steps (Suc k)))" using k by (simp add: s nth_append)
    ultimately show ?thesis unfolding downstream_Nil_iff by blast
  qed
  have last: "downstream (chain steps) (sub_ID x) = []"
    unfolding downstream_Nil_iff
  proof
    fix n assume "n \<in> set (chain steps)"
    then obtain k where k: "k < length steps" "n = chain_node steps k" by (auto simp: chain_def)
    then show "sub_ID x \<notin> set (Deps n)"
      using d by (cases k) (auto simp: s distinct_map inj_on_def nth_append)
  qed
  have "filter (\<lambda>i. downstream (chain steps) i = []) (map sub_ID xs) = []"
    using inner by (auto simp: filter_empty_conv)
  then have "filter (\<lambda>i. downstream (chain steps) i = []) (map sub_ID steps) = [sub_ID x]"
    using last by (simp add: s)
  then have "output_ids (chain steps) results = [sub_ID x]"
    unfolding output_ids_def Let_def ids all by simp
  moreover have "results (sub_ID x) = Some (last rs)"
    using res [of "length xs"] len by (simp add: s last_conv_nth nth_append) (metis diff_Suc_1 last_conv_nth length_0_conv nat.distinct(1))
  ultimately show ?thesis by (simp add: output_messages_def messages_of_def)
qed

text \<open>
  C24: a sequence and a chain of nodes are the same workflow.  Let the steps have different identifiers and
  answer a request the same way at every call.  If the sequential workflow returns a response, then the
  graph workflow over the chain of the same steps, with default settings, answers with the same messages
  and session, however it was executed, if its execution returned without an error.
\<close>

theorem sequence_is_chain:
  assumes "distinct (map sub_ID steps)" "steps \<noteq> []" "\<forall>s\<in>set steps. \<forall>k q. sub_Run s k q = sub_Run s 0 q"
    and "wf_Run (wf_New i steps) add ctx x t req = Some (Inr resp)"
    and "NewDAG i' cfg (chain steps) = Inr w" "EarlyExitFunc cfg = None" "Aggregator cfg = None" "CheckpointStore cfg = None"
    and "dag_returns (step_answers steps) cfg (chain steps) req add (Inr dr)"
  shows "\<exists>resp'. wf_Run w add ctx' (Inr dr) t' req = Some (Inr resp') \<and>
    rs_Messages resp' = rs_Messages resp \<and> rs_SessionID resp' = rs_SessionID resp"
proof -
  let ?s0 = "\<lparr>sq_currentReq = req, sq_totalUsage = usage_zero, sq_hasUsage = False, sq_lastResp = response_zero\<rparr>"
  obtain s' where s': "run_steps add ctx req 0 steps ?s0 = Inr s'"
      "rs_Messages resp = rs_Messages (sq_lastResp s')" "rs_SessionID resp = rq_SessionID req"
    using assms(2,4) by (auto simp: wf_Run_def wf_New_def runSequence_def split: sum.splits)
  obtain rs where rs: "length rs = length steps"
      "\<forall>j<length steps. sub_Run (steps ! j) 0 (step_request req (take j rs)) = Inr (Some (rs ! j))"
      "sq_lastResp s' = last rs"
    using run_steps_responses [OF assms(3) s'(1), of "[]"] assms(2) by (auto simp: step_request_def)
  have v: "valid_dag (chain steps)"
    using assms(5) by (simp add: NewDAG_def ValidateDAG_None_iff [symmetric] split: option.splits)
  have "sequential (step_answers steps) (chain steps) req (sub_ID (steps ! k)) = Some (rs ! k)" if "k < length steps" for k
    using chain_sequential [OF assms(1) v rs(1) _ that] rs(2) by blast
  from chain_output [OF assms(1,2) rs(1) this]
  have "output_messages (chain steps) (sequential (step_answers steps) (chain steps) req) = rs_Messages (last rs)" .
  moreover have "chain steps \<noteq> []" "\<forall>n\<in>set (chain steps). \<not> Optional n" using assms(2) by (auto simp: chain_def)
  note dag_workflow_messages [OF assms(5) this assms(6-9), of ctx' t']
  ultimately show ?thesis using s'(2,3) rs(3) by auto
qed

section \<open>Witnesses\<close>

text \<open>The demonstration graph, executed to its return.\<close>

lemma returned_case:
  assumes "case exec_events E evs st0 of None \<Rightarrow> False
     | Some st \<Rightarrow> (case mainPhase st of MReturned r \<Rightarrow> r = None | _ \<Rightarrow> False)"
  obtains st where "exec_events E evs st0 = Some st" "mainPhase st = MReturned None"
  using assms that by (auto split: option.splits main_phase.splits)

text \<open>Two steps, and their chain executed to its return.\<close>

definition demo_step :: "string \<Rightarrow> (nat, nat) sub_agent" where
  "demo_step i = \<lparr>sub_ID = i, sub_Run = (\<lambda>_ q. Inr (Some (demo_response 1)))\<rparr>"

definition demo_steps :: "(nat, nat) sub_agent list" where
  "demo_steps = [demo_step ''a'', demo_step ''b'']"

definition chain_env :: "(nat, nat) dag_env" where
  "chain_env = \<lparr>de_cfg = demo_cfg, de_nodes = chain demo_steps, de_req = demo_req, de_add = usage_plus\<rparr>"

definition chain_start :: "(nat, nat) dag_state" where
  "chain_start = start_run chain_env (initial_state demo_cfg (chain demo_steps) Map.empty 0 None)"

lemma chain_valid: "ValidateDAG (chain demo_steps) = None"
  by code_simp

lemma chain_started: "ExecuteDAG demo_cfg (chain demo_steps) demo_req usage_plus 0 None = Inr (Started chain_env chain_start)"
proof -
  have "chain demo_steps \<noteq> []" "CheckpointStore demo_cfg = None" "PriorityScheduling demo_cfg = False"
    by (simp_all add: chain_def demo_steps_def demo_cfg_def)
  then show ?thesis
    using chain_valid by (simp add: ExecuteDAG_def newDagExecutor_def load_checkpoints_def chain_start_def chain_env_def Let_def)
qed

theorem sequence_is_chain_witness:
  "\<exists>w dr resp resp'. NewDAG ''w'' demo_cfg (chain demo_steps) = Inr w \<and>
     wf_Run (wf_New ''v'' demo_steps) usage_plus (\<lambda>_. None) (Inl CtxCanceled) 3 demo_req = Some (Inr resp) \<and>
     wf_Run w usage_plus (\<lambda>_. None) (Inr dr) 7 demo_req = Some (Inr resp') \<and>
     rs_Messages resp' = rs_Messages resp \<and> rs_Messages resp = [1]"
proof -
  obtain w where w: "NewDAG ''w'' demo_cfg (chain demo_steps) = Inr w" using chain_valid by (simp add: NewDAG_def)
  have "case exec_events chain_env (demo_all @ [AllDone]) chain_start of None \<Rightarrow> False
     | Some st \<Rightarrow> (case mainPhase st of MReturned r \<Rightarrow> r = None | _ \<Rightarrow> False)"
    by code_simp
  then obtain st where st: "exec_events chain_env (demo_all @ [AllDone]) chain_start = Some st" "mainPhase st = MReturned None"
    by (rule returned_case)
  have r: "reaches_by (step_answers demo_steps) chain_env chain_start st"
    by (rule exec_events_reaches_by [OF by_start _ st(1)])
      (auto simp: demo_all_def node_events_def node_runs_def answers_by_def step_answers_def demo_steps_def demo_step_def
        split: option.split)
  have dr: "dag_returns (step_answers demo_steps) demo_cfg (chain demo_steps) demo_req usage_plus
      (Inr \<lparr>dr_FinalOutput = FinalOutput st, dr_Usage = res_Usage st\<rparr>)"
    using dag_returns.ret_run [OF chain_started r st(2)] by simp
  obtain resp where resp: "wf_Run (wf_New ''v'' demo_steps) usage_plus (\<lambda>_. None) (Inl CtxCanceled) 3 demo_req = Some (Inr resp)"
      "rs_Messages resp = [1]"
    by (simp add: wf_Run_def wf_New_def runSequence_def demo_steps_def demo_step_def Let_def demo_response_def response_zero_def)
  have "distinct (map sub_ID demo_steps)" "demo_steps \<noteq> []" "\<forall>s\<in>set demo_steps. \<forall>k q. sub_Run s k q = sub_Run s 0 q"
      "EarlyExitFunc demo_cfg = None" "Aggregator demo_cfg = None" "CheckpointStore demo_cfg = None"
    by (simp_all add: demo_steps_def demo_step_def demo_cfg_def)
  from sequence_is_chain [OF this(1-3) resp(1) w this(4-6) dr, of "\<lambda>_. None" 7] show ?thesis
    using w resp by blast
qed

end
