(* ===== verification/DagOptions.thy ===== *)
theory DagOptions
  imports DagProps
begin

text \<open>
  The functional options of \<open>orchestrate/orchestrate.go\<close> and \<open>RunDAG\<close>.  The limits of resources and the
  configuration of the backpressure controller are kept beside the configuration of the executor, which reads only whether
  they are set.
\<close>

record ('m, 'v, 'b) dag_options =
  do_cfg :: "('m, 'v) dag_config"
  do_BackpressureCfg :: "'b option"
  do_ResourceLimits :: "(string \<times> int) list"
  do_ResourceRateLimits :: "(string \<times> rat) list"

type_synonym ('m, 'v, 'b) dag_option = "('m, 'v, 'b) dag_options \<Rightarrow> ('m, 'v, 'b) dag_options"

definition set_cfg :: "(('m, 'v) dag_config \<Rightarrow> ('m, 'v) dag_config) \<Rightarrow> ('m, 'v, 'b) dag_option" where
  "set_cfg f c = c\<lparr>do_cfg := f (do_cfg c)\<rparr>"

definition WithMaxConcurrency :: "int \<Rightarrow> ('m, 'v, 'b) dag_option" where
  "WithMaxConcurrency n = set_cfg (\<lambda>c. c\<lparr>MaxConcurrency := n\<rparr>)"

definition WithErrorStrategy :: "error_strategy \<Rightarrow> ('m, 'v, 'b) dag_option" where
  "WithErrorStrategy s = set_cfg (\<lambda>c. c\<lparr>ErrorStrategy := s\<rparr>)"

definition WithEarlyExit :: "(string \<Rightarrow> ('m, 'v) run_response \<Rightarrow> bool) option \<Rightarrow> ('m, 'v, 'b) dag_option" where
  "WithEarlyExit fn = set_cfg (\<lambda>c. c\<lparr>EarlyExitFunc := fn\<rparr>)"

definition WithAggregator :: "(('m, 'v) results \<Rightarrow> ('m, 'v) run_response option res) option \<Rightarrow> ('m, 'v, 'b) dag_option" where
  "WithAggregator a = set_cfg (\<lambda>c. c\<lparr>Aggregator := a\<rparr>)"

definition WithCheckpointStore :: "('m, 'v) checkpoint_store option \<Rightarrow> ('m, 'v, 'b) dag_option" where
  "WithCheckpointStore cs = set_cfg (\<lambda>c. c\<lparr>CheckpointStore := cs\<rparr>)"

definition WithReplayMode :: "('m, 'v, 'b) dag_option" where
  "WithReplayMode = set_cfg (\<lambda>c. c\<lparr>ReplayMode := True\<rparr>)"

definition WithPriorityScheduling :: "bool \<Rightarrow> ('m, 'v, 'b) dag_option" where
  "WithPriorityScheduling criticalPathAuto =
     set_cfg (\<lambda>c. c\<lparr>PriorityScheduling := True, CriticalPathAuto := criticalPathAuto\<rparr>)"

definition WithBackpressure :: "'b option \<Rightarrow> ('m, 'v, 'b) dag_option" where
  "WithBackpressure cfg c = c\<lparr>do_BackpressureCfg := cfg\<rparr>"

definition WithResourceLimits :: "(string \<times> int) list \<Rightarrow> ('m, 'v, 'b) dag_option" where
  "WithResourceLimits limits c = c\<lparr>do_ResourceLimits := limits\<rparr>"

definition WithResourceRateLimits :: "(string \<times> rat) list \<Rightarrow> ('m, 'v, 'b) dag_option" where
  "WithResourceRateLimits limits c = c\<lparr>do_ResourceRateLimits := limits\<rparr>"

definition WithCompensation :: "compensate_config option \<Rightarrow> ('m, 'v, 'b) dag_option" where
  "WithCompensation cfg = set_cfg (\<lambda>c. c\<lparr>ErrorStrategy := CompensateStrategy, CompensateCfg := cfg\<rparr>)"

definition WithEventHandler :: "bool \<Rightarrow> ('m, 'v, 'b) dag_option" where
  "WithEventHandler h = set_cfg (\<lambda>c. c\<lparr>EventHandler := h\<rparr>)"

text \<open>The zero value of the configuration; the first strategy is \<open>Abort\<close>.\<close>

definition no_options :: "('m, 'v, 'b) dag_options" where
  "no_options =
     \<lparr>do_cfg = \<lparr>MaxConcurrency = 0, ErrorStrategy = Abort, EarlyExitFunc = None, Aggregator = None, CheckpointStore = None,
        ReplayMode = False, PriorityScheduling = False, CriticalPathAuto = False, HasBackpressure = False,
        HasResources = False, CompensateCfg = None, EventHandler = False\<rparr>,
      do_BackpressureCfg = None, do_ResourceLimits = [], do_ResourceRateLimits = []\<rparr>"

definition options_cfg :: "('m, 'v, 'b) dag_options \<Rightarrow> ('m, 'v) dag_config" where
  "options_cfg c = (do_cfg c)
     \<lparr>HasBackpressure := (do_BackpressureCfg c \<noteq> None),
      HasResources := (length (do_ResourceLimits c) > 0 \<or> length (do_ResourceRateLimits c) > 0)\<rparr>"

definition RunDAG ::
  "('m, 'v) dnode list \<Rightarrow> ('m, 'v) run_request \<Rightarrow> ('m, 'v, 'b) dag_option list \<Rightarrow> (usage \<Rightarrow> usage \<Rightarrow> usage) \<Rightarrow>
     int \<Rightarrow> gerror option \<Rightarrow> ('m, 'v) dag_start res" where
  "RunDAG nodes req opts add t ctx =
     ExecuteDAG (options_cfg (fold (\<lambda>opt c. opt c) opts no_options)) nodes req add t ctx"

text \<open>Later options win: compensation after an error strategy replaces it, and a strategy after compensation leaves
  its configuration unused.\<close>

lemma last_strategy_wins:
  "ErrorStrategy (options_cfg (fold (\<lambda>opt c. opt c) (opts @ [WithCompensation cfg]) no_options)) = CompensateStrategy"
  "ErrorStrategy (options_cfg (fold (\<lambda>opt c. opt c) (opts @ [WithErrorStrategy st]) no_options)) = st"
  by (simp_all add: options_cfg_def WithCompensation_def WithErrorStrategy_def set_cfg_def)

end
