(* ===== verification/Checkpoint.thy ===== *)
theory Checkpoint
  imports DagStart
begin

text \<open>
  Checkpoint stores (\<open>checkpoint.go\<close>) and resuming an execution from one.  \<open>checkpoint_store\<close>
  is the contract that the executor relies on; the in-memory store implements it.
\<close>

section \<open>The contract\<close>

text \<open>\<open>load_all\<close> of an unknown execution is the \<open>nil\<close> map, which reads as the empty one.\<close>

locale checkpoint_laws =
  fixes save :: "'s \<Rightarrow> string \<Rightarrow> string \<Rightarrow> 'r \<Rightarrow> 's"
    and load :: "'s \<Rightarrow> string \<Rightarrow> string \<Rightarrow> 'r option"
    and load_all :: "'s \<Rightarrow> string \<Rightarrow> (string \<rightharpoonup> 'r)"
    and clear :: "'s \<Rightarrow> string \<Rightarrow> 's"
  assumes load_all_save: "load_all (save s d i r) d' =
      (if d' = d then (load_all s d)(i \<mapsto> r) else load_all s d')"
    and load_all_clear: "load_all (clear s d) d' = (if d' = d then Map.empty else load_all s d')"
    and load_load_all: "load s d i = load_all s d i"
begin

text \<open>What is read back after a sequence of saves is the last value saved under each name.\<close>

lemma load_all_saves:
  "load_all (fold (\<lambda>(i, r) s. save s d i r) saved s) d = load_all s d ++ map_of (rev saved)"
proof (induction saved arbitrary: s)
  case (Cons ir saved)
  obtain i r where ir: "ir = (i, r)" by (cases ir)
  have upd: "load_all (save s d i r) d = load_all s d ++ [i \<mapsto> r]"
    by (simp add: load_all_save)
  have "map_of (rev (ir # saved)) = [i \<mapsto> r] ++ map_of (rev saved)" by (simp add: ir)
  with Cons [of "save s d i r"] show ?case
    by (simp only: ir fold_simps prod.case upd map_add_assoc)
qed simp

lemma load_all_saves_other:
  "d' \<noteq> d \<Longrightarrow> load_all (fold (\<lambda>(i, r) s. save s d i r) saved s) d' = load_all s d'"
  by (induction saved arbitrary: s) (auto simp: load_all_save)

lemma load_saves:
  "load (fold (\<lambda>(i, r) s. save s d i r) saved s) d i =
     (case map_of (rev saved) i of Some r \<Rightarrow> Some r | None \<Rightarrow> load s d i)"
  by (simp add: load_load_all load_all_saves map_add_def split: option.split)

end

section \<open>The in-memory store\<close>

text \<open>\<open>data\<close> maps executions to maps from nodes to responses; a stored response may be \<open>nil\<close>.\<close>

type_synonym 'r memory_store = "string \<rightharpoonup> (string \<rightharpoonup> 'r)"

definition NewInMemoryCheckpointStore :: "'r memory_store" where
  "NewInMemoryCheckpointStore = Map.empty"

definition mem_Save :: "'r memory_store \<Rightarrow> string \<Rightarrow> string \<Rightarrow> 'r \<Rightarrow> 'r memory_store" where
  "mem_Save data dag i r =
     (let inner = (case data dag of None \<Rightarrow> Map.empty | Some m \<Rightarrow> m)
      in data(dag \<mapsto> inner(i \<mapsto> r)))"

definition mem_Load :: "'r memory_store \<Rightarrow> string \<Rightarrow> string \<Rightarrow> 'r option" where
  "mem_Load data dag i = (case data dag of None \<Rightarrow> None | Some m \<Rightarrow> m i)"

definition mem_LoadAll :: "'r memory_store \<Rightarrow> string \<Rightarrow> (string \<rightharpoonup> 'r)" where
  "mem_LoadAll data dag = (case data dag of None \<Rightarrow> Map.empty | Some m \<Rightarrow> m)"

definition mem_Clear :: "'r memory_store \<Rightarrow> string \<Rightarrow> 'r memory_store" where
  "mem_Clear data dag = data(dag := None)"

interpretation mem: checkpoint_laws mem_Save mem_Load mem_LoadAll mem_Clear
  by unfold_locales
    (auto simp: mem_Save_def mem_Load_def mem_LoadAll_def mem_Clear_def Let_def split: option.splits)

section \<open>Resuming from the store\<close>

text \<open>The configuration of an executor whose checkpoint store holds \<open>data\<close>.\<close>

definition with_store ::
  "('m, 'v) run_response option memory_store \<Rightarrow> string \<Rightarrow> ('m, 'v) dag_config \<Rightarrow> ('m, 'v) dag_config" where
  "with_store data session cfg =
     cfg\<lparr>CheckpointStore := Some \<lparr>LoadAll = Inr (mem_LoadAll data session), Save = \<lambda>_ _. None\<rparr>\<rparr>"

definition save_log ::
  "string \<Rightarrow> (string \<times> ('m, 'v) run_response) list \<Rightarrow> ('m, 'v) run_response option memory_store \<Rightarrow>
     ('m, 'v) run_response option memory_store" where
  "save_log session saved data = fold (\<lambda>(i, r) s. mem_Save s session i (Some r)) saved data"

lemma save_log_load:
  "mem_LoadAll (save_log session saved data) session =
     mem_LoadAll data session ++ (map_option Some \<circ> map_of (rev saved))"
proof -
  have "save_log session saved data = fold (\<lambda>(i, r) s. mem_Save s session i r) (map (\<lambda>(i, r). (i, Some r)) saved) data"
    by (simp add: save_log_def fold_map comp_def case_prod_unfold)
  moreover have "map_of (rev (map (\<lambda>(i, r). (i, Some r)) saved)) = map_option Some \<circ> map_of (rev saved)"
    unfolding rev_map by (rule map_of_map)
  ultimately show ?thesis by (simp add: mem.load_all_saves)
qed

lemma resume_state:
  assumes "newDagExecutor (with_store (save_log session saved Map.empty) session cfg) nodes req add t ctx = Inr (E, st)"
  shows "NodeStatus st i = (if i \<in> ID ` set nodes \<and> i \<in> fst ` set saved then NodeDone else NodePending)"
    and "i \<in> ID ` set nodes \<Longrightarrow> NodeResults st i = map_of (rev saved) i"
proof -
  from assms obtain nodes' cp where
    cp: "load_checkpoints (with_store (save_log session saved Map.empty) session cfg) = Inr cp"
    and st: "st = initial_state (with_store (save_log session saved Map.empty) session cfg) nodes' cp t ctx"
    and ids: "map ID nodes' = map ID nodes"
    by (rule newDagExecutor_Inr)
  have "cp = map_option Some \<circ> map_of (rev saved)"
    using cp save_log_load [of session saved Map.empty]
    by (simp add: load_checkpoints_def with_store_def mem_LoadAll_def)
  then have dom: "cp i \<noteq> None \<longleftrightarrow> i \<in> fst ` set saved" and val: "cp i = map_option Some (map_of (rev saved) i)"
    using map_of_eq_None_iff [of "rev saved" i] by auto
  have set_ids: "ID ` set nodes' = ID ` set nodes" using ids by (metis list.set_map)
  show "NodeStatus st i = (if i \<in> ID ` set nodes \<and> i \<in> fst ` set saved then NodeDone else NodePending)"
    using dom by (auto simp: st initial_state_def resumed_def set_ids)
  assume "i \<in> ID ` set nodes"
  with val show "NodeResults st i = map_of (rev saved) i"
    by (cases "map_of (rev saved) i") (auto simp: st initial_state_def resumed_def set_ids)
qed

text \<open>
  C10: saving and resuming is a round trip.  An executor started on the in-memory store that an
  execution of the same session has filled starts with exactly the saved nodes of the graph done,
  all others pending, and with the result saved last as the result of each of them.
\<close>

theorem resume_from_saves:
  assumes "newDagExecutor (with_store (save_log session saved NewInMemoryCheckpointStore) session cfg)
      nodes req add t ctx = Inr (E, st)"
  shows "(\<forall>i. NodeStatus st i = (if i \<in> ID ` set nodes \<and> i \<in> fst ` set saved then NodeDone else NodePending)) \<and>
    (\<forall>i. i \<in> ID ` set nodes \<longrightarrow> NodeResults st i = map_of (rev saved) i)"
  using resume_state [OF assms [unfolded NewInMemoryCheckpointStore_def]] by blast

definition resume_cfg :: "(nat, unit) dag_config" where
  "resume_cfg = \<lparr>MaxConcurrency = 0, ErrorStrategy = Abort, EarlyExitFunc = None, Aggregator = None,
     CheckpointStore = None, ReplayMode = False, PriorityScheduling = False, CriticalPathAuto = False,
     HasBackpressure = False, HasResources = False, CompensateCfg = None, EventHandler = False\<rparr>"

definition resume_req :: "(nat, unit) run_request" where
  "resume_req = \<lparr>rq_Messages = [], rq_SessionID = ''s'', rq_Options = None, rq_Metadata = Map.empty\<rparr>"

definition resume_nodes :: "(nat, unit) dnode list" where
  "resume_nodes = [bare_node ''a'' [], bare_node ''b'' [''a'']]"

definition resume_saves :: "(string \<times> (nat, unit) run_response) list" where
  "resume_saves = [(''a'', response_zero\<lparr>rs_Messages := [1]\<rparr>), (''a'', response_zero\<lparr>rs_Messages := [2]\<rparr>)]"

theorem resume_from_saves_witness:
  "\<exists>E st. newDagExecutor (with_store (save_log ''s'' resume_saves NewInMemoryCheckpointStore) ''s'' resume_cfg)
      resume_nodes resume_req usage_plus 0 None = Inr (E, st) \<and>
     NodeStatus st ''a'' = NodeDone \<and> NodeStatus st ''b'' = NodePending \<and>
     NodeResults st ''a'' = Some (response_zero\<lparr>rs_Messages := [2]\<rparr>)"
proof -
  have "ValidateDAG resume_nodes = None" by code_simp
  then obtain E st where r: "newDagExecutor (with_store (save_log ''s'' resume_saves NewInMemoryCheckpointStore) ''s'' resume_cfg)
      resume_nodes resume_req usage_plus 0 None = Inr (E, st)"
    by (simp add: newDagExecutor_def load_checkpoints_def with_store_def Let_def)
  from resume_from_saves [OF this] have "NodeStatus st ''a'' = NodeDone" "NodeStatus st ''b'' = NodePending"
    "NodeResults st ''a'' = Some (response_zero\<lparr>rs_Messages := [2]\<rparr>)"
    by (simp_all add: resume_nodes_def resume_saves_def)
  with r show ?thesis by blast
qed

end
