(* ===== verification/Backpressure.thy ===== *)
theory Backpressure
  imports Prelude "HOL-Library.Signed_Division"
begin

text \<open>
  The adaptive concurrency controller of \<open>backpressure.go\<close>.  Every lock-protected section is one
  step; a caller is a number, and its one-element channel is represented by its membership in
  \<open>granted\<close>.  \<open>bp_holding\<close> are the callers that acquired a slot and have not released it yet.
\<close>

record bp_config =
  InitialConcurrency :: int
  MinConcurrency :: int
  bp_MaxConcurrency :: int
  LatencyThreshold :: int
  AdjustInterval :: int

record bp_state =
  bp_cfg :: bp_config
  concurrency :: int
  active :: int
  waiters :: "nat list"
  latencies :: "int list"
  lastAdjustTime :: int
  granted :: "nat list"
  bp_holding :: "nat list"

definition normalize_bp :: "bp_config \<Rightarrow> bp_config" where
  "normalize_bp cfg =
     (let i0 = (if InitialConcurrency cfg \<le> 0 then 1 else InitialConcurrency cfg);
          mn = (if MinConcurrency cfg \<le> 0 then 1 else MinConcurrency cfg);
          mx = (if bp_MaxConcurrency cfg \<le> 0 then i0 * 4 else bp_MaxConcurrency cfg);
          i1 = (if i0 < mn then mn else i0);
          i2 = (if i1 > mx then mx else i1);
          ai = (if AdjustInterval cfg \<le> 0 then 1000000000 else AdjustInterval cfg)
      in \<lparr>InitialConcurrency = i2, MinConcurrency = mn, bp_MaxConcurrency = mx,
          LatencyThreshold = LatencyThreshold cfg, AdjustInterval = ai\<rparr>)"

definition newBackpressureController :: "int \<Rightarrow> bp_config \<Rightarrow> bp_state" where
  "newBackpressureController t cfg =
     \<lparr>bp_cfg = normalize_bp cfg, concurrency = InitialConcurrency (normalize_bp cfg), active = 0,
      waiters = [], latencies = [], lastAdjustTime = t, granted = [], bp_holding = []\<rparr>"

text \<open>The first section of \<open>acquire\<close>: take a slot or queue up.\<close>

definition bp_enter :: "nat \<Rightarrow> bp_state \<Rightarrow> bp_state" where
  "bp_enter w bp =
     (if active bp < concurrency bp then bp\<lparr>active := active bp + 1, bp_holding := bp_holding bp @ [w]\<rparr>
      else bp\<lparr>waiters := waiters bp @ [w]\<rparr>)"

text \<open>The \<open>select\<close>: the slot handed over is received, or the context is done.\<close>

definition bp_receive :: "nat \<Rightarrow> bp_state \<Rightarrow> bp_state option" where
  "bp_receive w bp =
     (if w \<in> set (granted bp) then
        Some (bp\<lparr>granted := remove1 w (granted bp), bp_holding := bp_holding bp @ [w]\<rparr>)
      else None)"

definition bp_cancel :: "nat \<Rightarrow> bp_state \<Rightarrow> bp_state option" where
  "bp_cancel w bp =
     (if w \<in> set (waiters bp) \<or> w \<in> set (granted bp) then
        Some (bp\<lparr>waiters := remove1 w (waiters bp), granted := remove1 w (granted bp)\<rparr>)
      else None)"

definition maybeAdjust :: "int \<Rightarrow> bp_state \<Rightarrow> bp_state" where
  "maybeAdjust t bp =
     (if t - lastAdjustTime bp < AdjustInterval (bp_cfg bp) then bp
      else if latencies bp = [] then bp
      else
        (let avg = sum_list (latencies bp) sdiv int (length (latencies bp));
             bp' = bp\<lparr>latencies := [], lastAdjustTime := t\<rparr>
         in if avg > LatencyThreshold (bp_cfg bp)
            then bp'\<lparr>concurrency := max (concurrency bp sdiv 2) (MinConcurrency (bp_cfg bp))\<rparr>
            else bp'\<lparr>concurrency := min (concurrency bp + 1) (bp_MaxConcurrency (bp_cfg bp))\<rparr>))"

definition grant_first :: "bp_state \<Rightarrow> bp_state" where
  "grant_first bp = bp\<lparr>waiters := tl (waiters bp), granted := granted bp @ [hd (waiters bp)]\<rparr>"

definition bp_release :: "nat \<Rightarrow> int \<Rightarrow> int \<Rightarrow> bp_state \<Rightarrow> bp_state option" where
  "bp_release w latency t bp =
     (if w \<notin> set (bp_holding bp) then None
      else
        (let bp1 = maybeAdjust t (bp\<lparr>latencies := latencies bp @ [latency],
                                    bp_holding := remove1 w (bp_holding bp)\<rparr>) in
         Some (if waiters bp1 \<noteq> [] \<and> active bp1 \<le> concurrency bp1 then grant_first bp1
               else
                 (let bp2 = bp1\<lparr>active := active bp1 - 1\<rparr> in
                  if waiters bp2 \<noteq> [] \<and> active bp2 < concurrency bp2
                  then grant_first (bp2\<lparr>active := active bp2 + 1\<rparr>) else bp2))))"

datatype bp_event =
    BpEnter nat
  | BpReceive nat
  | BpCancel nat
  | BpRelease nat int int

fun bp_step :: "bp_event \<Rightarrow> bp_state \<Rightarrow> bp_state option" where
  "bp_step (BpEnter w) bp = Some (bp_enter w bp)"
| "bp_step (BpReceive w) bp = bp_receive w bp"
| "bp_step (BpCancel w) bp = bp_cancel w bp"
| "bp_step (BpRelease w l t) bp = bp_release w l t bp"

fun bp_run :: "bp_event list \<Rightarrow> bp_state \<Rightarrow> bp_state option" where
  "bp_run [] bp = Some bp"
| "bp_run (e # es) bp = (case bp_step e bp of None \<Rightarrow> None | Some bp' \<Rightarrow> bp_run es bp')"

section \<open>Bounds\<close>

definition bp_limit :: "bp_config \<Rightarrow> int" where
  "bp_limit cfg = max (MinConcurrency cfg) (bp_MaxConcurrency cfg)"

text \<open>Every slot in use or handed over is counted by \<open>active\<close>.\<close>

definition bp_inv :: "bp_state \<Rightarrow> bool" where
  "bp_inv bp \<longleftrightarrow>
     1 \<le> MinConcurrency (bp_cfg bp) \<and> 1 \<le> bp_MaxConcurrency (bp_cfg bp) \<and>
     1 \<le> concurrency bp \<and> concurrency bp \<le> bp_limit (bp_cfg bp) \<and>
     int (length (bp_holding bp)) + int (length (granted bp)) \<le> active bp \<and>
     active bp \<le> bp_limit (bp_cfg bp)"

lemma normalize_bp_bounds:
  "1 \<le> MinConcurrency (normalize_bp cfg)" "1 \<le> bp_MaxConcurrency (normalize_bp cfg)"
  "1 \<le> InitialConcurrency (normalize_bp cfg)"
  "InitialConcurrency (normalize_bp cfg) \<le> bp_MaxConcurrency (normalize_bp cfg)"
  by (auto simp: normalize_bp_def Let_def)

lemma bp_inv_new: "bp_inv (newBackpressureController t cfg)"
  using normalize_bp_bounds [of cfg]
  by (simp add: bp_inv_def newBackpressureController_def bp_limit_def le_max_iff_disj)

lemma maybeAdjust_simps [simp]:
  "bp_cfg (maybeAdjust t bp) = bp_cfg bp" "active (maybeAdjust t bp) = active bp"
  "waiters (maybeAdjust t bp) = waiters bp" "granted (maybeAdjust t bp) = granted bp"
  "bp_holding (maybeAdjust t bp) = bp_holding bp"
  by (auto simp: maybeAdjust_def Let_def)

lemma maybeAdjust_concurrency:
  assumes "1 \<le> concurrency bp" "concurrency bp \<le> bp_limit (bp_cfg bp)"
    and "1 \<le> MinConcurrency (bp_cfg bp)" "1 \<le> bp_MaxConcurrency (bp_cfg bp)"
  shows "1 \<le> concurrency (maybeAdjust t bp) \<and> concurrency (maybeAdjust t bp) \<le> bp_limit (bp_cfg bp)"
proof -
  have "concurrency bp sdiv 2 \<le> concurrency bp"
    using assms(1) by (simp add: signed_divide_int_def)
  with assms show ?thesis by (auto simp: maybeAdjust_def Let_def bp_limit_def)
qed

lemma bp_step_cfg: "bp_step e bp = Some bp' \<Longrightarrow> bp_cfg bp' = bp_cfg bp"
  by (cases e) (auto simp: bp_enter_def bp_receive_def bp_cancel_def bp_release_def grant_first_def Let_def
      split: if_splits)

lemma bp_step_inv:
  assumes I: "bp_inv bp" and s: "bp_step e bp = Some bp'"
  shows "bp_inv bp'"
proof (cases e)
  case (BpEnter w)
  then show ?thesis using s I by (auto simp: bp_inv_def bp_enter_def)
next
  case (BpReceive w)
  then show ?thesis using s I
    by (auto simp: bp_inv_def bp_receive_def int_length_remove1 split: if_splits)
next
  case (BpCancel w)
  have "int (length (remove1 w (granted bp))) \<le> int (length (granted bp))" by (simp add: length_remove1)
  with BpCancel show ?thesis using s I by (auto simp: bp_inv_def bp_cancel_def split: if_splits)
next
  case (BpRelease w l t)
  define b0 where "b0 = bp\<lparr>latencies := latencies bp @ [l], bp_holding := remove1 w (bp_holding bp)\<rparr>"
  define b1 where "b1 = maybeAdjust t b0"
  have w: "w \<in> set (bp_holding bp)" using s BpRelease by (auto simp: bp_release_def split: if_splits)
  then have len: "int (length (remove1 w (bp_holding bp))) = int (length (bp_holding bp)) - 1"
    by (rule int_length_remove1)
  have f: "bp_cfg b1 = bp_cfg bp" "active b1 = active bp" "waiters b1 = waiters bp" "granted b1 = granted bp"
    "bp_holding b1 = remove1 w (bp_holding bp)" by (simp_all add: b1_def b0_def)
  have c: "1 \<le> concurrency b1" "concurrency b1 \<le> bp_limit (bp_cfg bp)"
    using maybeAdjust_concurrency [of b0 t] I unfolding bp_inv_def b1_def by (simp_all add: b0_def)
  have bp': "bp' = (if waiters b1 \<noteq> [] \<and> active b1 \<le> concurrency b1 then grant_first b1
      else if waiters b1 \<noteq> [] \<and> active b1 - 1 < concurrency b1
        then grant_first (b1\<lparr>active := active b1 - 1 + 1\<rparr>) else b1\<lparr>active := active b1 - 1\<rparr>)"
    using s w BpRelease by (auto simp: bp_release_def b0_def b1_def Let_def split: if_splits)
  show ?thesis
    using I c len by (auto simp: bp' bp_inv_def grant_first_def f)
qed

lemma bp_run_inv: "bp_inv bp \<Longrightarrow> bp_run es bp = Some bp' \<Longrightarrow> bp_inv bp' \<and> bp_cfg bp' = bp_cfg bp"
proof (induction es arbitrary: bp)
  case (Cons e es)
  then obtain bp1 where s: "bp_step e bp = Some bp1" and r: "bp_run es bp1 = Some bp'"
    by (auto split: option.splits)
  from Cons.IH [OF bp_step_inv [OF Cons.prems(1) s] r] bp_step_cfg [OF s] show ?case by simp
qed simp

section \<open>The slot lost by a cancelled waiter\<close>

text \<open>
  A waiter whose context ends after a slot was handed to it takes the slot with it: \<open>active\<close>
  still counts it, but nobody will release it.
\<close>

definition leaked :: "bp_state \<Rightarrow> int" where
  "leaked bp = active bp - int (length (bp_holding bp)) - int (length (granted bp))"

lemma cancel_granted_leaks:
  assumes "w \<in> set (granted bp)" "bp_cancel w bp = Some bp'"
  shows "leaked bp' = leaked bp + 1"
  using assms by (auto simp: bp_cancel_def leaked_def int_length_remove1)

text \<open>Without such a cancellation no slot is ever lost.\<close>

lemma bp_step_leaked:
  assumes "bp_step e bp = Some bp'" "\<And>w. e = BpCancel w \<Longrightarrow> w \<notin> set (granted bp)"
  shows "leaked bp' = leaked bp"
proof (cases e)
  case (BpEnter w)
  then show ?thesis using assms by (auto simp: leaked_def bp_enter_def)
next
  case (BpReceive w)
  then show ?thesis using assms
    by (auto simp: leaked_def bp_receive_def int_length_remove1 split: if_splits)
next
  case (BpCancel w)
  then show ?thesis using assms by (auto simp: leaked_def bp_cancel_def remove1_idem split: if_splits)
next
  case (BpRelease w l t)
  then show ?thesis using assms
    by (auto simp: leaked_def bp_release_def grant_first_def Let_def int_length_remove1 split: if_splits)
qed

section \<open>Properties\<close>


definition bp_demo_cfg :: bp_config where
  "bp_demo_cfg = \<lparr>InitialConcurrency = 1, MinConcurrency = 1, bp_MaxConcurrency = 2,
     LatencyThreshold = 10, AdjustInterval = 5\<rparr>"

definition bp_demo_run :: "bp_event list" where
  "bp_demo_run = [BpEnter 0, BpEnter 1, BpRelease 0 3 6, BpReceive 1, BpEnter 2]"


text \<open>
  Slots are accounted for, except that cancelling a waiter that has been granted its slot loses
  it.  Every other step keeps the number of slots counted as active but held by nobody; that step
  raises it by one, for good.
\<close>

lemma slot_accounting:
  assumes "bp_step e bp = Some bp'"
  shows "leaked bp' = leaked bp + (case e of BpCancel w \<Rightarrow> if w \<in> set (granted bp) then 1 else 0 | _ \<Rightarrow> 0)"
proof (cases "\<exists>w. e = BpCancel w \<and> w \<in> set (granted bp)")
  case True
  then show ?thesis using assms cancel_granted_leaks by auto
next
  case False
  then have "leaked bp' = leaked bp" using bp_step_leaked [OF assms] by blast
  with False show ?thesis by (cases e) auto
qed

theorem slot_accounting_witness:
  "\<exists>bp bp'. bp_run [BpEnter 0, BpEnter 1, BpRelease 0 3 1] (newBackpressureController 0 bp_demo_cfg) = Some bp \<and>
     leaked bp = 0 \<and> bp_step (BpCancel 1) bp = Some bp' \<and> leaked bp' = 1"
proof -
  define bp where "bp = the (bp_run [BpEnter 0, BpEnter 1, BpRelease 0 3 1] (newBackpressureController 0 bp_demo_cfg))"
  have r: "bp_run [BpEnter 0, BpEnter 1, BpRelease 0 3 1] (newBackpressureController 0 bp_demo_cfg) = Some bp"
    and l: "leaked bp = 0" "granted bp = [1]"
    by (simp_all add: bp_def bp_demo_cfg_def newBackpressureController_def normalize_bp_def
        bp_enter_def bp_release_def maybeAdjust_def grant_first_def Let_def leaked_def)
  then obtain bp' where s: "bp_step (BpCancel 1) bp = Some bp'" by (auto simp: bp_cancel_def)
  from slot_accounting [OF this] l r s show ?thesis by auto
qed

end
