(* ===== verification/Resource.thy ===== *)
theory Resource
  imports Prelude
begin

text \<open>
  Token buckets and the resource manager of \<open>resource.go\<close>.  The bucket's \<open>float64\<close> fields are
  rationals (in seconds and tokens), so rounding is not modelled; clock readings are arguments.
\<close>

section \<open>Token buckets\<close>

record token_bucket =
  rate :: rat
  capacity :: rat
  tokens :: rat
  lastTime :: rat

definition newTokenBucket :: "rat \<Rightarrow> rat \<Rightarrow> token_bucket" where
  "newTokenBucket t r = \<lparr>rate = r, capacity = r, tokens = r, lastTime = t\<rparr>"

definition refill :: "rat \<Rightarrow> token_bucket \<Rightarrow> token_bucket" where
  "refill t tb =
     (let tb' = tb\<lparr>tokens := tokens tb + (t - lastTime tb) * rate tb\<rparr>;
          tb'' = (if tokens tb' > capacity tb' then tb'\<lparr>tokens := capacity tb'\<rparr> else tb')
      in tb''\<lparr>lastTime := t\<rparr>)"

text \<open>One pass through the body of \<open>wait\<close>: a token is taken, or the caller has to pause.\<close>

definition try_take :: "rat \<Rightarrow> token_bucket \<Rightarrow> token_bucket \<times> bool" where
  "try_take t tb =
     (let tb' = refill t tb in
      if tokens tb' \<ge> 1 then (tb'\<lparr>tokens := tokens tb' - 1\<rparr>, True) else (tb', False))"

text \<open>The passes of all callers, at the times \<open>ts\<close>; the result counts the tokens handed out.\<close>

fun take_all :: "rat list \<Rightarrow> token_bucket \<Rightarrow> token_bucket \<times> nat" where
  "take_all [] tb = (tb, 0)"
| "take_all (t # ts) tb =
     (case try_take t tb of (tb', ok) \<Rightarrow>
        (case take_all ts tb' of (tb'', k) \<Rightarrow> (tb'', k + (if ok then 1 else 0))))"

lemma refill_simps [simp]:
  "rate (refill t tb) = rate tb" "capacity (refill t tb) = capacity tb" "lastTime (refill t tb) = t"
  by (simp_all add: refill_def Let_def)

lemma refill_le: "tokens (refill t tb) \<le> capacity tb"
  "tokens (refill t tb) \<le> tokens tb + (t - lastTime tb) * rate tb"
  by (auto simp: refill_def Let_def)

lemma refill_nonneg:
  "0 \<le> tokens tb \<Longrightarrow> 0 \<le> rate tb \<Longrightarrow> 0 \<le> capacity tb \<Longrightarrow> lastTime tb \<le> t \<Longrightarrow> 0 \<le> tokens (refill t tb)"
  by (auto simp: refill_def Let_def)

lemma try_take_simps:
  assumes "try_take t tb = (tb', ok)"
  shows "rate tb' = rate tb" "capacity tb' = capacity tb" "lastTime tb' = t"
    "tokens tb' = tokens (refill t tb) - (if ok then 1 else 0)"
    "ok \<longleftrightarrow> 1 \<le> tokens (refill t tb)"
  using assms by (auto simp: try_take_def Let_def split: if_splits)

text \<open>Over any period the bucket hands out at most what it held plus what the rate yields.\<close>

lemma take_all_bound:
  "sorted (lastTime tb # ts) \<Longrightarrow> 0 \<le> tokens tb \<Longrightarrow> 0 \<le> rate tb \<Longrightarrow> 0 \<le> capacity tb \<Longrightarrow>
     take_all ts tb = (tb', k) \<Longrightarrow>
     0 \<le> tokens tb' \<and> rat_of_nat k + tokens tb' \<le> tokens tb + (lastTime tb' - lastTime tb) * rate tb \<and>
     lastTime tb' = last (lastTime tb # ts)"
proof (induction ts arbitrary: tb k)
  case (Cons t ts)
  obtain tb1 ok where t1: "try_take t tb = (tb1, ok)" by fastforce
  obtain k1 where t2: "take_all ts tb1 = (tb', k1)" and k: "k = k1 + (if ok then 1 else 0)"
    using Cons.prems(5) t1 by (auto split: prod.splits)
  note S = try_take_simps [OF t1]
  have le: "lastTime tb \<le> t" using Cons.prems(1) by simp
  have "0 \<le> tokens (refill t tb)" by (intro refill_nonneg Cons.prems le)
  then have n1: "0 \<le> tokens tb1" using S(4,5) by auto
  have "sorted (lastTime tb1 # ts)" using Cons.prems(1) by (simp add: S(3))
  note IH = Cons.IH [OF this n1 _ _ t2, unfolded S(1-3), OF Cons.prems(3,4)]
  have "tokens tb1 + (if ok then 1 else 0) \<le> tokens tb + (t - lastTime tb) * rate tb"
    using refill_le(2) [of t tb] S(4) by auto
  with IH have "rat_of_nat k + tokens tb' \<le> tokens tb + (t - lastTime tb) * rate tb + (lastTime tb' - t) * rate tb"
    unfolding k by (cases ok) (auto simp: algebra_simps)
  then have "rat_of_nat k + tokens tb' \<le> tokens tb + (lastTime tb' - lastTime tb) * rate tb"
    by (simp add: algebra_simps)
  moreover have "0 \<le> tokens tb'" "lastTime tb' = last (lastTime tb # t # ts)" using IH by auto
  ultimately show ?case by blast
qed auto

text \<open>The same from a new bucket, in terms of its rate.\<close>

lemma new_bucket_bound:
  assumes "sorted (t0 # ts)" "0 \<le> r" "take_all ts (newTokenBucket t0 r) = (tb, k)"
  shows "rat_of_nat k \<le> r + (last (t0 # ts) - t0) * r"
proof -
  have f: "lastTime (newTokenBucket t0 r) = t0" "tokens (newTokenBucket t0 r) = r"
    "rate (newTokenBucket t0 r) = r" "capacity (newTokenBucket t0 r) = r"
    by (simp_all add: newTokenBucket_def)
  note B = take_all_bound [of "newTokenBucket t0 r" ts tb k, unfolded f, OF assms(1) assms(2,2,2,3)]
  then have l: "lastTime tb = last (t0 # ts)" and t: "0 \<le> tokens tb"
    "rat_of_nat k + tokens tb \<le> r + (lastTime tb - t0) * r" by blast+
  have "rat_of_nat k \<le> rat_of_nat k + tokens tb" using t(1) by simp
  also note t(2) [unfolded l]
  finally show ?thesis .
qed

text \<open>A rate below one token per second never hands out a token: the bucket cannot hold one.\<close>

lemma slow_bucket_starves:
  "capacity tb < 1 \<Longrightarrow> take_all ts tb = (tb', k) \<Longrightarrow> k = 0"
proof (induction ts arbitrary: tb k)
  case (Cons t ts)
  obtain tb1 ok where t1: "try_take t tb = (tb1, ok)" by fastforce
  note S = try_take_simps [OF t1]
  have "tokens (refill t tb) < 1" using refill_le(1) [of t tb] Cons.prems(1) by simp
  then have "\<not> ok" using S(5) by simp
  with Cons.IH [of tb1] Cons.prems t1 S(2) show ?case by (auto split: prod.splits)
qed simp

section \<open>The resource manager\<close>

text \<open>
  \<open>limits\<close> are the capacities of the semaphore channels, \<open>sems\<close> the numbers of slots in use,
  \<open>limiters\<close> the token buckets.  \<open>users\<close> are the acquisitions under way: the tags asked for, the
  slots taken so far, the limited tags still to take, in sorted order, and the tags whose token
  is still to be waited for.
\<close>

record user =
  asked :: "string list"
  acquired :: "string list"
  wanted :: "string list"
  to_limit :: "string list"

record resources =
  sems :: "string \<Rightarrow> nat"
  limiters :: "string \<rightharpoonup> token_bucket"
  users :: "nat \<rightharpoonup> user"

definition newResourceManager :: "rat \<Rightarrow> (string \<rightharpoonup> rat) \<Rightarrow> resources" where
  "newResourceManager t rates =
     \<lparr>sems = (\<lambda>_. 0), limiters = map_option (newTokenBucket t) \<circ> rates, users = Map.empty\<rparr>"

text \<open>A receive from an empty channel takes the \<open>default\<close> branch.\<close>

definition releaseConcurrency :: "(string \<rightharpoonup> nat) \<Rightarrow> string list \<Rightarrow> (string \<Rightarrow> nat) \<Rightarrow> (string \<Rightarrow> nat)" where
  "releaseConcurrency limits tags =
     fold (\<lambda>tag f. if limits tag = None then f else f(tag := f tag - 1)) tags"

text \<open>\<open>acquire\<close> copies and sorts the tags; those without a limit are passed over.\<close>

definition start_acquire :: "(string \<rightharpoonup> nat) \<Rightarrow> nat \<Rightarrow> string list \<Rightarrow> resources \<Rightarrow> resources" where
  "start_acquire limits p tags rm =
     rm\<lparr>users := (users rm)(p \<mapsto> \<lparr>asked = tags, acquired = [],
          wanted = filter (\<lambda>tag. limits tag \<noteq> None) (sort tags),
          to_limit = filter (\<lambda>tag. limiters rm tag \<noteq> None) (sort tags)\<rparr>)\<rparr>"

text \<open>\<open>sem <- struct{}{}\<close> succeeds while the channel has room.\<close>

definition take_slot :: "(string \<rightharpoonup> nat) \<Rightarrow> nat \<Rightarrow> resources \<Rightarrow> resources option" where
  "take_slot limits p rm =
     (case users rm p of
        None \<Rightarrow> None
      | Some u \<Rightarrow>
          (case wanted u of
             [] \<Rightarrow> None
           | tag # rest \<Rightarrow>
               (case limits tag of
                  None \<Rightarrow> None
                | Some l \<Rightarrow>
                    if sems rm tag < l
                    then Some (rm\<lparr>sems := (sems rm)(tag := Suc (sems rm tag)),
                      users := (users rm)(p \<mapsto> u\<lparr>acquired := acquired u @ [tag], wanted := rest\<rparr>)\<rparr>)
                    else None)))"

text \<open>The token loop: one pass of \<open>wait\<close> at time \<open>t\<close> for the next rate-limited tag.\<close>

definition take_token :: "rat \<Rightarrow> nat \<Rightarrow> resources \<Rightarrow> resources option" where
  "take_token t p rm =
     (case users rm p of
        None \<Rightarrow> None
      | Some u \<Rightarrow>
          (case (wanted u, to_limit u) of
             ([], tag # rest) \<Rightarrow>
               (case limiters rm tag of
                  None \<Rightarrow> None
                | Some tb \<Rightarrow>
                    (case try_take t tb of (tb', ok) \<Rightarrow>
                       Some (rm\<lparr>limiters := (limiters rm)(tag \<mapsto> tb'),
                         users := (users rm)(p \<mapsto> (if ok then u\<lparr>to_limit := rest\<rparr> else u))\<rparr>)))
           | _ \<Rightarrow> None))"

text \<open>The context is done while the acquisition waits: the slots taken are freed.\<close>

definition give_up :: "(string \<rightharpoonup> nat) \<Rightarrow> nat \<Rightarrow> resources \<Rightarrow> resources option" where
  "give_up limits p rm =
     (case users rm p of
        None \<Rightarrow> None
      | Some u \<Rightarrow>
          if wanted u = [] \<and> to_limit u = [] then None
          else Some (rm\<lparr>sems := releaseConcurrency limits (acquired u) (sems rm),
                        users := (users rm)(p := None)\<rparr>))"

definition release :: "(string \<rightharpoonup> nat) \<Rightarrow> nat \<Rightarrow> resources \<Rightarrow> resources option" where
  "release limits p rm =
     (case users rm p of
        None \<Rightarrow> None
      | Some u \<Rightarrow>
          if wanted u = [] \<and> to_limit u = []
          then Some (rm\<lparr>sems := releaseConcurrency limits (asked u) (sems rm),
                        users := (users rm)(p := None)\<rparr>)
          else None)"

section \<open>The invariant\<close>

definition holding :: "(nat \<rightharpoonup> user) \<Rightarrow> string \<Rightarrow> nat set" where
  "holding us tag = {p. \<exists>u. us p = Some u \<and> tag \<in> set (acquired u)}"

definition user_ok :: "(string \<rightharpoonup> nat) \<Rightarrow> user \<Rightarrow> bool" where
  "user_ok limits u \<longleftrightarrow> distinct (asked u) \<and>
     acquired u @ wanted u = filter (\<lambda>tag. limits tag \<noteq> None) (sort (asked u))"

definition users_ok :: "(string \<rightharpoonup> nat) \<Rightarrow> resources \<Rightarrow> bool" where
  "users_ok limits rm \<longleftrightarrow> finite (dom (users rm)) \<and>
     (\<forall>p u. users rm p = Some u \<longrightarrow> user_ok limits u) \<and>
     (\<forall>tag. sems rm tag = card (holding (users rm) tag)) \<and>
     (\<forall>tag l. limits tag = Some l \<longrightarrow> sems rm tag \<le> l)"

lemma user_ok_sorted:
  assumes "user_ok limits u"
  shows "sorted_wrt (<) (acquired u @ wanted u)"
proof -
  have "sorted_wrt (<) (filter (\<lambda>tag. limits tag \<noteq> None) (sort (asked u)))"
    using assms by (intro sorted_wrt_filter) (simp add: strict_sorted_iff user_ok_def)
  then show ?thesis using assms by (simp add: user_ok_def)
qed

lemma user_ok_limited: "user_ok limits u \<Longrightarrow> set (acquired u @ wanted u) = {tag \<in> set (asked u). limits tag \<noteq> None}"
  by (auto simp: user_ok_def simp del: set_append)

lemma finite_holding: "finite (dom us) \<Longrightarrow> finite (holding us tag)"
  by (rule finite_subset [of _ "dom us"]) (auto simp: holding_def)

lemma users_okI:
  assumes "finite (dom (users rm))" "\<And>p u. users rm p = Some u \<Longrightarrow> user_ok limits u"
    and "\<And>tag. sems rm tag = card (holding (users rm) tag)"
    and "\<And>tag l. limits tag = Some l \<Longrightarrow> sems rm tag \<le> l"
  shows "users_ok limits rm"
  using assms by (simp add: users_ok_def)

lemma users_okD:
  assumes "users_ok limits rm"
  shows "finite (dom (users rm))" "users rm p = Some u \<Longrightarrow> user_ok limits u"
    "sems rm tag = card (holding (users rm) tag)" "limits tag = Some l \<Longrightarrow> sems rm tag \<le> l"
  using assms unfolding users_ok_def by blast+

lemma releaseConcurrency_apply:
  "distinct tags \<Longrightarrow> releaseConcurrency limits tags f t =
     (if t \<in> set tags \<and> limits t \<noteq> None then f t - 1 else f t)"
proof (induction tags arbitrary: f)
  case (Cons a tags)
  let ?g = "if limits a = None then f else f(a := f a - 1)"
  have "releaseConcurrency limits (a # tags) f = releaseConcurrency limits tags ?g"
    by (simp add: releaseConcurrency_def)
  with Cons show ?case by auto
qed (simp add: releaseConcurrency_def)

lemma users_ok_new: "users_ok limits (newResourceManager t rates)"
  by (simp add: users_ok_def newResourceManager_def holding_def)

lemma users_ok_start:
  assumes I: "users_ok limits rm" and n: "users rm p = None" and d: "distinct tags"
  shows "users_ok limits (start_acquire limits p tags rm)"
proof -
  have "holding (users (start_acquire limits p tags rm)) = holding (users rm)"
    using n by (auto simp: holding_def start_acquire_def fun_eq_iff)
  then show ?thesis
    using I d by (auto simp: users_ok_def start_acquire_def user_ok_def split: if_splits)
qed

lemma users_ok_take:
  assumes I: "users_ok limits rm" and s: "take_slot limits p rm = Some rm'"
  shows "users_ok limits rm'"
proof -
  obtain u tag rest l where u: "users rm p = Some u" "wanted u = tag # rest" "limits tag = Some l" "sems rm tag < l"
    and rm': "rm' = rm\<lparr>sems := (sems rm)(tag := Suc (sems rm tag)),
       users := (users rm)(p \<mapsto> u\<lparr>acquired := acquired u @ [tag], wanted := rest\<rparr>)\<rparr>"
    using s by (auto simp: take_slot_def split: option.splits list.splits if_splits)
  have ok: "user_ok limits u" and fin: "finite (dom (users rm))" using I u(1) by (auto simp: users_ok_def)
  have "p \<notin> holding (users rm) tag"
    using user_ok_sorted [OF ok] u(1,2) by (auto simp: holding_def sorted_wrt_append)
  moreover have "holding (users rm') t = (if t = tag then insert p (holding (users rm) t) else holding (users rm) t)" for t
    using u(1) by (auto simp: rm' holding_def)
  ultimately have "sems rm' t = card (holding (users rm') t)" for t
    using I finite_holding [OF fin] by (auto simp: rm' users_ok_def)
  moreover have "sems rm' t \<le> l'" if "limits t = Some l'" for t l'
    using users_okD(4) [OF I that] u(3,4) that by (auto simp: rm')
  moreover have "user_ok limits v" if "users rm' q = Some v" for q v
    using that users_okD(2) [OF I] ok u(2) by (auto simp: rm' user_ok_def split: if_splits)
  moreover have "finite (dom (users rm'))" using fin by (simp add: rm')
  ultimately show ?thesis by (intro users_okI) simp_all
qed

lemma users_ok_token:
  assumes I: "users_ok limits rm" and s: "take_token t p rm = Some rm'"
  shows "users_ok limits rm'"
proof -
  obtain u u' where u: "users rm p = Some u" "users rm' = (users rm)(p \<mapsto> u')" "sems rm' = sems rm"
    "asked u' = asked u" "acquired u' = acquired u" "wanted u' = wanted u"
    using s by (fastforce simp: take_token_def split: option.splits list.splits prod.splits)
  then have "holding (users rm') = holding (users rm)" by (auto simp: holding_def fun_eq_iff)
  with I u show ?thesis by (auto simp: users_ok_def user_ok_def split: if_splits)
qed

text \<open>Freeing the slots of a user takes it out of the holders of each of its tags.\<close>

lemma users_ok_drop:
  assumes I: "users_ok limits rm" and u: "users rm p = Some u"
    and ts: "distinct ts" "set (acquired u) = {tag \<in> set ts. limits tag \<noteq> None}"
  shows "users_ok limits (rm\<lparr>sems := releaseConcurrency limits ts (sems rm), users := (users rm)(p := None)\<rparr>)"
proof (rule users_okI)
  fix tag
  have "holding ((users rm)(p := None)) tag = holding (users rm) tag - {p}" by (auto simp: holding_def)
  moreover have "p \<in> holding (users rm) tag \<longleftrightarrow> tag \<in> set ts \<and> limits tag \<noteq> None"
    using u ts(2) by (auto simp: holding_def)
  ultimately show "sems (rm\<lparr>sems := releaseConcurrency limits ts (sems rm), users := (users rm)(p := None)\<rparr>) tag =
      card (holding (users (rm\<lparr>sems := releaseConcurrency limits ts (sems rm), users := (users rm)(p := None)\<rparr>)) tag)"
    using I by (auto simp: users_ok_def releaseConcurrency_apply [OF ts(1)] card_Diff_singleton_if)
next
  fix tag l assume "limits tag = Some l"
  with I have "sems rm tag \<le> l" by (rule users_okD(4))
  then show "sems (rm\<lparr>sems := releaseConcurrency limits ts (sems rm), users := (users rm)(p := None)\<rparr>) tag \<le> l"
    by (auto simp: releaseConcurrency_apply [OF ts(1)])
qed (use I in \<open>auto simp: users_ok_def split: if_splits\<close>)

lemma users_ok_give_up:
  assumes I: "users_ok limits rm" and s: "give_up limits p rm = Some rm'"
  shows "users_ok limits rm'"
proof -
  obtain u where u: "users rm p = Some u"
    and rm': "rm' = rm\<lparr>sems := releaseConcurrency limits (acquired u) (sems rm), users := (users rm)(p := None)\<rparr>"
    using s by (auto simp: give_up_def split: option.splits if_splits)
  have ok: "user_ok limits u" using I u by (auto simp: users_ok_def)
  have "distinct (acquired u)" using user_ok_sorted [OF ok] by (simp add: sorted_wrt_append strict_sorted_iff)
  moreover have "set (acquired u) = {tag \<in> set (acquired u). limits tag \<noteq> None}" using user_ok_limited [OF ok] by auto
  ultimately show ?thesis unfolding rm' by (rule users_ok_drop [OF I u])
qed

lemma users_ok_release:
  assumes I: "users_ok limits rm" and s: "release limits p rm = Some rm'"
  shows "users_ok limits rm'"
proof -
  obtain u where u: "users rm p = Some u" "wanted u = []"
    and rm': "rm' = rm\<lparr>sems := releaseConcurrency limits (asked u) (sems rm), users := (users rm)(p := None)\<rparr>"
    using s by (auto simp: release_def split: option.splits if_splits)
  have ok: "user_ok limits u" using I u by (auto simp: users_ok_def)
  then have "distinct (asked u)" by (simp add: user_ok_def)
  moreover have "set (acquired u) = {tag \<in> set (asked u). limits tag \<noteq> None}" using user_ok_limited [OF ok] u(2) by simp
  ultimately show ?thesis unfolding rm' by (rule users_ok_drop [OF I u(1)])
qed

section \<open>Runs of the manager\<close>

datatype rm_event =
    Acquire nat "string list"
  | Slot nat
  | Token rat nat
  | GiveUp nat
  | Release nat

text \<open>The user names \<open>p\<close> stand for the calls; a call starts once.\<close>

fun rm_step :: "(string \<rightharpoonup> nat) \<Rightarrow> rm_event \<Rightarrow> resources \<Rightarrow> resources option" where
  "rm_step limits (Acquire p tags) rm =
     (if users rm p = None then Some (start_acquire limits p tags rm) else None)"
| "rm_step limits (Slot p) rm = take_slot limits p rm"
| "rm_step limits (Token t p) rm = take_token t p rm"
| "rm_step limits (GiveUp p) rm = give_up limits p rm"
| "rm_step limits (Release p) rm = release limits p rm"

fun rm_run :: "(string \<rightharpoonup> nat) \<Rightarrow> rm_event list \<Rightarrow> resources \<Rightarrow> resources option" where
  "rm_run limits [] rm = Some rm"
| "rm_run limits (ev # evs) rm =
     (case rm_step limits ev rm of None \<Rightarrow> None | Some rm' \<Rightarrow> rm_run limits evs rm')"

definition distinct_tags :: "rm_event \<Rightarrow> bool" where
  "distinct_tags ev \<longleftrightarrow> (case ev of Acquire p tags \<Rightarrow> distinct tags | _ \<Rightarrow> True)"

lemma rm_step_ok:
  "users_ok limits rm \<Longrightarrow> rm_step limits ev rm = Some rm' \<Longrightarrow> distinct_tags ev \<Longrightarrow> users_ok limits rm'"
  by (cases ev) (auto simp: distinct_tags_def split: if_splits
      intro: users_ok_start users_ok_take users_ok_token users_ok_give_up users_ok_release)

lemma rm_run_ok:
  "users_ok limits rm \<Longrightarrow> rm_run limits evs rm = Some rm' \<Longrightarrow> list_all distinct_tags evs \<Longrightarrow> users_ok limits rm'"
  by (induction evs arbitrary: rm) (auto split: option.splits intro: rm_step_ok)

text \<open>
  No deadlock: since tags are taken in increasing order, whenever somebody is still waiting for a
  slot, somebody can take its next slot, or somebody has all the slots it asked for.
\<close>

lemma no_resource_deadlock:
  assumes I: "users_ok limits rm" and pos: "\<And>tag l. limits tag = Some l \<Longrightarrow> 0 < l"
    and w: "users rm p0 = Some u0" "wanted u0 \<noteq> []"
  shows "(\<exists>p rm'. take_slot limits p rm = Some rm') \<or>
    (\<exists>p u. users rm p = Some u \<and> wanted u = [] \<and> acquired u \<noteq> [])"
proof (rule ccontr)
  assume no: "\<not> ?thesis"
  define Ns where "Ns = {hd (wanted u) | p u. users rm p = Some u \<and> wanted u \<noteq> []}"
  have "Ns \<subseteq> (\<lambda>p. hd (wanted (the (users rm p)))) ` dom (users rm)" by (force simp: Ns_def)
  then have "finite Ns" using I finite_subset unfolding users_ok_def by blast
  moreover have "Ns \<noteq> {}" using w by (auto simp: Ns_def)
  ultimately have max: "Max Ns \<in> Ns" "\<And>x. x \<in> Ns \<Longrightarrow> x \<le> Max Ns" by auto
  then obtain p u where u: "users rm p = Some u" "wanted u \<noteq> []" "Max Ns = hd (wanted u)" by (auto simp: Ns_def)
  then obtain tag rest where tag: "wanted u = tag # rest" by (cases "wanted u") auto
  have ok: "user_ok limits v" if "users rm q = Some v" for q v using I that by (auto simp: users_ok_def)
  have "tag \<in> set (acquired u @ wanted u)" using tag by simp
  then obtain l where l: "limits tag = Some l" using user_ok_limited [OF ok [OF u(1)]] by auto
  have "take_slot limits p rm = None" using no by (cases "take_slot limits p rm") auto
  then have "\<not> sems rm tag < l" using u(1) tag l by (simp add: take_slot_def split: if_splits)
  then have "card (holding (users rm) tag) > 0" using pos [OF l] I by (simp add: users_ok_def)
  then obtain q v where v: "users rm q = Some v" "tag \<in> set (acquired v)" by (auto simp: holding_def card_gt_0_iff)
  show False
  proof (cases "wanted v")
    case Nil
    then show False using no v by (metis empty_iff list.set(1))
  next
    case (Cons t ts)
    then have "tag < t" using user_ok_sorted [OF ok [OF v(1)]] v(2) by (auto simp: sorted_wrt_append)
    moreover have "t \<in> Ns" using v(1) Cons by (force simp: Ns_def)
    ultimately show False using max(2) [of t] u(3) tag by auto
  qed
qed

text \<open>A repeated tag asks for two slots; with one slot the acquisition waits for itself.\<close>

lemma repeated_tag_blocks:
  assumes "limits tag = Some 1"
  shows "\<exists>rm u. rm_run limits [Acquire p [tag, tag], Slot p] (newResourceManager t rates) = Some rm \<and>
    users rm p = Some u \<and> wanted u = [tag] \<and> take_slot limits p rm = None"
  using assms by (simp add: take_slot_def start_acquire_def newResourceManager_def)

section \<open>Properties\<close>


definition demo_limits :: "string \<rightharpoonup> nat" where
  "demo_limits = [''db'' \<mapsto> 1, ''gpu'' \<mapsto> 1]"

definition demo_run :: "rm_event list" where
  "demo_run = [Acquire 0 [''gpu'', ''db''], Acquire 1 [''db'', ''gpu''], Slot 0]"


text \<open>
  The token bucket keeps its rate.  However often \<open>wait\<close> looks at the bucket, at non-decreasing
  times, the tokens handed out from a new bucket of rate \<open>r\<close> are at most the burst \<open>r\<close> plus \<open>r\<close> per
  second elapsed.
\<close>

lemma token_bucket_rate:
  assumes "sorted (t0 # ts)" and "0 \<le> r" and "take_all ts (newTokenBucket t0 r) = (tb, k)"
  shows "rat_of_nat k \<le> r + (last (t0 # ts) - t0) * r"
  by (rule new_bucket_bound [OF assms])

theorem token_bucket_rate_witness:
  "\<exists>tb k. take_all [1/2, 3/2, 3/2] (newTokenBucket 0 1) = (tb, k) \<and> k = 2 \<and>
     rat_of_nat k \<le> 1 + (last [0, 1/2, 3/2, 3/2] - 0) * 1"
proof -
  obtain tb k where r: "take_all [1/2, 3/2, 3/2] (newTokenBucket 0 1) = (tb, k)" by fastforce
  moreover from r have "k = 2"
    by (auto simp: newTokenBucket_def try_take_def refill_def Let_def)
  ultimately show ?thesis using token_bucket_rate [OF _ _ r] by simp
qed

end
