(* ===== verification/Circuit.thy ===== *)
theory Circuit
  imports Prelude
begin

text \<open>
  The circuit breaker of \<open>largemodel/circuitbreaker.go\<close>.  Times are readings of \<open>nowFn\<close> in
  nanoseconds.  \<open>cb_call\<close> is one call made on its own; \<open>cb_step\<close> lets calls overlap.
\<close>

section \<open>The breaker\<close>

datatype circuit_state = StateClosed | StateOpen | StateHalfOpen

record breaker =
  cb_state :: circuit_state
  failureCount :: int
  failureThreshold :: int
  resetTimeout :: int
  lastFailureAt :: int
  probeInFlight :: bool

definition ErrCircuitOpen :: gerror where
  "ErrCircuitOpen = Sentinel ''largemodel: circuit breaker is open''"

text \<open>An option is a function on the breaker; the constructor applies them in order to the defaults
  (five failures, thirty seconds).\<close>

definition WithFailureThreshold :: "int \<Rightarrow> breaker \<Rightarrow> breaker" where
  "WithFailureThreshold n m = m\<lparr>failureThreshold := n\<rparr>"

definition WithResetTimeout :: "int \<Rightarrow> breaker \<Rightarrow> breaker" where
  "WithResetTimeout d m = m\<lparr>resetTimeout := d\<rparr>"

definition NewCircuitBreakerMiddleware :: "(breaker \<Rightarrow> breaker) list \<Rightarrow> breaker" where
  "NewCircuitBreakerMiddleware opts =
     fold (\<lambda>opt m. opt m) opts
       \<lparr>cb_state = StateClosed, failureCount = 0, failureThreshold = 5, resetTimeout = 30000000000,
        lastFailureAt = 0, probeInFlight = False\<rparr>"

definition allow :: "int \<Rightarrow> breaker \<Rightarrow> breaker \<times> gerror option" where
  "allow t b =
     (case cb_state b of
        StateClosed \<Rightarrow> (b, None)
      | StateHalfOpen \<Rightarrow>
          if probeInFlight b then (b, Some ErrCircuitOpen) else (b\<lparr>probeInFlight := True\<rparr>, None)
      | StateOpen \<Rightarrow>
          if t - lastFailureAt b \<ge> resetTimeout b
          then (b\<lparr>cb_state := StateHalfOpen, probeInFlight := True\<rparr>, None)
          else (b, Some ErrCircuitOpen))"

definition recordResult :: "int \<Rightarrow> gerror option \<Rightarrow> breaker \<Rightarrow> breaker" where
  "recordResult t err b =
     (if err = None then b\<lparr>cb_state := StateClosed, failureCount := 0, probeInFlight := False\<rparr>
      else (case cb_state b of
              StateClosed \<Rightarrow>
                (let b' = b\<lparr>failureCount := failureCount b + 1\<rparr> in
                 if failureCount b' \<ge> failureThreshold b'
                 then b'\<lparr>cb_state := StateOpen, lastFailureAt := t\<rparr> else b')
            | StateHalfOpen \<Rightarrow> b\<lparr>cb_state := StateOpen, lastFailureAt := t, probeInFlight := False\<rparr>
            | StateOpen \<Rightarrow> b))"

text \<open>A wrapped call that starts at \<open>t\<close> and whose backend answers \<open>r\<close> at \<open>t'\<close>.\<close>

definition error_of :: "'r res \<Rightarrow> gerror option" where
  "error_of r = (case r of Inl e \<Rightarrow> Some e | Inr _ \<Rightarrow> None)"

definition cb_call :: "int \<times> 'r res \<times> int \<Rightarrow> breaker \<Rightarrow> breaker \<times> 'r res" where
  "cb_call c b =
     (case c of (t, r, t') \<Rightarrow>
        (case allow t b of
           (b', Some e) \<Rightarrow> (b', Inl e)
         | (b', None) \<Rightarrow> (recordResult t' (error_of r) b', r)))"

fun cb_calls :: "(int \<times> 'r res \<times> int) list \<Rightarrow> breaker \<Rightarrow> 'r res list" where
  "cb_calls [] b = []"
| "cb_calls (c # cs) b = (case cb_call c b of (b', out) \<Rightarrow> out # cb_calls cs b')"

section \<open>What a breaker promises\<close>

text \<open>The contract: count consecutive failures while closed; after the threshold reject everything
  until the timeout has passed; then let one call decide.\<close>

datatype circuit_spec = Counting int | OpenSince int

definition spec_call ::
  "int \<Rightarrow> int \<Rightarrow> int \<times> 'r res \<times> int \<Rightarrow> circuit_spec \<Rightarrow> circuit_spec \<times> 'r res" where
  "spec_call threshold timeout c s =
     (case c of (t, r, t') \<Rightarrow>
        (case s of
           Counting n \<Rightarrow>
             (if error_of r = None then Counting 0
              else if n + 1 \<ge> threshold then OpenSince t' else Counting (n + 1), r)
         | OpenSince t0 \<Rightarrow>
             if t - t0 \<ge> timeout
             then (if error_of r = None then Counting 0 else OpenSince t', r)
             else (OpenSince t0, Inl ErrCircuitOpen)))"

fun spec_calls :: "int \<Rightarrow> int \<Rightarrow> (int \<times> 'r res \<times> int) list \<Rightarrow> circuit_spec \<Rightarrow> 'r res list" where
  "spec_calls threshold timeout [] s = []"
| "spec_calls threshold timeout (c # cs) s =
     (case spec_call threshold timeout c s of (s', out) \<Rightarrow> out # spec_calls threshold timeout cs s')"

definition abs_circuit :: "breaker \<Rightarrow> circuit_spec" where
  "abs_circuit b =
     (case cb_state b of StateClosed \<Rightarrow> Counting (failureCount b) | _ \<Rightarrow> OpenSince (lastFailureAt b))"

definition idle :: "breaker \<Rightarrow> bool" where
  "idle b \<longleftrightarrow> cb_state b \<noteq> StateHalfOpen \<and> \<not> probeInFlight b"

lemma cb_call_refines:
  assumes "idle b" "cb_call c b = (b', out)"
  shows "idle b' \<and> failureThreshold b' = failureThreshold b \<and> resetTimeout b' = resetTimeout b \<and>
    spec_call (failureThreshold b) (resetTimeout b) c (abs_circuit b) = (abs_circuit b', out)"
  using assms
  by (cases "cb_state b")
    (auto simp: cb_call_def allow_def recordResult_def spec_call_def abs_circuit_def idle_def Let_def
      split: prod.splits if_splits)

lemma cb_calls_refine:
  "idle b \<Longrightarrow> cb_calls cs b = spec_calls (failureThreshold b) (resetTimeout b) cs (abs_circuit b)"
proof (induction cs arbitrary: b)
  case (Cons c cs)
  obtain b' out where c: "cb_call c b = (b', out)" by fastforce
  from cb_call_refines [OF Cons.prems c] Cons.IH [of b'] show ?case by (simp add: c)
qed simp

section \<open>Overlapping calls\<close>

datatype circuit_event = CallStart nat int | CallEnd nat "gerror option" int

text \<open>\<open>inflight\<close> are the calls that have been let through and have not returned.\<close>

fun cb_step :: "circuit_event \<Rightarrow> breaker \<times> nat list \<Rightarrow> (breaker \<times> nat list) option" where
  "cb_step (CallStart c t) (b, inflight) =
     (case allow t b of
        (b', None) \<Rightarrow> Some (b', c # inflight)
      | (b', Some e) \<Rightarrow> Some (b', inflight))"
| "cb_step (CallEnd c err t) (b, inflight) =
     (if c \<in> set inflight then Some (recordResult t err b, remove1 c inflight) else None)"

fun cb_run :: "circuit_event list \<Rightarrow> breaker \<times> nat list \<Rightarrow> (breaker \<times> nat list) option" where
  "cb_run [] s = Some s"
| "cb_run (e # es) s = (case cb_step e s of None \<Rightarrow> None | Some s' \<Rightarrow> cb_run es s')"

text \<open>Half-open means that the probe is under way, so the breaker never lets a second call
  through before the first one, or an older one, has reported.\<close>

definition probe_inv :: "breaker \<Rightarrow> bool" where
  "probe_inv b \<longleftrightarrow> (probeInFlight b \<longleftrightarrow> cb_state b = StateHalfOpen)"

lemma cb_step_probe:
  "probe_inv (fst s) \<Longrightarrow> cb_step e s = Some s' \<Longrightarrow> probe_inv (fst s')"
  by (cases e; cases s)
    (auto simp: probe_inv_def allow_def recordResult_def Let_def split: circuit_state.splits if_splits)

lemma cb_run_probe: "probe_inv (fst s) \<Longrightarrow> cb_run es s = Some s' \<Longrightarrow> probe_inv (fst s')"
  by (induction es arbitrary: s) (auto split: option.splits intro: cb_step_probe)

section \<open>Properties\<close>

text \<open>
  C13: calls made one after the other see the three-state contract.  Whatever the answers of the backend
  and the times of the calls, a new breaker rejects exactly the calls that start before the timeout
  has passed since the failure that opened it; it opens at the configured number of consecutive
  failures, and a single call after the timeout closes it or opens it again.
\<close>

theorem breaker_refines_contract:
  "cb_calls cs (NewCircuitBreakerMiddleware [WithFailureThreshold threshold, WithResetTimeout timeout]) =
     spec_calls threshold timeout cs (Counting 0)"
  using cb_calls_refine [of "NewCircuitBreakerMiddleware [WithFailureThreshold threshold, WithResetTimeout timeout]" cs]
  by (simp add: idle_def NewCircuitBreakerMiddleware_def WithFailureThreshold_def WithResetTimeout_def abs_circuit_def)

text \<open>
  With overlapping calls, the breaker lets a call through only while it is closed, or when the timeout
  has passed since it opened, in which case that call becomes the probe and everything else is
  rejected while no call has reported.
\<close>

lemma single_probe:
  assumes "cb_run es (NewCircuitBreakerMiddleware [WithFailureThreshold threshold, WithResetTimeout timeout], []) =
      Some (b, inflight)"
  shows "(snd (allow t b) = None \<longleftrightarrow>
      cb_state b = StateClosed \<or> cb_state b = StateOpen \<and> t - lastFailureAt b \<ge> resetTimeout b) \<and>
    (snd (allow t b) = None \<longrightarrow> cb_state b = StateOpen \<longrightarrow> snd (allow t' (fst (allow t b))) = Some ErrCircuitOpen)"
proof -
  have "probe_inv b"
    using cb_run_probe [OF _ assms]
    by (simp add: probe_inv_def NewCircuitBreakerMiddleware_def WithFailureThreshold_def WithResetTimeout_def)
  then show ?thesis
    by (auto simp: allow_def probe_inv_def split: circuit_state.splits if_splits)
qed

definition half_open_run :: "circuit_event list" where
  "half_open_run = [CallStart 1 0, CallStart 2 0, CallEnd 1 (Some (External ''down'')) 5]"

theorem single_probe_witness:
  "\<exists>b inflight. cb_run half_open_run
      (NewCircuitBreakerMiddleware [WithFailureThreshold 1, WithResetTimeout 10], []) = Some (b, inflight) \<and>
     inflight = [2] \<and> snd (allow 14 b) = Some ErrCircuitOpen \<and> snd (allow 15 b) = None \<and>
     snd (allow 15 (fst (allow 15 b))) = Some ErrCircuitOpen"
proof -
  obtain b where r: "cb_run half_open_run (NewCircuitBreakerMiddleware [WithFailureThreshold 1, WithResetTimeout 10], []) =
      Some (b, [2])"
    and b: "cb_state b = StateOpen" "lastFailureAt b = 5" "resetTimeout b = 10"
    by (simp add: half_open_run_def NewCircuitBreakerMiddleware_def WithFailureThreshold_def
        WithResetTimeout_def allow_def recordResult_def)
  from single_probe [OF r, of 14] single_probe [OF r, of 15 15] r b show ?thesis
    by (simp add: allow_def)
qed

end
