(* ===== verification/RateLimit.thy ===== *)
theory RateLimit
  imports Prelude
begin

text \<open>
  The sliding-window rate limiter of \<open>largemodel/ratelimit.go\<close>.  Times are readings of \<open>nowFn\<close>
  in nanoseconds.
\<close>

section \<open>The limiter\<close>

record limiter =
  requestsPerMin :: int
  tokensPerMin :: int
  requestLog :: "int list"
  tokenLog :: "(int \<times> int) list"

definition ErrRateLimited :: gerror where
  "ErrRateLimited = Sentinel ''largemodel: rate limit exceeded''"

definition minute :: int where
  "minute = 60000000000"

definition WithRequestsPerMin :: "int \<Rightarrow> limiter \<Rightarrow> limiter" where
  "WithRequestsPerMin n m = m\<lparr>requestsPerMin := n\<rparr>"

definition WithTokensPerMin :: "int \<Rightarrow> limiter \<Rightarrow> limiter" where
  "WithTokensPerMin n m = m\<lparr>tokensPerMin := n\<rparr>"

definition NewRateLimitMiddleware :: "(limiter \<Rightarrow> limiter) list \<Rightarrow> limiter" where
  "NewRateLimitMiddleware opts =
     fold (\<lambda>opt m. opt m) opts \<lparr>requestsPerMin = 0, tokensPerMin = 0, requestLog = [], tokenLog = []\<rparr>"

fun pruneTimestamps :: "int list \<Rightarrow> int \<Rightarrow> int list" where
  "pruneTimestamps [] windowStart = []"
| "pruneTimestamps (t # ts) windowStart =
     (if t < windowStart then pruneTimestamps ts windowStart else t # ts)"

fun pruneTokenEntries :: "(int \<times> int) list \<Rightarrow> int \<Rightarrow> (int \<times> int) list" where
  "pruneTokenEntries [] windowStart = []"
| "pruneTokenEntries ((t, k) # es) windowStart =
     (if t < windowStart then pruneTokenEntries es windowStart else (t, k) # es)"

definition allowTokens :: "int \<Rightarrow> limiter \<Rightarrow> limiter \<times> gerror option" where
  "allowTokens now m =
     (if tokensPerMin m > 0 then
        (let m' = m\<lparr>tokenLog := pruneTokenEntries (tokenLog m) (now - minute)\<rparr> in
         (m', if sum_list (map snd (tokenLog m')) \<ge> tokensPerMin m then Some ErrRateLimited else None))
      else (m, None))"

definition allowRequest :: "int \<Rightarrow> limiter \<Rightarrow> limiter \<times> gerror option" where
  "allowRequest now m =
     (if requestsPerMin m > 0 then
        (let m' = m\<lparr>requestLog := pruneTimestamps (requestLog m) (now - minute)\<rparr> in
         if int (length (requestLog m')) \<ge> requestsPerMin m then (m', Some ErrRateLimited)
         else allowTokens now (m'\<lparr>requestLog := requestLog m' @ [now]\<rparr>))
      else allowTokens now m)"

definition recordTokens :: "int \<Rightarrow> int \<Rightarrow> limiter \<Rightarrow> limiter" where
  "recordTokens now k m =
     (if tokensPerMin m \<le> 0 \<or> k \<le> 0 then m else m\<lparr>tokenLog := tokenLog m @ [(now, k)]\<rparr>)"

section \<open>Runs\<close>

text \<open>A run interleaves the requests of many calls with the token counts of finished ones.\<close>

datatype limit_event = Request int | Usage int int

fun event_time :: "limit_event \<Rightarrow> int" where
  "event_time (Request t) = t"
| "event_time (Usage t k) = t"

text \<open>\<open>rl_run\<close> also returns the times of the requests let through and the tokens reported.\<close>

fun rl_run ::
  "limit_event list \<Rightarrow> limiter \<Rightarrow> int list \<Rightarrow> (int \<times> int) list \<Rightarrow> limiter \<times> int list \<times> (int \<times> int) list" where
  "rl_run [] m passed reported = (m, passed, reported)"
| "rl_run (Request t # es) m passed reported =
     (case allowRequest t m of
        (m', None) \<Rightarrow> rl_run es m' (passed @ [t]) reported
      | (m', Some e) \<Rightarrow> rl_run es m' passed reported)"
| "rl_run (Usage t k # es) m passed reported =
     rl_run es (recordTokens t k m) passed (reported @ (if 0 < k then [(t, k)] else []))"

text \<open>The requests of the closed minute that starts at \<open>s\<close>, and the tokens of the one before \<open>t\<close>.\<close>

definition in_minute :: "int \<Rightarrow> int list \<Rightarrow> int list" where
  "in_minute s ts = filter (\<lambda>t. s \<le> t \<and> t \<le> s + minute) ts"

definition tokens_since :: "int \<Rightarrow> (int \<times> int) list \<Rightarrow> int" where
  "tokens_since s es = sum_list (map snd (filter (\<lambda>e. s \<le> fst e) es))"

lemma prune_dropWhile: "pruneTimestamps ts w = dropWhile (\<lambda>t. t < w) ts"
  by (induction ts) auto

lemma pruneTokens_dropWhile: "pruneTokenEntries es w = dropWhile (\<lambda>e. fst e < w) es"
  by (induction es w rule: pruneTokenEntries.induct) auto

lemma dropWhile_sorted_filter:
  "sorted (map f xs) \<Longrightarrow> dropWhile (\<lambda>x. f x < w) xs = filter (\<lambda>x. w \<le> f x) xs" for f :: "'a \<Rightarrow> int"
proof (induction xs)
  case (Cons x xs)
  show ?case
  proof (cases "f x < w")
    case False
    then have "\<forall>y\<in>set xs. w \<le> f y" using Cons.prems by fastforce
    with False show ?thesis by simp
  qed (use Cons in auto)
qed simp

section \<open>The invariant of a run\<close>

text \<open>
  A log is kept if it is sorted and everything that passed since the last minute began is still in it.
\<close>

definition kept :: "('a \<Rightarrow> int) \<Rightarrow> int \<Rightarrow> 'a list \<Rightarrow> 'a list \<Rightarrow> bool" where
  "kept tm now log0 passed \<longleftrightarrow>
     sorted (map tm log0) \<and> (\<forall>x\<in>set log0. tm x \<le> now) \<and>
     filter_mset (\<lambda>x. now - minute \<le> tm x) (mset passed) \<subseteq># mset log0"

lemma filter_mset_window:
  assumes "filter_mset (\<lambda>x. now - minute \<le> tm x) M \<subseteq># L" "now \<le> now'"
  shows "filter_mset (\<lambda>x. now' - minute \<le> tm x) M \<subseteq># filter_mset (\<lambda>x. now' - minute \<le> tm x) L"
proof -
  have "filter_mset (\<lambda>x. now' - minute \<le> tm x) M =
      filter_mset (\<lambda>x. now' - minute \<le> tm x) (filter_mset (\<lambda>x. now - minute \<le> tm x) M)"
    unfolding filter_filter_mset using assms(2) by (intro filter_mset_cong refl) auto
  also have "\<dots> \<subseteq># filter_mset (\<lambda>x. now' - minute \<le> tm x) L"
    using assms(1) by (rule multiset_filter_mono)
  finally show ?thesis .
qed

lemma kept_prune:
  assumes k: "kept tm now log0 passed" and n: "now \<le> now'"
  shows "kept tm now' (dropWhile (\<lambda>x. tm x < now' - minute) log0) passed"
proof -
  have d: "dropWhile (\<lambda>x. tm x < now' - minute) log0 = filter (\<lambda>x. now' - minute \<le> tm x) log0"
    using k by (intro dropWhile_sorted_filter) (simp add: kept_def)
  show ?thesis
    using k n filter_mset_window [of now tm "mset passed" "mset log0" now']
    unfolding d by (auto simp: kept_def sorted_filter)
qed

lemma kept_later:
  assumes k: "kept tm now log0 passed" and n: "now \<le> now'"
  shows "kept tm now' log0 passed"
proof -
  have "filter_mset (\<lambda>x. now' - minute \<le> tm x) (mset passed) \<subseteq># mset log0"
    using filter_mset_window [of now tm "mset passed" "mset log0" now'] k n
    by (auto simp: kept_def intro: subset_mset.order_trans)
  with k n show ?thesis by (auto simp: kept_def)
qed

lemma kept_log:
  assumes "kept tm now log0 passed" "tm x = now"
  shows "kept tm now (log0 @ [x]) passed"
  using assms by (auto simp: kept_def sorted_append intro: subset_mset.order_trans)

lemma kept_pass:
  assumes "kept tm now log0 passed" "tm x = now"
  shows "kept tm now (log0 @ [x]) (passed @ [x])"
  using assms by (auto simp: kept_def sorted_append minute_def)

lemma sum_mset_mono_positive:
  fixes f :: "'a \<Rightarrow> int"
  assumes "A \<subseteq># B" "\<forall>x\<in>#B. 0 \<le> f x"
  shows "sum_mset (image_mset f A) \<le> sum_mset (image_mset f B)"
proof -
  obtain C where B: "B = A + C" using assms(1) by (auto simp: mset_subset_eq_exists_conv)
  have "0 \<le> sum_mset (image_mset f C)" using assms(2) unfolding B by (induction C) auto
  then show ?thesis by (simp add: B)
qed

definition rl_inv :: "int \<Rightarrow> limiter \<Rightarrow> int list \<Rightarrow> (int \<times> int) list \<Rightarrow> bool" where
  "rl_inv now m passed reported \<longleftrightarrow>
     (requestsPerMin m > 0 \<longrightarrow> kept id now (requestLog m) passed \<and>
        (\<forall>s. int (length (in_minute s passed)) \<le> requestsPerMin m)) \<and>
     (tokensPerMin m > 0 \<longrightarrow> kept fst now (tokenLog m) reported \<and> (\<forall>e\<in>set (tokenLog m). 0 < snd e))"

text \<open>A request that finds room in the pruned log keeps every minute within the limit.\<close>

lemma in_minute_pass:
  assumes k: "kept id t log0 passed" and w: "\<forall>x\<in>set log0. t - minute \<le> x"
    and n: "int (length log0) < n" and c: "\<forall>s. int (length (in_minute s passed)) \<le> n"
  shows "int (length (in_minute s (passed @ [t]))) \<le> n"
proof (cases "s \<le> t \<and> t \<le> s + minute")
  case True
  then have "filter_mset (\<lambda>x. s \<le> x \<and> x \<le> s + minute) (mset passed) \<subseteq># filter_mset (\<lambda>x. t - minute \<le> x) (mset passed)"
    by (intro filter_mset_mono_strong) auto
  also have "\<dots> \<subseteq># mset log0" using k by (simp add: kept_def)
  finally have "size (mset (in_minute s passed)) \<le> size (mset log0)"
    unfolding in_minute_def mset_filter by (rule size_mset_mono)
  then have "length (in_minute s passed) \<le> length log0" by simp
  with n True show ?thesis by (simp add: in_minute_def)
next
  case False
  then have "in_minute s (passed @ [t]) = in_minute s passed" by (auto simp: in_minute_def)
  with c show ?thesis by simp
qed


lemma rl_inv_tokens:
  assumes I: "tokensPerMin m > 0 \<longrightarrow> kept fst now (tokenLog m) reported \<and> (\<forall>e\<in>set (tokenLog m). 0 < snd e)"
    and n: "now \<le> t" and a: "allowTokens t m = (m', r)"
  shows "(tokensPerMin m' > 0 \<longrightarrow> kept fst t (tokenLog m') reported \<and> (\<forall>e\<in>set (tokenLog m'). 0 < snd e)) \<and>
    requestLog m' = requestLog m \<and> requestsPerMin m' = requestsPerMin m \<and> tokensPerMin m' = tokensPerMin m \<and>
    (r = None \<longrightarrow> 0 < tokensPerMin m \<longrightarrow> tokens_since (t - minute) reported < tokensPerMin m)"
proof (cases "tokensPerMin m > 0")
  case True
  let ?log = "dropWhile (\<lambda>e. fst e < t - minute) (tokenLog m)"
  have m': "m' = m\<lparr>tokenLog := ?log\<rparr>" and r: "r = None \<longleftrightarrow> sum_list (map snd ?log) < tokensPerMin m"
    using a True by (auto simp: allowTokens_def pruneTokens_dropWhile Let_def split: if_splits)
  have k: "kept fst t ?log reported" using I True n by (intro kept_prune) auto
  have pos: "\<forall>e\<in>set ?log. 0 < snd e" using I True by (auto dest: set_dropWhileD)
  have "tokens_since (t - minute) reported = sum_mset (image_mset snd (filter_mset (\<lambda>x. t - minute \<le> fst x) (mset reported)))"
    by (simp add: tokens_since_def flip: mset_filter sum_mset_sum_list)
  also have "\<dots> \<le> sum_mset (image_mset snd (mset ?log))"
    using k pos by (intro sum_mset_mono_positive) (auto simp: kept_def)
  also have "\<dots> = sum_list (map snd ?log)" by (simp flip: sum_mset_sum_list)
  finally have "tokens_since (t - minute) reported \<le> sum_list (map snd ?log)" .
  with r k pos show ?thesis by (auto simp: m')
next
  case False
  with a show ?thesis by (auto simp: allowTokens_def)
qed

lemma rl_inv_request:
  assumes I: "rl_inv now m passed reported" and n: "now \<le> t" and a: "allowRequest t m = (m', r)"
  shows "rl_inv t m' (if r = None then passed @ [t] else passed) reported \<and>
    requestsPerMin m' = requestsPerMin m \<and> tokensPerMin m' = tokensPerMin m \<and>
    (r = None \<longrightarrow> 0 < tokensPerMin m \<longrightarrow> tokens_since (t - minute) reported < tokensPerMin m)"
proof (cases "requestsPerMin m > 0")
  case True
  let ?log = "dropWhile (\<lambda>x. x < t - minute) (requestLog m)"
  have k: "kept id t ?log passed" using I True n kept_prune [of id now "requestLog m" passed t] by (simp add: rl_inv_def)
  have w: "\<forall>x\<in>set ?log. t - minute \<le> x"
    using I True by (subst dropWhile_sorted_filter [of "\<lambda>x. x", simplified]) (auto simp: rl_inv_def kept_def)
  have c: "\<forall>s. int (length (in_minute s passed)) \<le> requestsPerMin m" using I True by (simp add: rl_inv_def)
  have tok: "tokensPerMin m > 0 \<longrightarrow> kept fst now (tokenLog m) reported \<and> (\<forall>e\<in>set (tokenLog m). 0 < snd e)"
    using I by (simp add: rl_inv_def)
  show ?thesis
  proof (cases "int (length ?log) \<ge> requestsPerMin m")
    case full: True
    then have "m' = m\<lparr>requestLog := ?log\<rparr>" "r \<noteq> None"
      using a True by (auto simp: allowRequest_def prune_dropWhile Let_def)
    with k c tok n show ?thesis by (auto simp: rl_inv_def intro: kept_later)
  next
    case False
    then have at: "allowTokens t (m\<lparr>requestLog := ?log @ [t]\<rparr>) = (m', r)"
      using a True by (simp add: allowRequest_def prune_dropWhile Let_def)
    have "\<forall>s. int (length (in_minute s (passed @ [t]))) \<le> requestsPerMin m"
      using in_minute_pass [OF k w _ c] False by simp
    moreover have "kept id t (?log @ [t]) (passed @ [t])" "kept id t (?log @ [t]) passed"
      using kept_pass [OF k, of t] kept_log [OF k, of t] by simp_all
    ultimately show ?thesis
      using rl_inv_tokens [OF _ n at, of reported] tok c by (auto simp: rl_inv_def)
  qed
next
  case False
  then have at: "allowTokens t m = (m', r)" using a by (simp add: allowRequest_def)
  have "tokensPerMin m > 0 \<longrightarrow> kept fst now (tokenLog m) reported \<and> (\<forall>e\<in>set (tokenLog m). 0 < snd e)"
    using I by (simp add: rl_inv_def)
  from rl_inv_tokens [OF this n at] False show ?thesis by (simp add: rl_inv_def)
qed

lemma rl_inv_usage:
  assumes I: "rl_inv now m passed reported" and n: "now \<le> t"
  shows "rl_inv t (recordTokens t k m) passed (reported @ (if 0 < k then [(t, k)] else []))"
proof -
  have "kept fst t (tokenLog m) reported" if "tokensPerMin m > 0"
    using I n that by (auto simp: rl_inv_def intro: kept_later)
  then have "kept fst t (tokenLog m @ [(t, k)]) (reported @ [(t, k)])" if "tokensPerMin m > 0"
    using that by (intro kept_pass) auto
  with I n show ?thesis by (auto simp: rl_inv_def recordTokens_def intro: kept_later)
qed

lemma recordTokens_simps [simp]:
  "requestsPerMin (recordTokens t k m) = requestsPerMin m" "tokensPerMin (recordTokens t k m) = tokensPerMin m"
  by (simp_all add: recordTokens_def)

lemma rl_run_inv:
  "rl_inv now m passed reported \<Longrightarrow> sorted (now # map event_time es) \<Longrightarrow>
     rl_run es m passed reported = (m', passed', reported') \<Longrightarrow>
     rl_inv (last (now # map event_time es)) m' passed' reported' \<and>
     requestsPerMin m' = requestsPerMin m \<and> tokensPerMin m' = tokensPerMin m"
proof (induction es m passed reported arbitrary: now rule: rl_run.induct)
  case (2 t es m passed reported)
  obtain m1 r where a: "allowRequest t m = (m1, r)" by fastforce
  have n: "now \<le> t" using "2.prems"(2) by simp
  note step = rl_inv_request [OF "2.prems"(1) n a]
  have s: "sorted (t # map event_time es)" using "2.prems"(2) by simp
  have l: "last (now # map event_time (Request t # es)) = last (t # map event_time es)" by simp
  show ?case
  proof (cases r)
    case None
    then have "rl_run es m1 (passed @ [t]) reported = (m', passed', reported')" using "2.prems"(3) a by simp
    with "2.IH"(1) [of m1 r t] None a step s show ?thesis unfolding l by simp
  next
    case (Some e)
    then have "rl_run es m1 passed reported = (m', passed', reported')" using "2.prems"(3) a by simp
    with "2.IH"(2) [of m1 r e t] Some a step s show ?thesis unfolding l by simp
  qed
next
  case (3 t k es m passed reported)
  have "rl_inv t (recordTokens t k m) passed (reported @ (if 0 < k then [(t, k)] else []))"
    by (rule rl_inv_usage [OF "3.prems"(1)]) (use "3.prems"(2) in simp)
  with "3.IH" [of t] "3.prems"(2,3) show ?case by simp
qed simp

section \<open>Properties\<close>

text \<open>
  C14: the rate limits hold.  In any run of requests and token reports with a clock that does not go
  back, no minute contains more requests let through than the request limit; and a request is let
  through only if the tokens reported in the minute before it are below the token limit.
\<close>

theorem rate_limits_hold:
  assumes "rl_run es (NewRateLimitMiddleware [WithRequestsPerMin n, WithTokensPerMin k]) [] [] = (m, passed, reported)"
    and "sorted (map event_time es)" and "\<forall>e\<in>set es. event_time e \<le> t"
  shows "(0 < n \<longrightarrow> (\<forall>s. int (length (in_minute s passed)) \<le> n)) \<and>
    (0 < k \<longrightarrow> snd (allowRequest t m) = None \<longrightarrow> tokens_since (t - minute) reported < k)"
proof -
  let ?m = "NewRateLimitMiddleware [WithRequestsPerMin n, WithTokensPerMin k]"
  define t0 where "t0 = (case es of [] \<Rightarrow> t | e # _ \<Rightarrow> event_time e)"
  have m: "requestsPerMin ?m = n" "tokensPerMin ?m = k" "requestLog ?m = []" "tokenLog ?m = []"
    by (simp_all add: NewRateLimitMiddleware_def WithRequestsPerMin_def WithTokensPerMin_def)
  have I0: "rl_inv t0 ?m [] []" by (simp add: rl_inv_def m kept_def in_minute_def)
  have s: "sorted (t0 # map event_time es)" using assms(2) by (cases es) (auto simp: t0_def)
  have l: "last (t0 # map event_time es) \<le> t"
    using assms(3) by (cases es rule: rev_cases) (auto simp: t0_def)
  note run = rl_run_inv [OF I0 s assms(1)]
  obtain m' r where a: "allowRequest t m = (m', r)" by fastforce
  from rl_inv_request [OF conjunct1 [OF run] l a] run show ?thesis by (auto simp: a m rl_inv_def)
qed

definition rl_demo :: "limit_event list" where
  "rl_demo = [Request 0, Usage 1 40, Request 2, Request 3, Usage 4 70]"

theorem rate_limits_hold_witness:
  "\<exists>m passed reported. rl_run rl_demo (NewRateLimitMiddleware [WithRequestsPerMin 2, WithTokensPerMin 100]) [] [] =
     (m, passed, reported) \<and> passed = [0, 2] \<and> int (length (in_minute 0 passed)) \<le> 2"
proof -
  obtain m reported where r: "rl_run rl_demo (NewRateLimitMiddleware [WithRequestsPerMin 2, WithTokensPerMin 100]) [] [] =
     (m, [0, 2], reported)"
    by (simp add: rl_demo_def NewRateLimitMiddleware_def WithRequestsPerMin_def WithTokensPerMin_def
        allowRequest_def allowTokens_def recordTokens_def minute_def)
  have "sorted (map event_time rl_demo)" "\<forall>e\<in>set rl_demo. event_time e \<le> 5"
    by (simp_all add: rl_demo_def)
  from rate_limits_hold [OF r this] r show ?thesis by auto
qed

end
