(* ===== verification/GoStrings.thy ===== *)
theory GoStrings
  imports Prelude "HOL-Library.Sublist"
begin

text \<open>
  The functions of Go's package \<open>strings\<close> that the sources call, on byte lists, and conversions of numbers.  Changing case acts on
  the ASCII letters; the letters outside ASCII that Go also maps are left alone.
\<close>

definition lower_char :: "char \<Rightarrow> char" where
  "lower_char c = (if 65 \<le> (of_char c :: nat) \<and> (of_char c :: nat) \<le> 90 then char_of (of_char c + 32 :: nat) else c)"

definition to_lower :: "string \<Rightarrow> string" where
  "to_lower s = map lower_char s"

definition has_prefix :: "string \<Rightarrow> string \<Rightarrow> bool" where
  "has_prefix s p \<longleftrightarrow> take (length p) s = p"

definition has_suffix :: "string \<Rightarrow> string \<Rightarrow> bool" where
  "has_suffix s p \<longleftrightarrow> length p \<le> length s \<and> drop (length s - length p) s = p"

fun contains :: "string \<Rightarrow> string \<Rightarrow> bool" where
  "contains [] sub \<longleftrightarrow> sub = []"
| "contains (c # s) sub \<longleftrightarrow> has_prefix (c # s) sub \<or> contains s sub"

text \<open>Only the blank characters of ASCII.\<close>

definition is_space :: "char \<Rightarrow> bool" where
  "is_space c \<longleftrightarrow> c = CHR '' '' \<or> 9 \<le> (of_char c :: nat) \<and> (of_char c :: nat) \<le> 13"

definition trim_space :: "string \<Rightarrow> string" where
  "trim_space s = rev (dropWhile is_space (rev (dropWhile is_space s)))"

lemma has_prefix_iff: "has_prefix s p \<longleftrightarrow> prefix p s"
  by (auto simp: has_prefix_def prefix_def) (metis append_take_drop_id)

lemma has_suffix_iff: "has_suffix s p \<longleftrightarrow> suffix p s"
  unfolding has_suffix_def suffix_def
  by (auto simp: append_eq_conv_conj intro: exI [of _ "take (length s - length p) s"])
    (metis append_take_drop_id)

lemma contains_iff: "contains s sub \<longleftrightarrow> sublist sub s"
proof (induction s)
  case (Cons c s)
  then show ?case by (simp add: has_prefix_iff sublist_Cons_right)
qed simp

section \<open>Numbers\<close>

text \<open>\<open>strconv.Itoa\<close>, the verb \<open>%d\<close>; the verb \<open>%06d\<close> for numbers that are not negative.\<close>

fun digits :: "nat \<Rightarrow> string" where
  "digits n = (if n < 10 then [char_of (48 + n)] else digits (n div 10) @ [char_of (48 + n mod 10)])"

definition itoa :: "int \<Rightarrow> string" where
  "itoa i = (if i < 0 then ''-'' @ digits (nat (- i)) else digits (nat i))"

definition pad_zeros :: "nat \<Rightarrow> nat \<Rightarrow> string" where
  "pad_zeros w n = replicate (w - length (digits n)) (CHR ''0'') @ digits n"

text \<open>\<open>int(x)\<close> for a \<open>float64\<close> that stands for the rational \<open>q\<close>: truncation towards zero.\<close>

definition trunc_rat :: "rat \<Rightarrow> int" where
  "trunc_rat q = (if q < 0 then - floor (- q) else floor q)"

lemma trunc_rat_floor: "0 \<le> q \<Longrightarrow> trunc_rat q = floor q"
  by (simp add: trunc_rat_def)

section \<open>UTF-8\<close>

text \<open>The number of bytes of the first rune, as \<open>utf8.DecodeRuneInString\<close> reads it: a byte that starts no
  valid encoding is a rune of its own.\<close>

definition byte_in :: "nat \<Rightarrow> nat \<Rightarrow> char \<Rightarrow> bool" where
  "byte_in lo hi c \<longleftrightarrow> lo \<le> of_char c \<and> of_char c \<le> hi"

definition is_cont :: "char \<Rightarrow> bool" where
  "is_cont c \<longleftrightarrow> byte_in 128 191 c"

definition rune_width :: "string \<Rightarrow> nat" where
  "rune_width s =
     (case s of
        [] \<Rightarrow> 0
      | b0 # r0 \<Rightarrow>
          (case r0 of
             [] \<Rightarrow> 1
           | b1 # r1 \<Rightarrow>
               if byte_in 194 223 b0 \<and> is_cont b1 then 2
               else (case r1 of
                       [] \<Rightarrow> 1
                     | b2 # r2 \<Rightarrow>
                         if (if b0 = CHR 0xE0 then byte_in 160 191 b1
                             else if b0 = CHR 0xED then byte_in 128 159 b1
                             else byte_in 225 239 b0 \<and> is_cont b1) \<and> is_cont b2 then 3
                         else (case r2 of
                                 [] \<Rightarrow> 1
                               | b3 # _ \<Rightarrow>
                                   if (if b0 = CHR 0xF0 then byte_in 144 191 b1
                                       else if b0 = CHR 0xF4 then byte_in 128 143 b1
                                       else byte_in 241 243 b0 \<and> is_cont b1) \<and> is_cont b2 \<and> is_cont b3
                                   then 4 else 1))))"

lemma rune_width_pos: "s \<noteq> [] \<Longrightarrow> 0 < rune_width s"
  by (auto simp: rune_width_def split: list.splits)

lemma rune_width_le: "rune_width s \<le> length s"
  by (auto simp: rune_width_def split: list.splits)

text \<open>\<open>utf8.RuneCountInString\<close>.\<close>

function rune_count :: "string \<Rightarrow> nat" where
  "rune_count s = (if s = [] then 0 else Suc (rune_count (drop (rune_width s) s)))"
  by pat_completeness auto
termination
  by (relation "measure length") (auto intro: diff_less rune_width_pos)

declare rune_count.simps [simp del]

lemma rune_count_le: "rune_count s \<le> length s"
proof (induction s rule: rune_count.induct)
  case (1 s)
  show ?case
  proof (cases "s = []")
    case False
    then have "rune_count (drop (rune_width s) s) \<le> length s - rune_width s" using 1 by simp
    then show ?thesis using rune_width_pos [OF False] rune_width_le [of s] False
      by (subst rune_count.simps) simp
  qed (simp add: rune_count.simps)
qed

text \<open>\<open>utf8.RuneStart\<close>.\<close>

definition rune_start :: "char \<Rightarrow> bool" where
  "rune_start c \<longleftrightarrow> \<not> is_cont c"

section \<open>Fields\<close>

text \<open>\<open>strings.Fields\<close>: the parts between blanks that are not empty; the second argument collects a part.\<close>

fun fields_loop :: "string \<Rightarrow> string \<Rightarrow> string list" where
  "fields_loop [] part = (if part = [] then [] else [part])"
| "fields_loop (c # s) part =
     (if is_space c then (if part = [] then fields_loop s [] else part # fields_loop s [])
      else fields_loop s (part @ [c]))"

definition split_fields :: "string \<Rightarrow> string list" where
  "split_fields s = fields_loop s []"

section \<open>Numbers padded to a width\<close>

text \<open>The last \<open>w\<close> digits of a number; below \<open>10 ^ w\<close> that is the padded number, and byte-wise order is the
  order of numbers.\<close>

definition digit :: "nat \<Rightarrow> char" where
  "digit d = char_of (48 + d)"

fun last_digits :: "nat \<Rightarrow> nat \<Rightarrow> string" where
  "last_digits 0 n = []"
| "last_digits (Suc w) n = last_digits w (n div 10) @ [digit (n mod 10)]"

lemma length_last_digits [simp]: "length (last_digits w n) = w"
  by (induction w arbitrary: n) simp_all

lemma last_digits_0: "last_digits w 0 = replicate w (CHR ''0'')"
proof (induction w)
  case (Suc w)
  have "digit 0 = CHR ''0''" by code_simp
  then show ?case using Suc by (simp add: replicate_append_same)
qed simp

lemma length_digits_div: "10 \<le> n \<Longrightarrow> digits n = digits (n div 10) @ [digit (n mod 10)]"
  by (subst digits.simps) (simp add: digit_def)

declare digits.simps [simp del]

lemma pad_zeros_last_digits: "n < 10 ^ Suc w \<Longrightarrow> pad_zeros (Suc w) n = last_digits (Suc w) n"
proof (induction w arbitrary: n)
  case 0
  then show ?case by (simp add: pad_zeros_def digits.simps [of n] digit_def)
next
  case (Suc w)
  show ?case
  proof (cases "n < 10")
    case True
    then show ?thesis
      by (simp add: pad_zeros_def digits.simps [of n] digit_def last_digits_0 flip: replicate_append_same)
  next
    case False
    have "n div 10 < 10 ^ Suc w" using Suc.prems by (simp add: less_mult_imp_div_less mult.commute)
    from Suc.IH [OF this] show ?thesis using False length_digits_div [of n] by (simp add: pad_zeros_def)
  qed
qed

lemma digit_less: "a < 10 \<Longrightarrow> b < 10 \<Longrightarrow> digit a < digit b \<longleftrightarrow> a < b"
  by (simp add: digit_def less_char_def)

lemma last_digits_less:
  "n < m \<Longrightarrow> m < 10 ^ w \<Longrightarrow> last_digits w n < last_digits w m"
proof (induction w arbitrary: n m)
  case (Suc w)
  show ?case
  proof (cases "n div 10 = m div 10")
    case True
    then have "n mod 10 < m mod 10"
      using Suc.prems(1) by (metis div_mult_mod_eq nat_add_left_cancel_less)
    then show ?thesis using True digit_less [of "n mod 10" "m mod 10"] by (simp add: list_less_def lexord_append_leftI)
  next
    case False
    then have "n div 10 < m div 10" using Suc.prems(1) by (simp add: div_le_mono le_neq_implies_less)
    moreover have "m div 10 < 10 ^ w" using Suc.prems(2) by (simp add: less_mult_imp_div_less mult.commute)
    ultimately have "last_digits w (n div 10) < last_digits w (m div 10)" by (rule Suc.IH)
    then show ?thesis by (simp add: list_less_def lexord_sufI)
  qed
qed simp

lemma pad_zeros_less: "n < m \<Longrightarrow> m < 10 ^ Suc w \<Longrightarrow> pad_zeros (Suc w) n < pad_zeros (Suc w) m"
  by (simp add: pad_zeros_last_digits del: last_digits.simps) (rule last_digits_less, simp_all)

end
