(* ===== verification/Retry.thy ===== *)
theory Retry
  imports GoStrings "HOL-Library.Word"
begin

text \<open>
  The retry middleware (\<open>largemodel/retry.go\<close>), its backoff, and the classification of errors
  (\<open>isRetryable\<close>, \<open>IsContextOverflowError\<close> of \<open>overflow.go\<close>).
\<close>

section \<open>Backoff\<close>

text \<open>
  A \<open>time.Duration\<close> is a signed 64-bit number of nanoseconds, kept at its width.  The jitter is
  computed in \<open>float64\<close>; here its factor and the random number are rationals and the conversion
  truncates.
\<close>

type_synonym duration = "64 word"

record backoff =
  BaseDelay :: duration
  MaxDelay :: duration
  Jitter :: rat

fun double_delay :: "nat \<Rightarrow> duration \<Rightarrow> duration \<Rightarrow> duration" where
  "double_delay 0 delay mx = delay"
| "double_delay (Suc n) delay mx =
     (let delay' = delay * 2 in if mx <s delay' then mx else double_delay n delay' mx)"

definition Delay :: "backoff \<Rightarrow> nat \<Rightarrow> rat \<Rightarrow> duration" where
  "Delay b attempt rnd =
     (let delay = double_delay attempt (BaseDelay b) (MaxDelay b);
          jitter = word_of_int (trunc_rat (of_int (sint delay) * Jitter b * rnd))
      in delay + jitter)"

lemma double_delay_min:
  assumes "0 \<le> sint d" "sint d \<le> sint mx" "sint mx < 2 ^ 62"
  shows "sint (double_delay n d mx) = min (sint d * 2 ^ n) (sint mx)"
  using assms
proof (induction n arbitrary: d)
  case (Suc n)
  have two: "sint (d * 2) = 2 * sint d"
    using Suc.prems by (simp add: sint_word_ariths signed_take_bit_int_eq_self)
  show ?case
  proof (cases "mx <s d * 2")
    case True
    then have big: "sint mx < 2 * sint d" by (simp add: word_sless_alt two)
    have "2 * sint d * 1 \<le> 2 * sint d * 2 ^ n" using Suc.prems by (intro mult_left_mono) simp_all
    with big have "sint mx \<le> sint d * 2 ^ Suc n" by simp
    with True show ?thesis by (simp add: Let_def)
  next
    case False
    then have le: "sint (d * 2) \<le> sint mx" by (simp add: word_sless_alt)
    have "sint (double_delay n (d * 2) mx) = min (sint (d * 2) * 2 ^ n) (sint mx)"
      using Suc.prems le by (intro Suc.IH) (simp_all add: two)
    with False show ?thesis by (simp add: Let_def two mult.assoc mult.left_commute)
  qed
qed simp


section \<open>Classification of errors\<close>

definition retryableStatusCodes :: "int list" where
  "retryableStatusCodes = [429, 500, 502, 503]"

text \<open>\<open>is_net\<close> is the test for a \<open>net.Error\<close> in the chain of the error; \<open>io.EOF\<close> and
  \<open>io.ErrUnexpectedEOF\<close> are sentinels.\<close>

definition isRetryable :: "(gerror \<Rightarrow> bool) \<Rightarrow> gerror \<Rightarrow> bool" where
  "isRetryable is_net err =
     (case errors_as_api err of
        Some (status, code, msg) \<Rightarrow> status \<in> set retryableStatusCodes
      | None \<Rightarrow>
          if is_net err then True
          else errors_is err (Sentinel ''EOF'') \<or> errors_is err (Sentinel ''unexpected EOF''))"

text \<open>\<open>text\<close> is the method \<open>Error\<close>.\<close>

definition overflow_api :: "int \<Rightarrow> string \<Rightarrow> string \<Rightarrow> bool" where
  "overflow_api status code message \<longleftrightarrow>
     status = 413 \<or> code \<in> {''context_length_exceeded'', ''request_too_large''} \<or>
     (let msg = to_lower message in
      contains msg ''context_length_exceeded'' \<or> contains msg ''maximum context length'' \<or>
      contains msg ''token limit'' \<or> contains msg ''request too large'')"

definition IsContextOverflowError :: "(gerror \<Rightarrow> string) \<Rightarrow> gerror option \<Rightarrow> bool" where
  "IsContextOverflowError text0 err =
     (case err of
        None \<Rightarrow> False
      | Some e \<Rightarrow>
          (case errors_as_api e of None \<Rightarrow> False | Some (status, code, msg) \<Rightarrow> overflow_api status code msg) \<or>
          (let msg = to_lower (text0 e) in
           contains msg ''context_length_exceeded'' \<or> contains msg ''maximum context length''))"

text \<open>An overflow reported with status 413 is never retried.\<close>

lemma overflow_not_retried:
  "errors_as_api e = Some (413, code, msg) \<Longrightarrow> IsContextOverflowError text0 (Some e) \<and> \<not> isRetryable is_net e"
  by (simp add: IsContextOverflowError_def overflow_api_def isRetryable_def retryableStatusCodes_def)

section \<open>The retry loop\<close>

record retrier =
  maxRetries :: int
  baseDelay :: duration
  maxDelay :: duration
  backoffStrategy :: "(nat \<Rightarrow> rat \<Rightarrow> duration) option"

definition WithMaxRetries :: "int \<Rightarrow> retrier \<Rightarrow> retrier" where
  "WithMaxRetries n m = m\<lparr>maxRetries := n\<rparr>"

definition WithBaseDelay :: "duration \<Rightarrow> retrier \<Rightarrow> retrier" where
  "WithBaseDelay d m = m\<lparr>baseDelay := d\<rparr>"

definition WithMaxDelay :: "duration \<Rightarrow> retrier \<Rightarrow> retrier" where
  "WithMaxDelay d m = m\<lparr>maxDelay := d\<rparr>"

definition WithBackoff :: "(nat \<Rightarrow> rat \<Rightarrow> duration) \<Rightarrow> retrier \<Rightarrow> retrier" where
  "WithBackoff b m = m\<lparr>backoffStrategy := Some b\<rparr>"

definition NewRetryMiddleware :: "(retrier \<Rightarrow> retrier) list \<Rightarrow> retrier" where
  "NewRetryMiddleware opts =
     (let m = fold (\<lambda>opt m. opt m) opts
            \<lparr>maxRetries = 3, baseDelay = 1000000000, maxDelay = 30000000000, backoffStrategy = None\<rparr>
      in case backoffStrategy m of
           None \<Rightarrow> m\<lparr>backoffStrategy :=
             Some (Delay \<lparr>BaseDelay = baseDelay m, MaxDelay = maxDelay m, Jitter = 1 / 4\<rparr>)\<rparr>
         | Some b \<Rightarrow> m)"

text \<open>
  \<open>call k\<close> is the answer of the backend to attempt \<open>k\<close>, \<open>slept k\<close> whether the pause after it ran
  to its end, \<open>rnd k\<close> its random number.  The result is the answer (\<open>Inr None\<close> is a nil response
  with a nil error), the number of attempts and the delays asked for.
\<close>

fun retry_loop ::
  "retrier \<Rightarrow> (gerror \<Rightarrow> bool) \<Rightarrow> (nat \<Rightarrow> rat) \<Rightarrow> (nat \<Rightarrow> 'r res) \<Rightarrow> (nat \<Rightarrow> bool) \<Rightarrow>
     nat \<Rightarrow> nat \<Rightarrow> gerror option \<Rightarrow> duration list \<Rightarrow> 'r option res \<times> nat \<times> duration list" where
  "retry_loop m retryable rnd call slept attempt 0 lastErr delays =
     (case lastErr of None \<Rightarrow> Inr None | Some e \<Rightarrow> Inl e, attempt, delays)"
| "retry_loop m retryable rnd call slept attempt (Suc left) lastErr delays =
     (case call attempt of
        Inr r \<Rightarrow> (Inr (Some r), Suc attempt, delays)
      | Inl e \<Rightarrow>
          if int attempt \<ge> maxRetries m \<or> \<not> retryable e then (Inl e, Suc attempt, delays)
          else
            (let delays' = delays @ [the (backoffStrategy m) attempt (rnd attempt)] in
             if slept attempt
             then retry_loop m retryable rnd call slept (Suc attempt) left (Some e) delays'
             else (Inl e, Suc attempt, delays')))"

definition retry_call ::
  "retrier \<Rightarrow> (gerror \<Rightarrow> bool) \<Rightarrow> (nat \<Rightarrow> rat) \<Rightarrow> (nat \<Rightarrow> 'r res) \<Rightarrow> (nat \<Rightarrow> bool) \<Rightarrow>
     'r option res \<times> nat \<times> duration list" where
  "retry_call m retryable rnd call slept = retry_loop m retryable rnd call slept 0 (nat (maxRetries m + 1)) None []"

text \<open>An attempt that is followed by another one: it failed with a retryable error and the pause ran out.\<close>

definition goes_on :: "(gerror \<Rightarrow> bool) \<Rightarrow> (nat \<Rightarrow> 'r res) \<Rightarrow> (nat \<Rightarrow> bool) \<Rightarrow> nat \<Rightarrow> bool" where
  "goes_on retryable call slept k \<longleftrightarrow> (\<exists>e. call k = Inl e \<and> retryable e) \<and> slept k"

definition answer :: "'r res \<Rightarrow> 'r option res" where
  "answer r = (case r of Inl e \<Rightarrow> Inl e | Inr x \<Rightarrow> Inr (Some x))"

lemma retry_loop_spec:
  assumes "retry_loop m retryable rnd call slept k left lastErr delays = (res, n, ds)"
    and "0 < left" "int k + int left = maxRetries m + 1"
  shows "k < n \<and> n \<le> k + left \<and> (\<forall>j. k \<le> j \<and> j < n - 1 \<longrightarrow> goes_on retryable call slept j) \<and>
    res = answer (call (n - 1)) \<and>
    (n < k + left \<longrightarrow> \<not> goes_on retryable call slept (n - 1))"
  using assms
proof (induction m retryable rnd call slept k left lastErr delays rule: retry_loop.induct)
  case (2 m retryable rnd call slept k left lastErr delays)
  show ?case
  proof (cases "call k")
    case (Inr r)
    with 2 show ?thesis by (auto simp: answer_def goes_on_def)
  next
    case (Inl e)
    show ?thesis
    proof (cases "int k \<ge> maxRetries m \<or> \<not> retryable e \<or> \<not> slept k")
      case True
      with 2 Inl have "n = Suc k" "res = Inl e" by (auto simp: Let_def split: if_splits)
      moreover have "int k \<ge> maxRetries m \<Longrightarrow> left = 0" using "2.prems"(3) by simp
      ultimately show ?thesis using True Inl by (auto simp: answer_def goes_on_def)
    next
      case False
      let ?ds = "delays @ [the (backoffStrategy m) k (rnd k)]"
      have rec: "retry_loop m retryable rnd call slept (Suc k) left (Some e) ?ds = (res, n, ds)"
        using "2.prems"(1) Inl False by (simp add: Let_def)
      have "0 < left" "int (Suc k) + int left = maxRetries m + 1" using "2.prems"(3) False by simp_all
      with "2.IH" [OF Inl _ refl] False rec have IH:
        "Suc k < n \<and> n \<le> Suc k + left \<and> (\<forall>j. Suc k \<le> j \<and> j < n - 1 \<longrightarrow> goes_on retryable call slept j) \<and>
         res = answer (call (n - 1)) \<and> (n < Suc k + left \<longrightarrow> \<not> goes_on retryable call slept (n - 1))"
        by simp
      have "goes_on retryable call slept k" using Inl False by (auto simp: goes_on_def)
      then have "goes_on retryable call slept j" if "k \<le> j" "j < n - 1" for j
        using IH that by (cases "j = k") auto
      with IH show ?thesis by simp
    qed
  qed
qed simp

section \<open>Properties\<close>

lemma signed_take_bit_small: "0 \<le> x \<Longrightarrow> x < 2 ^ 61 + 2 ^ 61 \<Longrightarrow> signed_take_bit 63 x = x" for x :: int
  by (simp add: signed_take_bit_int_eq_self)



text \<open>
  Backoff delays are bounded and do not overflow.  For a base delay within the maximum delay, which is
  below \<open>2^61\<close> nanoseconds, and a jitter factor of at most one, the delay before retry number \<open>n\<close> is
  at least the doubled base delay cut off at the maximum and at most that times one plus the factor.
\<close>

lemma backoff_bounded:
  assumes "0 \<le> sint (BaseDelay b)" and "sint (BaseDelay b) \<le> sint (MaxDelay b)" and "sint (MaxDelay b) < 2 ^ 61"
    and "0 \<le> Jitter b" and "Jitter b \<le> 1" and "0 \<le> rnd" and "rnd \<le> 1"
  shows "min (sint (BaseDelay b) * 2 ^ n) (sint (MaxDelay b)) \<le> sint (Delay b n rnd) \<and>
    rat_of_int (sint (Delay b n rnd)) \<le>
      rat_of_int (min (sint (BaseDelay b) * 2 ^ n) (sint (MaxDelay b))) * (1 + Jitter b)"
proof -
  let ?d = "double_delay n (BaseDelay b) (MaxDelay b)" and ?k = "min (sint (BaseDelay b) * 2 ^ n) (sint (MaxDelay b))"
  have d: "sint ?d = ?k" using assms(1-3) by (intro double_delay_min) simp_all
  have k: "0 \<le> ?k" "?k < 2 ^ 61" using assms(1-3) by simp_all
  let ?q = "rat_of_int ?k * Jitter b * rnd"
  have jr: "0 \<le> Jitter b * rnd" "Jitter b * rnd \<le> Jitter b" "Jitter b * rnd \<le> 1"
    using assms(4-7) mult_left_mono [OF assms(7,4)] by simp_all
  have q: "0 \<le> ?q" "?q \<le> rat_of_int ?k * Jitter b" "?q \<le> rat_of_int ?k"
    using k(1) jr mult_left_mono [of "Jitter b * rnd" "Jitter b" "rat_of_int ?k"]
      mult_left_mono [of "Jitter b * rnd" 1 "rat_of_int ?k"] by (simp_all add: mult.assoc)
  define j where "j = floor ?q"
  have t: "trunc_rat ?q = j" unfolding j_def by (rule trunc_rat_floor [OF q(1)])
  have j: "0 \<le> j" "rat_of_int j \<le> ?q" using q(1) by (simp_all add: j_def)
  have "j \<le> ?k" using j(2) q(3) by linarith
  then have small: "j < 2 ^ 61" using k(2) by (rule le_less_trans)
  then have sum: "?k + j < 2 ^ 61 + 2 ^ 61" by (intro add_strict_mono k(2))
  have "sint (word_of_int j :: duration) = j"
    using j(1) small by (simp add: signed_take_bit_int_eq_self signed_of_int)
  moreover have "0 \<le> ?k + j" using k(1) j(1) by (rule add_nonneg_nonneg)
  then have "signed_take_bit 63 (?k + j) = ?k + j" using sum by (rule signed_take_bit_small)
  ultimately have s: "sint (Delay b n rnd) = ?k + j"
    unfolding Delay_def Let_def d t sint_word_ariths by (simp add: d)
  have "rat_of_int (?k + j) \<le> rat_of_int ?k * (1 + Jitter b)"
    using j(2) q(2) by (simp add: distrib_left)
  with j(1) s show ?thesis by simp
qed

theorem backoff_bounded_witness:
  "1000 \<le> sint (Delay \<lparr>BaseDelay = 300, MaxDelay = 1000, Jitter = 1 / 4\<rparr> 3 (1 / 2)) \<and>
   rat_of_int (sint (Delay \<lparr>BaseDelay = 300, MaxDelay = 1000, Jitter = 1 / 4\<rparr> 3 (1 / 2))) \<le> 1250"
  using backoff_bounded [of "\<lparr>BaseDelay = 300, MaxDelay = 1000, Jitter = 1 / 4\<rparr>" "1 / 2" 3] by simp

end
