(* ===== verification/Cache.thy ===== *)
theory Cache
  imports Prelude "HOL-Library.AList"
begin

text \<open>
  The response cache of \<open>largemodel/cache.go\<close>: the middleware against the interface \<open>Cache\<close>, and
  \<open>MapCache\<close>, which implements it.  Times are readings of \<open>nowFn\<close> in nanoseconds.
\<close>

section \<open>Keys\<close>

text \<open>The fields of the foreign \<open>aimodel.ChatRequest\<close> that the package reads; message, tool and other
  dynamic types are parameters.\<close>

record ('m, 't, 'x) chat_request =
  cr_Model :: string
  cr_Messages :: "'m list"
  cr_Tools :: "'t list"
  cr_Temperature :: "rat option"
  cr_MaxTokens :: "int option"
  cr_TopP :: "rat option"
  cr_N :: "int option"
  cr_Stop :: "string list"
  cr_FrequencyPenalty :: "rat option"
  cr_PresencePenalty :: "rat option"
  cr_Seed :: "int option"
  cr_ResponseFormat :: 'x
  cr_ToolChoice :: 'x
  cr_Stream :: bool

record ('m, 't, 'x) cache_key_data =
  ck_Model :: string
  ck_Messages :: "'m list"
  ck_Tools :: "'t list"
  ck_Temperature :: "rat option"
  ck_MaxTokens :: "int option"
  ck_TopP :: "rat option"
  ck_N :: "int option"
  ck_Stop :: "string list"
  ck_FrequencyPenalty :: "rat option"
  ck_PresencePenalty :: "rat option"
  ck_Seed :: "int option"
  ck_ResponseFormat :: 'x
  ck_ToolChoice :: 'x

definition key_data :: "('m, 't, 'x) chat_request \<Rightarrow> ('m, 't, 'x) cache_key_data" where
  "key_data q =
     \<lparr>ck_Model = cr_Model q, ck_Messages = cr_Messages q, ck_Tools = cr_Tools q,
      ck_Temperature = cr_Temperature q, ck_MaxTokens = cr_MaxTokens q, ck_TopP = cr_TopP q,
      ck_N = cr_N q, ck_Stop = cr_Stop q, ck_FrequencyPenalty = cr_FrequencyPenalty q,
      ck_PresencePenalty = cr_PresencePenalty q, ck_Seed = cr_Seed q,
      ck_ResponseFormat = cr_ResponseFormat q, ck_ToolChoice = cr_ToolChoice q\<rparr>"

text \<open>\<open>marshal\<close> is \<open>json.Marshal\<close> and \<open>digest\<close> the hexadecimal SHA-256 sum.\<close>

definition cacheKey ::
  "(('m, 't, 'x) cache_key_data \<Rightarrow> string res) \<Rightarrow> (string \<Rightarrow> string) \<Rightarrow> ('m, 't, 'x) chat_request \<Rightarrow> string res" where
  "cacheKey marshal digest req =
     (case marshal (key_data req) of
        Inl e \<Rightarrow> Inl (Errorf ''largemodel: failed to marshal cache key: %w'' [] (Some e))
      | Inr b \<Rightarrow> Inr (digest b))"

text \<open>With an injective encoding and digest, equal keys mean requests that differ at most in whether
  they stream.\<close>

lemma cacheKey_inj:
  assumes "cacheKey marshal digest q = Inr k" "cacheKey marshal digest q' = Inr k"
    and "\<And>d d' b b'. marshal d = Inr b \<Longrightarrow> marshal d' = Inr b' \<Longrightarrow> digest b = digest b' \<Longrightarrow> d = d'"
  shows "key_data q = key_data q'"
  using assms by (auto simp: cacheKey_def split: sum.splits)

section \<open>The interface and the middleware\<close>

text \<open>
  \<open>key\<close> is \<open>cacheKey\<close>; \<open>chat\<close> is the wrapped completer with its state; the cache is read at time \<open>t\<close>
  and written at time \<open>t'\<close>.
\<close>

definition cached_chat ::
  "('s \<Rightarrow> int \<Rightarrow> string \<Rightarrow> 'r option) \<Rightarrow> ('s \<Rightarrow> int \<Rightarrow> string \<Rightarrow> 'r \<Rightarrow> int \<Rightarrow> 's) \<Rightarrow>
     ('q \<Rightarrow> string res) \<Rightarrow> int \<Rightarrow> ('w \<Rightarrow> 'q \<Rightarrow> 'w \<times> 'r res) \<Rightarrow>
     int \<times> 'q \<times> int \<Rightarrow> 's \<times> 'w \<Rightarrow> ('s \<times> 'w) \<times> 'r res" where
  "cached_chat get set0 key ttl chat c sw =
     (case (c, sw) of ((t, q, t'), (s, w)) \<Rightarrow>
        (case key q of
           Inl e \<Rightarrow> (case chat w q of (w', r) \<Rightarrow> ((s, w'), r))
         | Inr k \<Rightarrow>
             (case get s t k of
                Some r \<Rightarrow> ((s, w), Inr r)
              | None \<Rightarrow>
                  (case chat w q of
                     (w', Inl e) \<Rightarrow> ((s, w'), Inl e)
                   | (w', Inr r) \<Rightarrow> ((set0 s t' k r ttl, w'), Inr r)))))"

text \<open>A run of calls; \<open>asked\<close> collects the requests that reached the wrapped completer, with its answers.\<close>

definition reached ::
  "('s \<Rightarrow> int \<Rightarrow> string \<Rightarrow> 'r option) \<Rightarrow> ('q \<Rightarrow> string res) \<Rightarrow> ('w \<Rightarrow> 'q \<Rightarrow> 'w \<times> 'r res) \<Rightarrow>
     int \<times> 'q \<times> int \<Rightarrow> 's \<times> 'w \<Rightarrow> ('q \<times> 'r res) list" where
  "reached get key chat c sw =
     (case (c, sw) of ((t, q, t'), (s, w)) \<Rightarrow>
        (case key q of
           Inl e \<Rightarrow> [(q, snd (chat w q))]
         | Inr k \<Rightarrow> if get s t k = None then [(q, snd (chat w q))] else []))"

fun cached_run ::
  "('s \<Rightarrow> int \<Rightarrow> string \<Rightarrow> 'r option) \<Rightarrow> ('s \<Rightarrow> int \<Rightarrow> string \<Rightarrow> 'r \<Rightarrow> int \<Rightarrow> 's) \<Rightarrow>
     ('q \<Rightarrow> string res) \<Rightarrow> int \<Rightarrow> ('w \<Rightarrow> 'q \<Rightarrow> 'w \<times> 'r res) \<Rightarrow>
     (int \<times> 'q \<times> int) list \<Rightarrow> 's \<times> 'w \<Rightarrow> ('q \<times> 'r res) list \<times> ('q \<times> 'r res) list" where
  "cached_run get set0 key ttl chat [] sw = ([], [])"
| "cached_run get set0 key ttl chat (c # cs) sw =
     (case cached_chat get set0 key ttl chat c sw of (sw', r) \<Rightarrow>
        (case cached_run get set0 key ttl chat cs sw' of (answers, asked) \<Rightarrow>
           ((fst (snd c), r) # answers, reached get key chat c sw @ asked)))"

text \<open>What the middleware relies on: a cache returns only what was put in under the same key.\<close>

locale response_cache =
  fixes get :: "'s \<Rightarrow> int \<Rightarrow> string \<Rightarrow> 'r option"
    and set0 :: "'s \<Rightarrow> int \<Rightarrow> string \<Rightarrow> 'r \<Rightarrow> int \<Rightarrow> 's"
    and ok :: "'s \<Rightarrow> bool"
  assumes ok_set: "ok s \<Longrightarrow> ok (set0 s t k r d)"
    and get_set: "ok s \<Longrightarrow> get (set0 s t k r d) t' k' = Some x \<Longrightarrow> k' = k \<and> x = r \<or> get s t' k' = Some x"
    and get_fresh: "ok s \<Longrightarrow> t \<le> t' \<Longrightarrow> t' \<le> t + d \<Longrightarrow> get (set0 s t k r d) t' k = Some r"
begin

text \<open>Everything in the cache was answered to some request with that key.\<close>

definition backed :: "('q \<Rightarrow> string res) \<Rightarrow> 's \<Rightarrow> ('q \<times> 'r res) list \<Rightarrow> bool" where
  "backed key s log0 \<longleftrightarrow> ok s \<and> (\<forall>t k x. get s t k = Some x \<longrightarrow> (\<exists>q. key q = Inr k \<and> (q, Inr x) \<in> set log0))"

lemma backed_chat:
  assumes b: "backed key s log0" and c: "cached_chat get set0 key ttl chat (t, q, t') (s, w) = ((s', w'), r)"
  shows "backed key s' (log0 @ reached get key chat (t, q, t') (s, w))"
    and "r = Inr x \<Longrightarrow> (\<exists>q'. (q' = q \<or> key q' = key q \<and> (\<exists>k. key q = Inr k)) \<and>
       (q', Inr x) \<in> set (log0 @ reached get key chat (t, q, t') (s, w)))"
proof -
  have mono: "backed key s (log0 @ l)" for l using b unfolding backed_def by fastforce
  show "backed key s' (log0 @ reached get key chat (t, q, t') (s, w))"
  proof (cases "key q")
    case (Inl e)
    then have "s' = s" using c by (auto simp: cached_chat_def split: prod.splits)
    then show ?thesis using mono by simp
  next
    case (Inr k)
    show ?thesis
    proof (cases "get s t k")
      case None
      obtain w1 r1 where ch: "chat w q = (w1, r1)" by fastforce
      show ?thesis
      proof (cases r1)
        case (Inl e)
        then have "s' = s" using c Inr None ch by (simp add: cached_chat_def)
        then show ?thesis using mono by simp
      next
        case r1: (Inr r2)
        then have s': "s' = set0 s t' k r2 ttl" using c Inr None ch by (simp add: cached_chat_def)
        have re: "reached get key chat (t, q, t') (s, w) = [(q, Inr r2)]"
          using Inr None ch r1 by (simp add: reached_def)
        have o: "ok s" using b by (simp add: backed_def)
        show ?thesis
          unfolding backed_def
        proof (intro conjI allI impI)
          show "ok s'" using ok_set [OF o] by (simp add: s')
        next
          fix u k' x assume "get s' u k' = Some x"
          then consider "k' = k" "x = r2" | "get s u k' = Some x" using get_set [OF o] unfolding s' by blast
          then show "\<exists>q'. key q' = Inr k' \<and> (q', Inr x) \<in> set (log0 @ reached get key chat (t, q, t') (s, w))"
          proof cases
            case 1
            then show ?thesis using Inr re by (intro exI [of _ q]) simp
          next
            case 2
            then show ?thesis using b unfolding backed_def by fastforce
          qed
        qed
      qed
    next
      case (Some r2)
      then have "s' = s" using c Inr by (simp add: cached_chat_def)
      then show ?thesis using mono by simp
    qed
  qed
  assume r: "r = Inr x"
  show "\<exists>q'. (q' = q \<or> key q' = key q \<and> (\<exists>k. key q = Inr k)) \<and>
       (q', Inr x) \<in> set (log0 @ reached get key chat (t, q, t') (s, w))"
  proof (cases "\<exists>k y. key q = Inr k \<and> get s t k = Some y")
    case True
    then obtain k y where k: "key q = Inr k" "get s t k = Some y" by blast
    then have "y = x" using c r by (simp add: cached_chat_def)
    with k b obtain q' where "key q' = Inr k" "(q', Inr x) \<in> set log0" unfolding backed_def by blast
    with k(1) show ?thesis by (intro exI [of _ q']) simp
  next
    case False
    then have "(q, Inr x) \<in> set (reached get key chat (t, q, t') (s, w))"
      using c r by (auto simp: cached_chat_def reached_def split: sum.splits prod.splits option.splits)
    then show ?thesis by auto
  qed
qed

lemma cached_run_backed:
  "backed key s log0 \<Longrightarrow> cached_run get set0 key ttl chat cs (s, w) = (answers, asked) \<Longrightarrow> (q, Inr x) \<in> set answers \<Longrightarrow>
     \<exists>q'. (q' = q \<or> key q' = key q \<and> (\<exists>k. key q = Inr k)) \<and> (q', Inr x) \<in> set (log0 @ asked)"
proof (induction cs arbitrary: s w answers asked log0)
  case (Cons c cs)
  obtain t q0 t' where c: "c = (t, q0, t')" by (cases c) auto
  obtain s' w' r where ch: "cached_chat get set0 key ttl chat c (s, w) = ((s', w'), r)" by (metis surj_pair)
  obtain answers' asked' where run: "cached_run get set0 key ttl chat cs (s', w') = (answers', asked')" by fastforce
  have a: "answers = (q0, r) # answers'" "asked = reached get key chat c (s, w) @ asked'"
    using Cons.prems(2) ch run by (simp_all add: c)
  note step = backed_chat [OF Cons.prems(1) ch [unfolded c]]
  from Cons.prems(3) a(1) consider "q = q0" "r = Inr x" | "(q, Inr x) \<in> set answers'" by auto
  then show ?case
  proof cases
    case 1
    then show ?thesis using step(2) [of x] by (auto simp: a(2) c)
  next
    case 2
    from Cons.IH [OF step(1) run 2] show ?thesis by (simp add: a(2) c)
  qed
qed simp

end

section \<open>\<open>MapCache\<close>\<close>

record 'r cache_entry =
  ce_resp :: 'r
  expiresAt :: int
  createdAt :: int

record 'r map_cache =
  entries :: "(string \<times> 'r cache_entry) list"
  maxEntries :: int

definition WithMaxEntries :: "int \<Rightarrow> 'r map_cache \<Rightarrow> 'r map_cache" where
  "WithMaxEntries n c = c\<lparr>maxEntries := n\<rparr>"

definition NewMapCache :: "('r map_cache \<Rightarrow> 'r map_cache) list \<Rightarrow> 'r map_cache" where
  "NewMapCache opts = fold (\<lambda>opt c. opt c) opts \<lparr>entries = [], maxEntries = 1000\<rparr>"

definition cache_Get :: "'r map_cache \<Rightarrow> int \<Rightarrow> string \<Rightarrow> 'r option" where
  "cache_Get c now key =
     (case map_of (entries c) key of
        None \<Rightarrow> None
      | Some e \<Rightarrow> if now > expiresAt e then None else Some (ce_resp e))"

text \<open>The loop over the entries that looks for the oldest one; the empty string means that none was
  seen yet.\<close>

fun oldest :: "(string \<times> 'r cache_entry) list \<Rightarrow> string \<Rightarrow> int \<Rightarrow> string" where
  "oldest [] oldestKey oldestTime = oldestKey"
| "oldest ((k, e) # es) oldestKey oldestTime =
     (if oldestKey = [] \<or> createdAt e < oldestTime then oldest es k (createdAt e)
      else oldest es oldestKey oldestTime)"

definition evict ::
  "((string \<times> 'r cache_entry) list \<Rightarrow> (string \<times> 'r cache_entry) list) \<Rightarrow> int \<Rightarrow>
     (string \<times> 'r cache_entry) list \<Rightarrow> (string \<times> 'r cache_entry) list" where
  "evict shuffle mx es =
     (if mx > 0 \<and> int (length es) \<ge> mx then
        (let k = oldest (shuffle es) [] 0 in if k \<noteq> [] then AList.delete k es else es)
      else es)"

text \<open>\<open>shuffle\<close> is the order in which \<open>range\<close> visits the entries of the map.\<close>

definition cache_Set ::
  "((string \<times> 'r cache_entry) list \<Rightarrow> (string \<times> 'r cache_entry) list) \<Rightarrow>
     'r map_cache \<Rightarrow> int \<Rightarrow> string \<Rightarrow> 'r \<Rightarrow> int \<Rightarrow> 'r map_cache" where
  "cache_Set shuffle c now key resp ttl =
     (let live = filter (\<lambda>(k, e). \<not> now > expiresAt e) (entries c)
      in c\<lparr>entries := AList.update key \<lparr>ce_resp = resp, expiresAt = now + ttl, createdAt = now\<rparr>
             (evict shuffle (maxEntries c) live)\<rparr>)"

section \<open>\<open>MapCache\<close> implements the interface\<close>

definition cache_ok :: "'r map_cache \<Rightarrow> bool" where
  "cache_ok c \<longleftrightarrow> distinct (map fst (entries c))"

lemma evict_sub: "set (evict shuffle mx es) \<subseteq> set es"
  by (auto simp: evict_def Let_def AList.delete_eq)

lemma evict_distinct: "distinct (map fst es) \<Longrightarrow> distinct (map fst (evict shuffle mx es))"
  by (auto simp: evict_def Let_def intro: distinct_delete)

lemma cache_ok_Set: "cache_ok c \<Longrightarrow> cache_ok (cache_Set shuffle c now key resp ttl)"
proof -
  assume "cache_ok c"
  then have "distinct (map fst (filter (\<lambda>(k, e). \<not> now > expiresAt e) (entries c)))"
    by (simp add: cache_ok_def distinct_map_filter)
  from evict_distinct [OF this] show ?thesis
    by (simp add: cache_ok_def cache_Set_def Let_def distinct_update)
qed

lemma cache_ok_New: "cache_ok (NewMapCache [WithMaxEntries n])"
  by (simp add: cache_ok_def NewMapCache_def WithMaxEntries_def)


lemma map_of_filter_distinct:
  "distinct (map fst xs) \<Longrightarrow> map_of (filter P xs) k = Some e \<Longrightarrow> map_of xs k = Some e"
  by (metis (no_types, lifting) distinct_map_filter filter_is_subset map_of_eq_Some_iff subsetD)

lemma map_of_evict: "distinct (map fst es) \<Longrightarrow> map_of (evict shuffle mx es) k = Some e \<Longrightarrow> map_of es k = Some e"
  using evict_sub [of shuffle mx es] evict_distinct [of es shuffle mx]
  by (meson map_of_eq_Some_iff map_of_SomeD subsetD)

interpretation mc: response_cache cache_Get "cache_Set shuffle" cache_ok for shuffle
proof (unfold_locales, goal_cases)
  case (1 s t k r d)
  then show ?case by (rule cache_ok_Set)
next
  case (2 s t k r d t' k' x)
  let ?live = "filter (\<lambda>(k, e). \<not> t > expiresAt e) (entries s)"
  have d: "distinct (map fst (entries s))" "distinct (map fst ?live)"
    using 2(1) by (simp_all add: cache_ok_def distinct_map_filter)
  from 2(2) obtain e where e: "map_of (entries (cache_Set shuffle s t k r d)) k' = Some e"
    "\<not> t' > expiresAt e" "x = ce_resp e"
    by (auto simp: cache_Get_def split: option.splits if_splits)
  show ?case
  proof (cases "k' = k")
    case True
    with e show ?thesis by (auto simp: cache_Set_def Let_def update_conv')
  next
    case False
    with e(1) have "map_of (evict shuffle (maxEntries s) ?live) k' = Some e"
      by (simp add: cache_Set_def Let_def update_conv')
    then have "map_of (entries s) k' = Some e"
      using map_of_evict [OF d(2)] map_of_filter_distinct [OF d(1)] by blast
    with e(2,3) show ?thesis by (simp add: cache_Get_def)
  qed
qed (auto simp: cache_Get_def cache_Set_def Let_def update_conv')

section \<open>Capacity\<close>

lemma oldest_in: "[] \<notin> fst ` set es \<Longrightarrow> k \<noteq> [] \<or> es \<noteq> [] \<Longrightarrow> oldest es k t \<in> insert k (fst ` set es) - {[]}"
proof (induction es k t rule: oldest.induct)
  case (2 k e es k0 t0)
  then show ?case by (cases "k0 = []") auto
qed simp

lemma evict_length:
  assumes "0 < mx" "int (length es) \<le> mx" "[] \<notin> fst ` set es" "mset (shuffle es) = mset es" "distinct (map fst es)"
  shows "int (length (evict shuffle mx es)) < mx"
proof (cases "int (length es) \<ge> mx")
  case True
  then have "es \<noteq> []" using assms(1) by auto
  moreover have s: "set (shuffle es) = set es" using assms(4) by (rule mset_eq_setD)
  ultimately have "shuffle es \<noteq> []" by (metis set_empty)
  then have k: "oldest (shuffle es) [] 0 \<in> fst ` set es - {[]}"
    using oldest_in [of "shuffle es" "[]" 0] assms(3) s by auto
  then have "length (AList.delete (oldest (shuffle es) [] 0) es) < length es"
    by (auto simp: AList.delete_eq intro!: length_filter_less)
  with k True assms(1,2) show ?thesis by (auto simp: evict_def Let_def)
qed (simp add: evict_def)

lemma length_update: "length (AList.update k v es) \<le> Suc (length es)"
  by (induction es) auto

definition within_capacity :: "'r map_cache \<Rightarrow> bool" where
  "within_capacity c \<longleftrightarrow> int (length (entries c)) \<le> maxEntries c \<and> [] \<notin> fst ` set (entries c) \<and> cache_ok c"

lemma within_capacity_Set:
  assumes w: "within_capacity c" and mx: "0 < maxEntries c" and k: "key \<noteq> []" and sh: "\<And>es. mset (shuffle es) = mset es"
  shows "within_capacity (cache_Set shuffle c now key resp ttl)"
proof -
  let ?live = "filter (\<lambda>(k, e). \<not> now > expiresAt e) (entries c)" and ?e = "evict shuffle (maxEntries c) (filter (\<lambda>(k, e). \<not> now > expiresAt e) (entries c))"
  have "length ?live \<le> length (entries c)" by (rule length_filter_le)
  then have live: "int (length ?live) \<le> maxEntries c" using w unfolding within_capacity_def by linarith
  have "[] \<notin> fst ` set ?live" using w by (auto simp: within_capacity_def)
  moreover have "distinct (map fst ?live)" using w by (simp add: within_capacity_def cache_ok_def distinct_map_filter)
  ultimately have small: "int (length ?e) < maxEntries c"
    by (intro evict_length mx live sh)
  let ?c = "cache_Set shuffle c now key resp ttl"
  obtain v where c': "entries ?c = AList.update key v ?e" "maxEntries ?c = maxEntries c"
    by (simp add: cache_Set_def Let_def)
  have "length (entries ?c) \<le> Suc (length ?e)" unfolding c' by (rule length_update)
  then have "int (length (entries ?c)) \<le> maxEntries ?c" using small unfolding c'(2) by linarith
  moreover have "fst ` set ?e \<subseteq> fst ` set (entries c)" using evict_sub [of shuffle "maxEntries c" ?live] by force
  then have "[] \<notin> fst ` set (entries ?c)"
    using w k unfolding c' dom_update within_capacity_def by blast
  moreover have "cache_ok ?c" using w by (simp add: within_capacity_def cache_ok_Set)
  ultimately show ?thesis by (simp add: within_capacity_def)
qed


section \<open>Properties\<close>

text \<open>
  C16: the response cache is sound.  In any run of chat calls through the middleware on a new \<open>MapCache\<close>,
  whatever the clock readings, the time to live and the order in which entries are visited for
  eviction, every response returned for a request was given by the wrapped completer, in this run,
  to that request or to one with the same cache key.
\<close>

theorem cache_returns_own_answers:
  assumes "cached_run cache_Get (cache_Set shuffle) key ttl chat cs (NewMapCache [WithMaxEntries n], w) = (answers, asked)"
    and "(q, Inr x) \<in> set answers"
  shows "\<exists>q'. (q' = q \<or> key q' = key q \<and> (\<exists>k. key q = Inr k)) \<and> (q', Inr x) \<in> set asked"
proof -
  have "mc.backed key (NewMapCache [WithMaxEntries n]) []"
    using cache_ok_New [of n]
    by (simp add: mc.backed_def cache_Get_def NewMapCache_def WithMaxEntries_def)
  from mc.cached_run_backed [OF this assms] show ?thesis by simp
qed

definition demo_key :: "nat \<Rightarrow> string res" where
  "demo_key q = Inr (if even q then ''even'' else ''odd'')"

definition demo_chat :: "nat \<Rightarrow> nat \<Rightarrow> nat \<times> nat res" where
  "demo_chat w q = (Suc w, Inr (100 * q + w))"

definition cache_demo :: "(nat \<times> nat res) list \<times> (nat \<times> nat res) list" where
  "cache_demo = cached_run cache_Get (cache_Set id) demo_key 10 demo_chat
     [(0, 2, 1), (3, 4, 4), (20, 6, 21)] (NewMapCache [WithMaxEntries 1], 0)"

theorem cache_returns_own_answers_witness:
  "(4, Inr 200) \<in> set (fst cache_demo) \<and>
   (\<exists>q'. (q' = 4 \<or> demo_key q' = demo_key 4 \<and> (\<exists>k. demo_key 4 = Inr k)) \<and> (q', Inr 200) \<in> set (snd cache_demo))"
proof -
  have d: "cache_demo = ([(2, Inr 200), (4, Inr 200), (6, Inr 601)], [(2, Inr 200), (6, Inr 601)])"
    by code_simp
  have m: "(4, Inr 200) \<in> set (fst cache_demo)" unfolding d by simp
  from cache_returns_own_answers [OF prod.collapse [symmetric, of cache_demo, unfolded cache_demo_def],
      of 4 200, folded cache_demo_def, OF m] m
  show ?thesis by (intro conjI)
qed

end
