(* ===== verification/Middleware.thy ===== *)
theory Middleware
  imports Circuit RateLimit Retry Cache
begin

text \<open>
  Chains of middleware (\<open>largemodel/middleware.go\<close>) and the wrappers of the breaker, the
  limiter, the retrier and the cache around a completer.  A completer is a function on a world that
  holds the clock, the state of each middleware and the state of the backend; only chat calls are
  wrapped here, stream calls pass through the same gates.
\<close>

type_synonym ('w, 'q, 'r) completer = "'w \<Rightarrow> 'q \<Rightarrow> 'w \<times> 'r res"

type_synonym ('w, 'q, 'r) middleware = "('w, 'q, 'r) completer \<Rightarrow> ('w, 'q, 'r) completer"

section \<open>Chains\<close>

text \<open>The loop of \<open>Chain\<close> runs from the last index down to the first.\<close>

fun wrap_from :: "('w, 'q, 'r) middleware list \<Rightarrow> nat \<Rightarrow> ('w, 'q, 'r) completer \<Rightarrow> ('w, 'q, 'r) completer" where
  "wrap_from ms 0 wrapped = wrapped"
| "wrap_from ms (Suc i) wrapped = wrap_from ms i ((ms ! i) wrapped)"

definition Chain :: "('w, 'q, 'r) completer \<Rightarrow> ('w, 'q, 'r) middleware list \<Rightarrow> ('w, 'q, 'r) completer" where
  "Chain base middlewares = wrap_from middlewares (length middlewares) base"

definition DefaultChain ::
  "('w, 'q, 'r) completer \<Rightarrow> ('w, 'q, 'r) middleware option list \<Rightarrow> ('w, 'q, 'r) completer" where
  "DefaultChain base middlewares = Chain base (map the (filter (\<lambda>m. m \<noteq> None) middlewares))"

lemma wrap_from_foldr: "i \<le> length ms \<Longrightarrow> wrap_from ms i base = foldr (\<lambda>m w. m w) (take i ms) base"
  by (induction i arbitrary: base) (simp_all add: take_Suc_conv_app_nth)

lemma Chain_foldr: "Chain base ms = foldr (\<lambda>m w. m w) ms base"
  by (simp add: Chain_def wrap_from_foldr)

lemma Chain_simps [simp]:
  "Chain base [] = base"
  "Chain base (m # ms) = m (Chain base ms)"
  by (simp_all add: Chain_foldr)

lemma Chain_append: "Chain base (ms @ ms') = Chain (Chain base ms') ms"
  by (simp add: Chain_foldr)

lemma DefaultChain_simps [simp]:
  "DefaultChain base [] = base"
  "DefaultChain base (None # ms) = DefaultChain base ms"
  "DefaultChain base (Some m # ms) = m (DefaultChain base ms)"
  by (simp_all add: DefaultChain_def)

section \<open>The wrappers\<close>

record ('r, 'b) world =
  clock :: int
  w_breaker :: breaker
  w_limiter :: limiter
  w_cache :: "'r map_cache"
  w_backend :: 'b

definition breaker_Wrap :: "(('r, 'b) world, 'q, 'r) middleware" where
  "breaker_Wrap next0 w q =
     (case allow (clock w) (w_breaker w) of
        (b, Some e) \<Rightarrow> (w\<lparr>w_breaker := b\<rparr>, Inl e)
      | (b, None) \<Rightarrow>
          (case next0 (w\<lparr>w_breaker := b\<rparr>) q of
             (w', r) \<Rightarrow> (w'\<lparr>w_breaker := recordResult (clock w') (error_of r) (w_breaker w')\<rparr>, r)))"

text \<open>\<open>tokens_of\<close> is \<open>resp.Usage.TotalTokens\<close>.\<close>

definition limiter_Wrap :: "('r \<Rightarrow> int) \<Rightarrow> (('r, 'b) world, 'q, 'r) middleware" where
  "limiter_Wrap tokens_of next0 w q =
     (case allowRequest (clock w) (w_limiter w) of
        (l, Some e) \<Rightarrow> (w\<lparr>w_limiter := l\<rparr>, Inl e)
      | (l, None) \<Rightarrow>
          (case next0 (w\<lparr>w_limiter := l\<rparr>) q of
             (w', Inl e) \<Rightarrow> (w', Inl e)
           | (w', Inr r) \<Rightarrow> (w'\<lparr>w_limiter := recordTokens (clock w') (tokens_of r) (w_limiter w')\<rparr>, Inr r)))"

definition cache_Wrap :: "('q \<Rightarrow> string res) \<Rightarrow> int \<Rightarrow> (('r, 'b) world, 'q, 'r) middleware" where
  "cache_Wrap key ttl next0 w q =
     (case key q of
        Inl e \<Rightarrow> next0 w q
      | Inr k \<Rightarrow>
          (case cache_Get (w_cache w) (clock w) k of
             Some r \<Rightarrow> (w, Inr r)
           | None \<Rightarrow>
               (case next0 w q of
                  (w', Inl e) \<Rightarrow> (w', Inl e)
                | (w', Inr r) \<Rightarrow> (w'\<lparr>w_cache := cache_Set id (w_cache w') (clock w') k r ttl\<rparr>, Inr r))))"

section \<open>Properties of stacks\<close>

text \<open>
  An open circuit shields everything below it.  In a chain whose first middleware is the breaker, a
  call made while the circuit is open and the timeout has not passed returns the circuit error and
  changes nothing: neither the other middleware nor the backend sees it.
\<close>

lemma open_circuit_shields:
  assumes "cb_state (w_breaker w) = StateOpen" and "clock w - lastFailureAt (w_breaker w) < resetTimeout (w_breaker w)"
  shows "DefaultChain base (Some breaker_Wrap # ms) w q = (w, Inl ErrCircuitOpen)"
proof -
  have "allow (clock w) (w_breaker w) = (w_breaker w, Some ErrCircuitOpen)"
    using assms by (simp add: allow_def)
  then show ?thesis by (simp add: breaker_Wrap_def)
qed

definition open_world :: "(nat, nat) world" where
  "open_world = \<lparr>clock = 7, w_breaker = (NewCircuitBreakerMiddleware [])\<lparr>cb_state := StateOpen, lastFailureAt := 5\<rparr>,
     w_limiter = NewRateLimitMiddleware [], w_cache = NewMapCache [], w_backend = 0\<rparr>"

definition counting_backend :: "((nat, nat) world, nat, nat) completer" where
  "counting_backend w q = (w\<lparr>w_backend := Suc (w_backend w)\<rparr>, Inr q)"

theorem open_circuit_shields_witness:
  "DefaultChain counting_backend [Some breaker_Wrap, None, Some (limiter_Wrap int)] open_world 3 =
     (open_world, Inl ErrCircuitOpen)"
  by (rule open_circuit_shields) (simp_all add: open_world_def NewCircuitBreakerMiddleware_def)

text \<open>Below the breaker, a rejection by the limiter counts as a failure of the model.\<close>

lemma limiter_rejection_counts:
  assumes "cb_state (w_breaker w) = StateClosed"
    and "allowRequest (clock w) (w_limiter w) = (l, Some e)"
  shows "DefaultChain base (Some breaker_Wrap # Some (limiter_Wrap tokens_of) # ms) w q =
    (w\<lparr>w_limiter := l, w_breaker := recordResult (clock w) (Some e) (w_breaker w)\<rparr>, Inl e)"
  using assms by (simp add: breaker_Wrap_def limiter_Wrap_def allow_def error_of_def)

end
