(* ===== verification/Observers.thy ===== *)
theory Observers
  imports Middleware Schema
begin

text \<open>
  Middleware that watches or limits a call: \<open>largemodel/log.go\<close>, \<open>metrics.go\<close> and \<open>timeout.go\<close>, and the model that puts
  a chain around a completer (\<open>model.go\<close>).  What is logged and dispatched is appended to a list in the world; the
  time between two points is read off the worlds by a function.  \<open>aimodel.WrapStream\<close> is represented by
  the function it is given for the end of a stream.
\<close>

section \<open>Records and events\<close>

text \<open>The events of \<open>metrics.go\<close> and the records of \<open>log.go\<close>; the numbers of an end are those of the usage.\<close>

datatype observation =
    LLMCallStart string nat nat bool
  | LLMCallEnd string int int int int int bool
  | LLMCallError string int string bool
  | LogStart string nat nat
  | LogDone string int int int int
  | LogError string int gerror
  | LogStreamStart string nat
  | LogStreamError string gerror

record 's observed =
  ob_state :: 's
  ob_log :: "observation list"

definition observe :: "observation \<Rightarrow> 's observed \<Rightarrow> 's observed" where
  "observe e w = w\<lparr>ob_log := ob_log w @ [e]\<rparr>"

lemma observe_simps [simp]:
  "ob_state (observe e w) = ob_state w"
  "ob_log (observe e w) = ob_log w @ [e]"
  by (simp_all add: observe_def)

section \<open>The wrappers of chat calls\<close>

text \<open>\<open>elapsed\<close> gives the milliseconds between two worlds, \<open>usage_of\<close> is \<open>resp.Usage\<close>.\<close>

definition metrics_chat ::
  "('s \<Rightarrow> 's \<Rightarrow> int) \<Rightarrow> ('r \<Rightarrow> usage) \<Rightarrow> (gerror \<Rightarrow> string) \<Rightarrow> ('s observed, ('m, 't, 'x) chat_request, 'r) middleware" where
  "metrics_chat elapsed usage_of errText next0 w req =
     (let w1 = observe (LLMCallStart (cr_Model req) (length (cr_Messages req)) (length (cr_Tools req)) False) w in
      case next0 w1 req of
        (w2, Inl err) \<Rightarrow>
          (observe (LLMCallError (cr_Model req) (elapsed (ob_state w1) (ob_state w2)) (errText err) False) w2, Inl err)
      | (w2, Inr resp) \<Rightarrow>
          (let u = usage_of resp in
           (observe (LLMCallEnd (cr_Model req) (elapsed (ob_state w1) (ob_state w2)) (PromptTokens u) (CompletionTokens u)
              (TotalTokens u) (CacheReadTokens u) False) w2, Inr resp)))"

definition log_chat ::
  "('s \<Rightarrow> 's \<Rightarrow> int) \<Rightarrow> ('r \<Rightarrow> usage) \<Rightarrow> ('s observed, ('m, 't, 'x) chat_request, 'r) middleware" where
  "log_chat elapsed usage_of next0 w req =
     (let w1 = observe (LogStart (cr_Model req) (length (cr_Messages req)) (length (cr_Tools req))) w in
      case next0 w1 req of
        (w2, Inl err) \<Rightarrow> (observe (LogError (cr_Model req) (elapsed (ob_state w1) (ob_state w2)) err) w2, Inl err)
      | (w2, Inr resp) \<Rightarrow>
          (let u = usage_of resp in
           (observe (LogDone (cr_Model req) (elapsed (ob_state w1) (ob_state w2)) (PromptTokens u) (CompletionTokens u)
              (TotalTokens u)) w2, Inr resp)))"

section \<open>The wrappers of streams\<close>

text \<open>A stream comes with the functions to be called when it is closed, on the usage seen.\<close>

type_synonym ('s, 'd) watched_stream = "'d \<times> (usage option \<Rightarrow> 's observed \<Rightarrow> 's observed) list"

definition metrics_stream ::
  "('s \<Rightarrow> 's \<Rightarrow> int) \<Rightarrow> (gerror \<Rightarrow> string) \<Rightarrow> ('s observed, ('m, 't, 'x) chat_request, ('s, 'd) watched_stream) middleware" where
  "metrics_stream elapsed errText next0 w req =
     (let w1 = observe (LLMCallStart (cr_Model req) (length (cr_Messages req)) (length (cr_Tools req)) True) w in
      case next0 w1 req of
        (w2, Inl err) \<Rightarrow>
          (observe (LLMCallError (cr_Model req) (elapsed (ob_state w1) (ob_state w2)) (errText err) True) w2, Inl err)
      | (w2, Inr (s, onClose)) \<Rightarrow>
          (w2, Inr (s, onClose @ [\<lambda>used w3.
             let u = (case used of Some u \<Rightarrow> u | None \<Rightarrow> usage_zero)
             in observe (LLMCallEnd (cr_Model req) (elapsed (ob_state w1) (ob_state w3)) (PromptTokens u) (CompletionTokens u)
                  (TotalTokens u) (CacheReadTokens u) True) w3])))"

definition log_stream ::
  "('s observed, ('m, 't, 'x) chat_request, 'd) middleware" where
  "log_stream next0 w req =
     (let w1 = observe (LogStreamStart (cr_Model req) (length (cr_Messages req))) w in
      case next0 w1 req of
        (w2, Inl err) \<Rightarrow> (observe (LogStreamError (cr_Model req) err) w2, Inl err)
      | (w2, Inr s) \<Rightarrow> (w2, Inr s))"

section \<open>Deadlines\<close>

text \<open>A completer with the deadline of its context; \<open>context.WithTimeout\<close> never extends one.\<close>

type_synonym ('w, 'q, 'r) timed_completer = "int option \<Rightarrow> ('w, 'q, 'r) completer"

definition WithTimeout :: "int \<Rightarrow> int \<Rightarrow> int option \<Rightarrow> int option" where
  "WithTimeout now d deadline = (case deadline of None \<Rightarrow> Some (now + d) | Some t \<Rightarrow> Some (min t (now + d)))"

definition timeout_chat :: "('w \<Rightarrow> int) \<Rightarrow> int \<Rightarrow> ('w, 'q, 'r) timed_completer \<Rightarrow> ('w, 'q, 'r) timed_completer" where
  "timeout_chat now timeout next0 deadline w req = next0 (WithTimeout (now w) timeout deadline) w req"

definition timeout_stream :: "int \<Rightarrow> ('w, 'q, 'r) timed_completer \<Rightarrow> ('w, 'q, 'r) timed_completer" where
  "timeout_stream timeout next0 deadline w req = next0 deadline w req"

text \<open>Nested timeouts give the earliest deadline.\<close>

lemma timeout_chat_nested:
  "foldr (timeout_chat now) (map fst ds) next0 deadline w req =
     next0 (fold (\<lambda>d. WithTimeout (now w) (fst d)) ds deadline) w req"
  by (induction ds arbitrary: deadline) (simp_all add: timeout_chat_def)

lemma WithTimeout_commute:
  "WithTimeout now d (WithTimeout now d' deadline) = WithTimeout now (min d d') deadline"
  by (auto simp: WithTimeout_def min_def split: option.split)

section \<open>The model\<close>

definition WithMiddleware :: "('w, 'q, 'r) middleware list \<Rightarrow> ('w, 'q, 'r) middleware list \<Rightarrow> ('w, 'q, 'r) middleware list" where
  "WithMiddleware mws middlewares = middlewares @ mws"

definition lm_New ::
  "('w, 'q, 'r) completer \<Rightarrow> (('w, 'q, 'r) middleware list \<Rightarrow> ('w, 'q, 'r) middleware list) list \<Rightarrow> ('w, 'q, 'r) completer" where
  "lm_New base opts = Chain base (fold (\<lambda>opt c. opt c) opts [])"

lemma fold_WithMiddleware: "fold (\<lambda>opt c. opt c) (map WithMiddleware mwss) c = c @ concat mwss"
  by (induction mwss arbitrary: c) (simp_all add: WithMiddleware_def)

lemma lm_New_concat: "lm_New base (map WithMiddleware mwss) = Chain base (concat mwss)"
  by (simp add: lm_New_def fold_WithMiddleware)

section \<open>Observation changes nothing\<close>

datatype observer = Metrics | Logging

definition observing ::
  "('s \<Rightarrow> 's \<Rightarrow> int) \<Rightarrow> ('r \<Rightarrow> usage) \<Rightarrow> (gerror \<Rightarrow> string) \<Rightarrow> observer \<Rightarrow>
     ('s observed, ('m, 't, 'x) chat_request, 'r) middleware" where
  "observing elapsed usage_of errText k =
     (case k of Metrics \<Rightarrow> metrics_chat elapsed usage_of errText | Logging \<Rightarrow> log_chat elapsed usage_of)"

text \<open>What an observer notes before a call and after it.\<close>

definition before_call :: "('m, 't, 'x) chat_request \<Rightarrow> observer \<Rightarrow> observation" where
  "before_call req k =
     (case k of
        Metrics \<Rightarrow> LLMCallStart (cr_Model req) (length (cr_Messages req)) (length (cr_Tools req)) False
      | Logging \<Rightarrow> LogStart (cr_Model req) (length (cr_Messages req)) (length (cr_Tools req)))"

definition after_call ::
  "('r \<Rightarrow> usage) \<Rightarrow> (gerror \<Rightarrow> string) \<Rightarrow> ('m, 't, 'x) chat_request \<Rightarrow> int \<Rightarrow> 'r res \<Rightarrow> observer \<Rightarrow> observation" where
  "after_call usage_of errText req ms r k =
     (case (k, r) of
        (Metrics, Inl err) \<Rightarrow> LLMCallError (cr_Model req) ms (errText err) False
      | (Metrics, Inr resp) \<Rightarrow> (let u = usage_of resp in
          LLMCallEnd (cr_Model req) ms (PromptTokens u) (CompletionTokens u) (TotalTokens u) (CacheReadTokens u) False)
      | (Logging, Inl err) \<Rightarrow> LogError (cr_Model req) ms err
      | (Logging, Inr resp) \<Rightarrow> (let u = usage_of resp in
          LogDone (cr_Model req) ms (PromptTokens u) (CompletionTokens u) (TotalTokens u)))"

definition unobserved :: "('s, 'q, 'r) completer \<Rightarrow> ('s observed, 'q, 'r) completer" where
  "unobserved base w req = (case base (ob_state w) req of (s, r) \<Rightarrow> (w\<lparr>ob_state := s\<rparr>, r))"

lemma observing_once:
  assumes "next0 (observe (before_call req k) w) req = (w', r)"
  shows "observing elapsed usage_of errText k next0 w req =
    (observe (after_call usage_of errText req (elapsed (ob_state w) (ob_state w')) r k) w', r)"
  using assms
  by (cases k; cases r)
    (simp_all add: observing_def before_call_def after_call_def metrics_chat_def log_chat_def Let_def)

text \<open>A chain of observers gives the answer of the completer and leaves its state to it; the notes nest: the observer that
  begins first ends last, and all of them see the same outcome.\<close>

lemma observers_transparent:
  assumes "base (ob_state w) req = (s, r)"
  shows "Chain (unobserved base) (map (observing elapsed usage_of errText) ks) w req =
    (\<lparr>ob_state = s, ob_log = ob_log w @ map (before_call req) ks @
       map (after_call usage_of errText req (elapsed (ob_state w) s) r) (rev ks)\<rparr>, r)"
  using assms
proof (induction ks arbitrary: w)
  case Nil
  then show ?case by (simp add: unobserved_def)
next
  case (Cons k ks)
  let ?w = "observe (before_call req k) w"
  from Cons.IH [of ?w] Cons.prems
  have "Chain (unobserved base) (map (observing elapsed usage_of errText) ks) ?w req =
      (\<lparr>ob_state = s, ob_log = ob_log ?w @ map (before_call req) ks @
         map (after_call usage_of errText req (elapsed (ob_state w) s) r) (rev ks)\<rparr>, r)"
    by simp
  from observing_once [of "Chain (unobserved base) (map (observing elapsed usage_of errText) ks)" req k w, OF this] show ?case by (simp add: observe_def)
qed

end
