(* ===== verification/Messages.thy ===== *)
theory Messages
  imports GoStrings
begin

text \<open>
  Messages (\<open>schema/message.go\<close>) and token estimates (\<open>memory/token_estimate.go\<close>).  Of the foreign type
  \<open>aimodel.Message\<close> the record \<open>ai_message\<close> holds what the sources read: the role, the text of the
  content, the tool calls and the identifier of the call a tool message answers.  A metadata map is the
  list of its entries, in the order the sources write them.
\<close>

datatype role = RoleSystem | RoleUser | RoleAssistant | RoleTool | RoleOther string

record tool_call =
  tc_ID :: string
  tc_Name :: string
  tc_Arguments :: string

record ai_message =
  am_Role :: role
  am_Text :: string
  am_ToolCalls :: "tool_call list"
  am_ToolCallID :: string

datatype meta_value = MBool bool | MInt int | MString string | MOther string

record message =
  m_ai :: ai_message
  m_AgentID :: string
  m_Timestamp :: int
  m_Metadata :: "(string \<times> meta_value) list"

text \<open>\<open>aimodel.Message{Role: r, Content: NewTextContent(s)}\<close>.\<close>

definition text_message :: "role \<Rightarrow> string \<Rightarrow> ai_message" where
  "text_message r s = \<lparr>am_Role = r, am_Text = s, am_ToolCalls = [], am_ToolCallID = []\<rparr>"

abbreviation m_role :: "message \<Rightarrow> role" where
  "m_role m \<equiv> am_Role (m_ai m)"

definition NewUserMessage :: "int \<Rightarrow> string \<Rightarrow> message" where
  "NewUserMessage now s =
     \<lparr>m_ai = text_message RoleUser s, m_AgentID = [], m_Timestamp = now, m_Metadata = []\<rparr>"

definition NewAssistantMessage :: "int \<Rightarrow> ai_message \<Rightarrow> string \<Rightarrow> message" where
  "NewAssistantMessage now m agentID =
     \<lparr>m_ai = m, m_AgentID = agentID, m_Timestamp = now, m_Metadata = []\<rparr>"

definition ToAIModelMessages :: "message list \<Rightarrow> ai_message list" where
  "ToAIModelMessages msgs = map m_ai msgs"

definition FromAIModelMessage :: "int \<Rightarrow> ai_message \<Rightarrow> message" where
  "FromAIModelMessage now m = \<lparr>m_ai = m, m_AgentID = [], m_Timestamp = now, m_Metadata = []\<rparr>"

section \<open>Results of tools\<close>

record content_part =
  cp_Type :: string
  cp_Text :: string

record tool_result =
  tr_ToolCallID :: string
  tr_Content :: "content_part list"
  tr_IsError :: bool

definition TextResult :: "string \<Rightarrow> string \<Rightarrow> tool_result" where
  "TextResult toolCallID s =
     \<lparr>tr_ToolCallID = toolCallID, tr_Content = [\<lparr>cp_Type = ''text'', cp_Text = s\<rparr>], tr_IsError = False\<rparr>"

definition ErrorResult :: "string \<Rightarrow> string \<Rightarrow> tool_result" where
  "ErrorResult toolCallID s =
     \<lparr>tr_ToolCallID = toolCallID, tr_Content = [\<lparr>cp_Type = ''text'', cp_Text = s\<rparr>], tr_IsError = True\<rparr>"

section \<open>Token estimates\<close>

definition EstimateTextTokens :: "string \<Rightarrow> int" where
  "EstimateTextTokens s =
     (if length s = 0 then 0
      else let tokens = int (length s) div 4 in if tokens = 0 then 1 else tokens)"

definition DefaultTokenEstimator :: "message \<Rightarrow> int" where
  "DefaultTokenEstimator m =
     (let s = am_Text (m_ai m) in
      if length s = 0 then 0
      else let tokens = int (length s) div 4 in if tokens = 0 then 1 else tokens)"

lemma DefaultTokenEstimator_text: "DefaultTokenEstimator m = EstimateTextTokens (am_Text (m_ai m))"
  by (simp add: DefaultTokenEstimator_def EstimateTextTokens_def Let_def)

lemma EstimateTextTokens_nonneg [simp]: "0 \<le> EstimateTextTokens s"
  by (simp add: EstimateTextTokens_def Let_def pos_imp_zdiv_nonneg_iff)

lemma EstimateTextTokens_0_iff [simp]: "EstimateTextTokens s = 0 \<longleftrightarrow> s = []"
  by (simp add: EstimateTextTokens_def Let_def)

lemma EstimateTextTokens_mono: "length s \<le> length s' \<Longrightarrow> EstimateTextTokens s \<le> EstimateTextTokens s'"
  by (auto simp: EstimateTextTokens_def Let_def zdiv_mono1)

definition estimate_all :: "('m \<Rightarrow> int) \<Rightarrow> 'm list \<Rightarrow> int" where
  "estimate_all est msgs = sum_list (map est msgs)"

lemma estimate_all_simps [simp]:
  "estimate_all est [] = 0"
  "estimate_all est (m # ms) = est m + estimate_all est ms"
  "estimate_all est (xs @ ys) = estimate_all est xs + estimate_all est ys"
  by (simp_all add: estimate_all_def)

lemma estimate_all_nonneg: "(\<And>m. 0 \<le> est m) \<Longrightarrow> 0 \<le> estimate_all est ms"
  by (induction ms) auto

end
