(* ===== verification/Compress.thy ===== *)
theory Compress
  imports Messages
begin

text \<open>
  The context compressors of package \<open>memory\<close> (\<open>compressor*.go\<close>).  A compressor maps the error of the
  context, messages and a token budget to messages or an error.  Estimators, scorers and summarizers
  are functions; scores and ratios, \<open>float64\<close> in the code, are rationals.
\<close>

type_synonym compressor = "gerror option \<Rightarrow> message list \<Rightarrow> int \<Rightarrow> message list res"

section \<open>Contracts\<close>

text \<open>A selecting compressor only leaves messages out, and never all of them.\<close>

locale selecting_compressor =
  fixes compress :: compressor
  assumes selects: "compress ctx ms b = Inr r \<Longrightarrow> subseq r ms"
    and keeps_some: "compress ctx ms b = Inr r \<Longrightarrow> ms \<noteq> [] \<Longrightarrow> r \<noteq> []"
begin

lemma no_new_messages: "compress ctx ms b = Inr r \<Longrightarrow> set r \<subseteq> set ms \<and> length r \<le> length ms"
  using selects [of ctx ms b r] set_nths_subset
  by (fastforce simp: subseq_conv_nths dest: list_emb_length)

lemma never_longer: "compress ctx ms b = Inr r \<Longrightarrow> length r \<le> length ms"
  using no_new_messages by blast

end

text \<open>A suffix compressor keeps the latest messages.\<close>

locale suffix_compressor =
  fixes compress :: compressor
  assumes keeps_suffix: "compress ctx ms b = Inr r \<Longrightarrow> suffix r ms"
    and keeps_last: "compress ctx ms b = Inr r \<Longrightarrow> ms \<noteq> [] \<Longrightarrow> r \<noteq> []"

sublocale suffix_compressor \<subseteq> selecting_compressor
  by unfold_locales (auto dest: keeps_suffix keeps_last)

context suffix_compressor
begin

lemma latest_stays: "compress ctx ms b = Inr r \<Longrightarrow> ms \<noteq> [] \<Longrightarrow> last r = last ms"
  using keeps_suffix [of ctx ms b r] keeps_last [of ctx ms b r] by (auto simp: suffix_def)

end

section \<open>Token budget\<close>

record budget_compressor =
  tb_estimator :: "message \<Rightarrow> int"

definition NewTokenBudgetCompressor :: budget_compressor where
  "NewTokenBudgetCompressor = \<lparr>tb_estimator = DefaultTokenEstimator\<rparr>"

definition tb_WithTokenEstimator :: "(message \<Rightarrow> int) option \<Rightarrow> budget_compressor \<Rightarrow> budget_compressor" where
  "tb_WithTokenEstimator est c = (case est of Some e \<Rightarrow> c\<lparr>tb_estimator := e\<rparr> | None \<Rightarrow> c)"

text \<open>The loop from the newest message to the oldest: the messages are given in reverse, so the index of
  the first is the number of those behind it.\<close>

fun budget_loop :: "(message \<Rightarrow> int) \<Rightarrow> int \<Rightarrow> int \<Rightarrow> message list \<Rightarrow> nat \<Rightarrow> nat" where
  "budget_loop est maxTokens tot [] startIdx = startIdx"
| "budget_loop est maxTokens tot (m # older) startIdx =
     (let tokens = est m in
      if tot + tokens > maxTokens then startIdx
      else budget_loop est maxTokens (tot + tokens) older (length older))"

definition tb_Compress :: "budget_compressor \<Rightarrow> compressor" where
  "tb_Compress c ctx messages maxTokens =
     (case ctx of
        Some err \<Rightarrow> Inl err
      | None \<Rightarrow>
          if length messages = 0 \<or> maxTokens \<le> 0 then Inr messages
          else
            (let startIdx = budget_loop (tb_estimator c) maxTokens 0 (rev messages) (length messages);
                 startIdx' = (if startIdx \<ge> length messages then length messages - 1 else startIdx)
             in Inr (drop startIdx' messages)))"

text \<open>The start index found by the loop: everything from there on fits, one message more does not.\<close>

lemma budget_loop_spec:
  assumes "ms = xs @ ys" "estimate_all est ys = tot" "tot \<le> b" "j = budget_loop est b tot (rev xs) (length xs)"
  shows "j \<le> length xs \<and> estimate_all est (drop j ms) \<le> b \<and>
    (0 < j \<longrightarrow> b < estimate_all est (drop (j - 1) ms))"
  using assms
proof (induction xs arbitrary: ys tot rule: rev_induct)
  case (snoc x xs)
  show ?case
  proof (cases "tot + est x > b")
    case True
    then show ?thesis using snoc.prems by simp
  next
    case False
    then show ?thesis using snoc.IH [of "x # ys" "tot + est x"] snoc.prems by auto
  qed
qed simp

lemma tb_Compress_suffix: "tb_Compress c ctx ms b = Inr r \<Longrightarrow> suffix r ms"
  by (auto simp: tb_Compress_def Let_def suffix_drop split: option.splits if_splits)

text \<open>Of two suffixes the shorter has the smaller estimate.\<close>

lemma estimate_suffix_mono:
  assumes "\<And>m. 0 \<le> est m" "suffix xs ys"
  shows "estimate_all est xs \<le> estimate_all est ys"
  using assms(2) estimate_all_nonneg [of est, OF assms(1)] by (auto simp: suffix_def)

lemma tb_Compress_spec:
  assumes "tb_Compress c None ms b = Inr r" "0 < b" "\<And>m. 0 \<le> tb_estimator c m"
  shows "(estimate_all (tb_estimator c) r \<le> b \<or> length r = 1) \<and>
    (suffix r' ms \<and> estimate_all (tb_estimator c) r' \<le> b \<longrightarrow> suffix r' r)"
proof (cases "ms = []")
  case True
  then show ?thesis using assms by (simp add: tb_Compress_def)
next
  case False
  let ?e = "tb_estimator c"
  define j where "j = budget_loop ?e b 0 (rev ms) (length ms)"
  have j: "j \<le> length ms" "estimate_all ?e (drop j ms) \<le> b"
      "0 < j \<Longrightarrow> b < estimate_all ?e (drop (j - 1) ms)"
    using budget_loop_spec [of ms ms "[]" ?e 0 b j] assms(2) by (auto simp: j_def)
  have r: "r = drop (if j \<ge> length ms then length ms - 1 else j) ms"
    using assms(1,2) False unfolding j_def by (simp add: tb_Compress_def Let_def split: if_splits)
  have fits: "length r' \<le> length ms - j" if r': "suffix r' ms" "estimate_all ?e r' \<le> b"
  proof (rule ccontr)
    assume long: "\<not> length r' \<le> length ms - j"
    have d: "suffix (drop (j - 1) ms) ms" by (rule suffix_drop)
    have "length (drop (j - 1) ms) \<le> length r'" using long by simp
    then have "suffix (drop (j - 1) ms) r'" by (rule suffix_length_suffix [OF d r'(1)])
    from estimate_suffix_mono [where est = ?e, OF assms(3) this] have "estimate_all ?e (drop (j - 1) ms) \<le> b" using r'(2) by simp
    moreover have "0 < j" using long suffix_length_le [OF r'(1)] by auto
    ultimately show False using j(3) by simp
  qed
  have "suffix r' r" if r': "suffix r' ms" "estimate_all ?e r' \<le> b"
    by (rule suffix_length_suffix [OF r'(1)]) (use fits [OF r'] j(1) in \<open>auto simp: r suffix_drop\<close>)
  moreover have "estimate_all ?e r \<le> b \<or> length r = 1" using j False by (auto simp: r Suc_le_eq)
  ultimately show ?thesis by blast
qed

interpretation tb: suffix_compressor "tb_Compress c" for c
proof unfold_locales
  show "suffix r ms" if "tb_Compress c ctx ms b = Inr r" for ctx ms b r
    using that by (rule tb_Compress_suffix)
  show "r \<noteq> []" if "tb_Compress c ctx ms b = Inr r" "ms \<noteq> []" for ctx ms b r
    using that by (cases ms) (auto simp: tb_Compress_def Let_def split: option.splits if_splits)
qed

section \<open>Sliding window\<close>

record window_compressor =
  windowSize :: int
  budget :: budget_compressor

text \<open>The constructor panics, here \<open>None\<close>, on a window that is not positive.\<close>

definition NewSlidingWindowCompressor :: "int \<Rightarrow> window_compressor option" where
  "NewSlidingWindowCompressor windowSize0 =
     (if windowSize0 \<le> 0 then None
      else Some \<lparr>windowSize = windowSize0, budget = NewTokenBudgetCompressor\<rparr>)"

definition sw_WithTokenEstimator :: "(message \<Rightarrow> int) option \<Rightarrow> window_compressor \<Rightarrow> window_compressor" where
  "sw_WithTokenEstimator est c = c\<lparr>budget := tb_WithTokenEstimator est (budget c)\<rparr>"

definition sw_Compress :: "window_compressor \<Rightarrow> compressor" where
  "sw_Compress c ctx messages maxTokens =
     (case ctx of
        Some err \<Rightarrow> Inl err
      | None \<Rightarrow>
          (let start = (if int (length messages) > windowSize c then length messages - nat (windowSize c) else 0);
               windowed = drop start messages
           in if maxTokens \<le> 0 \<or> length windowed = 0 then Inr windowed
              else tb_Compress (budget c) ctx windowed maxTokens))"

lemma sw_Compress_suffix: "sw_Compress c ctx ms b = Inr r \<Longrightarrow> suffix r ms"
  unfolding sw_Compress_def Let_def
  by (auto split: option.splits if_splits dest!: tb.keeps_suffix
      intro: suffix_drop suffix_order.trans [OF _ suffix_drop])

lemma sw_Compress_keeps: "0 < windowSize c \<Longrightarrow> sw_Compress c ctx ms b = Inr r \<Longrightarrow> ms \<noteq> [] \<Longrightarrow> r \<noteq> []"
  unfolding sw_Compress_def Let_def
  by (auto split: option.splits if_splits dest: tb.keeps_last)

text \<open>Every compressor the constructor returns keeps the latest messages.\<close>

interpretation sw: suffix_compressor "sw_Compress (sw_WithTokenEstimator est (the (NewSlidingWindowCompressor (int (Suc n)))))"
  for est n
proof unfold_locales
  let ?c = "sw_WithTokenEstimator est (the (NewSlidingWindowCompressor (int (Suc n))))"
  have w: "0 < windowSize ?c" by (simp add: NewSlidingWindowCompressor_def sw_WithTokenEstimator_def)
  show "suffix r ms" if "sw_Compress ?c ctx ms b = Inr r" for ctx ms b r
    using that by (rule sw_Compress_suffix)
  show "r \<noteq> []" if "sw_Compress ?c ctx ms b = Inr r" "ms \<noteq> []" for ctx ms b r
    using that by (rule sw_Compress_keeps [OF w])
qed

text \<open>
  The window compressor keeps the longest recent part that fits.  With a positive budget and an
  estimator that is not negative, the result is a suffix of the messages, within the window; it
  contains every suffix within the window whose estimate is within the budget; and it is within the
  budget itself unless it is the latest message alone.
\<close>

lemma window_keeps_longest_fit:
  assumes "NewSlidingWindowCompressor n = Some c0" and "c = sw_WithTokenEstimator (Some est) c0"
    and "\<forall>m. 0 \<le> est m" and "0 < b" and "sw_Compress c None ms b = Inr r"
  shows "suffix r ms \<and> int (length r) \<le> n \<and> (estimate_all est r \<le> b \<or> length r = 1) \<and>
    (suffix r' ms \<and> int (length r') \<le> n \<and> estimate_all est r' \<le> b \<longrightarrow> suffix r' r)"
proof -
  have c: "windowSize c = n" "0 < n" "tb_estimator (budget c) = est"
    using assms(1,2) by (auto simp: NewSlidingWindowCompressor_def sw_WithTokenEstimator_def
        tb_WithTokenEstimator_def split: if_splits)
  define w where "w = drop (if int (length ms) > n then length ms - nat n else 0) ms"
  have w: "suffix w ms" "int (length w) \<le> n" using c(2) by (auto simp: w_def suffix_drop)
  have r: "if w = [] then r = [] else tb_Compress (budget c) None w b = Inr r"
    using assms(4,5) unfolding sw_Compress_def Let_def c w_def [symmetric] by (simp split: if_splits)
  then have rw: "suffix r w" by (auto split: if_splits dest: tb_Compress_suffix)
  have "(estimate_all est r \<le> b \<or> length r = 1) \<and> (suffix r'' w \<and> estimate_all est r'' \<le> b \<longrightarrow> suffix r'' r)" for r''
    using tb_Compress_spec [of "budget c" w b r r''] r assms(3,4) c(3) by (cases "w = []") auto
  moreover have "suffix r' w" if "suffix r' ms" "int (length r') \<le> n"
    by (rule suffix_length_suffix [OF that(1) w(1)]) (use that suffix_length_le [OF that(1)] in \<open>auto simp: w_def\<close>)
  moreover have "suffix r ms" "length r \<le> length w"
    using rw w(1) by (auto intro: suffix_order.trans dest: suffix_length_le)
  ultimately show ?thesis using w(2) by auto
qed

definition demo_messages :: "message list" where
  "demo_messages = map (NewUserMessage 0) [''aaaaaaaaaaaa'', ''bbbbbbbb'', ''cccc'', ''dddddddd'']"

theorem window_keeps_longest_fit_witness:
  "sw_Compress (sw_WithTokenEstimator (Some DefaultTokenEstimator) (the (NewSlidingWindowCompressor 3))) None
     demo_messages 3 = Inr (drop 2 demo_messages) \<and> suffix (drop 3 demo_messages) (drop 2 demo_messages)"
proof -
  let ?c = "sw_WithTokenEstimator (Some DefaultTokenEstimator) (the (NewSlidingWindowCompressor 3))"
  have r: "sw_Compress ?c None demo_messages 3 = Inr (drop 2 demo_messages)" by code_simp
  have c: "NewSlidingWindowCompressor 3 = Some (the (NewSlidingWindowCompressor 3))"
    by (simp add: NewSlidingWindowCompressor_def)
  have "\<forall>m. 0 \<le> DefaultTokenEstimator m" by (simp add: DefaultTokenEstimator_text)
  moreover have "int (length (drop 3 demo_messages)) \<le> 3" "estimate_all DefaultTokenEstimator (drop 3 demo_messages) \<le> 3"
    by code_simp+
  ultimately show ?thesis
    using window_keeps_longest_fit [OF c refl _ _ r, of "drop 3 demo_messages"] r by (simp add: suffix_drop)
qed

section \<open>Importance ranking\<close>

text \<open>The default scorer, at an index of the messages; an index outside panics in the code.\<close>

definition DefaultMessageScorer :: "message list \<Rightarrow> nat \<Rightarrow> rat" where
  "DefaultMessageScorer messages index =
     (let msg = messages ! index;
          base = (case m_role msg of
                    RoleSystem \<Rightarrow> 1000
                  | RoleTool \<Rightarrow> 100
                  | RoleAssistant \<Rightarrow> if length (am_ToolCalls (m_ai msg)) > 0 then 100 else 10
                  | RoleUser \<Rightarrow> 50
                  | _ \<Rightarrow> 10);
          recencyBonus = base * (5 / 100) * of_nat index / of_nat (length messages)
      in base + recencyBonus)"

record ranking_compressor =
  scorer :: "message list \<Rightarrow> nat \<Rightarrow> rat"
  ir_estimator :: "message \<Rightarrow> int"

definition NewImportanceRankingCompressor ::
  "(message list \<Rightarrow> nat \<Rightarrow> rat) option \<Rightarrow> ranking_compressor option" where
  "NewImportanceRankingCompressor scorer0 =
     (case scorer0 of
        None \<Rightarrow> None
      | Some s \<Rightarrow> Some \<lparr>scorer = s, ir_estimator = DefaultTokenEstimator\<rparr>)"

definition NewImportanceRankingCompressorWithDefaults :: "ranking_compressor option" where
  "NewImportanceRankingCompressorWithDefaults = NewImportanceRankingCompressor (Some DefaultMessageScorer)"

definition ir_WithTokenEstimator :: "(message \<Rightarrow> int) option \<Rightarrow> ranking_compressor \<Rightarrow> ranking_compressor" where
  "ir_WithTokenEstimator est c = (case est of Some e \<Rightarrow> c\<lparr>ir_estimator := e\<rparr> | None \<Rightarrow> c)"

text \<open>The greedy loop over the indices in the order of their scores.\<close>

fun ir_select :: "(nat \<Rightarrow> int) \<Rightarrow> int \<Rightarrow> nat list \<Rightarrow> int \<Rightarrow> nat list \<Rightarrow> nat list" where
  "ir_select est maxTokens [] tokenTotal selected = selected"
| "ir_select est maxTokens (i # rest) tokenTotal selected =
     (let tokens = est i in
      if length selected > 0 \<and> tokenTotal + tokens > maxTokens
      then ir_select est maxTokens rest tokenTotal selected
      else ir_select est maxTokens rest (tokenTotal + tokens) (selected @ [i]))"

text \<open>\<open>sort.SliceStable\<close> by descending score.\<close>

definition ranked :: "(message list \<Rightarrow> nat \<Rightarrow> rat) \<Rightarrow> message list \<Rightarrow> nat list" where
  "ranked score messages =
     map fst (sort_key (\<lambda>si. - snd si) (map (\<lambda>i. (i, score messages i)) [0..<length messages]))"

definition ir_Compress :: "ranking_compressor \<Rightarrow> compressor" where
  "ir_Compress c ctx messages maxTokens =
     (case ctx of
        Some err \<Rightarrow> Inl err
      | None \<Rightarrow>
          if length messages = 0 \<or> maxTokens \<le> 0 then Inr messages
          else
            (let selected = ir_select (\<lambda>i. ir_estimator c (messages ! i)) maxTokens
                   (ranked (scorer c) messages) 0 []
             in Inr (map (\<lambda>idx. messages ! idx) (sort selected))))"

lemma ranked_perm [simp]: "set (ranked score ms) = {0..<length ms}" "distinct (ranked score ms)"
  "length (ranked score ms) = length ms"
proof -
  let ?s = "map (\<lambda>i. (i, score ms i)) [0..<length ms]"
  have m: "mset (ranked score ms) = mset [0..<length ms]"
    by (simp add: ranked_def multiset.map_comp comp_def)
  show "set (ranked score ms) = {0..<length ms}" using mset_eq_setD [OF m] by simp
  show "distinct (ranked score ms)" using mset_eq_imp_distinct_iff [OF m] by simp
  show "length (ranked score ms) = length ms" using mset_eq_length [OF m] by simp
qed

lemma ranked_sorted: "sorted (map (\<lambda>i. - score ms i) (ranked score ms))"
proof -
  have "sorted (map (\<lambda>si. - snd si) (sort_key (\<lambda>si. - snd si) (map (\<lambda>i. (i, score ms i)) [0..<length ms])))"
    by (rule sorted_sort_key)
  moreover have "snd si = score ms (fst si)"
    if "si \<in> set (sort_key (\<lambda>si. - snd si) (map (\<lambda>i. (i, score ms i)) [0..<length ms]))" for si
    using that by auto
  ultimately show ?thesis
    unfolding ranked_def map_map comp_def by (metis (mono_tags, lifting) map_cong)
qed

lemma ir_select_full:
  assumes "\<And>i. 0 \<le> est i" "sel \<noteq> []" "b < tot"
  shows "ir_select est b is1 tot sel = sel"
proof (induction is1)
  case (Cons i is1)
  then show ?case using assms(1) [of i] assms(2,3) by (auto simp: Let_def)
qed simp

text \<open>What the greedy loop returns: with the sum of the selected estimates in hand, it adds indices of
  the list, skips one only when it does not fit, and never exceeds the budget after the first.\<close>

lemma ir_select_spec:
  assumes "\<And>i. 0 \<le> est i" "tot = (\<Sum>i\<leftarrow>sel. est i)" "distinct (sel @ is1)"
  shows "\<exists>add. ir_select est b is1 tot sel = sel @ add \<and> subseq add is1 \<and>
     (\<forall>i\<in>set is1 - set add. b < (\<Sum>i\<leftarrow>sel @ add. est i) + est i) \<and>
     ((\<Sum>i\<leftarrow>sel @ add. est i) \<le> max b tot \<or> sel = [] \<and> length add = 1) \<and>
     (sel = [] \<longrightarrow> is1 \<noteq> [] \<longrightarrow> add \<noteq> [] \<and> hd add = hd is1)"
  using assms(2,3)
proof (induction is1 arbitrary: tot sel)
  case (Cons i is1)
  show ?case
  proof (cases "length sel > 0 \<and> tot + est i > b")
    case True
    obtain add where a: "ir_select est b is1 tot sel = sel @ add" "subseq add is1"
        "\<forall>i\<in>set is1 - set add. b < (\<Sum>i\<leftarrow>sel @ add. est i) + est i"
        "(\<Sum>i\<leftarrow>sel @ add. est i) \<le> max b tot \<or> sel = [] \<and> length add = 1"
      using Cons.IH [of tot sel] Cons.prems by auto
    have "0 \<le> (\<Sum>i\<leftarrow>add. est i)" by (rule sum_list_nonneg) (auto simp: assms(1))
    then have "\<forall>k\<in>set (i # is1) - set add. b < (\<Sum>i\<leftarrow>sel @ add. est i) + est k"
      using a(3) True Cons.prems(1) by auto
    then show ?thesis using a True by (intro exI [of _ add]) auto
  next
    case False
    obtain add where a: "ir_select est b is1 (tot + est i) (sel @ [i]) = (sel @ [i]) @ add" "subseq add is1"
        "\<forall>k\<in>set is1 - set add. b < (\<Sum>i\<leftarrow>(sel @ [i]) @ add. est i) + est k"
        "(\<Sum>i\<leftarrow>(sel @ [i]) @ add. est i) \<le> max b (tot + est i)"
      using Cons.IH [of "tot + est i" "sel @ [i]"] Cons.prems by auto
    show ?thesis
    proof (intro exI [of _ "i # add"] conjI)
      show "ir_select est b (i # is1) tot sel = sel @ i # add" using False a(1) by auto
      show "(\<Sum>i\<leftarrow>sel @ i # add. est i) \<le> max b tot \<or> sel = [] \<and> length (i # add) = 1"
      proof (cases "sel = [] \<and> b < est i")
        case True
        have "add = []"
          using ir_select_full [of est "sel @ [i]" b "tot + est i" is1, OF assms(1)] a(1) True Cons.prems(1) by simp
        then show ?thesis using True by simp
      next
        case f: False
        then have "tot + est i \<le> max b tot" using False Cons.prems(1) by (cases sel) auto
        then show ?thesis using a(4) by auto
      qed
    qed (use a in auto)
  qed
qed simp

lemma nths_map_filter: "nths ms A = map (\<lambda>i. ms ! i) (filter (\<lambda>i. i \<in> A) [0..<length ms])"
proof -
  have z: "zip ms [0..<length ms] = map (\<lambda>i. (ms ! i, i)) [0..<length ms]"
    by (rule nth_equalityI) simp_all
  show ?thesis unfolding nths_def z by (simp add: filter_map comp_def)
qed

text \<open>Sorting the selected indices keeps the messages in the order of the conversation.\<close>

lemma map_nth_sort:
  assumes "distinct sel" "set sel \<subseteq> {0..<length ms}"
  shows "map (\<lambda>i. ms ! i) (sort sel) = nths ms (set sel)"
proof -
  have "sort sel = filter (\<lambda>i. i \<in> set sel) [0..<length ms]"
    by (rule sorted_distinct_set_unique) (use assms in \<open>auto simp: sorted_wrt_filter\<close>)
  then show ?thesis by (simp add: nths_map_filter)
qed

lemma ir_Compress_spec:
  assumes "ir_Compress c None ms b = Inr r" "0 < b" "ms \<noteq> []" "\<And>m. 0 \<le> ir_estimator c m"
  obtains A where "A \<subseteq> {0..<length ms}" "r = nths ms A" "hd (ranked (scorer c) ms) \<in> A"
    "(\<Sum>i\<in>A. ir_estimator c (ms ! i)) \<le> b \<or> card A = 1"
    "\<And>i. i < length ms \<Longrightarrow> i \<notin> A \<Longrightarrow> b < (\<Sum>i\<in>A. ir_estimator c (ms ! i)) + ir_estimator c (ms ! i)"
proof -
  let ?e = "\<lambda>i. ir_estimator c (ms ! i)" and ?k = "ranked (scorer c) ms"
  have ne: "?k \<noteq> []" using assms(3) ranked_perm(3) [of "scorer c" ms] by (cases ?k) auto
  obtain add where a: "ir_select ?e b ?k 0 [] = add" "subseq add ?k"
      "\<forall>i\<in>set ?k - set add. b < (\<Sum>i\<leftarrow>add. ?e i) + ?e i"
      "(\<Sum>i\<leftarrow>add. ?e i) \<le> max b 0 \<or> length add = 1" "add \<noteq> []" "hd add = hd ?k"
    using ir_select_spec [of ?e 0 "[]" ?k b] assms(4) ne by auto
  have d: "distinct add" "set add \<subseteq> {0..<length ms}"
    using a(2) set_nths_subset [of ?k] by (auto simp: subseq_conv_nths intro: distinct_nthsI)
  have s: "(\<Sum>i\<leftarrow>add. ?e i) = (\<Sum>i\<in>set add. ?e i)"
    by (simp add: sum_list_distinct_conv_sum_set d(1))
  show thesis
  proof (rule that [of "set add"])
    show "r = nths ms (set add)"
      using assms(1-3) by (simp add: ir_Compress_def a(1) map_nth_sort [OF d])
    show "hd ?k \<in> set add" using a(5,6) by (metis hd_in_set)
    show "(\<Sum>i\<in>set add. ?e i) \<le> b \<or> card (set add) = 1"
      using a(4) assms(2) distinct_card [OF d(1)] s by auto
    show "b < (\<Sum>i\<in>set add. ?e i) + ?e i" if "i < length ms" "i \<notin> set add" for i
      using a(3) that s by auto
  qed (use d in auto)
qed

lemma ir_select_adds:
  "\<exists>add. ir_select est b is1 tot sel = sel @ add \<and> subseq add is1 \<and> (sel = [] \<longrightarrow> is1 \<noteq> [] \<longrightarrow> add \<noteq> [])"
proof (induction is1 arbitrary: tot sel)
  case (Cons i is1)
  from Cons.IH [of tot sel] obtain a1 where
    "ir_select est b is1 tot sel = sel @ a1" "subseq a1 is1" by blast
  moreover from Cons.IH [of "tot + est i" "sel @ [i]"] obtain a2 where
    "ir_select est b is1 (tot + est i) (sel @ [i]) = sel @ i # a2" "subseq a2 is1" by auto
  ultimately show ?case by (auto simp: Let_def intro: exI [of _ a1] exI [of _ "i # a2"])
qed simp

interpretation ir: selecting_compressor "ir_Compress c" for c
proof unfold_locales
  fix ctx ms b r assume r: "ir_Compress c ctx ms b = Inr r"
  let ?k = "ranked (scorer c) ms"
  obtain add where a: "ir_select (\<lambda>i. ir_estimator c (ms ! i)) b ?k 0 [] = add" "subseq add ?k"
      "?k \<noteq> [] \<longrightarrow> add \<noteq> []"
    using ir_select_adds [of "\<lambda>i. ir_estimator c (ms ! i)" b ?k 0 "[]"] by auto
  have d: "distinct add" "set add \<subseteq> {0..<length ms}"
    using a(2) set_nths_subset [of ?k] by (auto simp: subseq_conv_nths intro: distinct_nthsI)
  have e: "r = ms \<or> r = map (\<lambda>i. ms ! i) (sort add)"
    using r by (auto simp: ir_Compress_def a(1) split: option.splits if_splits)
  show "subseq r ms"
  proof -
    have "subseq (nths ms (set add)) ms" by (auto simp: subseq_conv_nths)
    then show ?thesis using e map_nth_sort [OF d] by auto
  qed
  show "r \<noteq> []" if "ms \<noteq> []"
  proof -
    have "?k \<noteq> []" using that ranked_perm(3) [of "scorer c" ms] by (cases ?k) auto
    then have "sort add \<noteq> []" using a(3) by (metis set_sort set_empty)
    then show ?thesis using e that by auto
  qed
qed

lemma estimate_all_nths:
  assumes "A \<subseteq> {0..<length ms}"
  shows "estimate_all est (nths ms A) = (\<Sum>i\<in>A. est (ms ! i))"
proof -
  have "{i. i < length ms \<and> i \<in> A} = A" using assms by auto
  then show ?thesis
    by (simp add: estimate_all_def nths_map_filter comp_def sum_list_distinct_conv_sum_set)
qed

text \<open>With the default scorer the last system message ranks first.\<close>

lemma default_score_bounds:
  assumes "i < length ms"
  shows "m_role (ms ! i) \<noteq> RoleSystem \<Longrightarrow> DefaultMessageScorer ms i \<le> 105"
    and "m_role (ms ! i) = RoleSystem \<Longrightarrow> DefaultMessageScorer ms i = 1000 + 50 * of_nat i / of_nat (length ms)"
proof -
  have "(of_nat i :: rat) / of_nat (length ms) \<le> 1" using assms by (simp add: divide_le_eq_1)
  moreover have "0 \<le> (of_nat i :: rat) / of_nat (length ms)" by simp
  ultimately show "m_role (ms ! i) \<noteq> RoleSystem \<Longrightarrow> DefaultMessageScorer ms i \<le> 105"
    by (auto simp: DefaultMessageScorer_def Let_def split: role.splits)
  show "m_role (ms ! i) = RoleSystem \<Longrightarrow> DefaultMessageScorer ms i = 1000 + 50 * of_nat i / of_nat (length ms)"
    by (simp add: DefaultMessageScorer_def Let_def)
qed

lemma hd_ranked_max:
  assumes "i < length ms" "\<And>j. j < length ms \<Longrightarrow> j \<noteq> i \<Longrightarrow> score ms j < score ms i"
  shows "hd (ranked score ms) = i"
proof -
  have i: "i \<in> set (ranked score ms)" using assms(1) by simp
  then obtain h is1 where k: "ranked score ms = h # is1" by (cases "ranked score ms") auto
  have "h < length ms" using ranked_perm(1) [of score ms] k by auto
  moreover have "score ms i \<le> score ms h"
    using ranked_sorted [of score ms] i k by auto
  ultimately show ?thesis using assms(2) [of h] k by (cases "h = i") auto
qed

lemma last_system_ranks_first:
  assumes "i < length ms" "m_role (ms ! i) = RoleSystem"
    "\<And>j. i < j \<Longrightarrow> j < length ms \<Longrightarrow> m_role (ms ! j) \<noteq> RoleSystem"
  shows "hd (ranked DefaultMessageScorer ms) = i"
proof (rule hd_ranked_max [OF assms(1)])
  fix j assume j: "j < length ms" "j \<noteq> i"
  note b = default_score_bounds [OF j(1)] default_score_bounds [OF assms(1)]
  have i1000: "DefaultMessageScorer ms i \<ge> 1000" using b(4) assms(2) by simp
  show "DefaultMessageScorer ms j < DefaultMessageScorer ms i"
  proof (cases "m_role (ms ! j) = RoleSystem")
    case True
    then have "j < i" using assms(3) [of j] j by (cases "i < j") auto
    then have "(of_nat j :: rat) / of_nat (length ms) < of_nat i / of_nat (length ms)"
      using j(1) by (intro divide_strict_right_mono) auto
    then show ?thesis using b(2) b(4) True assms(2) j(1) by simp
  next
    case False
    then show ?thesis using b(1) i1000 by simp
  qed
qed

text \<open>
  Ranking by importance is greedy, and cannot lose the system prompt.  With the default scorer, a
  positive budget and an estimator that is not negative, the result consists of the messages at
  some positions, in their order; the last system message is among them; they fit the budget
  unless there is only one; and no message that was left out would still fit.
\<close>

lemma ranking_keeps_system_prompt:
  assumes "NewImportanceRankingCompressorWithDefaults = Some c" and "\<forall>m. 0 \<le> est m" and "0 < b"
    and "i < length ms" and "m_role (ms ! i) = RoleSystem"
    and "\<forall>j. i < j \<and> j < length ms \<longrightarrow> m_role (ms ! j) \<noteq> RoleSystem"
    and "ir_Compress (ir_WithTokenEstimator (Some est) c) None ms b = Inr r"
  shows "\<exists>A\<subseteq>{0..<length ms}. r = nths ms A \<and> i \<in> A \<and> (estimate_all est r \<le> b \<or> length r = 1) \<and>
    (\<forall>j<length ms. j \<notin> A \<longrightarrow> b < estimate_all est r + est (ms ! j))"
proof -
  let ?c = "ir_WithTokenEstimator (Some est) c"
  have c: "scorer ?c = DefaultMessageScorer" "ir_estimator ?c = est"
    using assms(1) by (auto simp: NewImportanceRankingCompressorWithDefaults_def
        NewImportanceRankingCompressor_def ir_WithTokenEstimator_def)
  have ne: "ms \<noteq> []" using assms(4) by auto
  have nn: "0 \<le> ir_estimator ?c m" for m using assms(2) c by simp
  obtain A where A: "A \<subseteq> {0..<length ms}" "r = nths ms A" "hd (ranked (scorer ?c) ms) \<in> A"
    "(\<Sum>i\<in>A. ir_estimator ?c (ms ! i)) \<le> b \<or> card A = 1"
    "\<And>i. i < length ms \<Longrightarrow> i \<notin> A \<Longrightarrow> b < (\<Sum>i\<in>A. ir_estimator ?c (ms ! i)) + ir_estimator ?c (ms ! i)"
    using ir_Compress_spec [OF assms(7,3) ne nn] by blast
  have "hd (ranked (scorer ?c) ms) = i"
    unfolding c by (rule last_system_ranks_first) (use assms(4-6) in auto)
  then have i: "i \<in> A" using A(3) by simp
  have card: "length r = card A"
  proof -
    have "{k. k < length ms \<and> k \<in> A} = A" using A(1) by auto
    then show ?thesis by (simp add: A(2) length_nths)
  qed
  have sum: "estimate_all est r = (\<Sum>i\<in>A. est (ms ! i))"
    using A(1) by (simp add: A(2) estimate_all_nths)
  show ?thesis
    using A(1,2) i A(4,5) unfolding c(2) sum card by blast
qed

definition ranked_demo :: "message list" where
  "ranked_demo = map (\<lambda>(r, s). FromAIModelMessage 0 (text_message r s))
     [(RoleSystem, ''be brief''), (RoleUser, ''aaaaaaaaaaaa''), (RoleAssistant, ''bbbb''), (RoleUser, ''cccc'')]"

theorem ranking_keeps_system_prompt_witness:
  "\<exists>r A. ir_Compress (ir_WithTokenEstimator (Some DefaultTokenEstimator) (the NewImportanceRankingCompressorWithDefaults))
     None ranked_demo 3 = Inr r \<and> r = [ranked_demo ! 0, ranked_demo ! 3] \<and> r = nths ranked_demo A \<and> 0 \<in> A"
proof -
  let ?c = "the NewImportanceRankingCompressorWithDefaults"
  have r: "ir_Compress (ir_WithTokenEstimator (Some DefaultTokenEstimator) ?c) None ranked_demo 3 =
      Inr [ranked_demo ! 0, ranked_demo ! 3]" by code_simp
  have c: "NewImportanceRankingCompressorWithDefaults = Some ?c"
    by (simp add: NewImportanceRankingCompressorWithDefaults_def NewImportanceRankingCompressor_def)
  have nn: "\<forall>m. 0 \<le> DefaultTokenEstimator m" by (simp add: DefaultTokenEstimator_text)
  have s: "0 < length ranked_demo" "m_role (ranked_demo ! 0) = RoleSystem" by code_simp+
  have "m_role (ranked_demo ! j) \<noteq> RoleSystem" if "0 < j" "j < length ranked_demo" for j
  proof -
    have "j = 1 \<or> j = 2 \<or> j = 3" using that by (auto simp: ranked_demo_def)
    then show ?thesis by (auto simp: ranked_demo_def FromAIModelMessage_def text_message_def)
  qed
  then have "\<forall>j. 0 < j \<and> j < length ranked_demo \<longrightarrow> m_role (ranked_demo ! j) \<noteq> RoleSystem" by blast
  from ranking_keeps_system_prompt [OF c nn _ s this r] r show ?thesis by auto
qed

section \<open>Chains\<close>

fun chain_Compress :: "compressor list \<Rightarrow> compressor" where
  "chain_Compress [] ctx messages maxTokens = Inr messages"
| "chain_Compress (c # cs) ctx messages maxTokens =
     (case ctx of
        Some err \<Rightarrow> Inl err
      | None \<Rightarrow>
          (case c ctx messages maxTokens of
             Inl err \<Rightarrow> Inl err
           | Inr result \<Rightarrow> chain_Compress cs ctx result maxTokens))"

text \<open>A chain of selecting compressors selects.\<close>

lemma chain_selecting:
  assumes "\<And>c. c \<in> set comps \<Longrightarrow> selecting_compressor c"
  shows "selecting_compressor (chain_Compress comps)"
proof unfold_locales
  fix ctx ms b r assume r: "chain_Compress comps ctx ms b = Inr r"
  have "subseq r ms \<and> (ms \<noteq> [] \<longrightarrow> r \<noteq> [])"
    using assms r
  proof (induction comps arbitrary: ms)
    case (Cons c comps)
    then obtain r1 where r1: "c ctx ms b = Inr r1" "chain_Compress comps ctx r1 b = Inr r"
      by (auto split: option.splits sum.splits)
    have s: "selecting_compressor c" using Cons.prems(1) by simp
    have "subseq r1 ms" "ms \<noteq> [] \<longrightarrow> r1 \<noteq> []"
      using selecting_compressor.selects [OF s r1(1)] selecting_compressor.keeps_some [OF s r1(1)] by auto
    moreover have "subseq r r1 \<and> (r1 \<noteq> [] \<longrightarrow> r \<noteq> [])"
      using Cons.IH [OF _ r1(2)] Cons.prems(1) by auto
    ultimately show ?case using subseq_order.trans by blast
  qed simp
  then show "subseq r ms" "ms \<noteq> [] \<Longrightarrow> r \<noteq> []" by auto
qed

text \<open>Ranking, then the token budget.\<close>

interpretation rank_then_trim: selecting_compressor "chain_Compress [ir_Compress c, tb_Compress d]" for c d
  by (rule chain_selecting) (auto intro: ir.selecting_compressor_axioms tb.selecting_compressor_axioms)

end
