(* ===== verification/Compactor.thy ===== *)
theory Compactor
  imports Compress
begin

text \<open>
  The compressors that summarize (\<open>memory/compressor_summarize_trunc.go\<close>, \<open>memory/compactor.go\<close>).  A
  summarizer is a function of the messages it is given; the error of the context is one value for a
  call, as for the other compressors; the clock is an argument.
\<close>

type_synonym summarizer = "message list \<Rightarrow> string res"

definition summary_message :: "int \<Rightarrow> role \<Rightarrow> string \<Rightarrow> nat \<Rightarrow> string \<Rightarrow> message" where
  "summary_message now r s n strategy =
     \<lparr>m_ai = text_message r s, m_AgentID = [], m_Timestamp = now,
      m_Metadata = [(''compressed'', MBool True), (''source_count'', MInt (int n)), (''strategy'', MString strategy)]\<rparr>"

section \<open>Summarize and truncate\<close>

record summarize_compressor =
  st_summarizer :: summarizer
  keepLastN :: int
  summaryRole :: role
  st_estimator :: "message \<Rightarrow> int"

definition WithSummaryRole :: "role \<Rightarrow> summarize_compressor \<Rightarrow> summarize_compressor" where
  "WithSummaryRole r c = c\<lparr>summaryRole := r\<rparr>"

definition NewSummarizeAndTruncCompressor ::
  "summarizer option \<Rightarrow> int \<Rightarrow> (summarize_compressor \<Rightarrow> summarize_compressor) list \<Rightarrow> summarize_compressor option" where
  "NewSummarizeAndTruncCompressor summarizer0 keep opts =
     (case summarizer0 of
        None \<Rightarrow> None
      | Some f \<Rightarrow>
          if keep \<le> 0 then None
          else Some (fold (\<lambda>opt c. opt c) opts
            \<lparr>st_summarizer = f, keepLastN = keep, summaryRole = RoleUser, st_estimator = DefaultTokenEstimator\<rparr>))"

definition st_WithTokenEstimator :: "(message \<Rightarrow> int) option \<Rightarrow> summarize_compressor \<Rightarrow> summarize_compressor" where
  "st_WithTokenEstimator est c = (case est of Some e \<Rightarrow> c\<lparr>st_estimator := e\<rparr> | None \<Rightarrow> c)"

text \<open>The text of the summary that fits what the recent messages leave of the budget; \<open>None\<close> is the early
  return of the recent messages alone.\<close>

definition fit_summary :: "summarize_compressor \<Rightarrow> int \<Rightarrow> message list \<Rightarrow> string \<Rightarrow> string option" where
  "fit_summary c maxTokens recent summaryText =
     (if maxTokens > 0 then
        (let recentTokens = estimate_all (st_estimator c) recent;
             summaryBudget = maxTokens - recentTokens
         in if summaryBudget \<le> 0 then None
            else
              (let tmpMsg = \<lparr>m_ai = text_message (summaryRole c) summaryText, m_AgentID = [], m_Timestamp = 0,
                             m_Metadata = []\<rparr>;
                   summaryTokens = st_estimator c tmpMsg
               in if summaryTokens > summaryBudget then
                    (let ratio = rat_of_int summaryBudget / rat_of_int summaryTokens;
                         maxLen = trunc_rat (of_nat (length summaryText) * ratio)
                     in if maxLen > 0 then Some (take (nat maxLen) summaryText) else None)
                  else Some summaryText))
      else Some summaryText)"

definition st_Compress :: "summarize_compressor \<Rightarrow> int \<Rightarrow> compressor" where
  "st_Compress c now ctx messages maxTokens =
     (case ctx of
        Some err \<Rightarrow> Inl err
      | None \<Rightarrow>
          if int (length messages) \<le> keepLastN c then Inr messages
          else
            (let splitIdx = length messages - nat (keepLastN c);
                 older = take splitIdx messages;
                 recent = drop splitIdx messages
             in (case st_summarizer c older of
                   Inl err \<Rightarrow> Inl err
                 | Inr summaryText \<Rightarrow>
                     if summaryText = [] then Inr recent
                     else
                       (case fit_summary c maxTokens recent summaryText of
                          None \<Rightarrow> Inr recent
                        | Some s \<Rightarrow>
                            Inr (summary_message now (summaryRole c) s (length older) ''summarize_and_trunc'' # recent)))))"

lemma EstimateTextTokens_le: "0 < b \<Longrightarrow> int (length s) < 4 * b + 4 \<Longrightarrow> EstimateTextTokens s \<le> b"
  using div_int_pos_iff zdiv_mono1 [of "int (length s)" "4 * b + 3" 4] by (simp add: EstimateTextTokens_def Let_def)

text \<open>Cutting a text to the share \<open>b / t\<close> of its length cuts the default estimate from \<open>t\<close> to at most \<open>b\<close>.\<close>

lemma truncated_estimate:
  assumes "0 < b" "b < EstimateTextTokens s"
  shows "EstimateTextTokens (take (nat (trunc_rat (of_nat (length s) * (rat_of_int b / rat_of_int (EstimateTextTokens s))))) s) \<le> b"
proof -
  let ?t = "EstimateTextTokens s" and ?l = "int (length s)"
  have t: "?t = ?l div 4" "1 < ?t" using assms by (auto simp: EstimateTextTokens_def Let_def split: if_splits)
  have "?l * b < (4 * b + 4) * ?t"
  proof -
    have "?l < 4 * ?t + 4" using t(1) by linarith
    then have "?l * b < (4 * ?t + 4) * b" using assms(1) by simp
    also have "\<dots> \<le> (4 * b + 4) * ?t" using assms(2) by (simp add: algebra_simps)
    finally show ?thesis .
  qed
  then have "of_nat (length s) * rat_of_int b < (4 * rat_of_int b + 4) * rat_of_int ?t"
    by (metis (no_types, opaque_lifting) of_int_add of_int_less_iff of_int_mult of_int_numeral of_int_of_nat_eq)
  then have "of_nat (length s) * (rat_of_int b / rat_of_int ?t) < 4 * rat_of_int b + 4"
    using t(2) by (simp add: divide_less_eq)
  moreover have "0 \<le> of_nat (length s) * (rat_of_int b / rat_of_int ?t)" using assms(1) t(2) by simp
  ultimately have "trunc_rat (of_nat (length s) * (rat_of_int b / rat_of_int ?t)) < 4 * b + 4"
    by (simp add: trunc_rat_floor floor_less_iff)
  then have "int (length (take (nat (trunc_rat (of_nat (length s) * (rat_of_int b / rat_of_int ?t)))) s)) < 4 * b + 4"
    using assms(1) by (simp del: of_nat_min add: of_nat_less_iff [symmetric] min_less_iff_disj nat_less_iff)
  then show ?thesis by (rule EstimateTextTokens_le [OF assms(1)])
qed

text \<open>
  Summarizing fits the budget when the recent messages do.  With the default estimator, whatever the
  summarizer, a result that is not the input ends with the configured number of latest messages,
  unchanged and preceded by at most one summary, which says how many messages it replaces; and
  when there is a summary, the whole is within a positive budget.
\<close>

lemma summary_fits_budget:
  assumes "NewSummarizeAndTruncCompressor (Some f) n [WithSummaryRole rl] = Some c"
    and "st_Compress c now None ms b = Inr r" and "n < int (length ms)"
  shows "\<exists>older recent. ms = older @ recent \<and> int (length recent) = n \<and>
    (r = recent \<or> (\<exists>s. r = summary_message now rl s (length older) ''summarize_and_trunc'' # recent \<and> s \<noteq> [] \<and>
       (0 < b \<longrightarrow> estimate_all DefaultTokenEstimator r \<le> b)))"
proof -
  have c: "keepLastN c = n" "0 < n" "summaryRole c = rl" "st_estimator c = DefaultTokenEstimator" "st_summarizer c = f"
    using assms(1) by (auto simp: NewSummarizeAndTruncCompressor_def WithSummaryRole_def split: if_splits)
  define older where "older = take (length ms - nat n) ms"
  define recent where "recent = drop (length ms - nat n) ms"
  have len: "int (length recent) = n" using assms(3) c(2) by (simp add: recent_def)
  have e: "estimate_all DefaultTokenEstimator (summary_message now rl s k st # recent) =
      EstimateTextTokens s + estimate_all DefaultTokenEstimator recent" for s k st
    by (simp add: DefaultTokenEstimator_text summary_message_def text_message_def)
  have fit: "s \<noteq> [] \<and> (0 < b \<longrightarrow> EstimateTextTokens s + estimate_all DefaultTokenEstimator recent \<le> b)"
    if "fit_summary c b recent t = Some s" "t \<noteq> []" for s t
    using that truncated_estimate [of "b - estimate_all DefaultTokenEstimator recent" t]
    by (auto simp: fit_summary_def Let_def c DefaultTokenEstimator_text text_message_def split: if_splits)
  have "r = recent \<or> (\<exists>t s. t \<noteq> [] \<and> fit_summary c b recent t = Some s \<and>
      r = summary_message now rl s (length older) ''summarize_and_trunc'' # recent)"
    using assms(2,3) unfolding st_Compress_def Let_def c recent_def [symmetric] older_def [symmetric]
    by (auto split: sum.splits if_splits option.splits)
  then have "r = recent \<or> (\<exists>s. r = summary_message now rl s (length older) ''summarize_and_trunc'' # recent \<and> s \<noteq> [] \<and>
       (0 < b \<longrightarrow> estimate_all DefaultTokenEstimator r \<le> b))"
    using fit e by (elim disjE exE conjE) metis+
  then show ?thesis using len
    by (intro exI [of _ older] exI [of _ recent]) (simp add: older_def recent_def)
qed

theorem summary_fits_budget_witness:
  "\<exists>c r older recent. NewSummarizeAndTruncCompressor (Some (\<lambda>_. Inr (replicate 80 (CHR ''s'')))) 2 [WithSummaryRole RoleSystem] = Some c \<and>
     st_Compress c 9 None demo_messages 10 = Inr r \<and> length r = 3 \<and> estimate_all DefaultTokenEstimator r = 10 \<and>
     demo_messages = older @ recent \<and> int (length recent) = 2"
proof -
  let ?n = "NewSummarizeAndTruncCompressor (Some (\<lambda>_. Inr (replicate 80 (CHR ''s'')))) 2 [WithSummaryRole RoleSystem]"
  let ?r = "projr (st_Compress (the ?n) 9 None demo_messages 10)"
  have c: "?n = Some (the ?n)" by (simp add: NewSummarizeAndTruncCompressor_def)
  have r: "st_Compress (the ?n) 9 None demo_messages 10 = Inr ?r" by code_simp
  have "length ?r = 3" "estimate_all DefaultTokenEstimator ?r = 10" by code_simp+
  moreover have "2 < int (length demo_messages)" by (simp add: demo_messages_def)
  ultimately show ?thesis using c r summary_fits_budget [OF c r] by blast
qed

section \<open>The conversation compactor\<close>

record compactor =
  cc_summarizer :: summarizer
  cc_estimator :: "message \<Rightarrow> int"
  protectedTurns :: int
  maxInputTokens :: int

definition NewConversationCompactor :: "summarizer \<Rightarrow> int \<Rightarrow> compactor" where
  "NewConversationCompactor f turns =
     \<lparr>cc_summarizer = f, cc_estimator = DefaultTokenEstimator,
      protectedTurns = (if turns < 0 then 0 else turns), maxInputTokens = 0\<rparr>"

definition cc_WithTokenEstimator :: "(message \<Rightarrow> int) option \<Rightarrow> compactor \<Rightarrow> compactor" where
  "cc_WithTokenEstimator est c = (case est of Some e \<Rightarrow> c\<lparr>cc_estimator := e\<rparr> | None \<Rightarrow> c)"

definition WithMaxInputTokens :: "int \<Rightarrow> compactor \<Rightarrow> compactor" where
  "WithMaxInputTokens n c = c\<lparr>maxInputTokens := n\<rparr>"

definition EstimateTokens :: "compactor \<Rightarrow> message list \<Rightarrow> int" where
  "EstimateTokens c messages = estimate_all (cc_estimator c) messages"

definition system_first :: "message list \<Rightarrow> bool" where
  "system_first messages \<longleftrightarrow> m_role (messages ! 0) = RoleSystem"

text \<open>The walk backward: the third argument is \<open>i + 1\<close>, so that 0 ends the loop.\<close>

fun protect_loop :: "message list \<Rightarrow> int \<Rightarrow> nat \<Rightarrow> nat \<Rightarrow> int \<Rightarrow> nat" where
  "protect_loop messages turns 0 protectedStart pairsFound = protectedStart"
| "protect_loop messages turns (Suc i) protectedStart pairsFound =
     (if \<not> pairsFound < turns then protectedStart
      else if system_first messages \<and> i = 0 then protectedStart
      else if m_role (messages ! i) = RoleAssistant then
        if i > 0 \<and> m_role (messages ! (i - 1)) = RoleUser \<and> \<not> (system_first messages \<and> i - 1 = 0)
        then protect_loop messages turns (i - 1) (i - 1) (pairsFound + 1)
        else protect_loop messages turns i i pairsFound
      else protect_loop messages turns i protectedStart pairsFound)"

definition omission_marker :: "int \<Rightarrow> int \<Rightarrow> message" where
  "omission_marker now omitted =
     \<lparr>m_ai = text_message RoleSystem (''[... '' @ itoa omitted @ '' messages omitted ...]''),
      m_AgentID = [], m_Timestamp = now, m_Metadata = []\<rparr>"

definition truncateInput :: "int \<Rightarrow> message list \<Rightarrow> message list" where
  "truncateInput now eligible =
     (if length eligible \<le> 2 then eligible
      else
        (let keepCount = length eligible div 3;
             keepCount' = (if keepCount = 0 then 1 else keepCount);
             omitted = int (length eligible) - 2 * int keepCount'
         in take keepCount' eligible @ [omission_marker now omitted] @ drop (length eligible - keepCount') eligible))"

definition summarizer_input :: "compactor \<Rightarrow> int \<Rightarrow> message list \<Rightarrow> message list" where
  "summarizer_input c now eligible =
     (if maxInputTokens c > 0 \<and> EstimateTokens c eligible > maxInputTokens c
      then truncateInput now eligible else eligible)"

definition Compact :: "compactor \<Rightarrow> int \<Rightarrow> gerror option \<Rightarrow> message list \<Rightarrow> (message list \<times> int) res" where
  "Compact c now ctx messages =
     (case ctx of
        Some err \<Rightarrow> Inl err
      | None \<Rightarrow>
          if length messages = 0 then Inr (messages, 0)
          else
            (let protectedStart = protect_loop messages (protectedTurns c) (length messages) (length messages) 0;
                 eligibleStart = (if system_first messages then 1 else 0);
                 eligibleEnd = protectedStart
             in if eligibleStart \<ge> eligibleEnd then Inr (messages, EstimateTokens c messages)
                else
                  (let eligible = drop eligibleStart (take eligibleEnd messages)
                   in (case cc_summarizer c (summarizer_input c now eligible) of
                         Inl err \<Rightarrow> Inl (Errorf ''compactor summarize: %w'' [] (Some err))
                       | Inr summaryText \<Rightarrow>
                           (let summaryMsg = summary_message now RoleSystem summaryText (length eligible) ''conversation_compact'';
                                result = (if system_first messages then [messages ! 0] else []) @ [summaryMsg]
                                  @ drop protectedStart messages
                            in Inr (result, EstimateTokens c result))))))"

text \<open>The result carries messages, tokens, whether the conversation was compacted, and the error.\<close>

definition CompactIfNeeded ::
  "int \<Rightarrow> gerror option \<Rightarrow> compactor option \<Rightarrow> message list \<Rightarrow> int \<Rightarrow> message list \<times> int \<times> bool \<times> gerror option" where
  "CompactIfNeeded now ctx compactor0 messages threshold =
     (case compactor0 of
        None \<Rightarrow> (messages, 0, False, None)
      | Some c \<Rightarrow>
          (let tokens = EstimateTokens c messages in
           if tokens \<le> threshold then (messages, tokens, False, None)
           else (case Compact c now ctx messages of
                   Inl err \<Rightarrow> (messages, tokens, False, Some err)
                 | Inr (compressed, newTokens) \<Rightarrow> (compressed, newTokens, True, None))))"

lemma truncateInput_length: "length (truncateInput now eligible) \<le> length eligible"
proof (cases "length eligible \<le> 2")
  case False
  then have "0 < length eligible div 3" "2 * (length eligible div 3) + 1 \<le> length eligible"
    by linarith+
  then show ?thesis using False by (simp add: truncateInput_def Let_def)
qed (simp add: truncateInput_def)

text \<open>A turn is an assistant message right after a user message.\<close>

definition turn_at :: "message list \<Rightarrow> nat \<Rightarrow> bool" where
  "turn_at ms i \<longleftrightarrow> 0 < i \<and> i < length ms \<and> m_role (ms ! (i - 1)) = RoleUser \<and> m_role (ms ! i) = RoleAssistant"

definition turns_of :: "message list \<Rightarrow> nat" where
  "turns_of ms = length (filter (turn_at ms) [0..<length ms])"

lemma turns_of_drop: "turns_of (drop k ms) = card {i. k < i \<and> turn_at ms i}"
proof -
  have "turns_of (drop k ms) = card {i. turn_at (drop k ms) i}"
    by (simp add: turns_of_def distinct_length_filter) (rule arg_cong [where f = card], auto simp: turn_at_def)
  also have "\<dots> = card ((\<lambda>i. k + i) ` {i. turn_at (drop k ms) i})" by (simp add: card_image)
  also have "(\<lambda>i. k + i) ` {i. turn_at (drop k ms) i} = {i. k < i \<and> turn_at ms i}"
  proof (intro set_eqI iffI)
    fix i assume "i \<in> {i. k < i \<and> turn_at ms i}"
    then have "i = k + (i - k)" "turn_at (drop k ms) (i - k)" by (auto simp: turn_at_def)
    then show "i \<in> (\<lambda>i. k + i) ` {i. turn_at (drop k ms) i}" by blast
  qed (auto simp: turn_at_def)
  finally show ?thesis .
qed

lemma finite_turns [simp]: "finite {i. P i \<and> turn_at ms i}"
  by (rule finite_subset [of _ "{..<length ms}"]) (auto simp: turn_at_def)

lemma skip_turns:
  assumes "a \<le> b" "\<And>i. a < i \<Longrightarrow> i \<le> b \<Longrightarrow> \<not> turn_at ms i"
  shows "{i. a < i \<and> turn_at ms i} = {i. b < i \<and> turn_at ms i}"
proof (rule Collect_cong)
  fix i show "a < i \<and> turn_at ms i \<longleftrightarrow> b < i \<and> turn_at ms i"
    using assms(1) assms(2) [of i] by (cases "i \<le> b") auto
qed

lemma turn_pos: "turn_at ms i \<longleftrightarrow> 0 < i \<and> turn_at ms i"
  by (auto simp: turn_at_def)

text \<open>The walk protects as many turns as asked for, or all of them, and never the system prompt.\<close>

lemma protect_loop_spec:
  assumes "n \<le> ps" "ps \<le> length ms" "pairs = int (card {i. ps < i \<and> turn_at ms i})"
    "\<forall>i. n \<le> i \<and> i \<le> ps \<longrightarrow> \<not> turn_at ms i" "pairs \<le> turns" "system_first ms \<Longrightarrow> 1 \<le> ps"
    "j = protect_loop ms turns n ps pairs"
  shows "j \<le> length ms \<and> (system_first ms \<longrightarrow> 1 \<le> j) \<and>
    int (card {i. j < i \<and> turn_at ms i}) = min turns (int (card {i. turn_at ms i}))"
  using assms
proof (induction ms turns n ps pairs rule: protect_loop.induct)
  case (1 ms turns ps pairs)
  have "{i. 0 < i \<and> turn_at ms i} = {i. ps < i \<and> turn_at ms i}" by (rule skip_turns) (use 1(4) in auto)
  then show ?case using 1 turn_pos [of ms] by simp
next
  case (2 ms turns i ps pairs)
  note prems = 2(4-10)
  have le: "card {k. ps < k \<and> turn_at ms k} \<le> card {k. turn_at ms k}"
    using finite_turns [of "\<lambda>_. True" ms] by (intro card_mono) auto
  have nsys: "turn_at ms k \<Longrightarrow> \<not> (system_first ms \<and> k - 1 = 0)" for k
    by (auto simp: turn_at_def system_first_def)
  consider (full) "\<not> pairs < turns" | (sys) "pairs < turns" "system_first ms" "i = 0"
    | (pair) "pairs < turns" "\<not> (system_first ms \<and> i = 0)" "turn_at ms i"
    | (single) "pairs < turns" "\<not> (system_first ms \<and> i = 0)" "\<not> turn_at ms i" "m_role (ms ! i) = RoleAssistant"
    | (other) "pairs < turns" "\<not> (system_first ms \<and> i = 0)" "m_role (ms ! i) \<noteq> RoleAssistant"
    by blast
  then show ?case
  proof cases
    case full
    then show ?thesis using prems le by simp
  next
    case sys
    have "{k. 0 < k \<and> turn_at ms k} = {k. ps < k \<and> turn_at ms k}"
      by (rule skip_turns) (use prems(4) sys(3) in auto)
    then show ?thesis using sys prems turn_pos [of ms] by simp
  next
    case pair
    have i: "0 < i" "i < length ms" "m_role (ms ! i) = RoleAssistant" "m_role (ms ! (i - 1)) = RoleUser"
      using pair(3) by (auto simp: turn_at_def)
    have "{k. i < k \<and> turn_at ms k} = {k. ps < k \<and> turn_at ms k}"
      by (rule skip_turns) (use prems(1,4) in auto)
    moreover have "{k. i - 1 < k \<and> turn_at ms k} = insert i {k. i < k \<and> turn_at ms k}"
      using pair(3) i(1) by auto
    ultimately have e: "{k. i - 1 < k \<and> turn_at ms k} = insert i {k. ps < k \<and> turn_at ms k}" by simp
    have c: "int (card {k. i - 1 < k \<and> turn_at ms k}) = pairs + 1"
      using prems(1,3) unfolding e by (subst card_insert_disjoint) auto
    have n: "\<not> turn_at ms (i - 1)" using i(4) by (auto simp: turn_at_def)
    have s: "1 \<le> i - 1" if "system_first ms" using nsys [OF pair(3)] that by simp
    have j: "j = protect_loop ms turns (i - 1) (i - 1) (pairs + 1)"
      using prems(7) pair i nsys [OF pair(3)] by simp
    show ?thesis
      by (rule "2.IH"(1) [OF _ _ _ _ _ _ _ _ _ _ j]) (use pair(1,2) i c n s nsys [OF pair(3)] in auto)
  next
    case single
    then have u: "\<not> (i > 0 \<and> m_role (ms ! (i - 1)) = RoleUser)" using prems(1,2) by (auto simp: turn_at_def)
    then have j: "j = protect_loop ms turns i i pairs" using prems(7) single by auto
    have e: "{k. i < k \<and> turn_at ms k} = {k. ps < k \<and> turn_at ms k}"
      by (rule skip_turns) (use prems(1,4) in auto)
    show ?thesis
      by (rule "2.IH"(2) [OF _ _ _ _ _ _ _ _ _ _ j]) (use single u e prems in auto)
  next
    case other
    have n: "\<not> turn_at ms i" using other by (simp add: turn_at_def)
    have j: "j = protect_loop ms turns i ps pairs" using prems(7) other by auto
    have "\<forall>k. i \<le> k \<and> k \<le> ps \<longrightarrow> \<not> turn_at ms k"
      using prems(4) n by (metis le_antisym not_less_eq_eq)
    then show ?thesis
      by (intro "2.IH"(3) [OF _ _ _ _ _ _ _ _ _ j]) (use other prems in auto)
  qed
qed

text \<open>
  C17: compaction replaces the middle of a conversation only.  Whatever the summarizer and the estimator, a
  compacted conversation is no longer than the original, its reported estimate is that of the
  messages returned, and either nothing changes or the messages are a system prompt, if there is
  one, a part that is not empty and is replaced by one summary of it, and a tail that stays as it is
  and holds the protected number of turns, or all turns when there are fewer.
\<close>

theorem compaction_keeps_recent_turns:
  assumes "c = WithMaxInputTokens k (cc_WithTokenEstimator (Some est) (NewConversationCompactor f turns))"
    and "Compact c now None ms = Inr (r, t)"
  shows "t = estimate_all est r \<and> length r \<le> length ms \<and>
    (r = ms \<or> (\<exists>prompt eligible tail s.
       ms = prompt @ eligible @ tail \<and> eligible \<noteq> [] \<and> prompt = (if system_first ms then [hd ms] else []) \<and>
       f (summarizer_input c now eligible) = Inr s \<and>
       r = prompt @ [summary_message now RoleSystem s (length eligible) ''conversation_compact''] @ tail \<and>
       int (turns_of tail) = min (max 0 turns) (int (turns_of ms))))"
proof -
  have c: "cc_summarizer c = f" "cc_estimator c = est" "protectedTurns c = max 0 turns"
    by (simp_all add: assms(1) WithMaxInputTokens_def cc_WithTokenEstimator_def NewConversationCompactor_def)
  note r = assms(2) [unfolded Compact_def Let_def option.case EstimateTokens_def c]
  show ?thesis
  proof (cases "ms = []")
    case True
    then show ?thesis using r by simp
  next
    case False
    define ps where "ps = protect_loop ms (max 0 turns) (length ms) (length ms) 0"
    define st where "st = (if system_first ms then 1 else 0 :: nat)"
    have none: "{i. length ms < i \<and> turn_at ms i} = {}" by (auto simp: turn_at_def)
    have p: "ps \<le> length ms" "system_first ms \<longrightarrow> 1 \<le> ps"
      "int (card {i. ps < i \<and> turn_at ms i}) = min (max 0 turns) (int (card {i. turn_at ms i}))"
      using protect_loop_spec [of "length ms" "length ms" ms 0 "max 0 turns" ps] none False
      by (auto simp: ps_def Suc_le_eq turn_at_def)
    have st: "st \<le> ps" using p(2) by (simp add: st_def)
    have turns: "int (turns_of (drop ps ms)) = min (max 0 turns) (int (turns_of ms))"
      using p(3) turns_of_drop [of ps ms] turns_of_drop [of 0 ms] turn_pos [of ms] by simp
    have prompt: "(if system_first ms then [ms ! 0] else []) = take st ms"
      using False by (auto simp: st_def take_Suc_conv_app_nth)
    have hd: "take st ms = (if system_first ms then [hd ms] else [])"
      using False by (auto simp: st_def take_Suc)
    define el where "el = drop st (take ps ms)"
    have split: "ms = take st ms @ el @ drop ps ms"
      unfolding el_def using st by (metis append_assoc append_take_drop_id min.absorb1 take_take)
    show ?thesis
    proof (cases "ps \<le> st")
      case True
      then show ?thesis using r False by (auto simp: ps_def [symmetric] st_def [symmetric])
    next
      case f: False
      then have ne: "el \<noteq> []" using p(1) by (auto simp: el_def)
      obtain s where s: "f (summarizer_input c now el) = Inr s"
        and e: "r = take st ms @ [summary_message now RoleSystem s (length el) ''conversation_compact''] @ drop ps ms"
          "t = estimate_all est r"
        using r False f unfolding ps_def [symmetric] st_def [symmetric] prompt el_def [symmetric]
        by (auto split: sum.splits)
      have "length ms = length (take st ms) + (length el + length (drop ps ms))"
        using arg_cong [where f = length, OF split] by (simp only: length_append)
      moreover have "length r = length (take st ms) + (1 + length (drop ps ms))" by (simp add: e(1))
      moreover have "0 < length el" using ne by simp
      ultimately have "length r \<le> length ms" by linarith
      show ?thesis
        by (intro conjI disjI2 exI [of _ "take st ms"] exI [of _ el] exI [of _ "drop ps ms"] exI [of _ s])
          (fact e split ne hd s turns \<open>length r \<le> length ms\<close>)+
    qed
  qed
qed

definition talk :: "message list" where
  "talk = map (\<lambda>(r, s). FromAIModelMessage 0 (text_message r s))
     [(RoleSystem, ''p''), (RoleUser, ''q1''), (RoleAssistant, ''a1''), (RoleUser, ''q2''), (RoleAssistant, ''a2'')]"

definition talk_compactor :: compactor where
  "talk_compactor = WithMaxInputTokens 0 (cc_WithTokenEstimator (Some DefaultTokenEstimator)
     (NewConversationCompactor (\<lambda>ms. Inr ''sum'') 1))"

theorem compaction_keeps_recent_turns_witness:
  "\<exists>r t. Compact talk_compactor 7 None talk = Inr (r, t) \<and> t = 4 \<and> length r = 4 \<and>
     r = [talk ! 0, summary_message 7 RoleSystem ''sum'' 2 ''conversation_compact'', talk ! 3, talk ! 4] \<and>
     t = estimate_all DefaultTokenEstimator r"
proof -
  have r: "Compact talk_compactor 7 None talk =
      Inr ([talk ! 0, summary_message 7 RoleSystem ''sum'' 2 ''conversation_compact'', talk ! 3, talk ! 4], 4)"
    by code_simp
  from compaction_keeps_recent_turns [OF talk_compactor_def r] r show ?thesis by auto
qed

text \<open>The convenience wrapper returns its input whenever it does not compact.\<close>

lemma CompactIfNeeded_safe:
  "CompactIfNeeded now ctx co ms threshold = (r, t, compacted, err) \<Longrightarrow>
     (\<not> compacted \<longrightarrow> r = ms) \<and> (compacted \<longrightarrow> err = None \<and> (\<exists>c. co = Some c \<and> threshold < EstimateTokens c ms \<and>
       Compact c now ctx ms = Inr (r, t)))"
  by (auto simp: CompactIfNeeded_def Let_def split: option.splits if_splits sum.splits prod.splits)

text \<open>Assistant messages that follow no user message are protected without limit: of a conversation of
  assistant messages everything is protected, however few turns were asked for.\<close>

lemma assistants_all_protected:
  assumes "\<And>i. i < length ms \<Longrightarrow> m_role (ms ! i) = RoleAssistant" "0 < turns" "n \<le> length ms"
  shows "protect_loop ms turns n n 0 = 0"
  using assms(3)
proof (induction n)
  case (Suc n)
  have "m_role (ms ! 0) = RoleAssistant" using assms(1) [of 0] Suc.prems by (cases ms) auto
  then have "\<not> system_first ms" by (simp add: system_first_def)
  moreover have "m_role (ms ! (n - 1)) \<noteq> RoleUser" using assms(1) [of "n - 1"] Suc.prems by (cases ms) auto
  ultimately show ?case using Suc assms(1) [of n] assms(2) by simp
qed simp

end
