(* ===== verification/MemStore.thy ===== *)
theory MemStore
  imports GoStrings "HOL-Library.AList" "HOL-Library.Word"
begin

text \<open>
  The storage of package \<open>memory\<close> (\<open>memory/memory.go\<close>, \<open>mapstore.go\<close>).  The interface \<open>Store\<close> is the
  record \<open>store_ops\<close> of functions on the state of the store; the interface \<open>BatchStore\<close> is its optional
  last field.  The clock reading of an operation is an argument, in nanoseconds; the order in which
  Go visits a map is given by the ranks \<open>visit\<close> of its entries, so every order is a choice of ranks.
\<close>

section \<open>Interfaces\<close>

record 'v store_entry =
  se_Key :: string
  se_Value :: 'v
  se_CreatedAt :: int
  se_TTL :: int

record ('s, 'v) batch_ops =
  op_BatchGet :: "int \<Rightarrow> string list \<Rightarrow> 's \<Rightarrow> 's \<times> (string \<rightharpoonup> 'v) res"
  op_BatchSet :: "int \<Rightarrow> (string \<times> 'v) list \<Rightarrow> int \<Rightarrow> 's \<Rightarrow> 's \<times> gerror option"

record ('s, 'v) store_ops =
  op_Get :: "int \<Rightarrow> string \<Rightarrow> 's \<Rightarrow> 's \<times> 'v option res"
  op_Set :: "int \<Rightarrow> string \<Rightarrow> 'v \<Rightarrow> int \<Rightarrow> 's \<Rightarrow> 's \<times> gerror option"
  op_Delete :: "string \<Rightarrow> 's \<Rightarrow> 's \<times> gerror option"
  op_List :: "int \<Rightarrow> string \<Rightarrow> 's \<Rightarrow> 's \<times> 'v store_entry list res"
  op_Clear :: "'s \<Rightarrow> 's \<times> gerror option"
  op_Batch :: "('s, 'v) batch_ops option"

section \<open>The store of a Go map\<close>

record 'v store_record =
  sr_value :: 'v
  sr_createdAt :: int
  sr_ttl :: int

text \<open>\<open>time.Duration(r.ttl)*time.Second\<close> is a product of 64-bit integers.\<close>

definition ttl_ns :: "int \<Rightarrow> int" where
  "ttl_ns ttl = sint (word_of_int ttl * 1000000000 :: 64 word)"

definition isExpired :: "int \<Rightarrow> 'v store_record \<Rightarrow> bool" where
  "isExpired now r = (if sr_ttl r \<le> 0 then False else now - sr_createdAt r > ttl_ns (sr_ttl r))"

type_synonym 'v map_store = "(string \<times> 'v store_record) list"

definition NewMapStore :: "'v map_store" where
  "NewMapStore = []"

definition ms_Get :: "int \<Rightarrow> string \<Rightarrow> 'v map_store \<Rightarrow> 'v map_store \<times> 'v option res" where
  "ms_Get now key entries =
     (case map_of entries key of
        None \<Rightarrow> (entries, Inr None)
      | Some r \<Rightarrow>
          if isExpired now r then (AList.delete key entries, Inr None)
          else (entries, Inr (Some (sr_value r))))"

definition ms_Set :: "int \<Rightarrow> string \<Rightarrow> 'v \<Rightarrow> int \<Rightarrow> 'v map_store \<Rightarrow> 'v map_store \<times> gerror option" where
  "ms_Set now key v ttl entries =
     (AList.update key \<lparr>sr_value = v, sr_createdAt = now, sr_ttl = ttl\<rparr> entries, None)"

definition ms_Delete :: "string \<Rightarrow> 'v map_store \<Rightarrow> 'v map_store \<times> gerror option" where
  "ms_Delete key entries = (AList.delete key entries, None)"

fun ms_list_loop ::
  "int \<Rightarrow> string \<Rightarrow> (string \<times> 'v store_record) list \<Rightarrow> 'v map_store \<Rightarrow> 'v store_entry list \<Rightarrow>
     'v map_store \<times> 'v store_entry list" where
  "ms_list_loop now pfx [] entries result = (entries, result)"
| "ms_list_loop now pfx ((k, r) # rest) entries result =
     (if isExpired now r then ms_list_loop now pfx rest (AList.delete k entries) result
      else if has_prefix k pfx then
        ms_list_loop now pfx rest entries
          (result @ [\<lparr>se_Key = k, se_Value = sr_value r, se_CreatedAt = sr_createdAt r, se_TTL = sr_ttl r\<rparr>])
      else ms_list_loop now pfx rest entries result)"

definition ms_List ::
  "(string \<times> 'v store_record \<Rightarrow> nat) \<Rightarrow> int \<Rightarrow> string \<Rightarrow> 'v map_store \<Rightarrow> 'v map_store \<times> 'v store_entry list res" where
  "ms_List visit now pfx entries =
     (case ms_list_loop now pfx (sort_key visit entries) entries [] of (entries', result) \<Rightarrow> (entries', Inr result))"

definition ms_Clear :: "'v map_store \<Rightarrow> 'v map_store \<times> gerror option" where
  "ms_Clear entries = ([], None)"

fun ms_batch_loop :: "int \<Rightarrow> string list \<Rightarrow> 'v map_store \<Rightarrow> (string \<rightharpoonup> 'v) \<Rightarrow> 'v map_store \<times> (string \<rightharpoonup> 'v)" where
  "ms_batch_loop now [] entries result = (entries, result)"
| "ms_batch_loop now (key # keys) entries result =
     (case ms_Get now key entries of
        (entries', Inr (Some v)) \<Rightarrow> ms_batch_loop now keys entries' (result(key \<mapsto> v))
      | (entries', _) \<Rightarrow> ms_batch_loop now keys entries' result)"

definition ms_BatchGet :: "int \<Rightarrow> string list \<Rightarrow> 'v map_store \<Rightarrow> 'v map_store \<times> (string \<rightharpoonup> 'v) res" where
  "ms_BatchGet now keys entries =
     (case ms_batch_loop now keys entries Map.empty of (entries', result) \<Rightarrow> (entries', Inr result))"

definition ms_BatchSet :: "int \<Rightarrow> (string \<times> 'v) list \<Rightarrow> int \<Rightarrow> 'v map_store \<Rightarrow> 'v map_store \<times> gerror option" where
  "ms_BatchSet now kvs ttl entries =
     (fold (\<lambda>(key, v). AList.update key \<lparr>sr_value = v, sr_createdAt = now, sr_ttl = ttl\<rparr>) kvs entries, None)"

definition map_store_ops ::
  "(string \<times> 'v store_record \<Rightarrow> nat) \<Rightarrow> ('v map_store, 'v) store_ops" where
  "map_store_ops visit =
     \<lparr>op_Get = ms_Get, op_Set = ms_Set, op_Delete = ms_Delete, op_List = ms_List visit, op_Clear = ms_Clear,
      op_Batch = Some \<lparr>op_BatchGet = ms_BatchGet, op_BatchSet = ms_BatchSet\<rparr>\<rparr>"

text \<open>Within the 292 years of a duration, an entry expires when its seconds have passed.\<close>

lemma ttl_ns_eq: "0 \<le> ttl \<Longrightarrow> ttl \<le> 9223372036 \<Longrightarrow> ttl_ns ttl = ttl * 1000000000"
proof -
  assume a: "0 \<le> ttl" "ttl \<le> 9223372036"
  have e: "(word_of_int ttl * 1000000000 :: 64 word) = word_of_int (ttl * 1000000000)" by simp
  show ?thesis unfolding ttl_ns_def e signed_of_int using a by (simp add: signed_take_bit_int_eq_self)
qed

text \<open>Beyond that the product overflows: an entry may be born expired.\<close>

lemma huge_ttl_expires_at_once: "isExpired t \<lparr>sr_value = v, sr_createdAt = t, sr_ttl = 9223372037\<rparr>"
  by (simp add: isExpired_def ttl_ns_def)

definition live :: "int \<Rightarrow> 'v store_record \<Rightarrow> 'v store_record option" where
  "live now r = (if isExpired now r then None else Some r)"

lemma expired_later: "t \<le> t' \<Longrightarrow> isExpired t r \<Longrightarrow> isExpired t' r"
  by (auto simp: isExpired_def split: if_splits)

section \<open>The contract of a reliable store\<close>

text \<open>\<open>view t s k\<close> is the live record of key \<open>k\<close> at time \<open>t\<close>.  Every operation succeeds, answers from the
  view, and changes the later views as its name says; expired records may go at any time.\<close>

definition unchanged :: "int \<Rightarrow> (int \<Rightarrow> 's \<Rightarrow> string \<rightharpoonup> 'v store_record) \<Rightarrow> 's \<Rightarrow> 's \<Rightarrow> bool" where
  "unchanged t view s s' \<longleftrightarrow> (\<forall>t'\<ge>t. view t' s' = view t' s)"

definition listing :: "'v store_entry list \<Rightarrow> (string \<rightharpoonup> 'v store_record)" where
  "listing es = map_of (map (\<lambda>e. (se_Key e, \<lparr>sr_value = se_Value e, sr_createdAt = se_CreatedAt e, sr_ttl = se_TTL e\<rparr>)) es)"

locale ttl_store =
  fixes ops :: "('s, 'v) store_ops"
    and ok :: "'s \<Rightarrow> bool"
    and view :: "int \<Rightarrow> 's \<Rightarrow> string \<rightharpoonup> 'v store_record"
  assumes get: "ok s \<Longrightarrow> \<exists>s'. op_Get ops t k s = (s', Inr (map_option sr_value (view t s k))) \<and> ok s' \<and> unchanged t view s s'"
    and set0: "ok s \<Longrightarrow> \<exists>s'. op_Set ops t k v ttl s = (s', None) \<and> ok s' \<and>
      (\<forall>t'\<ge>t. view t' s' = (view t' s)(k := live t' \<lparr>sr_value = v, sr_createdAt = t, sr_ttl = ttl\<rparr>))"
    and delete: "ok s \<Longrightarrow> \<exists>s'. op_Delete ops k s = (s', None) \<and> ok s' \<and> (\<forall>t'. view t' s' = (view t' s)(k := None))"
    and list: "ok s \<Longrightarrow> \<exists>s' es. op_List ops t p s = (s', Inr es) \<and> ok s' \<and> unchanged t view s s' \<and>
      distinct (map se_Key es) \<and> listing es = (\<lambda>k. if has_prefix k p then view t s k else None)"
    and clear: "ok s \<Longrightarrow> \<exists>s'. op_Clear ops s = (s', None) \<and> ok s' \<and> (\<forall>t'. view t' s' = Map.empty)"
    and batch_get: "op_Batch ops = Some bo \<Longrightarrow> ok s \<Longrightarrow> \<exists>s'. op_BatchGet bo t ks s =
      (s', Inr (\<lambda>k. if k \<in> set ks then map_option sr_value (view t s k) else None)) \<and> ok s' \<and> unchanged t view s s'"
    and batch_set: "op_Batch ops = Some bo \<Longrightarrow> ok s \<Longrightarrow> distinct (map fst kvs) \<Longrightarrow>
      \<exists>s'. op_BatchSet bo t kvs ttl s = (s', None) \<and> ok s' \<and> (\<forall>t'\<ge>t. view t' s' =
        (\<lambda>k. case map_of kvs k of
               Some v \<Rightarrow> live t' \<lparr>sr_value = v, sr_createdAt = t, sr_ttl = ttl\<rparr>
             | None \<Rightarrow> view t' s k))"

section \<open>\<open>MapStore\<close> keeps the contract\<close>

definition ms_ok :: "'v map_store \<Rightarrow> bool" where
  "ms_ok entries \<longleftrightarrow> distinct (map fst entries)"

definition ms_view :: "int \<Rightarrow> 'v map_store \<Rightarrow> string \<rightharpoonup> 'v store_record" where
  "ms_view now entries k = Option.bind (map_of entries k) (live now)"

lemma ms_ok_simps [simp]:
  "ms_ok []"
  "ms_ok entries \<Longrightarrow> ms_ok (AList.delete k entries)"
  "ms_ok entries \<Longrightarrow> ms_ok (AList.update k r entries)"
  by (simp_all add: ms_ok_def distinct_delete distinct_update)

lemma ms_view_simps [simp]:
  "ms_view t [] = Map.empty"
  "ms_view t (AList.update k r entries) = (ms_view t entries)(k := live t r)"
  "ms_view t (AList.delete k entries) = (ms_view t entries)(k := None)"
  by (auto simp: ms_view_def fun_eq_iff update_conv' delete_conv')

text \<open>Deleting an expired record changes no later view.\<close>

lemma delete_expired:
  assumes "map_of entries k = Some r" "isExpired t r"
  shows "unchanged t ms_view entries (AList.delete k entries)"
proof -
  have "ms_view t' entries k = None" if "t \<le> t'" for t'
    using expired_later [OF that assms(2)] assms(1) by (simp add: ms_view_def live_def)
  then show ?thesis by (simp add: unchanged_def fun_upd_idem)
qed

lemma unchanged_refl [simp]: "unchanged t view s s"
  by (simp add: unchanged_def)

lemma unchanged_trans: "unchanged t view s1 s2 \<Longrightarrow> unchanged t view s2 s3 \<Longrightarrow> unchanged t view s1 s3"
  by (simp add: unchanged_def)

lemma unchanged_now: "unchanged t view s s' \<Longrightarrow> view t s' = view t s"
  by (simp add: unchanged_def)

lemma ms_Get_spec:
  assumes "ms_ok s"
  shows "\<exists>s'. ms_Get t k s = (s', Inr (map_option sr_value (ms_view t s k))) \<and> ms_ok s' \<and> unchanged t ms_view s s'"
proof (cases "map_of s k")
  case None
  then show ?thesis using assms by (simp add: ms_Get_def ms_view_def)
next
  case (Some r)
  then show ?thesis using assms delete_expired [OF Some]
    by (cases "isExpired t r") (auto simp: ms_Get_def ms_view_def live_def)
qed

lemma ms_list_loop_spec:
  assumes "ms_ok s" "distinct (map fst rest)" "\<And>k r. (k, r) \<in> set rest \<Longrightarrow> map_of s k = Some r"
    "ms_list_loop t p rest s acc = (s', es)"
  shows "ms_ok s' \<and> unchanged t ms_view s s' \<and>
    es = acc @ map (\<lambda>(k, r). \<lparr>se_Key = k, se_Value = sr_value r, se_CreatedAt = sr_createdAt r, se_TTL = sr_ttl r\<rparr>)
      (filter (\<lambda>(k, r). \<not> isExpired t r \<and> has_prefix k p) rest)"
  using assms
proof (induction t p rest s acc rule: ms_list_loop.induct)
  case (2 t p k r rest s acc)
  show ?case
  proof (cases "isExpired t r")
    case True
    have rest: "map_of (AList.delete k s) k' = Some r'" if "(k', r') \<in> set rest" for k' r'
      using 2(5) 2(6) [of k' r'] that by (force simp: delete_conv')
    have "unchanged t ms_view s (AList.delete k s)"
      by (rule delete_expired [OF _ True]) (use 2(6) in simp)
    then show ?thesis using 2(1) [OF True] 2(4,5,7) rest True by (auto intro: unchanged_trans)
  next
    case False
    then show ?thesis using 2(2,3) [OF False] 2(4-7) by (cases "has_prefix k p") auto
  qed
qed auto

lemma listing_map:
  assumes "distinct (map fst xs)"
  shows "listing (map (\<lambda>(k, r). \<lparr>se_Key = k, se_Value = sr_value r, se_CreatedAt = sr_createdAt r, se_TTL = sr_ttl r\<rparr>)
      (filter (\<lambda>(k, r). \<not> isExpired t r \<and> has_prefix k p) xs)) =
    (\<lambda>k. if has_prefix k p then Option.bind (map_of xs k) (live t) else None)"
proof -
  have "listing (map (\<lambda>(k, r). \<lparr>se_Key = k, se_Value = sr_value r, se_CreatedAt = sr_createdAt r, se_TTL = sr_ttl r\<rparr>) ys) = map_of ys"
    for ys :: "(string \<times> 'a store_record) list"
    by (induction ys) (auto simp: listing_def)
  moreover have "map_of (filter (\<lambda>(k, r). \<not> isExpired t r \<and> has_prefix k p) xs) =
      (\<lambda>k. if has_prefix k p then Option.bind (map_of xs k) (live t) else None)"
    using assms
  proof (induction xs)
    case (Cons x xs)
    then have "map_of xs (fst x) = None" by (simp add: map_of_eq_None_iff image_iff)
    then show ?case using Cons by (cases x) (auto simp: fun_eq_iff live_def)
  qed auto
  ultimately show ?thesis by simp
qed

lemma ms_List_spec:
  assumes "ms_ok s"
  shows "\<exists>s' es. ms_List visit t p s = (s', Inr es) \<and> ms_ok s' \<and> unchanged t ms_view s s' \<and>
    distinct (map se_Key es) \<and> listing es = (\<lambda>k. if has_prefix k p then ms_view t s k else None)"
proof -
  let ?xs = "sort_key visit s"
  obtain s' es where l: "ms_list_loop t p ?xs s [] = (s', es)" by fastforce
  have m0: "mset (map fst ?xs) = mset (map fst s)" by simp
  have d: "distinct (map fst ?xs)"
    using assms mset_eq_imp_distinct_iff [OF m0] by (simp add: ms_ok_def)
  have m: "map_of s k = Some r" if "(k, r) \<in> set ?xs" for k r
    using that assms by (simp add: ms_ok_def)
  have e: "map_of ?xs = map_of s"
    using map_of_inject_set [OF d, of s] assms by (simp add: ms_ok_def)
  note spec = ms_list_loop_spec [OF assms d m l]
  then have "distinct (map se_Key es)"
    using d by (auto simp: distinct_map_filter comp_def split_beta)
  moreover have "listing es = (\<lambda>k. if has_prefix k p then ms_view t s k else None)"
    using spec listing_map [OF d, of t p] by (simp add: ms_view_def e cong: if_cong)
  ultimately show ?thesis using spec l by (simp add: ms_List_def)
qed

lemma ms_batch_loop_spec:
  assumes "ms_ok s"
  shows "\<exists>s'. ms_batch_loop t ks s m =
      (s', \<lambda>k. if k \<in> set ks \<and> ms_view t s k \<noteq> None then map_option sr_value (ms_view t s k) else m k) \<and>
    ms_ok s' \<and> unchanged t ms_view s s'"
  using assms
proof (induction ks arbitrary: s m)
  case (Cons k ks)
  obtain s1 where g: "ms_Get t k s = (s1, Inr (map_option sr_value (ms_view t s k)))" "ms_ok s1" "unchanged t ms_view s s1"
    using ms_Get_spec [OF Cons.prems] by blast
  define m1 where "m1 = (case ms_view t s k of None \<Rightarrow> m | Some r \<Rightarrow> m(k \<mapsto> sr_value r))"
  obtain s2 where s2: "ms_batch_loop t ks s1 m1 =
      (s2, \<lambda>k. if k \<in> set ks \<and> ms_view t s1 k \<noteq> None then map_option sr_value (ms_view t s1 k) else m1 k)"
      "ms_ok s2" "unchanged t ms_view s1 s2"
    using Cons.IH [OF g(2)] by blast
  have "ms_batch_loop t (k # ks) s m = ms_batch_loop t ks s1 m1"
    by (simp add: g(1) m1_def split: option.splits)
  moreover have "(if k' \<in> set ks \<and> ms_view t s1 k' \<noteq> None then map_option sr_value (ms_view t s1 k') else m1 k') =
      (if k' \<in> set (k # ks) \<and> ms_view t s k' \<noteq> None then map_option sr_value (ms_view t s k') else m k')" for k'
    by (auto simp: unchanged_now [OF g(3)] m1_def split: option.splits)
  ultimately show ?case using s2 unchanged_trans [OF g(3) s2(3)] by auto
qed simp

lemma ms_BatchGet_spec:
  assumes "ms_ok s"
  shows "\<exists>s'. ms_BatchGet t ks s = (s', Inr (\<lambda>k. if k \<in> set ks then map_option sr_value (ms_view t s k) else None)) \<and>
    ms_ok s' \<and> unchanged t ms_view s s'"
proof -
  have "(\<lambda>k. if k \<in> set ks \<and> ms_view t s k \<noteq> None then map_option sr_value (ms_view t s k) else Map.empty k) =
      (\<lambda>k. if k \<in> set ks then map_option sr_value (ms_view t s k) else None)" by auto
  then show ?thesis using ms_batch_loop_spec [OF assms, of t ks Map.empty] by (auto simp: ms_BatchGet_def)
qed

lemma ms_BatchSet_spec:
  assumes "ms_ok s" "distinct (map fst kvs)"
  shows "\<exists>s'. ms_BatchSet t kvs ttl s = (s', None) \<and> ms_ok s' \<and> (\<forall>t'. ms_view t' s' =
    (\<lambda>k. case map_of kvs k of
           Some v \<Rightarrow> live t' \<lparr>sr_value = v, sr_createdAt = t, sr_ttl = ttl\<rparr>
         | None \<Rightarrow> ms_view t' s k))"
  using assms unfolding ms_BatchSet_def
proof (induction kvs arbitrary: s)
  case (Cons kv kvs)
  obtain k v where [simp]: "kv = (k, v)" by fastforce
  have k: "map_of kvs k = None" using Cons.prems(2) by (simp add: map_of_eq_None_iff)
  show ?case
    using Cons.IH [of "AList.update k \<lparr>sr_value = v, sr_createdAt = t, sr_ttl = ttl\<rparr> s"] Cons.prems k
    by (fastforce simp: fun_eq_iff split: option.splits)
qed simp

interpretation mapstore: ttl_store "map_store_ops visit" ms_ok ms_view for visit
proof unfold_locales
  fix s :: "'a map_store" and t k p v ttl ks and kvs :: "(string \<times> 'a) list" and bo :: "('a map_store, 'a) batch_ops"
  assume ok: "ms_ok s"
  show "\<exists>s'. op_Get (map_store_ops visit) t k s = (s', Inr (map_option sr_value (ms_view t s k))) \<and> ms_ok s' \<and>
      unchanged t ms_view s s'"
    using ms_Get_spec [OF ok] by (simp add: map_store_ops_def)
  show "\<exists>s' es. op_List (map_store_ops visit) t p s = (s', Inr es) \<and> ms_ok s' \<and> unchanged t ms_view s s' \<and>
      distinct (map se_Key es) \<and> listing es = (\<lambda>k. if has_prefix k p then ms_view t s k else None)"
    using ms_List_spec [OF ok] by (simp add: map_store_ops_def)
  assume bo: "op_Batch (map_store_ops visit) = Some bo"
  show "\<exists>s'. op_BatchGet bo t ks s = (s', Inr (\<lambda>k. if k \<in> set ks then map_option sr_value (ms_view t s k) else None)) \<and>
      ms_ok s' \<and> unchanged t ms_view s s'"
    using bo ms_BatchGet_spec [OF ok] by (auto simp: map_store_ops_def)
  assume "distinct (map fst kvs)"
  from ms_BatchSet_spec [OF ok this] bo
  show "\<exists>s'. op_BatchSet bo t kvs ttl s = (s', None) \<and> ms_ok s' \<and> (\<forall>t'\<ge>t. ms_view t' s' =
        (\<lambda>k. case map_of kvs k of
               Some v \<Rightarrow> live t' \<lparr>sr_value = v, sr_createdAt = t, sr_ttl = ttl\<rparr>
             | None \<Rightarrow> ms_view t' s k))"
    by (fastforce simp: map_store_ops_def)
qed (auto simp: map_store_ops_def ms_Set_def ms_Delete_def ms_Clear_def)

end
