(* ===== verification/MemTiers.thy ===== *)
theory MemTiers
  imports MemStore
begin

text \<open>
  The memory tiers and their manager (\<open>memory/base.go\<close>, \<open>session.go\<close>, \<open>working.go\<close>, \<open>persistent.go\<close>,
  \<open>promoter.go\<close>, \<open>archiver.go\<close>, \<open>manager.go\<close>).  A tier is a configuration over the operations of a
  store; the state of the store is threaded through.  The mutex of the shared tiers makes each
  operation one step, and it reads the clock once.
\<close>

section \<open>Tiers\<close>

datatype scope = ScopeWorking | ScopeSession | ScopeStore

record 'v entry =
  e_Key :: string
  e_Value :: 'v
  e_Scope :: scope
  e_AgentID :: string
  e_SessionID :: string
  e_CreatedAt :: int
  e_TTL :: int

record ('s, 'v) memory_base =
  mb_store :: "('s, 'v) store_ops"
  mb_scope :: scope
  mb_agentID :: string
  mb_sessionID :: string

definition toEntries :: "('s, 'v) memory_base \<Rightarrow> 'v store_entry list \<Rightarrow> 'v entry list" where
  "toEntries b raw =
     map (\<lambda>se. \<lparr>e_Key = se_Key se, e_Value = se_Value se, e_Scope = mb_scope b, e_AgentID = mb_agentID b,
       e_SessionID = mb_sessionID b, e_CreatedAt = se_CreatedAt se, e_TTL = se_TTL se\<rparr>) raw"

definition base_list :: "('s, 'v) memory_base \<Rightarrow> int \<Rightarrow> string \<Rightarrow> 's \<Rightarrow> 's \<times> 'v entry list res" where
  "base_list b now pfx s =
     (case op_List (mb_store b) now pfx s of
        (s', Inl err) \<Rightarrow> (s', Inl err)
      | (s', Inr raw) \<Rightarrow> (s', Inr (toEntries b raw)))"

fun get_loop ::
  "('s, 'v) store_ops \<Rightarrow> int \<Rightarrow> string list \<Rightarrow> (string \<rightharpoonup> 'v) \<Rightarrow> 's \<Rightarrow> 's \<times> (string \<rightharpoonup> 'v) res" where
  "get_loop ops now [] result s = (s, Inr result)"
| "get_loop ops now (key # keys) result s =
     (case op_Get ops now key s of
        (s', Inl err) \<Rightarrow> (s', Inl err)
      | (s', Inr None) \<Rightarrow> get_loop ops now keys result s'
      | (s', Inr (Some v)) \<Rightarrow> get_loop ops now keys (result(key \<mapsto> v)) s')"

definition batchGet :: "('s, 'v) memory_base \<Rightarrow> int \<Rightarrow> string list \<Rightarrow> 's \<Rightarrow> 's \<times> (string \<rightharpoonup> 'v) res" where
  "batchGet b now keys s =
     (case op_Batch (mb_store b) of
        Some bs \<Rightarrow> op_BatchGet bs now keys s
      | None \<Rightarrow> get_loop (mb_store b) now keys Map.empty s)"

text \<open>The entries of the map that is written are listed in the order they are visited.\<close>

fun set_loop :: "('s, 'v) store_ops \<Rightarrow> int \<Rightarrow> (string \<times> 'v) list \<Rightarrow> int \<Rightarrow> 's \<Rightarrow> 's \<times> gerror option" where
  "set_loop ops now [] ttl s = (s, None)"
| "set_loop ops now ((key, v) # kvs) ttl s =
     (case op_Set ops now key v ttl s of
        (s', Some err) \<Rightarrow> (s', Some err)
      | (s', None) \<Rightarrow> set_loop ops now kvs ttl s')"

definition batchSet :: "('s, 'v) memory_base \<Rightarrow> int \<Rightarrow> (string \<times> 'v) list \<Rightarrow> int \<Rightarrow> 's \<Rightarrow> 's \<times> gerror option" where
  "batchSet b now kvs ttl s =
     (case op_Batch (mb_store b) of
        Some bs \<Rightarrow> op_BatchSet bs now kvs ttl s
      | None \<Rightarrow> set_loop (mb_store b) now kvs ttl s)"

text \<open>The interface \<open>Memory\<close>; the first argument of an operation is the error of the context.\<close>

record ('s, 'v) memory =
  me_Get :: "gerror option \<Rightarrow> int \<Rightarrow> string \<Rightarrow> 's \<Rightarrow> 's \<times> 'v option res"
  me_Set :: "gerror option \<Rightarrow> int \<Rightarrow> string \<Rightarrow> 'v \<Rightarrow> int \<Rightarrow> 's \<Rightarrow> 's \<times> gerror option"
  me_Delete :: "gerror option \<Rightarrow> string \<Rightarrow> 's \<Rightarrow> 's \<times> gerror option"
  me_List :: "gerror option \<Rightarrow> int \<Rightarrow> string \<Rightarrow> 's \<Rightarrow> 's \<times> 'v entry list res"
  me_Clear :: "gerror option \<Rightarrow> 's \<Rightarrow> 's \<times> gerror option"
  me_BatchGet :: "gerror option \<Rightarrow> int \<Rightarrow> string list \<Rightarrow> 's \<Rightarrow> 's \<times> (string \<rightharpoonup> 'v) res"
  me_BatchSet :: "gerror option \<Rightarrow> int \<Rightarrow> (string \<times> 'v) list \<Rightarrow> int \<Rightarrow> 's \<Rightarrow> 's \<times> gerror option"

text \<open>An operation fails at once when the context is done.\<close>

definition checked :: "gerror option \<Rightarrow> ('s \<Rightarrow> 's \<times> 'a res) \<Rightarrow> 's \<Rightarrow> 's \<times> 'a res" where
  "checked ctx f s = (case ctx of Some err \<Rightarrow> (s, Inl err) | None \<Rightarrow> f s)"

definition checked_err :: "gerror option \<Rightarrow> ('s \<Rightarrow> 's \<times> gerror option) \<Rightarrow> 's \<Rightarrow> 's \<times> gerror option" where
  "checked_err ctx f s = (case ctx of Some err \<Rightarrow> (s, Some err) | None \<Rightarrow> f s)"

definition syncMemory :: "('s, 'v) memory_base \<Rightarrow> ('s, 'v) memory" where
  "syncMemory m =
     \<lparr>me_Get = (\<lambda>ctx now key. checked ctx (op_Get (mb_store m) now key)),
      me_Set = (\<lambda>ctx now key v ttl. checked_err ctx (op_Set (mb_store m) now key v ttl)),
      me_Delete = (\<lambda>ctx key. checked_err ctx (op_Delete (mb_store m) key)),
      me_List = (\<lambda>ctx now pfx. checked ctx (base_list m now pfx)),
      me_Clear = (\<lambda>ctx. checked_err ctx (op_Clear (mb_store m))),
      me_BatchGet = (\<lambda>ctx now keys. checked ctx (batchGet m now keys)),
      me_BatchSet = (\<lambda>ctx now kvs ttl. checked_err ctx (batchSet m now kvs ttl))\<rparr>"

text \<open>Working memory has the same operations without a mutex.\<close>

definition workingMemory :: "('s, 'v) memory_base \<Rightarrow> ('s, 'v) memory" where
  "workingMemory m =
     \<lparr>me_Get = (\<lambda>ctx now key. checked ctx (op_Get (mb_store m) now key)),
      me_Set = (\<lambda>ctx now key v ttl. checked_err ctx (op_Set (mb_store m) now key v ttl)),
      me_Delete = (\<lambda>ctx key. checked_err ctx (op_Delete (mb_store m) key)),
      me_List = (\<lambda>ctx now pfx. checked ctx (base_list m now pfx)),
      me_Clear = (\<lambda>ctx. checked_err ctx (op_Clear (mb_store m))),
      me_BatchGet = (\<lambda>ctx now keys. checked ctx (batchGet m now keys)),
      me_BatchSet = (\<lambda>ctx now kvs ttl. checked_err ctx (batchSet m now kvs ttl))\<rparr>"

definition NewSessionMemoryWithStore :: "('s, 'v) store_ops \<Rightarrow> string \<Rightarrow> string \<Rightarrow> ('s, 'v) memory" where
  "NewSessionMemoryWithStore store agentID sessionID =
     syncMemory \<lparr>mb_store = store, mb_scope = ScopeSession, mb_agentID = agentID, mb_sessionID = sessionID\<rparr>"

definition NewPersistentMemoryWithStore :: "('s, 'v) store_ops \<Rightarrow> ('s, 'v) memory" where
  "NewPersistentMemoryWithStore store =
     syncMemory \<lparr>mb_store = store, mb_scope = ScopeStore, mb_agentID = [], mb_sessionID = []\<rparr>"

definition NewWorkingMemoryWithStore :: "('s, 'v) store_ops \<Rightarrow> string \<Rightarrow> string \<Rightarrow> ('s, 'v) memory" where
  "NewWorkingMemoryWithStore store agentID sessionID =
     workingMemory \<lparr>mb_store = store, mb_scope = ScopeWorking, mb_agentID = agentID, mb_sessionID = sessionID\<rparr>"

section \<open>Runs against the map with expiry\<close>

datatype 'v mem_call =
    CGet string
  | CSet string 'v int
  | CDelete string
  | CList string
  | CClear
  | CBatchGet "string list"
  | CBatchSet "(string \<times> 'v) list" int

datatype 'v mem_answer =
    Value "'v option"
  | Entries "string \<rightharpoonup> 'v store_record" bool
  | Values "string \<rightharpoonup> 'v"
  | Done
  | Failed gerror

definition answer_of :: "('a \<Rightarrow> 'v mem_answer) \<Rightarrow> 'a res \<Rightarrow> 'v mem_answer" where
  "answer_of f r = (case r of Inl e \<Rightarrow> Failed e | Inr x \<Rightarrow> f x)"

definition done_or :: "gerror option \<Rightarrow> 'v mem_answer" where
  "done_or e = (case e of None \<Rightarrow> Done | Some err \<Rightarrow> Failed err)"

text \<open>What a caller of \<open>List\<close> sees: the records by key, and whether each key comes once.\<close>

definition entry_answer :: "'v entry list \<Rightarrow> 'v mem_answer" where
  "entry_answer es =
     Entries (map_of (map (\<lambda>e. (e_Key e, \<lparr>sr_value = e_Value e, sr_createdAt = e_CreatedAt e, sr_ttl = e_TTL e\<rparr>)) es))
       (distinct (map e_Key es))"

fun do_call :: "('s, 'v) memory \<Rightarrow> int \<Rightarrow> 'v mem_call \<Rightarrow> 's \<Rightarrow> 's \<times> 'v mem_answer" where
  "do_call m now (CGet k) s = map_prod id (answer_of Value) (me_Get m None now k s)"
| "do_call m now (CSet k v ttl) s = map_prod id done_or (me_Set m None now k v ttl s)"
| "do_call m now (CDelete k) s = map_prod id done_or (me_Delete m None k s)"
| "do_call m now (CList p) s = map_prod id (answer_of entry_answer) (me_List m None now p s)"
| "do_call m now CClear s = map_prod id done_or (me_Clear m None s)"
| "do_call m now (CBatchGet ks) s = map_prod id (answer_of Values) (me_BatchGet m None now ks s)"
| "do_call m now (CBatchSet kvs ttl) s = map_prod id done_or (me_BatchSet m None now kvs ttl s)"

fun mem_run :: "('s, 'v) memory \<Rightarrow> (int \<times> 'v mem_call) list \<Rightarrow> 's \<Rightarrow> 'v mem_answer list" where
  "mem_run m [] s = []"
| "mem_run m ((t, c) # cs) s = (case do_call m t c s of (s', a) \<Rightarrow> a # mem_run m cs s')"

text \<open>The specification: a map that remembers every record written, and shows the live ones.\<close>

definition shown :: "(string \<rightharpoonup> 'v store_record) \<Rightarrow> int \<Rightarrow> string \<rightharpoonup> 'v store_record" where
  "shown m t k = Option.bind (m k) (live t)"

fun spec_call :: "int \<Rightarrow> 'v mem_call \<Rightarrow> (string \<rightharpoonup> 'v store_record) \<Rightarrow> (string \<rightharpoonup> 'v store_record) \<times> 'v mem_answer" where
  "spec_call t (CGet k) m = (m, Value (map_option sr_value (shown m t k)))"
| "spec_call t (CSet k v ttl) m = (m(k \<mapsto> \<lparr>sr_value = v, sr_createdAt = t, sr_ttl = ttl\<rparr>), Done)"
| "spec_call t (CDelete k) m = (m(k := None), Done)"
| "spec_call t (CList p) m = (m, Entries (\<lambda>k. if has_prefix k p then shown m t k else None) True)"
| "spec_call t CClear m = (Map.empty, Done)"
| "spec_call t (CBatchGet ks) m =
     (m, Values (\<lambda>k. if k \<in> set ks then map_option sr_value (shown m t k) else None))"
| "spec_call t (CBatchSet kvs ttl) m =
     ((\<lambda>k. case map_of kvs k of
             Some v \<Rightarrow> Some \<lparr>sr_value = v, sr_createdAt = t, sr_ttl = ttl\<rparr>
           | None \<Rightarrow> m k), Done)"

fun spec_run :: "(int \<times> 'v mem_call) list \<Rightarrow> (string \<rightharpoonup> 'v store_record) \<Rightarrow> 'v mem_answer list" where
  "spec_run [] m = []"
| "spec_run ((t, c) # cs) m = (case spec_call t c m of (m', a) \<Rightarrow> a # spec_run cs m')"

text \<open>The entries of a Go map have distinct keys.\<close>

fun call_ok :: "'v mem_call \<Rightarrow> bool" where
  "call_ok (CBatchSet kvs ttl) = distinct (map fst kvs)"
| "call_ok _ = True"

section \<open>Clients of a reliable store\<close>

context ttl_store
begin

lemma get_loop_spec:
  assumes "ok s"
  shows "\<exists>s'. get_loop ops t ks m s =
      (s', Inr (\<lambda>k. if k \<in> set ks \<and> view t s k \<noteq> None then map_option sr_value (view t s k) else m k)) \<and>
    ok s' \<and> unchanged t view s s'"
  using assms
proof (induction ks arbitrary: s m)
  case (Cons k ks)
  obtain s1 where g: "op_Get ops t k s = (s1, Inr (map_option sr_value (view t s k)))" "ok s1" "unchanged t view s s1"
    using get [OF Cons.prems] by blast
  define m1 where "m1 = (case view t s k of None \<Rightarrow> m | Some r \<Rightarrow> m(k \<mapsto> sr_value r))"
  obtain s2 where s2: "get_loop ops t ks m1 s1 =
      (s2, Inr (\<lambda>k. if k \<in> set ks \<and> view t s1 k \<noteq> None then map_option sr_value (view t s1 k) else m1 k))"
      "ok s2" "unchanged t view s1 s2"
    using Cons.IH [OF g(2)] by blast
  have "get_loop ops t (k # ks) m s = get_loop ops t ks m1 s1"
    by (simp add: g(1) m1_def split: option.splits)
  moreover have "(if k' \<in> set ks \<and> view t s1 k' \<noteq> None then map_option sr_value (view t s1 k') else m1 k') =
      (if k' \<in> set (k # ks) \<and> view t s k' \<noteq> None then map_option sr_value (view t s k') else m k')" for k'
    by (auto simp: unchanged_now [OF g(3)] m1_def split: option.splits)
  ultimately show ?case using s2 unchanged_trans [OF g(3) s2(3)] by auto
qed simp

lemma set_loop_spec:
  assumes "ok s" "distinct (map fst kvs)"
  shows "\<exists>s'. set_loop ops t kvs ttl s = (s', None) \<and> ok s' \<and> (\<forall>t'\<ge>t. view t' s' =
    (\<lambda>k. case map_of kvs k of
           Some v \<Rightarrow> live t' \<lparr>sr_value = v, sr_createdAt = t, sr_ttl = ttl\<rparr>
         | None \<Rightarrow> view t' s k))"
  using assms
proof (induction kvs arbitrary: s)
  case (Cons kv kvs)
  obtain k v where [simp]: "kv = (k, v)" by fastforce
  have k: "map_of kvs k = None" using Cons.prems(2) by (simp add: map_of_eq_None_iff)
  obtain s1 where s1: "op_Set ops t k v ttl s = (s1, None)" "ok s1"
      "\<forall>t'\<ge>t. view t' s1 = (view t' s)(k := live t' \<lparr>sr_value = v, sr_createdAt = t, sr_ttl = ttl\<rparr>)"
    using set0 [OF Cons.prems(1)] by blast
  obtain s2 where "set_loop ops t kvs ttl s1 = (s2, None)" "ok s2" "\<forall>t'\<ge>t. view t' s2 =
    (\<lambda>k. case map_of kvs k of
           Some v \<Rightarrow> live t' \<lparr>sr_value = v, sr_createdAt = t, sr_ttl = ttl\<rparr>
         | None \<Rightarrow> view t' s1 k)"
    using Cons.IH [OF s1(2)] Cons.prems(2) by auto
  then show ?case using s1 k by (intro exI [of _ s2]) (auto simp: fun_eq_iff split: option.splits)
qed simp

lemma batchGet_spec:
  assumes "ok s" "mb_store b = ops"
  shows "\<exists>s'. batchGet b t ks s = (s', Inr (\<lambda>k. if k \<in> set ks then map_option sr_value (view t s k) else None)) \<and>
    ok s' \<and> unchanged t view s s'"
proof (cases "op_Batch ops")
  case None
  have "(\<lambda>k. if k \<in> set ks \<and> view t s k \<noteq> None then map_option sr_value (view t s k) else Map.empty k) =
      (\<lambda>k. if k \<in> set ks then map_option sr_value (view t s k) else None)" by auto
  then show ?thesis using None get_loop_spec [OF assms(1), of t ks Map.empty] assms(2) by (auto simp: batchGet_def)
next
  case (Some bo)
  then show ?thesis using batch_get [OF Some assms(1)] assms(2) by (simp add: batchGet_def)
qed

lemma batchSet_spec:
  assumes "ok s" "mb_store b = ops" "distinct (map fst kvs)"
  shows "\<exists>s'. batchSet b t kvs ttl s = (s', None) \<and> ok s' \<and> (\<forall>t'\<ge>t. view t' s' =
    (\<lambda>k. case map_of kvs k of
           Some v \<Rightarrow> live t' \<lparr>sr_value = v, sr_createdAt = t, sr_ttl = ttl\<rparr>
         | None \<Rightarrow> view t' s k))"
  using assms batch_set set_loop_spec by (cases "op_Batch ops") (simp_all add: batchSet_def)

lemma base_list_spec:
  assumes "ok s" "mb_store b = ops"
  shows "\<exists>s' es. base_list b t p s = (s', Inr es) \<and> ok s' \<and> unchanged t view s s' \<and>
    entry_answer es = Entries (\<lambda>k. if has_prefix k p then view t s k else None) True"
proof -
  obtain s' es where l: "op_List ops t p s = (s', Inr es)" "ok s'" "unchanged t view s s'"
      "distinct (map se_Key es)" "listing es = (\<lambda>k. if has_prefix k p then view t s k else None)"
    using list [OF assms(1)] by blast
  then show ?thesis
    by (simp add: base_list_def assms(2) entry_answer_def toEntries_def listing_def comp_def)
qed

text \<open>Every call on a tier answers as the map with expiry does.\<close>

definition shows_map :: "int \<Rightarrow> 's \<Rightarrow> (string \<rightharpoonup> 'v store_record) \<Rightarrow> bool" where
  "shows_map t s m \<longleftrightarrow> ok s \<and> (\<forall>t'\<ge>t. view t' s = shown m t')"

lemma call_refines:
  assumes "shows_map t s m" "mb_store b = ops" "call_ok c"
  shows "\<exists>s'. do_call (syncMemory b) t c s = (s', snd (spec_call t c m)) \<and> shows_map t s' (fst (spec_call t c m))"
proof -
  have ok: "ok s" and now: "view t s = shown m t" and later: "\<And>t'. t \<le> t' \<Longrightarrow> view t' s = shown m t'"
    using assms(1) by (auto simp: shows_map_def)
  show ?thesis
  proof (cases c)
    case (CGet k)
    then show ?thesis using get [OF ok, of t k] later
      by (auto simp: syncMemory_def checked_def assms(2) answer_of_def shows_map_def unchanged_def now)
  next
    case (CSet k v ttl)
    then show ?thesis using set0 [OF ok, of t k v ttl] later
      by (auto simp: syncMemory_def checked_err_def assms(2) done_or_def shows_map_def shown_def fun_eq_iff)
  next
    case (CDelete k)
    then show ?thesis using delete [OF ok, of k] later
      by (auto simp: syncMemory_def checked_err_def assms(2) done_or_def shows_map_def shown_def fun_eq_iff)
  next
    case (CList p)
    then show ?thesis using base_list_spec [OF ok assms(2), of t p] later
      by (auto simp: syncMemory_def checked_def answer_of_def shows_map_def unchanged_def now cong: if_cong)
  next
    case CClear
    then show ?thesis using clear [OF ok]
      by (auto simp: syncMemory_def checked_err_def assms(2) done_or_def shows_map_def shown_def fun_eq_iff)
  next
    case (CBatchGet ks)
    then show ?thesis using batchGet_spec [OF ok assms(2), of t ks] later
      by (auto simp: syncMemory_def checked_def answer_of_def shows_map_def unchanged_def now cong: if_cong)
  next
    case (CBatchSet kvs ttl)
    then obtain s' where s': "batchSet b t kvs ttl s = (s', None)" "ok s'"
      "\<forall>t'\<ge>t. view t' s' = (\<lambda>k. case map_of kvs k of
           Some v \<Rightarrow> live t' \<lparr>sr_value = v, sr_createdAt = t, sr_ttl = ttl\<rparr>
         | None \<Rightarrow> view t' s k)"
      using batchSet_spec [OF ok assms(2), of kvs t ttl] assms(3) by auto
    have "view t' s' k = shown (fst (spec_call t c m)) t' k" if "t \<le> t'" for t' k
      using s'(3) later [OF that] that CBatchSet by (simp add: shown_def split: option.split)
    then show ?thesis using s'(1,2) CBatchSet
      by (auto simp: syncMemory_def checked_err_def done_or_def shows_map_def)
  qed
qed

lemma run_refines:
  assumes "shows_map t s m" "mb_store b = ops" "sorted (t # map fst cs)" "\<forall>c\<in>set (map snd cs). call_ok c"
  shows "mem_run (syncMemory b) cs s = spec_run cs m"
  using assms
proof (induction cs arbitrary: t s m)
  case (Cons tc cs)
  obtain t1 c where [simp]: "tc = (t1, c)" by fastforce
  have "shows_map t1 s m" using Cons.prems(1,3) by (auto simp: shows_map_def)
  from call_refines [OF this Cons.prems(2), of c] Cons.prems(4) obtain s' where
    "do_call (syncMemory b) t1 c s = (s', snd (spec_call t1 c m))" "shows_map t1 s' (fst (spec_call t1 c m))" by auto
  then show ?case using Cons.IH [of t1 s' "fst (spec_call t1 c m)"] Cons.prems by (simp add: split_beta)
qed simp

end

text \<open>
  C18: session memory is a map with expiry.  In any run of calls on a session memory over a new \<open>MapStore\<close>,
  with a clock that does not go back and whatever the order in which Go visits the map, every answer,
  those of listings and batches included, is that of a map which remembers what was written
  last under each key and shows it until its time to live has passed.
\<close>

theorem session_memory_is_ttl_map:
  assumes "sorted (map fst cs)" and "\<forall>c\<in>set (map snd cs). call_ok c"
  shows "mem_run (NewSessionMemoryWithStore (map_store_ops visit) agentID sessionID) cs NewMapStore =
    spec_run cs Map.empty"
proof -
  define t where "t = (case cs of [] \<Rightarrow> 0 | c # _ \<Rightarrow> fst c)"
  have "sorted (t # map fst cs)" using assms(1) by (cases cs) (auto simp: t_def)
  moreover have "mapstore.shows_map t NewMapStore Map.empty"
    by (simp add: mapstore.shows_map_def NewMapStore_def shown_def fun_eq_iff)
  ultimately show ?thesis
    unfolding NewSessionMemoryWithStore_def
    by (intro mapstore.run_refines [where visit = visit]) (use assms(2) in auto)
qed

definition tier_demo :: "(int \<times> nat mem_call) list" where
  "tier_demo = [(0, CSet ''a:1'' 7 2), (0, CBatchSet [(''a:2'', 8), (''b'', 9)] 0), (1000000000, CGet ''a:1''),
     (3000000000, CGet ''a:1''), (3000000000, CBatchGet [''a:2'', ''c'']), (3000000001, CDelete ''b''), (4000000000, CGet ''b'')]"

theorem session_memory_is_ttl_map_witness:
  "mem_run (NewSessionMemoryWithStore (map_store_ops (\<lambda>_. 0)) ''agent'' ''s'') tier_demo NewMapStore =
     spec_run tier_demo Map.empty \<and>
   take 4 (spec_run tier_demo Map.empty) = [Done, Done, Value (Some 7), Value None]"
proof -
  have "sorted (map fst tier_demo)" "\<forall>c\<in>set (map snd tier_demo). call_ok c" by (simp_all add: tier_demo_def)
  from session_memory_is_ttl_map [OF this] show ?thesis
    by (simp add: tier_demo_def shown_def live_def isExpired_def ttl_ns_def)
qed

section \<open>Promotion and archiving\<close>

type_synonym 'v selector = "'v entry list \<Rightarrow> 'v entry list res"

definition PromoteAll :: "'v selector" where
  "PromoteAll entries = Inr entries"

definition PromoteNone :: "'v selector" where
  "PromoteNone entries = Inr []"

definition ArchiveAll :: "'v selector" where
  "ArchiveAll entries = Inr entries"

definition ArchiveNone :: "'v selector" where
  "ArchiveNone entries = Inr []"

record ('s, 't, 'v, 'c) manager =
  mg_session :: "('s, 'v) memory option"
  mg_store :: "('t, 'v) memory option"
  mg_promoter :: "'v selector option"
  mg_archiver :: "'v selector option"
  mg_compressor :: "'c option"

definition WithSession :: "('s, 'v) memory \<Rightarrow> ('s, 't, 'v, 'c) manager \<Rightarrow> ('s, 't, 'v, 'c) manager" where
  "WithSession m mgr = mgr\<lparr>mg_session := Some m\<rparr>"

definition WithStore :: "('t, 'v) memory \<Rightarrow> ('s, 't, 'v, 'c) manager \<Rightarrow> ('s, 't, 'v, 'c) manager" where
  "WithStore m mgr = mgr\<lparr>mg_store := Some m\<rparr>"

definition WithPromoter :: "'v selector option \<Rightarrow> ('s, 't, 'v, 'c) manager \<Rightarrow> ('s, 't, 'v, 'c) manager" where
  "WithPromoter p mgr = mgr\<lparr>mg_promoter := p\<rparr>"

definition WithArchiver :: "'v selector option \<Rightarrow> ('s, 't, 'v, 'c) manager \<Rightarrow> ('s, 't, 'v, 'c) manager" where
  "WithArchiver a mgr = mgr\<lparr>mg_archiver := a\<rparr>"

definition WithCompressor :: "'c \<Rightarrow> ('s, 't, 'v, 'c) manager \<Rightarrow> ('s, 't, 'v, 'c) manager" where
  "WithCompressor c mgr = mgr\<lparr>mg_compressor := Some c\<rparr>"

definition NewManager ::
  "(('s, 't, 'v, 'c) manager \<Rightarrow> ('s, 't, 'v, 'c) manager) list \<Rightarrow> ('s, 't, 'v, 'c) manager" where
  "NewManager opts =
     fold (\<lambda>opt mgr. opt mgr) opts
       \<lparr>mg_session = None, mg_store = None, mg_promoter = Some PromoteAll, mg_archiver = Some ArchiveNone,
        mg_compressor = None\<rparr>"

text \<open>The loops that write the selected entries; the \<open>i\<close>-th reading of the clock is \<open>now i\<close>.\<close>

fun write_loop ::
  "string \<Rightarrow> ('s, 'v) memory \<Rightarrow> gerror option \<Rightarrow> (nat \<Rightarrow> int) \<Rightarrow> nat \<Rightarrow> 'v entry list \<Rightarrow> 's \<Rightarrow> 's \<times> gerror option" where
  "write_loop fmt m ctx now i [] s = (s, None)"
| "write_loop fmt m ctx now i (e # es) s =
     (case me_Set m ctx (now i) (e_Key e) (e_Value e) (e_TTL e) s of
        (s', Some err) \<Rightarrow> (s', Some (Errorf fmt [AStr (e_Key e)] (Some err)))
      | (s', None) \<Rightarrow> write_loop fmt m ctx now (Suc i) es s')"

definition PromoteToSession ::
  "('s, 't, 'v, 'c) manager \<Rightarrow> gerror option \<Rightarrow> (nat \<Rightarrow> int) \<Rightarrow> ('w, 'v) memory \<Rightarrow> 'w \<Rightarrow> 's \<Rightarrow> 'w \<times> 's \<times> gerror option" where
  "PromoteToSession mgr ctx now working w s =
     (case (mg_session mgr, mg_promoter mgr) of
        (Some session, Some promote) \<Rightarrow>
          (case me_List working ctx (now 0) [] w of
             (w', Inl err) \<Rightarrow> (w', s, Some (Errorf ''memory: list working entries: %w'' [] (Some err)))
           | (w', Inr entries) \<Rightarrow>
               if length entries = 0 then (w', s, None)
               else
                 (case promote entries of
                    Inl err \<Rightarrow> (w', s, Some (Errorf ''memory: promote entries: %w'' [] (Some err)))
                  | Inr promoted \<Rightarrow>
                      (w', write_loop ''memory: write to session %q: %w'' session ctx now 1 promoted s)))
      | _ \<Rightarrow> (w, s, None))"

definition ArchiveToStore ::
  "('s, 't, 'v, 'c) manager \<Rightarrow> gerror option \<Rightarrow> (nat \<Rightarrow> int) \<Rightarrow> 's \<Rightarrow> 't \<Rightarrow> 's \<times> 't \<times> gerror option" where
  "ArchiveToStore mgr ctx now s u =
     (case (mg_session mgr, mg_store mgr, mg_archiver mgr) of
        (Some session, Some store, Some archive) \<Rightarrow>
          (case me_List session ctx (now 0) [] s of
             (s', Inl err) \<Rightarrow> (s', u, Some (Errorf ''memory: list session entries: %w'' [] (Some err)))
           | (s', Inr entries) \<Rightarrow>
               if length entries = 0 then (s', u, None)
               else
                 (case archive entries of
                    Inl err \<Rightarrow> (s', u, Some (Errorf ''memory: archive entries: %w'' [] (Some err)))
                  | Inr archived \<Rightarrow>
                      (s', write_loop ''memory: write to store %q: %w'' store ctx now 1 archived u)))
      | _ \<Rightarrow> (s, u, None))"

context ttl_store
begin

lemma write_loop_spec:
  assumes "ok s" "mb_store b = ops" "distinct (map e_Key es)"
  shows "\<exists>s'. write_loop fmt (syncMemory b) None now i es s = (s', None) \<and> ok s' \<and>
    (\<forall>t. (\<forall>j<length es. now (i + j) \<le> t) \<longrightarrow>
       (\<forall>k. k \<notin> e_Key ` set es \<longrightarrow> view t s' k = view t s k) \<and>
       (\<forall>j<length es. view t s' (e_Key (es ! j)) =
          live t \<lparr>sr_value = e_Value (es ! j), sr_createdAt = now (i + j), sr_ttl = e_TTL (es ! j)\<rparr>))"
  using assms(1,3)
proof (induction es arbitrary: i s)
  case (Cons e es)
  obtain s1 where s1: "op_Set ops (now i) (e_Key e) (e_Value e) (e_TTL e) s = (s1, None)" "ok s1"
      "\<forall>t'\<ge>now i. view t' s1 =
        (view t' s)(e_Key e := live t' \<lparr>sr_value = e_Value e, sr_createdAt = now i, sr_ttl = e_TTL e\<rparr>)"
    using set0 [OF Cons.prems(1)] by blast
  obtain s2 where s2: "write_loop fmt (syncMemory b) None now (Suc i) es s1 = (s2, None)" "ok s2"
    "\<And>t. (\<forall>j<length es. now (Suc i + j) \<le> t) \<Longrightarrow>
       (\<forall>k. k \<notin> e_Key ` set es \<longrightarrow> view t s2 k = view t s1 k) \<and>
       (\<forall>j<length es. view t s2 (e_Key (es ! j)) =
          live t \<lparr>sr_value = e_Value (es ! j), sr_createdAt = now (Suc i + j), sr_ttl = e_TTL (es ! j)\<rparr>)"
    using Cons.IH [OF s1(2), of "Suc i"] Cons.prems(2) by auto
  have "write_loop fmt (syncMemory b) None now i (e # es) s = (s2, None)"
    using s1(1) s2(1) by (simp add: syncMemory_def checked_err_def assms(2))
  moreover have "(\<forall>k. k \<notin> e_Key ` set (e # es) \<longrightarrow> view t s2 k = view t s k) \<and>
      (\<forall>j<length (e # es). view t s2 (e_Key ((e # es) ! j)) =
         live t \<lparr>sr_value = e_Value ((e # es) ! j), sr_createdAt = now (i + j), sr_ttl = e_TTL ((e # es) ! j)\<rparr>)"
    if t: "\<forall>j<length (e # es). now (i + j) \<le> t" for t
  proof -
    have "now i \<le> t" using t by force
    moreover have "\<forall>j<length es. now (Suc i + j) \<le> t" using t by force
    ultimately show ?thesis
      using s2(3) [of t] s1(3) Cons.prems(2) by (auto simp: nth_Cons image_iff split: nat.splits)
  qed
  ultimately show ?case using s2(2) by blast
qed simp

end

lemma workingMemory_sync: "workingMemory b = syncMemory b"
  by (simp add: workingMemory_def syncMemory_def)

lemma promotion_effect:
  assumes "ms_ok w" "ms_ok s" "\<And>i. now 0 \<le> now i"
    and "mg_session mgr = Some (NewSessionMemoryWithStore (map_store_ops visit') a sid)" "mg_promoter mgr = Some PromoteAll"
  shows "\<exists>w' s'. PromoteToSession mgr None now (NewWorkingMemoryWithStore (map_store_ops visit) a' sid') w s = (w', s', None) \<and>
    ms_ok w' \<and> ms_ok s' \<and> unchanged (now 0) ms_view w w' \<and>
    (\<forall>t k. (\<forall>i. now i \<le> t) \<longrightarrow>
      (case ms_view (now 0) w k of
         None \<Rightarrow> ms_view t s' k = ms_view t s k
       | Some r \<Rightarrow> \<exists>i>0. ms_view t s' k = live t (r\<lparr>sr_createdAt := now i\<rparr>)))"
proof -
  let ?wb = "\<lparr>mb_store = map_store_ops visit, mb_scope = ScopeWorking, mb_agentID = a', mb_sessionID = sid'\<rparr>"
  let ?sb = "\<lparr>mb_store = map_store_ops visit', mb_scope = ScopeSession, mb_agentID = a, mb_sessionID = sid\<rparr>"
  obtain w1 es where l: "base_list ?wb (now 0) [] w = (w1, Inr es)" "ms_ok w1" "unchanged (now 0) ms_view w w1"
      "entry_answer es = Entries (\<lambda>k. if has_prefix k [] then ms_view (now 0) w k else None) True"
    using mapstore.base_list_spec [OF assms(1), of ?wb visit "now 0" "[]"] by auto
  then have d: "distinct (map e_Key es)"
    and m: "map_of (map (\<lambda>e. (e_Key e, \<lparr>sr_value = e_Value e, sr_createdAt = e_CreatedAt e, sr_ttl = e_TTL e\<rparr>)) es)
      = ms_view (now 0) w"
    by (auto simp: entry_answer_def has_prefix_def)
  obtain s1 where s1: "write_loop ''memory: write to session %q: %w'' (syncMemory ?sb) None now 1 es s = (s1, None)"
      "ms_ok s1" "\<And>t. \<forall>j<length es. now (1 + j) \<le> t \<Longrightarrow>
        (\<forall>k. k \<notin> e_Key ` set es \<longrightarrow> ms_view t s1 k = ms_view t s k) \<and>
        (\<forall>j<length es. ms_view t s1 (e_Key (es ! j)) =
           live t \<lparr>sr_value = e_Value (es ! j), sr_createdAt = now (1 + j), sr_ttl = e_TTL (es ! j)\<rparr>)"
    using mapstore.write_loop_spec [OF assms(2), of ?sb visit' es "''memory: write to session %q: %w''" now 1] d by auto
  have r: "PromoteToSession mgr None now (NewWorkingMemoryWithStore (map_store_ops visit) a' sid') w s = (w1, s1, None)"
    using l(1) s1(1)
    by (auto simp: PromoteToSession_def assms(4,5) NewSessionMemoryWithStore_def
        NewWorkingMemoryWithStore_def workingMemory_sync syncMemory_def checked_def PromoteAll_def split: if_splits)
  have "case ms_view (now 0) w k of
       None \<Rightarrow> ms_view t s1 k = ms_view t s k
     | Some r \<Rightarrow> \<exists>i>0. ms_view t s1 k = live t (r\<lparr>sr_createdAt := now i\<rparr>)" if t: "\<forall>i. now i \<le> t" for t k
  proof (cases "ms_view (now 0) w k")
    case None
    then have "k \<notin> e_Key ` set es" unfolding m [symmetric] by (simp add: map_of_eq_None_iff image_image)
    then show ?thesis using None s1(3) t by simp
  next
    case (Some r)
    then have "(k, r) \<in> set (map (\<lambda>e. (e_Key e, \<lparr>sr_value = e_Value e, sr_createdAt = e_CreatedAt e, sr_ttl = e_TTL e\<rparr>)) es)"
      unfolding m [symmetric] by (rule map_of_SomeD)
    then obtain j where j: "j < length es" "k = e_Key (es ! j)"
        "r = \<lparr>sr_value = e_Value (es ! j), sr_createdAt = e_CreatedAt (es ! j), sr_ttl = e_TTL (es ! j)\<rparr>"
      by (auto simp: in_set_conv_nth)
    then have "ms_view t s1 k = live t (r\<lparr>sr_createdAt := now (1 + j)\<rparr>)" using s1(3) t by simp
    then show ?thesis using Some by (auto intro: exI [of _ "1 + j"])
  qed
  then show ?thesis using r l(2,3) s1(2) by blast
qed

text \<open>
  Promotion copies.  With the default promoter and tiers over \<open>MapStore\<close>, promotion at the end of a
  run does not fail and leaves working memory as it was; afterwards session memory shows under
  every key that was live in working memory the same value, with its time to live starting again,
  and under every other key what it showed before.
\<close>

lemma promotion_copies:
  assumes "ms_ok w" and "ms_ok s" and "\<forall>i. now 0 \<le> now i \<and> now i \<le> t"
    and "PromoteToSession (NewManager [WithSession (NewSessionMemoryWithStore (map_store_ops visit') a sid)]) None now
      (NewWorkingMemoryWithStore (map_store_ops visit) a sid) w s = (w', s', err)"
    (is "PromoteToSession ?mgr _ _ _ _ _ = _")
  shows "err = None \<and> ms_ok w' \<and> ms_ok s' \<and> ms_view t w' = ms_view t w \<and>
    (case ms_view (now 0) w k of
       None \<Rightarrow> ms_view t s' k = ms_view t s k
     | Some r \<Rightarrow> \<exists>i>0. ms_view t s' k = live t (r\<lparr>sr_createdAt := now i\<rparr>))"
proof -
  have m: "mg_session ?mgr = Some (NewSessionMemoryWithStore (map_store_ops visit') a sid)" "mg_promoter ?mgr = Some PromoteAll"
    by (simp_all add: NewManager_def WithSession_def)
  have n: "\<And>i. now 0 \<le> now i" using assms(3) by blast
  show ?thesis
    using promotion_effect [where now = now, OF assms(1,2) n m, of visit a sid] assms(3,4) by (auto simp: unchanged_def)
qed

definition session_demo :: "nat map_store" where
  "session_demo = [(''x'', \<lparr>sr_value = 1, sr_createdAt = 0, sr_ttl = 0\<rparr>), (''y'', \<lparr>sr_value = 2, sr_createdAt = 0, sr_ttl = 0\<rparr>)]"

definition working_demo :: "nat map_store" where
  "working_demo = [(''x'', \<lparr>sr_value = 5, sr_createdAt = 0, sr_ttl = 9\<rparr>), (''z'', \<lparr>sr_value = 6, sr_createdAt = 0, sr_ttl = 1\<rparr>)]"

definition promotion_demo :: "nat map_store \<times> nat map_store \<times> gerror option" where
  "promotion_demo =
     PromoteToSession (NewManager [WithSession (NewSessionMemoryWithStore (map_store_ops (\<lambda>_. 0)) [] ''s'')] ::
         (nat map_store, unit, nat, unit) manager) None
       (\<lambda>i. if i = 0 then 2000000000 else 2000000007)
       (NewWorkingMemoryWithStore (map_store_ops (\<lambda>_. 0)) [] ''s'') working_demo session_demo"

theorem promotion_copies_witness:
  "\<exists>w' s' err i. promotion_demo = (w', s', err) \<and> err = None \<and> 0 < (i::nat) \<and> ms_view 3000000000 s' ''z'' = None \<and>
     ms_view 3000000000 s' ''x'' = Some \<lparr>sr_value = 5, sr_createdAt = (if i = 0 then 2000000000 else 2000000007), sr_ttl = 9\<rparr>"
proof -
  obtain w' s' err where p: "promotion_demo = (w', s', err)" by (rule prod_cases3)
  let ?now = "\<lambda>i. if i = (0::nat) then 2000000000 else 2000000007 :: int"
  have ok: "ms_ok working_demo" "ms_ok session_demo" by (simp_all add: ms_ok_def working_demo_def session_demo_def)
  have n: "\<forall>i. ?now 0 \<le> ?now i \<and> ?now i \<le> 3000000000" by simp
  note pc = promotion_copies [OF ok n p [unfolded promotion_demo_def]]
  have "ms_view (?now 0) working_demo ''x'' = Some \<lparr>sr_value = 5, sr_createdAt = 0, sr_ttl = 9\<rparr>"
    and z: "ms_view (?now 0) working_demo ''z'' = None" "ms_view 3000000000 session_demo ''z'' = None"
    by (simp_all add: working_demo_def session_demo_def ms_view_def live_def isExpired_def ttl_ns_def)
  then have x: "\<exists>i>0. ms_view 3000000000 s' ''x'' = live 3000000000 \<lparr>sr_value = 5, sr_createdAt = ?now i, sr_ttl = 9\<rparr>"
    using pc [of "''x''"] by simp
  have e: "live 3000000000 \<lparr>sr_value = 5, sr_createdAt = 2000000007, sr_ttl = 9\<rparr> =
      Some \<lparr>sr_value = 5::nat, sr_createdAt = 2000000007, sr_ttl = 9\<rparr>"
    by (simp add: live_def isExpired_def ttl_ns_def)
  from x obtain i :: nat where i: "0 < i" "ms_view 3000000000 s' ''x'' = live 3000000000 \<lparr>sr_value = 5, sr_createdAt = ?now i, sr_ttl = 9\<rparr>"
    by blast
  have n: "?now i = 2000000007" using i(1) by simp
  have "ms_view 3000000000 s' ''x'' = Some \<lparr>sr_value = 5, sr_createdAt = ?now i, sr_ttl = 9\<rparr>"
    unfolding i(2) n by (rule e)
  moreover have "ms_view 3000000000 s' ''z'' = None" "err = None" using pc [of "''z''"] z by simp_all
  ultimately show ?thesis using p i(1) by blast
qed

end
