(* ===== verification/Guard.thy ===== *)
theory Guard
  imports GoStrings
begin

text \<open>
  The guards of package \<open>guard\<close>: content, topic and length filters, the guards made of patterns, and the chain
  that runs them.  A compiled regular expression is a rule with the two functions the package calls,
  \<open>MatchString\<close> and \<open>ReplaceAllString\<close>.
\<close>

datatype direction = DirectionInput | DirectionOutput

text \<open>\<open>Action\<close> is a string type in the code; a guard may return any other string.\<close>

datatype action = ActionPass | ActionBlock | ActionRewrite | OtherAction string

record guard_message =
  gm_Direction :: direction
  gm_Content :: string
  gm_AgentID :: string
  gm_SessionID :: string

record guard_result =
  gr_Action :: action
  gr_Content :: string
  gr_Reason :: string
  gr_Violations :: "string list"
  gr_GuardName :: string

text \<open>A guard has a name and a check; \<open>Inr None\<close> is a result that is \<open>nil\<close>.\<close>

record guard =
  g_Name :: string
  g_Check :: "guard_message \<Rightarrow> guard_result option res"

definition Pass :: guard_result where
  "Pass = \<lparr>gr_Action = ActionPass, gr_Content = [], gr_Reason = [], gr_Violations = [], gr_GuardName = []\<rparr>"

definition Block :: "string \<Rightarrow> string \<Rightarrow> string list \<Rightarrow> guard_result" where
  "Block guardName reason violations =
     \<lparr>gr_Action = ActionBlock, gr_Content = [], gr_Reason = reason, gr_Violations = violations, gr_GuardName = guardName\<rparr>"

definition Rewrite :: "string \<Rightarrow> string \<Rightarrow> string \<Rightarrow> string list \<Rightarrow> guard_result" where
  "Rewrite guardName content reason violations =
     \<lparr>gr_Action = ActionRewrite, gr_Content = content, gr_Reason = reason, gr_Violations = violations,
      gr_GuardName = guardName\<rparr>"

text \<open>\<open>BlockedError\<close>; its text is that of the format.\<close>

definition BlockedError :: "guard_result \<Rightarrow> gerror" where
  "BlockedError r = Errorf ''blocked by %s: %s'' [AStr (gr_GuardName r), AStr (gr_Reason r)] None"

section \<open>Keyword guards\<close>

record content_filter =
  cf_keywords :: "string list"
  cf_origKeywords :: "string list"
  cf_caseSensitive :: bool

definition NewContentFilterGuard :: "string list \<Rightarrow> bool \<Rightarrow> content_filter" where
  "NewContentFilterGuard blockedKeywords caseSensitive =
     \<lparr>cf_keywords = map (\<lambda>kw. if caseSensitive then kw else to_lower kw) blockedKeywords,
      cf_origKeywords = blockedKeywords, cf_caseSensitive = caseSensitive\<rparr>"

text \<open>The loops that collect the original spelling of every keyword found.\<close>

fun matched :: "string \<Rightarrow> string list \<Rightarrow> string list \<Rightarrow> string list" where
  "matched s (kw # kws) (orig # origs) = (if contains s kw then orig # matched s kws origs else matched s kws origs)"
| "matched s _ _ = []"

definition cf_Check :: "content_filter \<Rightarrow> guard_message \<Rightarrow> guard_result option res" where
  "cf_Check g msg =
     (if length (cf_keywords g) = 0 then Inr (Some Pass)
      else
        (let txt = (if \<not> cf_caseSensitive g then to_lower (gm_Content msg) else gm_Content msg);
             violations = matched txt (cf_keywords g) (cf_origKeywords g)
         in if length violations > 0
            then Inr (Some (Block ''content_filter'' ''blocked content detected'' violations))
            else Inr (Some Pass)))"

record topic_guard =
  tg_allowed :: "string list"
  tg_blocked :: "string list"
  tg_origBlocked :: "string list"
  tg_caseSensitive :: bool

definition NewTopicGuard :: "string list \<Rightarrow> string list \<Rightarrow> bool \<Rightarrow> topic_guard" where
  "NewTopicGuard allowedTopics blockedTopics caseSensitive =
     (let normalize = map (\<lambda>t. if caseSensitive then t else to_lower t)
      in \<lparr>tg_allowed = normalize allowedTopics, tg_blocked = normalize blockedTopics,
          tg_origBlocked = blockedTopics, tg_caseSensitive = caseSensitive\<rparr>)"

definition tg_Check :: "topic_guard \<Rightarrow> guard_message \<Rightarrow> guard_result option res" where
  "tg_Check g msg =
     (let txt = (if \<not> tg_caseSensitive g then to_lower (gm_Content msg) else gm_Content msg);
          violations = matched txt (tg_blocked g) (tg_origBlocked g)
      in if length violations > 0 then Inr (Some (Block ''topic'' ''blocked topic detected'' violations))
         else if length (tg_allowed g) > 0 then
           (if list_ex (contains txt) (tg_allowed g) then Inr (Some Pass)
            else Inr (Some (Block ''topic'' ''topic not in allowed list'' [])))
         else Inr (Some Pass))"

lemma matched_filter:
  "length kws = length origs \<Longrightarrow> matched s kws origs = map snd (filter (\<lambda>p. contains s (fst p)) (zip kws origs))"
  by (induction s kws origs rule: matched.induct) auto

lemma matched_lower:
  "matched s (map f kws) kws = filter (\<lambda>kw. contains s (f kw)) kws"
  by (induction kws) auto

section \<open>Length\<close>

definition lg_Check :: "int \<Rightarrow> guard_message \<Rightarrow> guard_result option res" where
  "lg_Check maxLength msg =
     (if maxLength \<le> 0 then Inr (Some Pass)
      else
        (let runeCount = int (rune_count (gm_Content msg))
         in if runeCount > maxLength
            then Inr (Some (Block ''length''
              (''content length '' @ itoa runeCount @ '' exceeds maximum '' @ itoa maxLength) []))
            else Inr (Some Pass)))"

section \<open>Pattern guards\<close>

record pattern_rule =
  pr_Name :: string
  MatchString :: "string \<Rightarrow> bool"
  ReplaceAllString :: "string \<Rightarrow> string \<Rightarrow> string"

definition pi_Check :: "pattern_rule list \<Rightarrow> guard_message \<Rightarrow> guard_result option res" where
  "pi_Check patterns msg =
     (if gm_Direction msg = DirectionOutput then Inr (Some Pass)
      else
        (let violations = map pr_Name (filter (\<lambda>p. MatchString p (gm_Content msg)) patterns)
         in if length violations > 0
            then Inr (Some (Block ''prompt_injection'' ''prompt injection detected'' violations))
            else Inr (Some Pass)))"

record pii_guard =
  pii_patterns :: "pattern_rule list"
  pii_replacement :: string

definition NewPIIGuard :: "pattern_rule list \<Rightarrow> string \<Rightarrow> pii_guard" where
  "NewPIIGuard patterns replacement =
     \<lparr>pii_patterns = patterns, pii_replacement = (if replacement = [] then ''[REDACTED]'' else replacement)\<rparr>"

fun redact_loop :: "string \<Rightarrow> pattern_rule list \<Rightarrow> string \<Rightarrow> string list \<Rightarrow> string \<times> string list" where
  "redact_loop repl [] result violations = (result, violations)"
| "redact_loop repl (p # ps) result violations =
     (let replaced = ReplaceAllString p result repl in
      if replaced \<noteq> result then redact_loop repl ps replaced (violations @ [pr_Name p])
      else redact_loop repl ps result violations)"

definition redact :: "pii_guard \<Rightarrow> string \<Rightarrow> string \<times> string list" where
  "redact g content = redact_loop (pii_replacement g) (pii_patterns g) content []"

definition pii_Check :: "pii_guard \<Rightarrow> guard_message \<Rightarrow> guard_result option res" where
  "pii_Check g msg =
     (case redact g (gm_Content msg) of (redacted, violations) \<Rightarrow>
        if length violations > 0
        then Inr (Some (Rewrite ''pii'' redacted ''PII detected and redacted'' violations))
        else Inr (Some Pass))"

section \<open>The chain\<close>

text \<open>The context may end between two guards: \<open>ctx i\<close> is its error before the \<open>i\<close>-th.  The message is passed
  by reference, so its content after the chain is returned beside the result.\<close>

fun guards_loop ::
  "(nat \<Rightarrow> gerror option) \<Rightarrow> nat \<Rightarrow> guard list \<Rightarrow> guard_message \<Rightarrow> bool \<Rightarrow> string list \<Rightarrow>
     guard_message \<times> guard_result res" where
  "guards_loop ctx i [] msg rewritten allViolations =
     (msg,
      if rewritten
      then Inr \<lparr>gr_Action = ActionRewrite, gr_Content = gm_Content msg, gr_Reason = ''content modified by guards'',
                gr_Violations = allViolations, gr_GuardName = []\<rparr>
      else Inr Pass)"
| "guards_loop ctx i (g # gs) msg rewritten allViolations =
     (case ctx i of
        Some err \<Rightarrow> (msg, Inl err)
      | None \<Rightarrow>
          (case g_Check g msg of
             Inl err \<Rightarrow> (msg, Inl err)
           | Inr None \<Rightarrow> (msg, Inl (Errorf ''vage: guard %q returned nil result'' [AStr (g_Name g)] None))
           | Inr (Some result) \<Rightarrow>
               (case gr_Action result of
                  ActionBlock \<Rightarrow> (msg, Inr result)
                | ActionRewrite \<Rightarrow>
                    guards_loop ctx (Suc i) gs (msg\<lparr>gm_Content := gr_Content result\<rparr>) True
                      (allViolations @ gr_Violations result)
                | ActionPass \<Rightarrow> guards_loop ctx (Suc i) gs msg rewritten allViolations
                | OtherAction a \<Rightarrow>
                    (msg, Inl (Errorf ''vage: guard %q returned unknown action %q'' [AStr (g_Name g), AStr a] None)))))"

definition RunGuards ::
  "(nat \<Rightarrow> gerror option) \<Rightarrow> guard_message \<Rightarrow> guard list \<Rightarrow> guard_message \<times> guard_result res" where
  "RunGuards ctx msg guards =
     (if length guards = 0 then (msg, Inr Pass) else guards_loop ctx 0 guards msg False [])"

section \<open>What a chain accepts\<close>

text \<open>A chain accepts a message and leaves it as another when every guard, given the message as the guards
  before it left it, passes it or rewrites it.\<close>

inductive accepts :: "guard list \<Rightarrow> guard_message \<Rightarrow> guard_message \<Rightarrow> bool" where
  accept_end: "accepts [] m m"
| accept_pass: "g_Check g m = Inr (Some r) \<Longrightarrow> gr_Action r = ActionPass \<Longrightarrow> accepts gs m m' \<Longrightarrow> accepts (g # gs) m m'"
| accept_rewrite: "g_Check g m = Inr (Some r) \<Longrightarrow> gr_Action r = ActionRewrite \<Longrightarrow>
    accepts gs (m\<lparr>gm_Content := gr_Content r\<rparr>) m' \<Longrightarrow> accepts (g # gs) m m'"

inductive_simps accepts_Nil [simp]: "accepts [] m m'"
inductive_simps accepts_Cons: "accepts (g # gs) m m'"

lemma accepts_fun: "accepts gs m m1 \<Longrightarrow> accepts gs m m2 \<Longrightarrow> m1 = m2"
  by (induction arbitrary: m2 rule: accepts.induct) (auto simp: accepts_Cons)

lemma guards_loop_accepts:
  "(\<exists>r. guards_loop (\<lambda>_. None) i gs m rw v = (m', Inr r) \<and> gr_Action r \<noteq> ActionBlock) \<longleftrightarrow> accepts gs m m'"
proof (induction gs arbitrary: i m rw v)
  case Nil
  show ?case by (auto simp: Pass_def)
next
  case (Cons g gs)
  show ?case
  proof (cases "g_Check g m")
    case (Inl e)
    then show ?thesis by (simp add: accepts_Cons)
  next
    case (Inr ro)
    then show ?thesis
      by (cases ro) (auto simp: accepts_Cons Cons.IH split: action.split)
  qed
qed

text \<open>An accepted message is reported as rewritten, or it is unchanged.\<close>

lemma guards_loop_result:
  "guards_loop ctx i gs m rw v = (m', Inr r) \<Longrightarrow> gr_Action r \<noteq> ActionBlock \<Longrightarrow>
     gr_Action r = ActionRewrite \<or> gr_Action r = ActionPass \<and> \<not> rw \<and> m' = m"
proof (induction ctx i gs m rw v rule: guards_loop.induct)
  case (2 ctx i g gs m rw v)
  then show ?case
    by (auto split: option.splits sum.splits action.splits)
qed (auto simp: Pass_def split: if_splits)

lemma RunGuards_accepts:
  assumes "accepts gs m m'"
  obtains r where "RunGuards (\<lambda>_. None) m gs = (m', Inr r)"
    "gr_Action r = ActionRewrite \<or> gr_Action r = ActionPass \<and> m' = m"
proof (cases gs)
  case Nil
  then show thesis using that assms by (auto simp: RunGuards_def Pass_def)
next
  case (Cons g gs')
  obtain r where r: "guards_loop (\<lambda>_. None) 0 gs m False [] = (m', Inr r)" "gr_Action r \<noteq> ActionBlock"
    using guards_loop_accepts [of 0 gs m False "[]" m'] assms by blast
  then show thesis using that guards_loop_result [OF r] Cons by (auto simp: RunGuards_def)
qed

lemma RunGuards_rejects:
  assumes "RunGuards (\<lambda>_. None) m gs = (m', Inr r)" "\<nexists>m''. accepts gs m m''"
  shows "gr_Action r = ActionBlock"
proof (cases gs)
  case Nil
  then show ?thesis using assms(2) by auto
next
  case (Cons g gs')
  then have "guards_loop (\<lambda>_. None) 0 gs m False [] = (m', Inr r)" using assms(1) by (simp add: RunGuards_def)
  then show ?thesis using guards_loop_accepts [of 0 gs m False "[]" m'] assms(2) by auto
qed

end
