(* ===== verification/ToolRegistry.thy ===== *)
theory ToolRegistry
  imports Messages "HOL-Library.AList"
begin

text \<open>
  Tools: their definitions, the registry (\<open>tool/registry.go\<close>), and the registry that truncates results
  (\<open>tool/truncate.go\<close>).  A handler changes the world \<open>'w\<close> outside the library and returns a result or
  an error.  The order in which Go visits the map of a registry is given by ranks, as in \<open>MemStore\<close>.
\<close>

record 'p tool_def =
  td_Name :: string
  td_Description :: string
  td_Parameters :: 'p
  td_ForceUse :: bool
  td_Source :: string
  td_MCPServerURI :: string
  td_AgentID :: string
  td_ReadOnly :: bool

type_synonym 'w handler = "'w \<Rightarrow> string \<Rightarrow> string \<Rightarrow> 'w \<times> tool_result res"

record ('w, 'p) tool_entry =
  te_def :: "'p tool_def"
  te_handler :: "'w handler option"

record ('w, 'p) registry =
  rg_entries :: "(string \<times> ('w, 'p) tool_entry) list"
  rg_externalCaller :: "'w handler option"

definition WithExternalCaller :: "'w handler \<Rightarrow> ('w, 'p) registry \<Rightarrow> ('w, 'p) registry" where
  "WithExternalCaller c r = r\<lparr>rg_externalCaller := Some c\<rparr>"

definition NewRegistry :: "(('w, 'p) registry \<Rightarrow> ('w, 'p) registry) list \<Rightarrow> ('w, 'p) registry" where
  "NewRegistry opts = fold (\<lambda>opt r. opt r) opts \<lparr>rg_entries = [], rg_externalCaller = None\<rparr>"

definition Register :: "'p tool_def \<Rightarrow> 'w handler option \<Rightarrow> ('w, 'p) registry \<Rightarrow> ('w, 'p) registry \<times> gerror option" where
  "Register d h r =
     (r\<lparr>rg_entries := AList.update (td_Name d) \<lparr>te_def = d, te_handler = h\<rparr> (rg_entries r)\<rparr>, None)"

definition RegisterIfAbsent ::
  "'p tool_def \<Rightarrow> 'w handler option \<Rightarrow> ('w, 'p) registry \<Rightarrow> ('w, 'p) registry \<times> gerror option" where
  "RegisterIfAbsent d h r =
     (case map_of (rg_entries r) (td_Name d) of
        Some _ \<Rightarrow> (r, Some (Errorf ''tool %q already registered'' [AStr (td_Name d)] None))
      | None \<Rightarrow>
          (r\<lparr>rg_entries := AList.update (td_Name d) \<lparr>te_def = d, te_handler = h\<rparr> (rg_entries r)\<rparr>, None))"

definition Unregister :: "string \<Rightarrow> ('w, 'p) registry \<Rightarrow> ('w, 'p) registry \<times> gerror option" where
  "Unregister name r = (r\<lparr>rg_entries := AList.delete name (rg_entries r)\<rparr>, None)"

definition rg_Get :: "string \<Rightarrow> ('w, 'p) registry \<Rightarrow> 'p tool_def option" where
  "rg_Get name r = map_option te_def (map_of (rg_entries r) name)"

definition rg_List :: "(string \<times> ('w, 'p) tool_entry \<Rightarrow> nat) \<Rightarrow> ('w, 'p) registry \<Rightarrow> 'p tool_def list" where
  "rg_List visit r = map (\<lambda>e. te_def (snd e)) (sort_key visit (rg_entries r))"

fun rg_Merge :: "'p tool_def list \<Rightarrow> ('w, 'p) registry \<Rightarrow> ('w, 'p) registry" where
  "rg_Merge [] r = r"
| "rg_Merge (d # defs) r =
     (case map_of (rg_entries r) (td_Name d) of
        Some _ \<Rightarrow> rg_Merge defs r
      | None \<Rightarrow>
          rg_Merge defs
            (r\<lparr>rg_entries := AList.update (td_Name d) \<lparr>te_def = d, te_handler = None\<rparr> (rg_entries r)\<rparr>))"

definition SetExternalCaller :: "'w handler option \<Rightarrow> ('w, 'p) registry \<Rightarrow> ('w, 'p) registry" where
  "SetExternalCaller c r = r\<lparr>rg_externalCaller := c\<rparr>"

definition rg_Execute :: "('w, 'p) registry \<Rightarrow> 'w handler" where
  "rg_Execute r w name args =
     (case map_of (rg_entries r) name of
        None \<Rightarrow> (w, Inl (Errorf ''tool %q not found'' [AStr name] None))
      | Some e \<Rightarrow>
          (case te_handler e of
             Some h \<Rightarrow> h w name args
           | None \<Rightarrow>
               (case rg_externalCaller r of
                  Some c \<Rightarrow> c w name args
                | None \<Rightarrow> (w, Inl (Errorf ''tool %q has no handler'' [AStr name] None)))))"

text \<open>The format of the model's API.\<close>

record 'p ai_tool =
  at_Type :: string
  at_Name :: string
  at_Description :: string
  at_Parameters :: 'p

definition ToAIModelTools :: "'p tool_def list \<Rightarrow> 'p ai_tool list" where
  "ToAIModelTools defs =
     map (\<lambda>d. \<lparr>at_Type = ''function'', at_Name = td_Name d, at_Description = td_Description d,
       at_Parameters = td_Parameters d\<rparr>) defs"

definition FilterTools :: "'p tool_def list \<Rightarrow> string list \<Rightarrow> 'p tool_def list" where
  "FilterTools defs names =
     (if length names = 0 then defs else filter (\<lambda>d. td_Name d \<in> set names) defs)"

section \<open>Invariant\<close>

text \<open>Every definition is filed under its own name, and every name once.\<close>

definition rg_ok :: "('w, 'p) registry \<Rightarrow> bool" where
  "rg_ok r \<longleftrightarrow> distinct (map fst (rg_entries r)) \<and> (\<forall>(name, e)\<in>set (rg_entries r). td_Name (te_def e) = name)"

lemma rg_ok_update: "rg_ok r \<Longrightarrow> rg_ok (r\<lparr>rg_entries := AList.update (td_Name d) \<lparr>te_def = d, te_handler = h\<rparr> (rg_entries r)\<rparr>)"
proof -
  assume ok: "rg_ok r"
  have "td_Name (te_def e) = name" if "(name, e) \<in> set (AList.update (td_Name d) \<lparr>te_def = d, te_handler = h\<rparr> xs)"
    "\<forall>(name, e)\<in>set xs. td_Name (te_def e) = name" for name e and xs :: "(string \<times> ('a, 'b) tool_entry) list"
    using that by (induction xs) (auto split: if_splits)
  then show ?thesis using ok by (auto simp: rg_ok_def distinct_update)
qed

lemma rg_ok_ops [simp]:
  "rg_ok r \<Longrightarrow> rg_ok (fst (Register d h r))"
  "rg_ok r \<Longrightarrow> rg_ok (fst (RegisterIfAbsent d h r))"
  "rg_ok r \<Longrightarrow> rg_ok (fst (Unregister name r))"
  "rg_ok r \<Longrightarrow> rg_ok (SetExternalCaller c r)"
  by (auto simp: Register_def RegisterIfAbsent_def rg_ok_update split: option.split)
    (auto simp: Unregister_def SetExternalCaller_def rg_ok_def AList.delete_eq distinct_map_filter)

lemma rg_ok_Merge [simp]: "rg_ok r \<Longrightarrow> rg_ok (rg_Merge defs r)"
  by (induction defs r rule: rg_Merge.induct) (auto simp: rg_ok_update split: option.split)

lemma rg_List_set:
  assumes "rg_ok r"
  shows "d \<in> set (rg_List visit r) \<longleftrightarrow> rg_Get (td_Name d) r = Some d"
  using assms by (force simp: rg_List_def rg_Get_def rg_ok_def image_iff)

lemma rg_List_distinct:
  assumes "rg_ok r"
  shows "distinct (map td_Name (rg_List visit r))"
proof -
  have "map td_Name (rg_List visit r) = map fst (sort_key visit (rg_entries r))"
    using assms by (auto simp: rg_List_def rg_ok_def)
  moreover have "mset (map fst (sort_key visit (rg_entries r))) = mset (map fst (rg_entries r))" by simp
  ultimately show ?thesis using assms by (metis mset_eq_imp_distinct_iff rg_ok_def)
qed

text \<open>Merging keeps what is registered and files the rest without a handler.\<close>

lemma rg_Merge_Get:
  "rg_Get name (rg_Merge defs r) =
     (case rg_Get name r of Some d \<Rightarrow> Some d | None \<Rightarrow> find (\<lambda>d. td_Name d = name) defs)"
  by (induction defs r rule: rg_Merge.induct)
    (auto simp: rg_Get_def update_conv' split: option.splits)

section \<open>Truncation\<close>

fun back_up :: "string \<Rightarrow> nat \<Rightarrow> nat" where
  "back_up s 0 = 0"
| "back_up s (Suc n) = (if \<not> rune_start (s ! Suc n) then back_up s n else Suc n)"

definition truncate_part :: "int \<Rightarrow> content_part \<Rightarrow> content_part" where
  "truncate_part maxTokens part =
     (if cp_Type part \<noteq> ''text'' \<or> cp_Text part = [] then part
      else
        (let estimated = EstimateTextTokens (cp_Text part) in
         if estimated \<le> maxTokens then part
         else
           (let maxChars = min (maxTokens * 4) (int (length (cp_Text part)));
                maxChars' = back_up (cp_Text part) (nat maxChars);
                marker = [CHR 0x0A] @ ''[truncated: showing first '' @ itoa maxTokens @ '' of '' @ itoa estimated
                  @ '' estimated tokens]''
            in part\<lparr>cp_Text := take maxChars' (cp_Text part) @ marker\<rparr>)))"

definition tt_Execute :: "'w handler \<Rightarrow> int \<Rightarrow> 'w handler" where
  "tt_Execute inner maxTokens w name args =
     (case inner w name args of
        (w', Inl err) \<Rightarrow> (w', Inl err)
      | (w', Inr result) \<Rightarrow>
          if maxTokens \<le> 0 \<or> tr_IsError result then (w', Inr result)
          else (w', Inr (result\<lparr>tr_Content := map (truncate_part maxTokens) (tr_Content result)\<rparr>)))"

text \<open>The indices the loop reads are inside the text.\<close>

lemma truncation_in_bounds:
  assumes "0 < maxTokens" "maxTokens < EstimateTextTokens s"
  shows "min (maxTokens * 4) (int (length s)) < int (length s)"
  using assms by (auto simp: EstimateTextTokens_def Let_def split: if_splits)

lemma back_up_le: "back_up s n \<le> n"
  by (induction s n rule: back_up.induct) auto

lemma back_up_boundary: "back_up s n = 0 \<or> rune_start (s ! back_up s n)"
  by (induction s n rule: back_up.induct) auto

text \<open>What is kept is a prefix that ends at the start of a rune.\<close>

lemma truncate_part_prefix:
  assumes "0 < maxTokens" "truncate_part maxTokens part \<noteq> part"
  obtains n marker where "cp_Text (truncate_part maxTokens part) = take n (cp_Text part) @ marker"
    "int n \<le> maxTokens * 4" "n < length (cp_Text part)" "n = 0 \<or> rune_start (cp_Text part ! n)"
proof -
  let ?s = "cp_Text part" and ?k = "nat (min (maxTokens * 4) (int (length (cp_Text part))))"
  have e: "maxTokens < EstimateTextTokens ?s" using assms(2) by (auto simp: truncate_part_def Let_def split: if_splits)
  have k: "?k < length ?s" "int ?k \<le> maxTokens * 4" using truncation_in_bounds [OF assms(1) e] assms(1) by linarith+
  show thesis
  proof (rule that)
    show "cp_Text (truncate_part maxTokens part) = take (back_up ?s ?k) ?s @
        ([CHR 0x0A] @ ''[truncated: showing first '' @ itoa maxTokens @ '' of '' @ itoa (EstimateTextTokens ?s) @ '' estimated tokens]'')"
      using assms(2) by (auto simp: truncate_part_def Let_def split: if_splits)
    show "int (back_up ?s ?k) \<le> maxTokens * 4" "back_up ?s ?k < length ?s"
      using back_up_le [of ?s ?k] k by linarith+
    show "back_up ?s ?k = 0 \<or> rune_start (?s ! back_up ?s ?k)" by (rule back_up_boundary)
  qed
qed

end
