(* ===== verification/Skills.thy ===== *)
theory Skills
  imports GoStrings "HOL-Library.AList"
begin

text \<open>
  Skills (package \<open>skill\<close>): definitions and their validation, the registry, and the activations of a
  session.  Reading the file of a resource, and the check of the directory of a skill, are functions
  given as arguments.  Events are appended to a log.
\<close>

record resource =
  rc_Type :: string
  rc_Name :: string
  rc_Path :: string
  rc_Content :: string

record skill_def =
  sd_Name :: string
  sd_Description :: string
  sd_License :: string
  sd_AllowedTools :: "string list"
  sd_Metadata :: "(string \<times> string) list"
  sd_Instructions :: string
  sd_BasePath :: string
  sd_Resources :: "resource list"

text \<open>An activation holds a copy of the definition.\<close>

record activation =
  ac_SkillName :: string
  ac_SessionID :: string
  ac_ActivatedAt :: int
  ac_def :: skill_def

section \<open>Validation\<close>

text \<open>The expression \<open>^[a-z0-9]+(-[a-z0-9]+)*$\<close>: after a hyphen, and at the start, a letter or digit must follow.\<close>

definition name_char :: "char \<Rightarrow> bool" where
  "name_char c \<longleftrightarrow> byte_in 97 122 c \<or> byte_in 48 57 c"

fun name_rest :: "string \<Rightarrow> bool" where
  "name_rest [] = True"
| "name_rest [c] = name_char c"
| "name_rest (c # d # s) = (if c = CHR ''-'' then name_char d \<and> name_rest s else name_char c \<and> name_rest (d # s))"

definition nameRegex :: "string \<Rightarrow> bool" where
  "nameRegex s \<longleftrightarrow> (case s of [] \<Rightarrow> False | c # s' \<Rightarrow> name_char c \<and> name_rest s')"

definition ValidateName :: "string \<Rightarrow> gerror option" where
  "ValidateName name =
     (if name = [] then Some (Errorf ''skill name must not be empty'' [] None)
      else if \<not> nameRegex name
      then Some (Errorf ''invalid skill name %q: must match %s'' [AStr name, AStr ''^[a-z0-9]+(-[a-z0-9]+)*$''] None)
      else None)"

text \<open>A validator takes a pointer that may be \<open>nil\<close>.\<close>

type_synonym validator = "skill_def option \<Rightarrow> gerror option"

definition nil_def :: gerror where
  "nil_def = Errorf ''skill definition must not be nil'' [] None"

definition NameValidator :: validator where
  "NameValidator d = (case d of None \<Rightarrow> Some nil_def | Some sd \<Rightarrow> ValidateName (sd_Name sd))"

definition SizeValidator :: validator where
  "SizeValidator d =
     (case d of
        None \<Rightarrow> Some nil_def
      | Some sd \<Rightarrow>
          if sd_Instructions sd = [] then None
          else
            (let lns = int (count_list (sd_Instructions sd) (CHR 0x0A)) + 1 in
             if lns > 500
             then Some (Errorf ''skill %q instructions have %d lines, max %d'' [AStr (sd_Name sd), AInt lns, AInt 500] None)
             else None))"

text \<open>\<open>read_dir\<close> is \<open>os.ReadDir\<close>, as the names of the entries.\<close>

definition StructureValidator :: "(string \<Rightarrow> string list res) \<Rightarrow> validator" where
  "StructureValidator read_dir d =
     (case d of
        None \<Rightarrow> Some nil_def
      | Some sd \<Rightarrow>
          if sd_BasePath sd = [] then None
          else
            (case read_dir (sd_BasePath sd) of
               Inl err \<Rightarrow> Some (Errorf ''read skill directory %q: %w'' [AStr (sd_BasePath sd)] (Some err))
             | Inr entries \<Rightarrow>
                 (case find (\<lambda>e. e \<notin> {''scripts'', ''references'', ''assets'', ''SKILL.md''}) entries of
                    Some e \<Rightarrow> Some (Errorf ''skill %q has unexpected entry %q in %s''
                      [AStr (sd_Name sd), AStr e, AStr (sd_BasePath sd)] None)
                  | None \<Rightarrow> None)))"

fun CompositeValidator :: "validator list \<Rightarrow> validator" where
  "CompositeValidator [] d = None"
| "CompositeValidator (v # vs) d = (case v d of Some err \<Rightarrow> Some err | None \<Rightarrow> CompositeValidator vs d)"

definition DefaultValidator :: "(string \<Rightarrow> string list res) \<Rightarrow> validator" where
  "DefaultValidator read_dir = CompositeValidator [NameValidator, SizeValidator, StructureValidator read_dir]"

lemma CompositeValidator_None: "CompositeValidator vs d = None \<longleftrightarrow> (\<forall>v\<in>set vs. v d = None)"
  by (induction vs) (auto split: option.split)

section \<open>The registry\<close>

record skill_registry =
  sk_skills :: "(string \<times> skill_def) list"
  sk_validator :: "validator option"

definition sk_NewRegistry :: "(skill_registry \<Rightarrow> skill_registry) list \<Rightarrow> skill_registry" where
  "sk_NewRegistry opts = fold (\<lambda>opt r. opt r) opts \<lparr>sk_skills = [], sk_validator = None\<rparr>"

definition WithValidator :: "validator \<Rightarrow> skill_registry \<Rightarrow> skill_registry" where
  "WithValidator v r = r\<lparr>sk_validator := Some v\<rparr>"

definition sk_Register :: "skill_def option \<Rightarrow> skill_registry \<Rightarrow> skill_registry \<times> gerror option" where
  "sk_Register d r =
     (case d of
        None \<Rightarrow> (r, Some nil_def)
      | Some sd \<Rightarrow>
          (case (case sk_validator r of Some v \<Rightarrow> v d | None \<Rightarrow> None) of
             Some err \<Rightarrow> (r, Some (Errorf ''validate skill %q: %w'' [AStr (sd_Name sd)] (Some err)))
           | None \<Rightarrow>
               (case map_of (sk_skills r) (sd_Name sd) of
                  Some _ \<Rightarrow> (r, Some (Errorf ''skill %q already registered'' [AStr (sd_Name sd)] None))
                | None \<Rightarrow> (r\<lparr>sk_skills := AList.update (sd_Name sd) sd (sk_skills r)\<rparr>, None))))"

definition sk_Unregister :: "string \<Rightarrow> skill_registry \<Rightarrow> skill_registry" where
  "sk_Unregister name r = r\<lparr>sk_skills := AList.delete name (sk_skills r)\<rparr>"

definition sk_Get :: "string \<Rightarrow> skill_registry \<Rightarrow> skill_def option" where
  "sk_Get name r = map_of (sk_skills r) name"

definition sk_List :: "(string \<times> skill_def \<Rightarrow> nat) \<Rightarrow> skill_registry \<Rightarrow> skill_def list" where
  "sk_List visit r = map snd (sort_key visit (sk_skills r))"

definition sk_Match :: "(string \<times> skill_def \<Rightarrow> nat) \<Rightarrow> string \<Rightarrow> skill_registry \<Rightarrow> skill_def list" where
  "sk_Match visit query r =
     (let ws = split_fields (to_lower query) in
      if length ws = 0 then sk_List visit r
      else
        map snd (filter (\<lambda>(_, d).
          let combined = to_lower (sd_Name d) @ '' '' @ to_lower (sd_Description d)
          in list_all (contains combined) ws) (sort_key visit (sk_skills r))))"

section \<open>Activations\<close>

datatype skill_event =
    SkillActivate string string
  | SkillDeactivate string string
  | SkillResourceLoad string string string

record skill_manager =
  sm_registry :: skill_registry
  sm_activations :: "string \<Rightarrow> activation list"
  sm_events :: "skill_event list"

definition sm_NewManager :: "skill_registry \<Rightarrow> skill_manager" where
  "sm_NewManager r = \<lparr>sm_registry = r, sm_activations = (\<lambda>_. []), sm_events = []\<rparr>"

definition Activate :: "int \<Rightarrow> string \<Rightarrow> string \<Rightarrow> skill_manager \<Rightarrow> skill_manager \<times> activation res" where
  "Activate now name sessionID m =
     (case sk_Get name (sm_registry m) of
        None \<Rightarrow> (m, Inl (Errorf ''skill %q not found'' [AStr name] None))
      | Some sd \<Rightarrow>
          (let activation = \<lparr>ac_SkillName = name, ac_SessionID = sessionID, ac_ActivatedAt = now, ac_def = sd\<rparr> in
           if list_ex (\<lambda>a. ac_SkillName a = name) (sm_activations m sessionID)
           then (m, Inl (Errorf ''skill %q already active for session %q'' [AStr name, AStr sessionID] None))
           else
             (m\<lparr>sm_activations := (sm_activations m)(sessionID := sm_activations m sessionID @ [activation]),
                sm_events := sm_events m @ [SkillActivate name sessionID]\<rparr>, Inr activation)))"

fun remove_first :: "string \<Rightarrow> activation list \<Rightarrow> activation list" where
  "remove_first name [] = []"
| "remove_first name (a # acts) = (if ac_SkillName a = name then acts else a # remove_first name acts)"

definition Deactivate :: "string \<Rightarrow> string \<Rightarrow> skill_manager \<Rightarrow> skill_manager \<times> gerror option" where
  "Deactivate name sessionID m =
     (let acts = sm_activations m sessionID in
      if \<not> list_ex (\<lambda>a. ac_SkillName a = name) acts
      then (m, Some (Errorf ''skill %q not active for session %q'' [AStr name, AStr sessionID] None))
      else
        (m\<lparr>sm_activations := (sm_activations m)(sessionID := remove_first name acts),
           sm_events := sm_events m @ [SkillDeactivate name sessionID]\<rparr>, None))"

definition ActiveSkills :: "skill_manager \<Rightarrow> string \<Rightarrow> activation list" where
  "ActiveSkills m sessionID = sm_activations m sessionID"

definition ClearSession :: "string \<Rightarrow> skill_manager \<Rightarrow> skill_manager" where
  "ClearSession sessionID m =
     m\<lparr>sm_activations := (sm_activations m)(sessionID := []),
       sm_events := sm_events m @ map (\<lambda>a. SkillDeactivate (ac_SkillName a) sessionID) (sm_activations m sessionID)\<rparr>"

definition LoadResource ::
  "(string \<Rightarrow> string res) \<Rightarrow> string \<Rightarrow> string \<Rightarrow> string \<Rightarrow> string \<Rightarrow> skill_manager \<Rightarrow> skill_manager \<times> resource res" where
  "LoadResource read_file sessionID skillName resourceType resourceName m =
     (case find (\<lambda>a. ac_SkillName a = skillName) (sm_activations m sessionID) of
        None \<Rightarrow> (m, Inl (Errorf ''skill %q not active for session %q'' [AStr skillName, AStr sessionID] None))
      | Some a \<Rightarrow>
          (case find (\<lambda>r. rc_Type r = resourceType \<and> rc_Name r = resourceName) (sd_Resources (ac_def a)) of
             None \<Rightarrow> (m, Inl (Errorf ''resource %s/%s not found in skill %q''
               [AStr resourceType, AStr resourceName, AStr skillName] None))
           | Some r \<Rightarrow>
               (case read_file (rc_Path r) of
                  Inl err \<Rightarrow> (m, Inl (Errorf ''read resource %q: %w'' [AStr (rc_Path r)] (Some err)))
                | Inr dat \<Rightarrow>
                    (m\<lparr>sm_events := sm_events m @ [SkillResourceLoad skillName resourceType resourceName]\<rparr>,
                     Inr (r\<lparr>rc_Content := dat\<rparr>)))))"

text \<open>A skill is active at most once in a session, and only with the definition it was activated with.\<close>

definition sm_ok :: "skill_manager \<Rightarrow> bool" where
  "sm_ok m \<longleftrightarrow> (\<forall>s. distinct (map ac_SkillName (sm_activations m s)) \<and> (\<forall>a\<in>set (sm_activations m s). ac_SessionID a = s))"

lemma remove_first_filter:
  "distinct (map ac_SkillName acts) \<Longrightarrow> remove_first name acts = filter (\<lambda>a. ac_SkillName a \<noteq> name) acts"
proof (induction acts)
  case (Cons a acts)
  have "filter (\<lambda>b. ac_SkillName b \<noteq> ac_SkillName a) acts = acts"
    using Cons.prems by (intro filter_True) (auto simp: image_iff)
  then show ?case using Cons by auto
qed simp

lemma sm_ok_ops [simp]:
  "sm_ok (sm_NewManager r)"
  "sm_ok m \<Longrightarrow> sm_ok (fst (Activate now name s m))"
  "sm_ok m \<Longrightarrow> sm_ok (fst (Deactivate name s m))"
  "sm_ok m \<Longrightarrow> sm_ok (ClearSession s m)"
  by (auto simp: sm_ok_def sm_NewManager_def Activate_def Deactivate_def ClearSession_def Let_def list_ex_iff
      remove_first_filter distinct_map_filter split: option.split)

text \<open>Activation and deactivation as a set of names.\<close>

lemma active_names:
  assumes "sm_ok m"
  shows "snd (Activate now name s m) = Inr a \<Longrightarrow>
      ac_SkillName ` set (ActiveSkills (fst (Activate now name s m)) s) = insert name (ac_SkillName ` set (ActiveSkills m s))"
    and "snd (Deactivate name s m) = None \<Longrightarrow>
      ac_SkillName ` set (ActiveSkills (fst (Deactivate name s m)) s) = ac_SkillName ` set (ActiveSkills m s) - {name}"
  using assms
  by (auto simp: sm_ok_def ActiveSkills_def Activate_def Deactivate_def Let_def list_ex_iff remove_first_filter
      split: option.splits if_splits)

end
