(* ===== verification/AgentPrep.thy ===== *)
theory AgentPrep
  imports Schema Middleware Compactor MemTiers Guard ToolRegistry Skills
begin

text \<open>
  The task agent, first part (\<open>agent/taskagent/task.go\<close>, \<open>budget.go\<close>): its configuration and everything
  around the loop: parameters, the first messages, the tools offered to the model, tool calls, guards,
  and the storing of messages.

  The state of a run is the world of the model, the tools and everything else outside the library, the
  state of session memory, and the events handed to the hook manager.  What the run reads from the
  outside at points of its own is in \<open>run_env\<close>: the error of the context, the clock, the text of an error,
  the sum of usages, and the orders in which Go visits maps.  Durations of events are left out.
\<close>

section \<open>Configuration and state\<close>

datatype any_value = VMessage message | VOther string

datatype finish_reason = FinishReasonToolCalls | FinishReason string

record choice =
  ch_Message :: ai_message
  ch_FinishReason :: finish_reason

record chat_response =
  cp_Choices :: "choice list"
  cp_Usage :: usage

type_synonym 'p llm_request = "(ai_message, 'p ai_tool, unit) chat_request"

record ('w, 'p) tool_ops =
  to_List :: "'p tool_def list"
  to_Execute :: "'w handler"

record ('w, 's, 't, 'p) agent =
  ag_ID :: string
  ag_systemPrompt :: "string res option"
  ag_model :: string
  ag_chatCompleter :: "('w, 'p llm_request, chat_response) completer option"
  ag_toolRegistry :: "('w, 'p) tool_ops option"
  ag_memoryManager :: "('s, 't, any_value, compressor) manager option"
  ag_maxIterations :: int
  ag_runTokenBudget :: int
  ag_maxTokens :: "int option"
  ag_temperature :: "rat option"
  ag_inputGuards :: "guard list"
  ag_outputGuards :: "guard list"
  ag_skillManager :: "skill_manager option"

text \<open>The constructor and its options; ten iterations are the default.\<close>

definition New :: "string \<Rightarrow> (('w, 's, 't, 'p) agent \<Rightarrow> ('w, 's, 't, 'p) agent) list \<Rightarrow> ('w, 's, 't, 'p) agent" where
  "New cfg_ID opts =
     fold (\<lambda>opt a. opt a) opts
       \<lparr>ag_ID = cfg_ID, ag_systemPrompt = None, ag_model = [], ag_chatCompleter = None, ag_toolRegistry = None,
        ag_memoryManager = None, ag_maxIterations = 10, ag_runTokenBudget = 0, ag_maxTokens = None,
        ag_temperature = None, ag_inputGuards = [], ag_outputGuards = [], ag_skillManager = None\<rparr>"

datatype agent_event =
    AgentStart
  | ToolCallStart string string string
  | ToolCallEnd string string
  | ToolResultEvent string string tool_result
  | IterationStart int
  | TextDelta string
  | LLMCallEnd string usage
  | TokenBudgetExhausted int int int bool
  | AgentEnd string stop_reason

record ('w, 's) agent_state =
  as_world :: 'w
  as_session :: 's
  as_events :: "agent_event list"

record run_env =
  en_add :: "usage \<Rightarrow> usage \<Rightarrow> usage"
  en_text :: "gerror \<Rightarrow> string"
  en_input :: "nat \<Rightarrow> gerror option"
  en_load :: "gerror option"
  en_output :: "nat \<Rightarrow> gerror option"
  en_store :: "nat \<Rightarrow> gerror option"
  en_promote :: "gerror option"
  en_load_time :: int
  en_reply_time :: int
  en_store_time :: "nat \<Rightarrow> int"
  en_promote_time :: "nat \<Rightarrow> int"
  en_duration :: int
  en_visit :: "string \<times> any_value store_record \<Rightarrow> nat"

section \<open>Budget\<close>

record budget_tracker =
  bt_budget :: int
  bt_consumed :: int

definition newBudgetTracker :: "int \<Rightarrow> budget_tracker" where
  "newBudgetTracker b = \<lparr>bt_budget = b, bt_consumed = 0\<rparr>"

definition Exhausted :: "budget_tracker \<Rightarrow> bool" where
  "Exhausted t = (if bt_budget t \<le> 0 then False else bt_consumed t \<ge> bt_budget t)"

definition Add :: "int \<Rightarrow> budget_tracker \<Rightarrow> budget_tracker \<times> bool" where
  "Add tokens t = (let t' = t\<lparr>bt_consumed := bt_consumed t + tokens\<rparr> in (t', Exhausted t'))"

definition Remaining :: "budget_tracker \<Rightarrow> int" where
  "Remaining t =
     (if bt_budget t \<le> 0 then - 1
      else (let r = bt_budget t - bt_consumed t in if r < 0 then 0 else r))"

lemma Remaining_Exhausted: "0 < bt_budget t \<Longrightarrow> Remaining t = 0 \<longleftrightarrow> Exhausted t"
  by (auto simp: Remaining_def Exhausted_def Let_def)

section \<open>Parameters of a run\<close>

record run_params =
  rp_model :: string
  rp_temperature :: "rat option"
  rp_maxIter :: int
  rp_runTokenBudget :: int
  rp_maxTokens :: "int option"
  rp_toolFilter :: "string list"
  rp_stopSeq :: "string list"

definition resolveRunParams :: "('w, 's, 't, 'p) agent \<Rightarrow> run_options option \<Rightarrow> run_params" where
  "resolveRunParams a opts =
     (let p = \<lparr>rp_model = ag_model a, rp_temperature = ag_temperature a, rp_maxIter = ag_maxIterations a,
               rp_runTokenBudget = ag_runTokenBudget a, rp_maxTokens = ag_maxTokens a, rp_toolFilter = [],
               rp_stopSeq = []\<rparr>
      in (case opts of
            None \<Rightarrow> p
          | Some opts \<Rightarrow>
              p\<lparr>rp_model := (if Model opts \<noteq> [] then Model opts else rp_model p),
                rp_temperature := (case Temperature opts of Some x \<Rightarrow> Some x | None \<Rightarrow> rp_temperature p),
                rp_maxIter := (if MaxIterations opts > 0 then MaxIterations opts else rp_maxIter p),
                rp_maxTokens := (if MaxTokens opts > 0 then Some (MaxTokens opts) else rp_maxTokens p),
                rp_runTokenBudget := (if RunTokenBudget opts > 0 then RunTokenBudget opts else rp_runTokenBudget p),
                rp_toolFilter := Tools opts,
                rp_stopSeq := StopSequences opts\<rparr>))"

section \<open>Tools\<close>

text \<open>The loop over the active skills: the union of their tools, in the order they are met; \<open>None\<close> is the early
  return when a skill restricts nothing.\<close>

fun skill_tools :: "activation list \<Rightarrow> string list \<Rightarrow> string list option" where
  "skill_tools [] acc = Some acc"
| "skill_tools (act # acts) acc =
     (let allowed = sd_AllowedTools (ac_def act) in
      if length allowed = 0 then None
      else skill_tools acts (fold (\<lambda>t acc. if t \<in> set acc then acc else acc @ [t]) allowed acc))"

definition mergeSkillToolFilter :: "('w, 's, 't, 'p) agent \<Rightarrow> string list \<Rightarrow> string \<Rightarrow> string list" where
  "mergeSkillToolFilter a requestFilter sessionID =
     (case ag_skillManager a of
        None \<Rightarrow> requestFilter
      | Some sm \<Rightarrow>
          (let active = ActiveSkills sm sessionID in
           if length active = 0 then requestFilter
           else (case skill_tools active [] of
                   None \<Rightarrow> requestFilter
                 | Some skillTools \<Rightarrow>
                     if length requestFilter = 0 then skillTools
                     else filter (\<lambda>t. t \<in> set requestFilter) skillTools)))"

definition prepareAITools :: "('w, 's, 't, 'p) agent \<Rightarrow> string list \<Rightarrow> 'p ai_tool list" where
  "prepareAITools a flt =
     (case ag_toolRegistry a of
        None \<Rightarrow> []
      | Some r \<Rightarrow> ToAIModelTools (FilterTools (to_List r) flt))"

definition executeToolCall ::
  "('w, 's, 't, 'p) agent \<Rightarrow> run_env \<Rightarrow> 'w \<Rightarrow> tool_call \<Rightarrow> 'w \<times> tool_result" where
  "executeToolCall a en w tc =
     (case ag_toolRegistry a of
        None \<Rightarrow> (w, ErrorResult (tc_ID tc)
          (en_text en (Errorf ''tool %q: no registry configured'' [AStr (tc_Name tc)] None)))
      | Some r \<Rightarrow>
          (case to_Execute r w (tc_Name tc) (tc_Arguments tc) of
             (w', Inl err) \<Rightarrow> (w', ErrorResult (tc_ID tc) (en_text en err))
           | (w', Inr tr) \<Rightarrow> (w', tr\<lparr>tr_ToolCallID := tc_ID tc\<rparr>)))"

definition toolResultText :: "tool_result \<Rightarrow> string" where
  "toolResultText r =
     (case find (\<lambda>p. cp_Type p = ''text'') (tr_Content r) of Some p \<Rightarrow> cp_Text p | None \<Rightarrow> [])"

section \<open>The first messages\<close>

text \<open>\<open>strings.Compare\<close> on the keys is the order of byte lists.\<close>

definition loadSessionMessages ::
  "('s, any_value) memory \<Rightarrow> run_env \<Rightarrow> 's \<Rightarrow> 's \<times> message list res" where
  "loadSessionMessages session en s =
     (case me_List session (en_load en) (en_load_time en) ''msg:'' s of
        (s', Inl err) \<Rightarrow> (s', Inl err)
      | (s', Inr ents) \<Rightarrow>
          if length ents = 0 then (s', Inr [])
          else (s', Inr (List.map_filter (\<lambda>e. case e_Value e of VMessage m \<Rightarrow> Some m | VOther _ \<Rightarrow> None)
            (sort_key e_Key ents))))"

definition loadAndCompressSessionHistory ::
  "('w, 's, 't, 'p) agent \<Rightarrow> run_env \<Rightarrow> 's \<Rightarrow> 's \<times> message list \<times> nat" where
  "loadAndCompressSessionHistory a en s =
     (case ag_memoryManager a of
        None \<Rightarrow> (s, [], 0)
      | Some mgr \<Rightarrow>
          (case mg_session mgr of
             None \<Rightarrow> (s, [], 0)
           | Some session \<Rightarrow>
               (case loadSessionMessages session en s of
                  (s', Inl err) \<Rightarrow> (s', [], 0)
                | (s', Inr loaded) \<Rightarrow>
                    (case mg_compressor mgr of
                       None \<Rightarrow> (s', loaded, length loaded)
                     | Some c \<Rightarrow>
                         if length loaded > 0 then
                           (case c (en_load en) loaded 0 of
                              Inl err \<Rightarrow> (s', loaded, length loaded)
                            | Inr compressed \<Rightarrow> (s', compressed, length loaded))
                         else (s', loaded, length loaded)))))"

record build_result =
  br_messages :: "ai_message list"
  br_sessionMsgCount :: nat

definition buildInitialMessages ::
  "('w, 's, 't, 'p) agent \<Rightarrow> run_env \<Rightarrow> message list \<Rightarrow> 's \<Rightarrow> 's \<times> build_result res" where
  "buildInitialMessages a en reqMsgs s =
     (case loadAndCompressSessionHistory a en s of
        (s', sessionMsgs, sessionMsgCount) \<Rightarrow>
          (case (case ag_systemPrompt a of
                   None \<Rightarrow> Inr []
                 | Some (Inl err) \<Rightarrow> Inl (Errorf ''vage: render system prompt: %w'' [] (Some err))
                 | Some (Inr sysText) \<Rightarrow> Inr (if sysText \<noteq> [] then [text_message RoleSystem sysText] else [])) of
             Inl err \<Rightarrow> (s', Inl err)
           | Inr sys \<Rightarrow>
               (s', Inr \<lparr>br_messages = sys @ ToAIModelMessages sessionMsgs @ ToAIModelMessages reqMsgs,
                         br_sessionMsgCount = sessionMsgCount\<rparr>)))"

definition skill_text :: "activation list \<Rightarrow> string" where
  "skill_text active =
     concat (map (\<lambda>act.
       if sd_Instructions (ac_def act) = [] then []
       else [CHR 0x0A] @ ''<skill name='' @ [CHR 0x22] @ ac_SkillName act @ [CHR 0x22] @ ''>'' @ [CHR 0x0A]
         @ sd_Instructions (ac_def act) @ [CHR 0x0A] @ ''</skill>'') active)"

definition injectSkillInstructions ::
  "('w, 's, 't, 'p) agent \<Rightarrow> string \<Rightarrow> build_result \<Rightarrow> build_result" where
  "injectSkillInstructions a sessionID br =
     (case ag_skillManager a of
        None \<Rightarrow> br
      | Some sm \<Rightarrow>
          (let active = ActiveSkills sm sessionID; skillText = skill_text active in
           if length active = 0 \<or> skillText = [] then br
           else (case br_messages br of
                   m # ms \<Rightarrow>
                     if am_Role m = RoleSystem
                     then br\<lparr>br_messages := m\<lparr>am_Text := am_Text m @ skillText\<rparr> # ms\<rparr>
                     else br\<lparr>br_messages := text_message RoleSystem skillText # m # ms\<rparr>
                 | [] \<Rightarrow> br\<lparr>br_messages := [text_message RoleSystem skillText]\<rparr>)))"

section \<open>Guards\<close>

type_synonym request = "(message, any_value) run_request"
type_synonym response = "(message, any_value) run_response"

definition last_user :: "message list \<Rightarrow> nat option" where
  "last_user ms = find (\<lambda>i. m_role (ms ! i) = RoleUser) (rev [0..<length ms])"

definition set_text :: "string \<Rightarrow> message \<Rightarrow> message" where
  "set_text s m = m\<lparr>m_ai := (m_ai m)\<lparr>am_Text := s\<rparr>\<rparr>"

text \<open>The request is passed by reference: it is returned as the guards leave it.\<close>

definition runInputGuards ::
  "('w, 's, 't, 'p) agent \<Rightarrow> run_env \<Rightarrow> request \<Rightarrow> request \<times> gerror option" where
  "runInputGuards a en req =
     (if length (ag_inputGuards a) = 0 \<or> length (rq_Messages req) = 0 then (req, None)
      else
        (case last_user (rq_Messages req) of
           None \<Rightarrow> (req, None)
         | Some idx \<Rightarrow>
             (let msg = \<lparr>gm_Direction = DirectionInput, gm_Content = am_Text (m_ai (rq_Messages req ! idx)),
                         gm_AgentID = ag_ID a, gm_SessionID = rq_SessionID req\<rparr>
              in (case RunGuards (en_input en) msg (ag_inputGuards a) of
                    (msg', Inl err) \<Rightarrow> (req, Some err)
                  | (msg', Inr result) \<Rightarrow>
                      if gr_Action result = ActionBlock then (req, Some (BlockedError result))
                      else if gr_Action result = ActionRewrite then
                        (req\<lparr>rq_Messages := (rq_Messages req)[idx := set_text (gm_Content msg') (rq_Messages req ! idx)]\<rparr>, None)
                      else (req, None)))))"

definition runOutputGuards ::
  "('w, 's, 't, 'p) agent \<Rightarrow> run_env \<Rightarrow> string \<Rightarrow> message list \<Rightarrow> message list res" where
  "runOutputGuards a en sessionID respMsgs =
     (case respMsgs of
        [] \<Rightarrow> Inr respMsgs
      | m # ms \<Rightarrow>
          if length (ag_outputGuards a) = 0 then Inr respMsgs
          else
            (let msg = \<lparr>gm_Direction = DirectionOutput, gm_Content = am_Text (m_ai m), gm_AgentID = ag_ID a,
                        gm_SessionID = sessionID\<rparr>
             in (case RunGuards (en_output en) msg (ag_outputGuards a) of
                   (msg', Inl err) \<Rightarrow> Inl err
                 | (msg', Inr result) \<Rightarrow>
                     if gr_Action result = ActionBlock then Inl (BlockedError result)
                     else if gr_Action result = ActionRewrite then Inr (set_text (gm_Content msg') m # ms)
                     else Inr respMsgs)))"

definition buildResponseMsgs :: "('w, 's, 't, 'p) agent \<Rightarrow> run_env \<Rightarrow> ai_message \<Rightarrow> bool \<Rightarrow> message list" where
  "buildResponseMsgs a en lastMsg partial =
     (if partial then
        (if am_Text lastMsg \<noteq> [] \<or> length (am_ToolCalls lastMsg) > 0
         then [NewAssistantMessage (en_reply_time en) lastMsg (ag_ID a)] else [])
      else [NewAssistantMessage (en_reply_time en) lastMsg (ag_ID a)])"

section \<open>Storing messages\<close>

definition msg_key :: "nat \<Rightarrow> string" where
  "msg_key idx = ''msg:'' @ pad_zeros 6 idx"

text \<open>Errors of \<open>Set\<close> are logged and the index advances all the same; \<open>i\<close> numbers the calls.\<close>

fun store_loop ::
  "('x, any_value) memory \<Rightarrow> run_env \<Rightarrow> message list \<Rightarrow> nat \<Rightarrow> nat \<Rightarrow> 'x \<Rightarrow> 'x" where
  "store_loop working en [] i idx w = w"
| "store_loop working en (m # ms) i idx w =
     store_loop working en ms (Suc i) (Suc idx)
       (fst (me_Set working (en_store en i) (en_store_time en i) (msg_key idx) (VMessage m) 0 w))"

definition storeAndPromoteMessages ::
  "('w, 's, 't, 'p) agent \<Rightarrow> run_env \<Rightarrow> string \<Rightarrow> message list \<Rightarrow> message list \<Rightarrow> nat \<Rightarrow> 's \<Rightarrow> 's" where
  "storeAndPromoteMessages a en sessionID reqMsgs respMsgs sessionMsgCount s =
     (case ag_memoryManager a of
        None \<Rightarrow> s
      | Some mgr \<Rightarrow>
          (let working = NewWorkingMemoryWithStore (map_store_ops (en_visit en)) (ag_ID a) sessionID;
               w1 = store_loop working en reqMsgs 0 sessionMsgCount NewMapStore;
               w2 = store_loop working en respMsgs (length reqMsgs) (sessionMsgCount + length reqMsgs) w1
           in (case PromoteToSession mgr (en_promote en) (en_promote_time en) working w2 s of
                 (w3, s', err) \<Rightarrow> s')))"

end
