(* ===== verification/AgentRun.thy ===== *)
theory AgentRun
  imports AgentPrep
begin

text \<open>
  The task agent, second part: the loop of \<open>Run\<close> (\<open>agent/taskagent/task.go\<close>), from the prompt through calls
  of the model and of tools to the response.  The loop runs at most as often as the iteration limit,
  which is its recursion argument, so \<open>Run\<close> is total.
\<close>

section \<open>The loop\<close>

record run_context =
  rx_sessionID :: string
  rx_tracker :: budget_tracker
  rx_totalUsage :: usage
  rx_sessionMsgCount :: nat
  rx_reqMsgs :: "message list"
  rx_lastMsg :: ai_message
  rx_iteration :: int
  rx_estimated :: bool

definition dispatch :: "agent_event \<Rightarrow> ('w, 's) agent_state \<Rightarrow> ('w, 's) agent_state" where
  "dispatch e st = st\<lparr>as_events := as_events st @ [e]\<rparr>"

text \<open>The first text of a list of messages, for the event at the end.\<close>

definition first_text :: "message list \<Rightarrow> string" where
  "first_text ms = (case ms of [] \<Rightarrow> [] | m # _ \<Rightarrow> am_Text (m_ai m))"

definition finalizeRun ::
  "('w, 's, 't, 'p) agent \<Rightarrow> run_env \<Rightarrow> run_context \<Rightarrow> stop_reason \<Rightarrow> ('w, 's) agent_state \<Rightarrow>
     ('w, 's) agent_state \<times> response" where
  "finalizeRun a en rc stopReason st =
     (let partial = (stopReason \<noteq> StopReasonComplete);
          respMsgs = buildResponseMsgs a en (rx_lastMsg rc) partial;
          respMsgs' = (case runOutputGuards a en (rx_sessionID rc) respMsgs of
                         Inl _ \<Rightarrow> respMsgs
                       | Inr guardedMsgs \<Rightarrow> guardedMsgs);
          st1 = st\<lparr>as_session := storeAndPromoteMessages a en (rx_sessionID rc) (rx_reqMsgs rc) respMsgs'
                     (rx_sessionMsgCount rc) (as_session st)\<rparr>;
          st2 = (if stopReason = StopReasonBudgetExhausted
                 then dispatch (TokenBudgetExhausted (bt_budget (rx_tracker rc)) (bt_consumed (rx_tracker rc))
                   (rx_iteration rc + 1) (rx_estimated rc)) st1
                 else st1);
          st3 = dispatch (AgentEnd (first_text respMsgs') stopReason) st2
      in (st3, \<lparr>rs_Messages = respMsgs', rs_SessionID = rx_sessionID rc, rs_Usage = Some (rx_totalUsage rc),
                rs_Duration = en_duration en, rs_Metadata = Map.empty, rs_StopReason = stopReason\<rparr>))"

definition tool_message :: "tool_result \<Rightarrow> ai_message" where
  "tool_message result =
     \<lparr>am_Role = RoleTool, am_Text = toolResultText result, am_ToolCalls = [], am_ToolCallID = tr_ToolCallID result\<rparr>"

fun call_tools ::
  "('w, 's, 't, 'p) agent \<Rightarrow> run_env \<Rightarrow> tool_call list \<Rightarrow> ai_message list \<Rightarrow> ('w, 's) agent_state \<Rightarrow>
     ('w, 's) agent_state \<times> ai_message list" where
  "call_tools a en [] messages st = (st, messages)"
| "call_tools a en (tc # tcs) messages st =
     (let st1 = dispatch (ToolCallStart (tc_ID tc) (tc_Name tc) (tc_Arguments tc)) st in
      case executeToolCall a en (as_world st1) tc of
        (w, result) \<Rightarrow>
          (let st2 = dispatch (ToolCallEnd (tc_ID tc) (tc_Name tc)) (st1\<lparr>as_world := w\<rparr>)
           in call_tools a en tcs (messages @ [tool_message result]) st2))"

definition chat_req :: "run_params \<Rightarrow> 'p ai_tool list \<Rightarrow> ai_message list \<Rightarrow> 'p llm_request" where
  "chat_req p aiTools messages =
     \<lparr>cr_Model = rp_model p, cr_Messages = messages, cr_Tools = aiTools, cr_Temperature = rp_temperature p,
      cr_MaxTokens = rp_maxTokens p, cr_TopP = None, cr_N = None, cr_Stop = rp_stopSeq p,
      cr_FrequencyPenalty = None, cr_PresencePenalty = None, cr_Seed = None, cr_ResponseFormat = (),
      cr_ToolChoice = (), cr_Stream = False\<rparr>"

text \<open>What an answer of the model adds to the context of the run.\<close>

definition note_response :: "run_env \<Rightarrow> chat_response \<Rightarrow> run_context \<Rightarrow> run_context" where
  "note_response en resp rc =
     rc\<lparr>rx_totalUsage := en_add en (rx_totalUsage rc) (cp_Usage resp),
        rx_tracker := fst (Add (TotalTokens (cp_Usage resp)) (rx_tracker rc))\<rparr>"

text \<open>The first argument after the parameters counts the iterations that are left.\<close>

fun run_loop ::
  "('w, 's, 't, 'p) agent \<Rightarrow> run_env \<Rightarrow> ('w, 'p llm_request, chat_response) completer \<Rightarrow> run_params \<Rightarrow>
     'p ai_tool list \<Rightarrow> nat \<Rightarrow> int \<Rightarrow> ai_message list \<Rightarrow> run_context \<Rightarrow> ('w, 's) agent_state \<Rightarrow>
     ('w, 's) agent_state \<times> response res" where
  "run_loop a en cc p aiTools 0 iter messages rc st =
     apsnd Inr (finalizeRun a en (rc\<lparr>rx_iteration := rp_maxIter p - 1\<rparr>) StopReasonMaxIterations st)"
| "run_loop a en cc p aiTools (Suc n) iter messages rc st =
     (let rc1 = rc\<lparr>rx_iteration := iter\<rparr> in
      if Exhausted (rx_tracker rc1) then apsnd Inr (finalizeRun a en rc1 StopReasonBudgetExhausted st)
      else
        (case cc (as_world st) (chat_req p aiTools messages) of
           (w, Inl err) \<Rightarrow> (st\<lparr>as_world := w\<rparr>, Inl (Errorf ''vage: chat completion: %w'' [] (Some err)))
         | (w, Inr resp) \<Rightarrow>
             (let st1 = st\<lparr>as_world := w\<rparr>; rc2 = note_response en resp rc1 in
              case cp_Choices resp of
                [] \<Rightarrow> (st1, Inl (Sentinel ''vage: empty response from LLM''))
              | choice # _ \<Rightarrow>
                  (let assistantMsg = ch_Message choice;
                       rc3 = rc2\<lparr>rx_lastMsg := assistantMsg\<rparr>;
                       messages1 = messages @ [assistantMsg]
                   in if ch_FinishReason choice \<noteq> FinishReasonToolCalls \<or> length (am_ToolCalls assistantMsg) = 0
                      then apsnd Inr (finalizeRun a en rc3 StopReasonComplete st1)
                      else if Exhausted (rx_tracker rc3)
                      then apsnd Inr (finalizeRun a en rc3 StopReasonBudgetExhausted st1)
                      else (case call_tools a en (am_ToolCalls assistantMsg) messages1 st1 of
                              (st2, messages2) \<Rightarrow> run_loop a en cc p aiTools n (iter + 1) messages2 rc3 st2)))))"

definition Run ::
  "('w, 's, 't, 'p) agent \<Rightarrow> run_env \<Rightarrow> request \<Rightarrow> ('w, 's) agent_state \<Rightarrow> ('w, 's) agent_state \<times> response res" where
  "Run a en req st =
     (case ag_chatCompleter a of
        None \<Rightarrow> (st, Inl (Sentinel ''vage: ChatCompleter is required''))
      | Some cc \<Rightarrow>
          (case runInputGuards a en req of
             (req', Some err) \<Rightarrow> (st, Inl err)
           | (req', None) \<Rightarrow>
               (let p = resolveRunParams a (rq_Options req');
                    st1 = dispatch AgentStart st
                in (case buildInitialMessages a en (rq_Messages req') (as_session st1) of
                      (s', Inl err) \<Rightarrow> (st1\<lparr>as_session := s'\<rparr>, Inl err)
                    | (s', Inr br0) \<Rightarrow>
                        (let br = injectSkillInstructions a (rq_SessionID req') br0;
                             rc = \<lparr>rx_sessionID = rq_SessionID req', rx_tracker = newBudgetTracker (rp_runTokenBudget p),
                                   rx_totalUsage = usage_zero, rx_sessionMsgCount = br_sessionMsgCount br,
                                   rx_reqMsgs = rq_Messages req', rx_lastMsg = text_message (RoleOther []) [],
                                   rx_iteration = 0, rx_estimated = False\<rparr>;
                             aiTools = prepareAITools a (mergeSkillToolFilter a (rp_toolFilter p) (rq_SessionID req'))
                         in run_loop a en cc p aiTools (nat (rp_maxIter p)) 0 (br_messages br) rc
                              (st1\<lparr>as_session := s'\<rparr>))))))"

end
