(* ===== verification/AgentProps.thy ===== *)
theory AgentProps
  imports AgentRun
begin

text \<open>
  Properties of \<open>Run\<close>.  To speak about the requests the model receives, an agent is run with a completer
  that writes every request and its answer to a log in the world; the run is the same otherwise.
\<close>

section \<open>The log of a run\<close>

type_synonym 'p chat_log = "('p llm_request \<times> chat_response res) list"

definition recording ::
  "('w, 'p llm_request, chat_response) completer \<Rightarrow> ('w \<times> 'p chat_log, 'p llm_request, chat_response) completer" where
  "recording cc w q = (case cc (fst w) q of (w', r) \<Rightarrow> ((w', snd w @ [(q, r)]), r))"

definition recorded_tools :: "('w, 'p) tool_ops \<Rightarrow> ('w \<times> 'p chat_log, 'p) tool_ops" where
  "recorded_tools r =
     \<lparr>to_List = to_List r,
      to_Execute = (\<lambda>w name args. case to_Execute r (fst w) name args of (w', x) \<Rightarrow> ((w', snd w), x))\<rparr>"

definition recorded :: "('w, 's, 't, 'p) agent \<Rightarrow> ('w \<times> 'p chat_log, 's, 't, 'p) agent" where
  "recorded a =
     \<lparr>ag_ID = ag_ID a, ag_systemPrompt = ag_systemPrompt a, ag_model = ag_model a,
      ag_chatCompleter = map_option recording (ag_chatCompleter a),
      ag_toolRegistry = map_option recorded_tools (ag_toolRegistry a),
      ag_memoryManager = ag_memoryManager a, ag_maxIterations = ag_maxIterations a,
      ag_runTokenBudget = ag_runTokenBudget a, ag_maxTokens = ag_maxTokens a, ag_temperature = ag_temperature a,
      ag_inputGuards = ag_inputGuards a, ag_outputGuards = ag_outputGuards a, ag_skillManager = ag_skillManager a\<rparr>"

definition with_log :: "'p chat_log \<Rightarrow> ('w, 's) agent_state \<Rightarrow> ('w \<times> 'p chat_log, 's) agent_state" where
  "with_log l st = \<lparr>as_world = (as_world st, l), as_session = as_session st, as_events = as_events st\<rparr>"

text \<open>The requests of a run of \<open>a\<close>, with the answers.\<close>

definition chat_log :: "('w, 's, 't, 'p) agent \<Rightarrow> run_env \<Rightarrow> request \<Rightarrow> ('w, 's) agent_state \<Rightarrow> 'p chat_log" where
  "chat_log a en req st = snd (as_world (fst (Run (recorded a) en req (with_log [] st))))"

lemma recorded_simps [simp]:
  "ag_ID (recorded a) = ag_ID a" "ag_systemPrompt (recorded a) = ag_systemPrompt a"
  "ag_model (recorded a) = ag_model a" "ag_chatCompleter (recorded a) = map_option recording (ag_chatCompleter a)"
  "ag_toolRegistry (recorded a) = map_option recorded_tools (ag_toolRegistry a)"
  "ag_memoryManager (recorded a) = ag_memoryManager a" "ag_maxIterations (recorded a) = ag_maxIterations a"
  "ag_runTokenBudget (recorded a) = ag_runTokenBudget a" "ag_maxTokens (recorded a) = ag_maxTokens a"
  "ag_temperature (recorded a) = ag_temperature a" "ag_inputGuards (recorded a) = ag_inputGuards a"
  "ag_outputGuards (recorded a) = ag_outputGuards a" "ag_skillManager (recorded a) = ag_skillManager a"
  by (simp_all add: recorded_def)

lemma with_log_simps [simp]:
  "as_world (with_log l st) = (as_world st, l)" "as_session (with_log l st) = as_session st"
  "dispatch e (with_log l st) = with_log l (dispatch e st)"
  "(with_log l st)\<lparr>as_world := (w, l')\<rparr> = with_log l' (st\<lparr>as_world := w\<rparr>)"
  "(with_log l st)\<lparr>as_session := s\<rparr> = with_log l (st\<lparr>as_session := s\<rparr>)"
  by (simp_all add: with_log_def dispatch_def)

lemma recorded_fns [simp]:
  "resolveRunParams (recorded a) = resolveRunParams a"
  "mergeSkillToolFilter (recorded a) = mergeSkillToolFilter a"
  "prepareAITools (recorded a) = prepareAITools a"
  "loadAndCompressSessionHistory (recorded a) = loadAndCompressSessionHistory a"
  "buildInitialMessages (recorded a) = buildInitialMessages a"
  "injectSkillInstructions (recorded a) = injectSkillInstructions a"
  "runInputGuards (recorded a) = runInputGuards a"
  "runOutputGuards (recorded a) = runOutputGuards a"
  "buildResponseMsgs (recorded a) = buildResponseMsgs a"
  "storeAndPromoteMessages (recorded a) = storeAndPromoteMessages a"
proof -
  show l: "loadAndCompressSessionHistory (recorded a) = loadAndCompressSessionHistory a"
    by (intro ext) (unfold loadAndCompressSessionHistory_def recorded_simps, rule refl)
  show "buildInitialMessages (recorded a) = buildInitialMessages a"
    by (intro ext) (unfold buildInitialMessages_def recorded_simps l, rule refl)
  show "prepareAITools (recorded a) = prepareAITools a"
    by (intro ext) (simp add: prepareAITools_def recorded_tools_def split: option.split)
qed (unfold resolveRunParams_def mergeSkillToolFilter_def injectSkillInstructions_def runInputGuards_def
    runOutputGuards_def buildResponseMsgs_def storeAndPromoteMessages_def recorded_simps, (rule refl)+)

lemma executeToolCall_recorded [simp]:
  "executeToolCall (recorded a) en (w, l) tc = (case executeToolCall a en w tc of (w', r) \<Rightarrow> ((w', l), r))"
  by (simp add: executeToolCall_def recorded_tools_def split: option.splits prod.splits sum.splits)

lemma finalizeRun_recorded [simp]:
  "finalizeRun (recorded a) en rc r (with_log l st) = apfst (with_log l) (finalizeRun a en rc r st)"
  by (simp add: finalizeRun_def Let_def)

lemma call_tools_recorded [simp]:
  "call_tools (recorded a) en tcs ms (with_log l st) = apfst (with_log l) (call_tools a en tcs ms st)"
  by (induction a en tcs ms st rule: call_tools.induct) (auto simp: Let_def split: prod.split)

section \<open>What the loop does\<close>

text \<open>The tokens and the usage of an answer; whether an answer asks for tools.\<close>

definition answer_tokens :: "chat_response res \<Rightarrow> int" where
  "answer_tokens r = (case r of Inl _ \<Rightarrow> 0 | Inr resp \<Rightarrow> TotalTokens (cp_Usage resp))"

definition sum_usage :: "(usage \<Rightarrow> usage \<Rightarrow> usage) \<Rightarrow> chat_response res list \<Rightarrow> usage \<Rightarrow> usage" where
  "sum_usage add rs u = fold (\<lambda>r u. case r of Inl _ \<Rightarrow> u | Inr resp \<Rightarrow> add u (cp_Usage resp)) rs u"

definition answer_message :: "chat_response res \<Rightarrow> ai_message option" where
  "answer_message r = (case r of Inr resp \<Rightarrow> (case cp_Choices resp of c # _ \<Rightarrow> Some (ch_Message c) | [] \<Rightarrow> None) | Inl _ \<Rightarrow> None)"

definition wants_tools :: "chat_response res \<Rightarrow> bool" where
  "wants_tools r = (case r of
      Inr resp \<Rightarrow> (case cp_Choices resp of
        c # _ \<Rightarrow> ch_FinishReason c = FinishReasonToolCalls \<and> am_ToolCalls (ch_Message c) \<noteq> []
      | [] \<Rightarrow> False)
    | Inl _ \<Rightarrow> False)"

text \<open>The next request repeats the last one, adds the message of the model, and answers each of its tool
  calls, in order.\<close>

definition exchange :: "'p llm_request \<times> chat_response res \<Rightarrow> 'p llm_request \<times> chat_response res \<Rightarrow> bool" where
  "exchange x y \<longleftrightarrow> (\<exists>m tools. answer_message (snd x) = Some m \<and> wants_tools (snd x) \<and>
     cr_Messages (fst y) = cr_Messages (fst x) @ m # tools \<and>
     list_all (\<lambda>t. am_Role t = RoleTool) tools \<and> map am_ToolCallID tools = map tc_ID (am_ToolCalls m))"

text \<open>How a loop ends: after \<open>new\<close> exchanges, with \<open>n\<close> iterations allowed, budget \<open>b\<close> of which \<open>c\<close> was used.\<close>

definition ends_well ::
  "(usage \<Rightarrow> usage \<Rightarrow> usage) \<Rightarrow> nat \<Rightarrow> int \<Rightarrow> int \<Rightarrow> usage \<Rightarrow> chat_response res list \<Rightarrow> response res \<Rightarrow> bool" where
  "ends_well add n b c u rs r \<longleftrightarrow>
     (case r of
        Inl e \<Rightarrow> rs \<noteq> [] \<and> list_all wants_tools (butlast rs) \<and>
          (case last rs of
             Inl err \<Rightarrow> e = Errorf ''vage: chat completion: %w'' [] (Some err)
           | Inr resp \<Rightarrow> cp_Choices resp = [] \<and> e = Sentinel ''vage: empty response from LLM'')
      | Inr resp \<Rightarrow>
          rs_Usage resp = Some (sum_usage add rs u) \<and>
          (case rs_StopReason resp of
             StopReasonComplete \<Rightarrow> rs \<noteq> [] \<and> list_all wants_tools (butlast rs) \<and> \<not> wants_tools (last rs) \<and>
               answer_message (last rs) \<noteq> None
           | StopReasonBudgetExhausted \<Rightarrow> 0 < b \<and> b \<le> c + (\<Sum>r\<leftarrow>rs. answer_tokens r) \<and> list_all wants_tools rs
           | StopReasonMaxIterations \<Rightarrow> length rs = n \<and> list_all wants_tools rs
           | StopReasonNone \<Rightarrow> False))"

text \<open>Within the budget before every call.\<close>

fun affordable :: "int \<Rightarrow> int \<Rightarrow> chat_response res list \<Rightarrow> bool" where
  "affordable b c [] = True"
| "affordable b c (r # rs) = ((0 < b \<longrightarrow> c < b) \<and> affordable b (c + answer_tokens r) rs)"

lemma finalizeRun_result:
  "rs_Usage (snd (finalizeRun a en rc r st)) = Some (rx_totalUsage rc)"
  "rs_StopReason (snd (finalizeRun a en rc r st)) = r"
  "as_world (fst (finalizeRun a en rc r st)) = as_world st"
  by (simp_all add: finalizeRun_def Let_def dispatch_def)

lemma call_tools_messages:
  "\<exists>tools. snd (call_tools a en tcs ms st) = ms @ tools \<and> list_all (\<lambda>t. am_Role t = RoleTool) tools \<and>
     map am_ToolCallID tools = map tc_ID tcs"
proof (induction a en tcs ms st rule: call_tools.induct)
  case (2 a en tc tcs ms st)
  obtain w r where x: "executeToolCall a en (as_world (dispatch (ToolCallStart (tc_ID tc) (tc_Name tc) (tc_Arguments tc)) st)) tc = (w, r)"
    by fastforce
  have "tr_ToolCallID r = tc_ID tc"
    using x by (auto simp: executeToolCall_def ErrorResult_def split: option.splits prod.splits sum.splits)
  then show ?case using 2 [OF refl x [symmetric] refl] x by (fastforce simp: tool_message_def Let_def)
qed simp

definition loop_log ::
  "run_env \<Rightarrow> nat \<Rightarrow> ai_message list \<Rightarrow> run_context \<Rightarrow> 'p chat_log \<Rightarrow> response res \<Rightarrow> bool" where
  "loop_log en n ms rc new r \<longleftrightarrow>
     length new \<le> n \<and> successively exchange new \<and> (new \<noteq> [] \<longrightarrow> cr_Messages (fst (hd new)) = ms) \<and>
     affordable (bt_budget (rx_tracker rc)) (bt_consumed (rx_tracker rc)) (map snd new) \<and>
     ends_well (en_add en) n (bt_budget (rx_tracker rc)) (bt_consumed (rx_tracker rc)) (rx_totalUsage rc) (map snd new) r"

lemma affordable_Cons: "affordable b c (r # rs) \<longleftrightarrow> (0 < b \<longrightarrow> c < b) \<and> affordable b (c + answer_tokens r) rs"
  by simp

lemma ends_well_Cons:
  assumes "wants_tools r" "ends_well add n b (c + answer_tokens r) (sum_usage add [r] u) rs res"
  shows "ends_well add (Suc n) b c u (r # rs) res"
  using assms
  by (auto simp: ends_well_def sum_usage_def add.assoc split: sum.splits stop_reason.splits)

text \<open>What the loop does with an answer that holds a message.\<close>

definition after_answer ::
  "('w, 's, 't, 'p) agent \<Rightarrow> run_env \<Rightarrow> ('w, 'p llm_request, chat_response) completer \<Rightarrow> run_params \<Rightarrow>
     'p ai_tool list \<Rightarrow> nat \<Rightarrow> int \<Rightarrow> ai_message list \<Rightarrow> run_context \<Rightarrow> ai_message \<Rightarrow> bool \<Rightarrow> ('w, 's) agent_state \<Rightarrow>
     ('w, 's) agent_state \<times> response res" where
  "after_answer a en cc p tools n iter ms rc m final st =
     (if final then apsnd Inr (finalizeRun a en rc StopReasonComplete st)
      else if Exhausted (rx_tracker rc) then apsnd Inr (finalizeRun a en rc StopReasonBudgetExhausted st)
      else (case call_tools a en (am_ToolCalls m) (ms @ [m]) st of
              (st2, ms2) \<Rightarrow> run_loop a en cc p tools n (iter + 1) ms2 rc st2))"

lemma run_loop_answer:
  assumes "\<not> Exhausted (rx_tracker rc)" "cc (as_world st) (chat_req p tools ms) = (w, Inr resp)"
    "cp_Choices resp = ch # chs"
  shows "run_loop a en cc p tools (Suc n) iter ms rc st =
    after_answer a en cc p tools n iter ms
      (note_response en resp (rc\<lparr>rx_iteration := iter\<rparr>)\<lparr>rx_lastMsg := ch_Message ch\<rparr>) (ch_Message ch)
      (\<not> (ch_FinishReason ch = FinishReasonToolCalls \<and> am_ToolCalls (ch_Message ch) \<noteq> [])) (st\<lparr>as_world := w\<rparr>)"
  using assms by (auto simp: after_answer_def Let_def)

text \<open>The loop of the recorded agent is the loop of the agent, and its log is as described.\<close>

lemma run_loop_log:
  "\<exists>new. run_loop (recorded a) en (recording cc) p tools n iter ms rc (with_log l st) =
     apfst (with_log (l @ new)) (run_loop a en cc p tools n iter ms rc st) \<and>
     loop_log en n ms rc new (snd (run_loop a en cc p tools n iter ms rc st))"
proof (induction n arbitrary: iter ms rc l st)
  case 0
  show ?case
    by (intro exI [of _ "[]"])
      (simp add: loop_log_def ends_well_def sum_usage_def finalizeRun_result apfst_def apsnd_def map_prod_def split_beta)
next
  case (Suc n)
  let ?rc1 = "rc\<lparr>rx_iteration := iter\<rparr>"
  show ?case
  proof (cases "Exhausted (rx_tracker rc)")
    case True
    then show ?thesis
      by (intro exI [of _ "[]"])
        (auto simp: loop_log_def ends_well_def sum_usage_def finalizeRun_result apfst_def apsnd_def map_prod_def
          split_beta Exhausted_def Let_def split: if_splits)
  next
    case False
    obtain w r where r: "cc (as_world st) (chat_req p tools ms) = (w, r)" by fastforce
    let ?x = "(chat_req p tools ms, r)" and ?st1 = "st\<lparr>as_world := w\<rparr>"
    have ms: "cr_Messages (chat_req p tools ms) = ms" by (simp add: chat_req_def)
    have af: "0 < bt_budget (rx_tracker rc) \<longrightarrow> bt_consumed (rx_tracker rc) < bt_budget (rx_tracker rc)"
      using False by (auto simp: Exhausted_def)
    note one = exI [of _ "[?x]"]
    show ?thesis
    proof (cases r)
      case (Inl err)
      show ?thesis
        by (rule one) (use False r Inl ms af in \<open>simp add: recording_def loop_log_def ends_well_def Let_def\<close>)
    next
      case (Inr resp)
      show ?thesis
      proof (cases "cp_Choices resp")
        case Nil
        show ?thesis
          by (rule one) (use False r Inr Nil ms af in \<open>simp add: recording_def loop_log_def ends_well_def Let_def\<close>)
      next
        case (Cons ch chs)
        define m where "m = ch_Message ch"
        define rc3 where "rc3 = note_response en resp ?rc1\<lparr>rx_lastMsg := m\<rparr>"
        have rc3: "rx_totalUsage rc3 = en_add en (rx_totalUsage rc) (cp_Usage resp)"
            "bt_budget (rx_tracker rc3) = bt_budget (rx_tracker rc)"
            "bt_consumed (rx_tracker rc3) = bt_consumed (rx_tracker rc) + answer_tokens r"
          by (simp_all add: rc3_def note_response_def Add_def Let_def answer_tokens_def Inr)
        have am: "answer_message r = Some m" by (simp add: answer_message_def Inr Cons m_def)
        have wt: "wants_tools r \<longleftrightarrow> ch_FinishReason ch = FinishReasonToolCalls \<and> am_ToolCalls m \<noteq> []"
          by (simp add: wants_tools_def Inr Cons m_def)
        have us: "sum_usage (en_add en) [r] (rx_totalUsage rc) = rx_totalUsage rc3"
          by (simp add: sum_usage_def Inr rc3)
        have stepA: "run_loop a en cc p tools (Suc n) iter ms rc st =
            after_answer a en cc p tools n iter ms rc3 m (\<not> wants_tools r) ?st1"
          unfolding wt rc3_def m_def by (rule run_loop_answer [of rc cc st p tools ms w resp ch chs, OF False r [unfolded Inr] Cons])
        have rec: "recording cc (as_world (with_log l st)) (chat_req p tools ms) = ((w, l @ [?x]), r)"
          by (simp add: recording_def r)
        have stepR: "run_loop (recorded a) en (recording cc) p tools (Suc n) iter ms rc (with_log l st) =
            after_answer (recorded a) en (recording cc) p tools n iter ms rc3 m (\<not> wants_tools r) (with_log (l @ [?x]) ?st1)"
          unfolding wt rc3_def m_def using run_loop_answer [of rc "recording cc" "with_log l st" p tools ms "(w, l @ [(chat_req p tools ms, Inr resp)])" resp ch chs "recorded a" en n iter,
              OF False rec [unfolded Inr] Cons]
          by (simp add: Inr)
        consider (final) "\<not> wants_tools r" | (spent) "wants_tools r" "Exhausted (rx_tracker rc3)"
          | (more) "wants_tools r" "\<not> Exhausted (rx_tracker rc3)" by blast
        then show ?thesis
        proof cases
          case final
          show ?thesis
            by (rule one) (use final stepA stepR ms af am us in
              \<open>simp add: after_answer_def loop_log_def ends_well_def finalizeRun_result apfst_def apsnd_def map_prod_def split_beta\<close>)
        next
          case spent
          then show ?thesis
            by (intro one) (use stepA stepR ms af us rc3 in
              \<open>auto simp: after_answer_def loop_log_def ends_well_def finalizeRun_result apfst_def apsnd_def map_prod_def split_beta
                Exhausted_def split: if_splits\<close>)
        next
          case more
          obtain st2 ms2 where ct: "call_tools a en (am_ToolCalls m) (ms @ [m]) ?st1 = (st2, ms2)" by fastforce
          obtain ts where ts: "ms2 = (ms @ [m]) @ ts" "list_all (\<lambda>t. am_Role t = RoleTool) ts"
              "map am_ToolCallID ts = map tc_ID (am_ToolCalls m)"
            using call_tools_messages [of a en "am_ToolCalls m" "ms @ [m]" ?st1] ct by auto
          obtain new where new: "run_loop (recorded a) en (recording cc) p tools n (iter + 1) ms2 rc3 (with_log (l @ [?x]) st2) =
              apfst (with_log ((l @ [?x]) @ new)) (run_loop a en cc p tools n (iter + 1) ms2 rc3 st2)"
              "loop_log en n ms2 rc3 new (snd (run_loop a en cc p tools n (iter + 1) ms2 rc3 st2))"
            using Suc.IH by blast
          have eqA: "run_loop a en cc p tools (Suc n) iter ms rc st = run_loop a en cc p tools n (iter + 1) ms2 rc3 st2"
            using stepA more ct by (simp add: after_answer_def)
          have ex: "exchange ?x y" if "cr_Messages (fst y) = ms2" for y
            using that am more(1) ts ms by (auto simp: exchange_def)
          have "loop_log en (Suc n) ms rc (?x # new) (snd (run_loop a en cc p tools (Suc n) iter ms rc st))"
            unfolding eqA loop_log_def
          proof (intro conjI)
            show "successively exchange (?x # new)"
              using new(2) ex by (cases new) (auto simp: loop_log_def)
            show "ends_well (en_add en) (Suc n) (bt_budget (rx_tracker rc)) (bt_consumed (rx_tracker rc)) (rx_totalUsage rc)
                (map snd (?x # new)) (snd (run_loop a en cc p tools n (iter + 1) ms2 rc3 st2))"
              using new(2) ends_well_Cons [OF more(1)] by (simp add: loop_log_def rc3 us)
          qed (use new(2) af ms rc3 in \<open>auto simp: loop_log_def\<close>)
          moreover have "run_loop (recorded a) en (recording cc) p tools (Suc n) iter ms rc (with_log l st) =
              apfst (with_log (l @ (?x # new))) (run_loop a en cc p tools (Suc n) iter ms rc st)"
            using stepR more ct new(1) eqA by (simp add: after_answer_def)
          ultimately show ?thesis by blast
        qed
      qed
    qed
  qed
qed

text \<open>A run either fails before the loop, without a request, or is the loop on the first messages.\<close>

lemma Run_log:
  obtains (early) st' e where "Run a en req st = (st', Inl e)" "chat_log a en req st = []"
      "snd (Run (recorded a) en req (with_log [] st)) = Inl e"
  | (loop) req' s' br rc where "runInputGuards a en req = (req', None)"
      "buildInitialMessages a en (rq_Messages req') (as_session st) = (s', Inr br)"
      "bt_budget (rx_tracker rc) = rp_runTokenBudget (resolveRunParams a (rq_Options req'))"
      "bt_consumed (rx_tracker rc) = 0" "rx_totalUsage rc = usage_zero"
      "snd (Run (recorded a) en req (with_log [] st)) = snd (Run a en req st)"
      "loop_log en (nat (rp_maxIter (resolveRunParams a (rq_Options req'))))
         (br_messages (injectSkillInstructions a (rq_SessionID req') br)) rc (chat_log a en req st) (snd (Run a en req st))"
proof (cases "ag_chatCompleter a")
  case None
  then show thesis using early by (simp add: Run_def chat_log_def)
next
  case (Some cc)
  obtain req' ge where g: "runInputGuards a en req = (req', ge)" by fastforce
  show thesis
  proof (cases ge)
    case (Some e)
    with \<open>ag_chatCompleter a = Some cc\<close> g show thesis using early by (simp add: Run_def chat_log_def)
  next
    case None
    obtain s' rb where b: "buildInitialMessages a en (rq_Messages req') (as_session st) = (s', rb)" by fastforce
    have b1: "buildInitialMessages a en (rq_Messages req') (as_session (dispatch AgentStart st)) = (s', rb)"
      using b by (simp add: dispatch_def)
    show thesis
    proof (cases rb)
      case (Inl e)
      with Some g None b1 show thesis using early by (simp add: Run_def chat_log_def Let_def)
    next
      case (Inr br0)
      define br where "br = injectSkillInstructions a (rq_SessionID req') br0"
      define p where "p = resolveRunParams a (rq_Options req')"
      define rc where "rc = \<lparr>rx_sessionID = rq_SessionID req', rx_tracker = newBudgetTracker (rp_runTokenBudget p),
        rx_totalUsage = usage_zero, rx_sessionMsgCount = br_sessionMsgCount br,
        rx_reqMsgs = rq_Messages req', rx_lastMsg = text_message (RoleOther []) [],
        rx_iteration = 0, rx_estimated = False\<rparr>"
      define tools where "tools = prepareAITools a (mergeSkillToolFilter a (rp_toolFilter p) (rq_SessionID req'))"
      define st1 where "st1 = dispatch AgentStart st\<lparr>as_session := s'\<rparr>"
      have R: "Run a en req st = run_loop a en cc p tools (nat (rp_maxIter p)) 0 (br_messages br) rc st1"
        using Some g None b1 Inr unfolding Run_def Let_def
        by (simp add: br_def p_def rc_def tools_def st1_def)
      have RR: "Run (recorded a) en req (with_log [] st) =
          run_loop (recorded a) en (recording cc) p tools (nat (rp_maxIter p)) 0 (br_messages br) rc (with_log [] st1)"
        using Some g None b1 Inr unfolding Run_def Let_def
        by (simp add: br_def p_def rc_def tools_def st1_def)
      obtain new where new: "run_loop (recorded a) en (recording cc) p tools (nat (rp_maxIter p)) 0 (br_messages br) rc (with_log [] st1) =
          apfst (with_log ([] @ new)) (run_loop a en cc p tools (nat (rp_maxIter p)) 0 (br_messages br) rc st1)"
        "loop_log en (nat (rp_maxIter p)) (br_messages br) rc new
          (snd (run_loop a en cc p tools (nat (rp_maxIter p)) 0 (br_messages br) rc st1))"
        using run_loop_log by blast
      have "chat_log a en req st = new" unfolding chat_log_def RR new(1) by simp
      then show thesis
        by (intro loop [of req' s' br0 rc, OF g [unfolded None] b [unfolded Inr]])
          (use new R RR in \<open>simp_all add: rc_def newBudgetTracker_def p_def br_def\<close>)
    qed
  qed
qed

lemma runInputGuards_options: "runInputGuards a en req = (req', e) \<Longrightarrow> rq_Options req' = rq_Options req \<and> rq_SessionID req' = rq_SessionID req"
  by (auto simp: runInputGuards_def Let_def split: if_splits option.splits prod.splits sum.splits)

section \<open>Properties\<close>

text \<open>
  C19: a run is bounded.  Recording the requests does not change the answer of a run; the model is called at
  most as often as the iteration limit allows, with the limits of the request or of the agent; and with
  a token budget, every call is made while the tokens reported so far are below it.
\<close>

theorem run_is_bounded:
  "snd (Run (recorded a) en req (with_log [] st)) = snd (Run a en req st) \<and>
   int (length (chat_log a en req st)) \<le> max 0 (rp_maxIter (resolveRunParams a (rq_Options req))) \<and>
   affordable (rp_runTokenBudget (resolveRunParams a (rq_Options req))) 0 (map snd (chat_log a en req st))"
proof (cases rule: Run_log [of a en req st])
  case (early st' e)
  then show ?thesis by simp
next
  case (loop req' s' br rc)
  with runInputGuards_options [OF loop(1)] show ?thesis by (auto simp: loop_log_def)
qed

text \<open>
  C20: the conversation protocol.  In any run, every request after the first repeats the request before it, adds
  the message with which the model answered it, which asked for tools, and then answers each of its
  tool calls by one tool message with the identifier of the call, in the order of the calls.
\<close>

theorem conversation_protocol:
  "successively exchange (chat_log a en req st)"
  by (cases rule: Run_log [of a en req st]) (auto simp: loop_log_def)

text \<open>
  C21: what a response says happened.  When a run returns a response, its usage is the sum of those of all
  answers of the model; \<open>complete\<close> means that the last answer asked for no tool and all before it did;
  \<open>budget exhausted\<close> that there is a budget and the tokens have reached it; \<open>max iterations\<close> that the
  model was called as often as allowed and always asked for tools.
\<close>

theorem run_outcome:
  assumes "Run a en req st = (st', Inr resp)"
  shows "let p = resolveRunParams a (rq_Options req) in
    ends_well (en_add en) (nat (rp_maxIter p)) (rp_runTokenBudget p) 0 usage_zero
      (map snd (chat_log a en req st)) (Inr resp)"
proof (cases rule: Run_log [of a en req st])
  case (early st' e)
  then show ?thesis using assms by simp
next
  case (loop req' s' br rc)
  with runInputGuards_options [OF loop(1)] assms show ?thesis by (simp add: loop_log_def Let_def)
qed

definition demo_usage :: usage where
  "demo_usage = \<lparr>PromptTokens = 6, CompletionTokens = 4, TotalTokens = 10, CacheReadTokens = 0\<rparr>"

text \<open>A model that asks for the tool once, and then answers.\<close>

definition demo_model :: "(nat, unit llm_request, chat_response) completer" where
  "demo_model w q =
     (Suc w, Inr \<lparr>cp_Choices =
        [if w = 0
         then \<lparr>ch_Message = \<lparr>am_Role = RoleAssistant, am_Text = [], am_ToolCalls =
                 [\<lparr>tc_ID = ''c1'', tc_Name = ''add'', tc_Arguments = ''1 2''\<rparr>], am_ToolCallID = []\<rparr>,
               ch_FinishReason = FinishReasonToolCalls\<rparr>
         else \<lparr>ch_Message = text_message RoleAssistant ''three'', ch_FinishReason = FinishReason ''stop''\<rparr>],
        cp_Usage = demo_usage\<rparr>)"

definition demo_agent :: "(nat, unit, unit, unit) agent" where
  "demo_agent = New ''a''
     [\<lambda>a. a\<lparr>ag_chatCompleter := Some demo_model\<rparr>,
      \<lambda>a. a\<lparr>ag_toolRegistry := Some \<lparr>to_List = [], to_Execute = (\<lambda>w name args. (w, Inr (TextResult [] ''3'')))\<rparr>\<rparr>,
      \<lambda>a. a\<lparr>ag_runTokenBudget := 25\<rparr>]"

definition demo_run_env :: run_env where
  "demo_run_env =
     \<lparr>en_add = usage_plus, en_text = (\<lambda>_. ''error''), en_input = (\<lambda>_. None), en_load = None, en_output = (\<lambda>_. None),
      en_store = (\<lambda>_. None), en_promote = None, en_load_time = 0, en_reply_time = 5, en_store_time = (\<lambda>_. 5),
      en_promote_time = (\<lambda>_. 6), en_duration = 7, en_visit = (\<lambda>_. 0)\<rparr>"

definition demo_request :: request where
  "demo_request = \<lparr>rq_Messages = [NewUserMessage 0 ''1 + 2?''], rq_SessionID = ''s'', rq_Options = None,
     rq_Metadata = Map.empty\<rparr>"

definition demo_agent_state :: "(nat, unit) agent_state" where
  "demo_agent_state = \<lparr>as_world = 0, as_session = (), as_events = []\<rparr>"

theorem run_outcome_witness:
  "\<exists>st' resp. Run demo_agent demo_run_env demo_request demo_agent_state = (st', Inr resp) \<and>
     rs_StopReason resp = StopReasonComplete \<and> length (chat_log demo_agent demo_run_env demo_request demo_agent_state) = 2 \<and>
     rs_Usage resp = Some (sum_usage usage_plus
       (map snd (chat_log demo_agent demo_run_env demo_request demo_agent_state)) usage_zero)"
proof -
  let ?R = "Run demo_agent demo_run_env demo_request demo_agent_state"
  obtain st' r where R: "?R = (st', r)" by fastforce
  have c: "case snd ?R of Inr resp \<Rightarrow> rs_StopReason resp = StopReasonComplete | Inl _ \<Rightarrow> False" by code_simp
  then obtain resp where resp: "r = Inr resp" "rs_StopReason resp = StopReasonComplete"
    using R by (cases r) auto
  have l: "length (chat_log demo_agent demo_run_env demo_request demo_agent_state) = 2" by code_simp
  have "en_add demo_run_env = usage_plus" by (simp add: demo_run_env_def)
  then show ?thesis
    using run_outcome [OF R [unfolded resp(1)]] R resp l by (simp add: Let_def ends_well_def)
qed

end
