(* ===== verification/AgentHistory.thy ===== *)
theory AgentHistory
  imports AgentProps
begin

text \<open>
  Two more properties of \<open>Run\<close>: a request that the input guards do not accept has no effect, and the
  history of a session grows by the messages of the run and is read back as it was written.
\<close>

section \<open>Input guards\<close>

definition input_message :: "('w, 's, 't, 'p) agent \<Rightarrow> request \<Rightarrow> nat \<Rightarrow> guard_message" where
  "input_message a req idx =
     \<lparr>gm_Direction = DirectionInput, gm_Content = am_Text (m_ai (rq_Messages req ! idx)), gm_AgentID = ag_ID a,
      gm_SessionID = rq_SessionID req\<rparr>"

lemma last_user_spec: "last_user ms = Some i \<Longrightarrow> i < length ms \<and> m_role (ms ! i) = RoleUser"
  unfolding last_user_def by (drule find_SomeD) auto

lemma runInputGuards_accepts:
  assumes "last_user (rq_Messages req) = Some idx" "en_input en = (\<lambda>_. None)" "ag_inputGuards a \<noteq> []"
    "accepts (ag_inputGuards a) (input_message a req idx) m'"
  shows "runInputGuards a en req =
    (req\<lparr>rq_Messages := (rq_Messages req)[idx := set_text (gm_Content m') (rq_Messages req ! idx)]\<rparr>, None)"
proof -
  obtain r where r: "RunGuards (\<lambda>_. None) (input_message a req idx) (ag_inputGuards a) = (m', Inr r)"
      "gr_Action r = ActionRewrite \<or> gr_Action r = ActionPass \<and> m' = input_message a req idx"
    by (rule RunGuards_accepts [OF assms(4)])
  have "rq_Messages req \<noteq> []" using last_user_spec [OF assms(1)] by auto
  moreover have "(rq_Messages req)[idx := set_text (am_Text (m_ai (rq_Messages req ! idx))) (rq_Messages req ! idx)] = rq_Messages req"
    by (simp add: set_text_def)
  ultimately show ?thesis
    using r assms(1-3) unfolding runInputGuards_def Let_def input_message_def [symmetric]
    by (auto simp: input_message_def)
qed

lemma runInputGuards_rejects:
  assumes "last_user (rq_Messages req) = Some idx" "en_input en = (\<lambda>_. None)" "ag_inputGuards a \<noteq> []"
    "\<nexists>m'. accepts (ag_inputGuards a) (input_message a req idx) m'"
  shows "\<exists>e. runInputGuards a en req = (req, Some e)"
proof -
  obtain m' rr where rr: "RunGuards (\<lambda>_. None) (input_message a req idx) (ag_inputGuards a) = (m', rr)" by fastforce
  have "rq_Messages req \<noteq> []" using last_user_spec [OF assms(1)] by auto
  then show ?thesis
    using rr assms(1-3) RunGuards_rejects [of "input_message a req idx" "ag_inputGuards a" m'] assms(4)
    unfolding runInputGuards_def Let_def input_message_def [symmetric]
    by (cases rr) auto
qed

text \<open>Skills change a system message or put one in front.\<close>

lemma inject_keeps:
  assumes "i < length (br_messages br)" "am_Role (br_messages br ! i) \<noteq> RoleSystem"
  shows "length (br_messages br) \<le> length (br_messages (injectSkillInstructions a sid br)) \<and>
    br_messages (injectSkillInstructions a sid br) !
      (length (br_messages (injectSkillInstructions a sid br)) - length (br_messages br) + i) = br_messages br ! i"
  using assms
  by (cases i) (auto simp: injectSkillInstructions_def Let_def split: option.split list.split)

lemma inject_count [simp]: "br_sessionMsgCount (injectSkillInstructions a sid br) = br_sessionMsgCount br"
  by (auto simp: injectSkillInstructions_def Let_def split: option.split list.split)

lemma build_suffix:
  "buildInitialMessages a en ms s = (s', Inr br) \<Longrightarrow> \<exists>pre. br_messages br = pre @ map m_ai ms"
  by (auto simp: buildInitialMessages_def ToAIModelMessages_def split: prod.splits sum.splits)

text \<open>
  C22: input guards come first.  For a request with a user message, either the chain of input guards accepts
  the last user message, and then the first request to the model, if there is one, carries it as the
  guards left it; or the run fails without calling the model and without any other effect.
\<close>

theorem guarded_input:
  assumes "ag_inputGuards a \<noteq> []" and "en_input en = (\<lambda>_. None)" and "last_user (rq_Messages req) = Some idx"
  shows "(\<exists>m'. accepts (ag_inputGuards a) (input_message a req idx) m' \<and>
      (chat_log a en req st = [] \<or>
       (let ms = cr_Messages (fst (hd (chat_log a en req st)))
        in am_Text (ms ! (length ms - length (rq_Messages req) + idx)) = gm_Content m'))) \<or>
    (\<nexists>m'. accepts (ag_inputGuards a) (input_message a req idx) m') \<and> chat_log a en req st = [] \<and>
      (\<exists>e. Run a en req st = (st, Inl e))"
proof (cases "\<exists>m'. accepts (ag_inputGuards a) (input_message a req idx) m'")
  case False
  then obtain e where e: "runInputGuards a en req = (req, Some e)"
    using runInputGuards_rejects [OF assms(3,2,1)] by blast
  then have "\<exists>e. Run a en req st = (st, Inl e)" by (auto simp: Run_def split: option.splits)
  moreover have "chat_log a en req st = []"
    by (cases rule: Run_log [of a en req st]) (use e in auto)
  ultimately show ?thesis using False by blast
next
  case True
  then obtain m' where m': "accepts (ag_inputGuards a) (input_message a req idx) m'" by blast
  note g = runInputGuards_accepts [OF assms(3,2,1) m']
  let ?ms = "(rq_Messages req)[idx := set_text (gm_Content m') (rq_Messages req ! idx)]"
  note u = last_user_spec [OF assms(3)]
  have "chat_log a en req st = [] \<or>
     (let ms = cr_Messages (fst (hd (chat_log a en req st)))
      in am_Text (ms ! (length ms - length (rq_Messages req) + idx)) = gm_Content m')"
  proof (cases rule: Run_log [of a en req st])
    case (early st' e)
    then show ?thesis by simp
  next
    case (loop req' s' br rc)
    have ms: "rq_Messages req' = ?ms" using loop(1) g by auto
    obtain pre where pre: "br_messages br = pre @ map m_ai ?ms" using build_suffix [OF loop(2)] ms by auto
    let ?b = "br_messages (injectSkillInstructions a (rq_SessionID req') br)" and ?i = "length pre + idx"
    have i: "?i < length (br_messages br)" "br_messages br ! ?i = m_ai (set_text (gm_Content m') (rq_Messages req ! idx))"
      using u by (simp_all add: pre nth_append)
    have "am_Role (br_messages br ! ?i) \<noteq> RoleSystem" using u by (simp add: i(2) set_text_def)
    from inject_keeps [OF i(1) this, of a "rq_SessionID req'"]
    have k: "length (br_messages br) \<le> length ?b" "?b ! (length ?b - length (br_messages br) + ?i) = br_messages br ! ?i"
      by auto
    have "length ?b - length (rq_Messages req) + idx = length ?b - length (br_messages br) + ?i"
      using k(1) by (simp add: pre)
    then have "am_Text (?b ! (length ?b - length (rq_Messages req) + idx)) = gm_Content m'"
      unfolding \<open>_ = length ?b - length (br_messages br) + ?i\<close> k(2) i(2) by (simp add: set_text_def)
    then show ?thesis using loop(7) by (auto simp: loop_log_def Let_def)
  qed
  then show ?thesis using m' by blast
qed

definition masking_guard :: guard where
  "masking_guard = \<lparr>g_Name = ''mask'', g_Check = (\<lambda>m. Inr (Some (Rewrite ''mask'' ''***'' [] [])))\<rparr>"

theorem guarded_input_witness:
  "\<exists>m'. accepts [masking_guard] (input_message demo_agent demo_request 0) m' \<and> gm_Content m' = ''***'' \<and>
     am_Text (cr_Messages (fst (hd (chat_log (demo_agent\<lparr>ag_inputGuards := [masking_guard]\<rparr>) demo_run_env
       demo_request demo_agent_state))) ! 0) = gm_Content m'"
proof -
  let ?a = "demo_agent\<lparr>ag_inputGuards := [masking_guard]\<rparr>"
  have acc: "accepts [masking_guard] m m' \<longleftrightarrow> m' = m\<lparr>gm_Content := ''***''\<rparr>" for m m'
    by (auto simp: accepts_Cons masking_guard_def Rewrite_def)
  have ne: "chat_log ?a demo_run_env demo_request demo_agent_state \<noteq> []"
  proof -
    have "length (chat_log ?a demo_run_env demo_request demo_agent_state) = 2" by code_simp
    then show ?thesis by auto
  qed
  have len: "length (cr_Messages (fst (hd (chat_log ?a demo_run_env demo_request demo_agent_state)))) = 1" by code_simp
  have lu: "last_user (rq_Messages demo_request) = Some 0" by code_simp
  have im: "input_message ?a demo_request 0 = input_message demo_agent demo_request 0" by (simp add: input_message_def)
  show ?thesis
    using guarded_input [of ?a demo_run_env demo_request 0 demo_agent_state] ne len lu
    by (auto simp: acc im demo_run_env_def Let_def demo_request_def)
qed

section \<open>The history of a session\<close>

text \<open>The keys of the first \<open>n\<close> messages, and the map a history of messages is stored as.\<close>

abbreviation msg_keys :: "nat \<Rightarrow> string list" where
  "msg_keys n \<equiv> map msg_key [0..<n]"

definition history_map :: "message list \<Rightarrow> string \<rightharpoonup> any_value" where
  "history_map h = map_of (zip (msg_keys (length h)) (map VMessage h))"

definition holds_history :: "int \<Rightarrow> any_value map_store \<Rightarrow> message list \<Rightarrow> bool" where
  "holds_history T s h \<longleftrightarrow> ms_ok s \<and>
     (\<forall>t\<ge>T. \<forall>k. has_prefix k ''msg:'' \<longrightarrow> map_option sr_value (ms_view t s k) = history_map h k)"

definition max_messages :: nat where
  "max_messages = 1000000"

lemma msg_key_less: "i < j \<Longrightarrow> j < max_messages \<Longrightarrow> msg_key i < msg_key j"
  using pad_zeros_less [of i j 5] by (simp add: msg_key_def max_messages_def list_less_def lexord_append_leftI)

lemma msg_key_inj: "i < max_messages \<Longrightarrow> j < max_messages \<Longrightarrow> msg_key i = msg_key j \<longleftrightarrow> i = j"
  using msg_key_less [of i j] msg_key_less [of j i] by (cases i j rule: linorder_cases) auto

lemma msg_key_prefix [simp]: "has_prefix (msg_key i) ''msg:''"
  by (simp add: msg_key_def has_prefix_def)

lemma msg_keys_sorted: "n \<le> max_messages \<Longrightarrow> sorted (msg_keys n) \<and> distinct (msg_keys n)"
  by (auto simp: sorted_iff_nth_mono distinct_map inj_on_def msg_key_inj le_less dest: msg_key_less)

lemma history_map_Some:
  assumes "length h \<le> max_messages"
  shows "history_map h k = Some v \<longleftrightarrow> (\<exists>i<length h. k = msg_key i \<and> v = VMessage (h ! i))"
proof -
  have "distinct (map fst (zip (msg_keys (length h)) (map VMessage h)))"
    using msg_keys_sorted [OF assms] by simp
  from map_of_eq_Some_iff [OF this] have "history_map h k = Some v \<longleftrightarrow> (k, v) \<in> set (zip (msg_keys (length h)) (map VMessage h))"
    by (simp add: history_map_def)
  also have "zip (msg_keys (length h)) (map VMessage h) = map (\<lambda>i. (msg_key i, VMessage (h ! i))) [0..<length h]"
    by (rule nth_equalityI) simp_all
  finally show ?thesis by auto
qed

lemma history_map_None:
  assumes "length h \<le> max_messages"
  shows "history_map h k = None \<longleftrightarrow> (\<forall>i<length h. k \<noteq> msg_key i)"
  using history_map_Some [OF assms, of k] by (cases "history_map h k") auto

lemma holds_history_later: "holds_history T s h \<Longrightarrow> T \<le> T' \<Longrightarrow> holds_history T' s h"
  by (auto simp: holds_history_def)

lemma holds_history_unchanged:
  "holds_history T s h \<Longrightarrow> T \<le> t \<Longrightarrow> unchanged t ms_view s s' \<Longrightarrow> ms_ok s' \<Longrightarrow> holds_history t s' h"
  by (auto simp: holds_history_def unchanged_def)

text \<open>Loading a stored history returns its messages in order.\<close>

lemma load_history:
  assumes "holds_history T s h" "T \<le> en_load_time en" "en_load en = None" "length h \<le> max_messages"
  shows "\<exists>s'. loadSessionMessages (NewSessionMemoryWithStore (map_store_ops visit) x y) en s = (s', Inr h) \<and>
    holds_history (en_load_time en) s' h"
proof -
  let ?t = "en_load_time en" and ?b = "\<lparr>mb_store = map_store_ops visit, mb_scope = ScopeSession, mb_agentID = x, mb_sessionID = y\<rparr>"
  have ok: "ms_ok s" using assms(1) by (simp add: holds_history_def)
  obtain s' es where l: "base_list ?b ?t ''msg:'' s = (s', Inr es)" "ms_ok s'" "unchanged ?t ms_view s s'"
      "entry_answer es = Entries (\<lambda>k. if has_prefix k ''msg:'' then ms_view ?t s k else None) True"
    using mapstore.base_list_spec [OF ok, of ?b visit ?t "''msg:''"] by auto
  let ?rec = "\<lambda>e. \<lparr>sr_value = e_Value e, sr_createdAt = e_CreatedAt e, sr_ttl = e_TTL e\<rparr>"
  have d: "distinct (map e_Key es)"
    and m: "map_of (map (\<lambda>e. (e_Key e, ?rec e)) es) = (\<lambda>k. if has_prefix k ''msg:'' then ms_view ?t s k else None)"
    using l(4) by (auto simp: entry_answer_def)
  have v: "map_option sr_value (map_of (map (\<lambda>e. (e_Key e, ?rec e)) es) k) = history_map h k" for k
  proof (cases "has_prefix k ''msg:''")
    case True
    then show ?thesis using assms(1,2) by (simp add: m holds_history_def)
  next
    case False
    then have "history_map h k = None" using history_map_None [OF assms(4)] msg_key_prefix by metis
    then show ?thesis using False by (simp add: m)
  qed
  have keys: "set (map e_Key es) = set (msg_keys (length h))"
  proof (rule set_eqI)
    fix k
    have "k \<in> set (map e_Key es) \<longleftrightarrow> map_of (map (\<lambda>e. (e_Key e, ?rec e)) es) k \<noteq> None"
      by (auto simp: map_of_eq_None_iff image_image)
    also have "\<dots> \<longleftrightarrow> history_map h k \<noteq> None" unfolding v [of k, symmetric] by simp
    also have "\<dots> \<longleftrightarrow> k \<in> set (msg_keys (length h))" using history_map_None [OF assms(4)] by auto
    finally show "k \<in> set (map e_Key es) \<longleftrightarrow> k \<in> set (msg_keys (length h))" .
  qed
  let ?es = "sort_key e_Key es"
  have mk: "map e_Key ?es = msg_keys (length h)"
  proof (rule sorted_distinct_set_unique)
    have "mset (map e_Key ?es) = mset (map e_Key es)" by simp
    from mset_eq_imp_distinct_iff [OF this] show "distinct (map e_Key ?es)" using d by simp
    show "set (map e_Key ?es) = set (msg_keys (length h))" using keys by simp
  qed (use msg_keys_sorted [OF assms(4)] in simp_all)
  have vals: "map e_Value ?es = map VMessage h"
  proof (rule nth_equalityI)
    show len: "length (map e_Value ?es) = length (map VMessage h)" using arg_cong [OF mk, of length] by simp
    fix i assume i: "i < length (map e_Value ?es)"
    then have ih: "i < length h" using len by simp
    have k: "e_Key (?es ! i) = msg_key i" using arg_cong [OF mk, of "\<lambda>l. l ! i"] i ih by simp
    have "?es ! i \<in> set es" using i nth_mem [of i ?es] by simp
    then have "(msg_key i, ?rec (?es ! i)) \<in> (\<lambda>e. (e_Key e, ?rec e)) ` set es"
      unfolding k [symmetric] by (rule imageI)
    then have "map_of (map (\<lambda>e. (e_Key e, ?rec e)) es) (msg_key i) = Some (?rec (?es ! i))"
      using d by (intro map_of_is_SomeI) (auto simp: comp_def)
    then have "history_map h (msg_key i) = Some (e_Value (?es ! i))" using v [of "msg_key i"] by simp
    moreover have "history_map h (msg_key i) = Some (VMessage (h ! i))"
      using history_map_Some [OF assms(4)] ih by blast
    ultimately show "map e_Value ?es ! i = map VMessage h ! i" using i ih by simp
  qed
  have mf: "List.map_filter (\<lambda>e. case e_Value e of VMessage m \<Rightarrow> Some m | VOther _ \<Rightarrow> None) xs = h"
    if "map e_Value xs = map VMessage h" for xs :: "any_value entry list"
    using that by (induction xs arbitrary: h) (auto simp: map_filter_simps Cons_eq_map_conv)
  have "loadSessionMessages (NewSessionMemoryWithStore (map_store_ops visit) x y) en s = (s', Inr h)"
  proof (cases "length es = 0")
    case True
    then have "h = []" using vals by simp
    then show ?thesis
      using True l(1) assms(3) by (simp add: loadSessionMessages_def NewSessionMemoryWithStore_def syncMemory_def checked_def)
  next
    case False
    then show ?thesis
      using l(1) assms(3) mf [OF vals] by (simp add: loadSessionMessages_def NewSessionMemoryWithStore_def syncMemory_def checked_def)
  qed
  then show ?thesis using holds_history_unchanged [OF assms(1,2) l(3,2)] by blast
qed

text \<open>What the loops that store messages leave in working memory.\<close>

lemma store_loop_view:
  assumes "ms_ok w" "en_store en = (\<lambda>_. None)" "idx + length ms \<le> max_messages"
    "working = NewWorkingMemoryWithStore (map_store_ops visit) x y"
  shows "ms_ok (store_loop working en ms i idx w) \<and>
    (\<forall>t. \<forall>j<length ms. \<exists>c. ms_view t (store_loop working en ms i idx w) (msg_key (idx + j)) =
       Some \<lparr>sr_value = VMessage (ms ! j), sr_createdAt = c, sr_ttl = 0\<rparr>) \<and>
    (\<forall>t k. (\<forall>j<length ms. k \<noteq> msg_key (idx + j)) \<longrightarrow> ms_view t (store_loop working en ms i idx w) k = ms_view t w k)"
  using assms(1,3)
proof (induction ms arbitrary: i idx w)
  case (Cons m ms)
  let ?r = "\<lparr>sr_value = VMessage m, sr_createdAt = en_store_time en i, sr_ttl = 0\<rparr>"
  let ?w1 = "AList.update (msg_key idx) ?r w"
  have s: "store_loop working en (m # ms) i idx w = store_loop working en ms (Suc i) (Suc idx) ?w1"
    by (simp add: assms(2,4) NewWorkingMemoryWithStore_def workingMemory_def checked_err_def map_store_ops_def ms_Set_def)
  have live: "live t ?r = Some ?r" for t by (simp add: live_def isExpired_def)
  note IH = Cons.IH [of ?w1 "Suc idx" "Suc i"]
  have ne: "msg_key idx \<noteq> msg_key (Suc idx + j)" if "j < length ms" for j
    using that Cons.prems(2) by (subst msg_key_inj) auto
  have v0: "ms_view t (store_loop working en ms (Suc i) (Suc idx) ?w1) (msg_key idx) = Some ?r" for t
    using IH Cons.prems ne by (simp add: live)
  show ?case unfolding s
  proof (intro conjI allI impI)
    show "ms_ok (store_loop working en ms (Suc i) (Suc idx) ?w1)" using IH Cons.prems by simp
  next
    fix t j assume "j < length (m # ms)"
    then show "\<exists>c. ms_view t (store_loop working en ms (Suc i) (Suc idx) ?w1) (msg_key (idx + j)) =
        Some \<lparr>sr_value = VMessage ((m # ms) ! j), sr_createdAt = c, sr_ttl = 0\<rparr>"
      using IH Cons.prems v0 by (cases j) auto
  next
    fix t k assume k: "\<forall>j<length (m # ms). k \<noteq> msg_key (idx + j)"
    then have "k \<noteq> msg_key idx" "\<forall>j<length ms. k \<noteq> msg_key (Suc idx + j)" by force+
    then show "ms_view t (store_loop working en ms (Suc i) (Suc idx) ?w1) k = ms_view t w k"
      using IH Cons.prems by simp
  qed
qed simp

text \<open>Storing the messages of a run appends them to the history.\<close>

lemma store_history:
  assumes "holds_history T s h" "en_store en = (\<lambda>_. None)" "en_promote en = None"
    and "\<And>i. en_promote_time en 0 \<le> en_promote_time en i" "\<And>i. en_promote_time en i \<le> T'" "T \<le> T'"
    and "ag_memoryManager a = Some mgr" "mg_session mgr = Some (NewSessionMemoryWithStore (map_store_ops visit) x y)"
    "mg_promoter mgr = Some PromoteAll"
    and "length (h @ req @ resp) \<le> max_messages"
  shows "holds_history T' (storeAndPromoteMessages a en sid req resp (length h) s) (h @ req @ resp)"
proof -
  let ?W = "NewWorkingMemoryWithStore (map_store_ops (en_visit en)) (ag_ID a) sid" and ?n = "length h"
  define w1 where "w1 = store_loop ?W en req 0 ?n NewMapStore"
  define w2 where "w2 = store_loop ?W en resp (length req) (?n + length req) w1"
  have w1: "ms_ok w1" "\<And>t j. j < length req \<Longrightarrow> \<exists>c. ms_view t w1 (msg_key (?n + j)) =
       Some \<lparr>sr_value = VMessage (req ! j), sr_createdAt = c, sr_ttl = 0\<rparr>"
    "\<And>t k. \<forall>j<length req. k \<noteq> msg_key (?n + j) \<Longrightarrow> ms_view t w1 k = None"
    using store_loop_view [of "NewMapStore" en ?n req ?W "en_visit en" "ag_ID a" sid 0] assms(2,10)
    by (auto simp: NewMapStore_def w1_def)
  have w2: "ms_ok w2" "\<And>t j. j < length resp \<Longrightarrow> \<exists>c. ms_view t w2 (msg_key (?n + length req + j)) =
       Some \<lparr>sr_value = VMessage (resp ! j), sr_createdAt = c, sr_ttl = 0\<rparr>"
    "\<And>t k. \<forall>j<length resp. k \<noteq> msg_key (?n + length req + j) \<Longrightarrow> ms_view t w2 k = ms_view t w1 k"
    using store_loop_view [OF w1(1), of en "?n + length req" resp ?W "en_visit en" "ag_ID a" sid "length req"] assms(2,10)
    by (auto simp: w2_def)
  have new: "\<exists>c. ms_view t w2 (msg_key (?n + j)) =
      Some \<lparr>sr_value = VMessage ((req @ resp) ! j), sr_createdAt = c, sr_ttl = 0\<rparr>" if "j < length (req @ resp)" for t j
  proof (cases "j < length req")
    case True
    have "\<forall>j'<length resp. msg_key (?n + j) \<noteq> msg_key (?n + length req + j')"
      using True assms(10) by (auto simp: msg_key_inj)
    then show ?thesis using w1(2) [OF True, of t] w2(3) True by (simp add: nth_append)
  next
    case False
    then show ?thesis using w2(2) [of "j - length req" t] that by (simp add: nth_append)
  qed
  have old: "ms_view t w2 k = None" if "\<forall>j<length (req @ resp). k \<noteq> msg_key (?n + j)" for t k
  proof -
    have "\<forall>j<length resp. k \<noteq> msg_key (?n + length req + j)"
      using that by (metis (no_types, lifting) add.assoc length_append nat_add_left_cancel_less)
    then show ?thesis using w2(3) w1(3) that by simp
  qed
  have ok: "ms_ok s" using assms(1) by (simp add: holds_history_def)
  obtain w' s' where p: "PromoteToSession mgr None (en_promote_time en) ?W w2 s = (w', s', None)" "ms_ok s'"
      "\<forall>t k. (\<forall>i. en_promote_time en i \<le> t) \<longrightarrow>
        (case ms_view (en_promote_time en 0) w2 k of
           None \<Rightarrow> ms_view t s' k = ms_view t s k
         | Some r \<Rightarrow> \<exists>i>0. ms_view t s' k = live t (r\<lparr>sr_createdAt := en_promote_time en i\<rparr>))"
    using promotion_effect [where now = "en_promote_time en" and visit = "en_visit en" and a' = "ag_ID a" and sid' = sid,
        OF w2(1) ok assms(4) assms(8,9)] by blast
  have e: "storeAndPromoteMessages a en sid req resp ?n s = s'"
    using p(1) assms(3,7) by (simp add: storeAndPromoteMessages_def Let_def w1_def w2_def)
  have "map_option sr_value (ms_view t s' k) = history_map (h @ req @ resp) k"
    if t: "T' \<le> t" and k: "has_prefix k ''msg:''" for t k
  proof -
    have tt: "\<forall>i. en_promote_time en i \<le> t" using assms(5) t by (meson order_trans)
    show ?thesis
    proof (cases "\<exists>j<length (req @ resp). k = msg_key (?n + j)")
      case True
      then obtain j where j: "j < length (req @ resp)" "k = msg_key (?n + j)" by blast
      obtain c where "ms_view (en_promote_time en 0) w2 k = Some \<lparr>sr_value = VMessage ((req @ resp) ! j), sr_createdAt = c, sr_ttl = 0\<rparr>"
        using new [OF j(1)] j(2) by blast
      then have "map_option sr_value (ms_view t s' k) = Some (VMessage ((req @ resp) ! j))"
        using p(3) [rule_format, OF tt [rule_format], of k] by (auto simp: live_def isExpired_def)
      moreover have "history_map (h @ req @ resp) k = Some (VMessage ((h @ req @ resp) ! (?n + j)))"
        using history_map_Some [OF assms(10)] j by (metis length_append nat_add_left_cancel_less)
      ultimately show ?thesis by (simp add: nth_append)
    next
      case False
      then have same: "ms_view t s' k = ms_view t s k" using p(3) [rule_format, OF tt [rule_format], of k] old by simp
      have "history_map (h @ req @ resp) k = history_map h k"
      proof (cases "\<exists>i<length h. k = msg_key i")
        case True
        then obtain i where i: "i < length h" "k = msg_key i" by blast
        then have "history_map h k = Some (VMessage (h ! i))"
          using history_map_Some [of h k] assms(10) by auto
        moreover have "history_map (h @ req @ resp) k = Some (VMessage ((h @ req @ resp) ! i))"
          using history_map_Some [OF assms(10)] i by fastforce
        ultimately show ?thesis using i by (simp add: nth_append)
      next
        case none: False
        have "k \<noteq> msg_key i" if "i < length (h @ req @ resp)" for i
          using that none False by (cases "i < ?n") (auto dest!: spec [of _ "i - ?n"])
        then show ?thesis
          using history_map_None [OF assms(10), of k] history_map_None [of h k] assms(10) none by auto
      qed
      then show ?thesis using same assms(1,6) t k by (simp add: holds_history_def)
    qed
  qed
  then show ?thesis unfolding e holds_history_def using p(2) by blast
qed

lemma call_tools_session: "as_session (fst (call_tools a en tcs ms st)) = as_session st"
  by (induction a en tcs ms st rule: call_tools.induct) (auto simp: Let_def dispatch_def split: prod.split)

lemma finalizeRun_session:
  "finalizeRun a en rc r st = (st', resp) \<Longrightarrow>
     as_session st' = storeAndPromoteMessages a en (rx_sessionID rc) (rx_reqMsgs rc) (rs_Messages resp)
       (rx_sessionMsgCount rc) (as_session st)"
  by (auto simp: finalizeRun_def Let_def dispatch_def)

text \<open>A loop that returns a response has stored it with the request, and nothing else.\<close>

lemma run_loop_session:
  "run_loop a en cc p tools n iter ms rc st = (st', Inr resp) \<Longrightarrow>
     as_session st' = storeAndPromoteMessages a en (rx_sessionID rc) (rx_reqMsgs rc) (rs_Messages resp)
       (rx_sessionMsgCount rc) (as_session st)"
proof (induction n arbitrary: iter ms rc st)
  case 0
  then show ?case by (auto simp: apsnd_def map_prod_def split: prod.splits dest!: finalizeRun_session)
next
  case (Suc n)
  show ?case
  proof (cases "Exhausted (rx_tracker rc)")
    case True
    then show ?thesis
      using Suc.prems by (auto simp: apsnd_def map_prod_def Let_def split: prod.splits dest!: finalizeRun_session)
  next
    case False
    obtain w r where r: "cc (as_world st) (chat_req p tools ms) = (w, r)" by fastforce
    then obtain q ch chs where q: "r = Inr q" "cp_Choices q = ch # chs"
      using Suc.prems False by (auto simp: Let_def split: sum.splits list.splits)
    define rc3 where "rc3 = note_response en q (rc\<lparr>rx_iteration := iter\<rparr>)\<lparr>rx_lastMsg := ch_Message ch\<rparr>"
    have same: "rx_sessionID rc3 = rx_sessionID rc" "rx_reqMsgs rc3 = rx_reqMsgs rc"
        "rx_sessionMsgCount rc3 = rx_sessionMsgCount rc"
      by (simp_all add: rc3_def note_response_def)
    have "after_answer a en cc p tools n iter ms rc3 (ch_Message ch)
        (\<not> (ch_FinishReason ch = FinishReasonToolCalls \<and> am_ToolCalls (ch_Message ch) \<noteq> [])) (st\<lparr>as_world := w\<rparr>) = (st', Inr resp)"
      using Suc.prems run_loop_answer [of rc cc st p tools ms w q ch chs a en n iter] False r q by (simp add: rc3_def)
    moreover obtain st2 ms2 where ct: "call_tools a en (am_ToolCalls (ch_Message ch)) (ms @ [ch_Message ch]) (st\<lparr>as_world := w\<rparr>) = (st2, ms2)"
      by fastforce
    moreover have "as_session st2 = as_session st"
      using call_tools_session [of a en "am_ToolCalls (ch_Message ch)" "ms @ [ch_Message ch]" "st\<lparr>as_world := w\<rparr>"] ct by simp
    ultimately show ?thesis
      using Suc.IH [of "iter + 1" ms2 rc3 st2] same
      by (auto simp: after_answer_def apsnd_def map_prod_def split: prod.splits if_splits dest!: finalizeRun_session)
  qed
qed

lemma Run_session:
  assumes "Run a en req st = (st', Inr resp)" "runInputGuards a en req = (req', None)"
  shows "\<exists>s' br. buildInitialMessages a en (rq_Messages req') (as_session st) = (s', Inr br) \<and>
    as_session st' = storeAndPromoteMessages a en (rq_SessionID req') (rq_Messages req') (rs_Messages resp)
      (br_sessionMsgCount br) s'"
  using assms
  by (auto simp: Run_def Let_def dispatch_def split: option.splits prod.splits sum.splits dest!: run_loop_session)

lemma build_count:
  assumes "holds_history T s h" "T \<le> en_load_time en" "en_load en = None" "length h \<le> max_messages"
    and "ag_memoryManager a = Some mgr" "mg_session mgr = Some (NewSessionMemoryWithStore (map_store_ops visit) x y)"
    and "buildInitialMessages a en ms s = (s', Inr br)"
  shows "br_sessionMsgCount br = length h \<and> holds_history (en_load_time en) s' h"
  using load_history [OF assms(1-4), of visit x y] assms(5-7)
  by (auto simp: buildInitialMessages_def loadAndCompressSessionHistory_def split: option.splits if_splits sum.splits)

text \<open>
  C23: the history of a session grows by what the run said.  Let session memory be over a map store that holds the
  history \<open>h\<close>, with the promoter that promotes everything, and let no context be cancelled and the clock
  not run backwards.  If a run returns, the next load of the session returns \<open>h\<close>, then the messages of
  the request as the input guards left them, then those of the response, in order, whatever the
  compressor did to the prompt; as long as there are no more than a million of them.
\<close>

theorem history_appends:
  assumes "ag_memoryManager a = Some mgr" "mg_session mgr = Some (NewSessionMemoryWithStore (map_store_ops visit) x y)"
    and "mg_promoter mgr = Some PromoteAll"
    and "en_load en = None" "en_store en = (\<lambda>_. None)" "en_promote en = None"
    and "\<forall>i. en_promote_time en 0 \<le> en_promote_time en i \<and> en_promote_time en i \<le> T'" "T \<le> en_load_time en" "en_load_time en \<le> T'"
    and "holds_history T (as_session st) h" "runInputGuards a en req = (req', None)"
    and "Run a en req st = (st', Inr resp)" "length (h @ rq_Messages req' @ rs_Messages resp) \<le> max_messages"
    and "T' \<le> en_load_time en'" "en_load en' = None"
  shows "\<exists>s'. loadSessionMessages (NewSessionMemoryWithStore (map_store_ops visit) x y) en' (as_session st') =
      (s', Inr (h @ rq_Messages req' @ rs_Messages resp)) \<and>
    holds_history (en_load_time en') s' (h @ rq_Messages req' @ rs_Messages resp)"
proof -
  obtain s' br where b: "buildInitialMessages a en (rq_Messages req') (as_session st) = (s', Inr br)"
      "as_session st' = storeAndPromoteMessages a en (rq_SessionID req') (rq_Messages req') (rs_Messages resp)
         (br_sessionMsgCount br) s'"
    using Run_session [OF assms(12,11)] by blast
  have c: "br_sessionMsgCount br = length h" "holds_history (en_load_time en) s' h"
    using build_count [OF assms(10,8,4) _ assms(1,2) b(1)] assms(13) by simp_all
  have "holds_history T' (as_session st') (h @ rq_Messages req' @ rs_Messages resp)"
    unfolding b(2) c(1) using assms(7)
    by (intro store_history [OF c(2) assms(5,6) _ _ assms(9,1,2,3,13)]) blast+
  from load_history [OF this assms(14,15,13)] show ?thesis .
qed

text \<open>The agent of the example with a session memory.\<close>

definition memory_agent :: "(nat, any_value map_store, unit, unit) agent" where
  "memory_agent = New ''a''
     [\<lambda>a. a\<lparr>ag_chatCompleter := Some demo_model\<rparr>,
      \<lambda>a. a\<lparr>ag_toolRegistry := Some \<lparr>to_List = [], to_Execute = (\<lambda>w name args. (w, Inr (TextResult [] ''3'')))\<rparr>\<rparr>,
      \<lambda>a. a\<lparr>ag_memoryManager := Some (NewManager [WithSession
        (NewSessionMemoryWithStore (map_store_ops (\<lambda>_. 0)) ''a'' ''s'')])\<rparr>]"

definition memory_agent_state :: "(nat, any_value map_store) agent_state" where
  "memory_agent_state = \<lparr>as_world = 0, as_session = NewMapStore, as_events = []\<rparr>"

lemma holds_no_history: "holds_history T NewMapStore []"
  by (simp add: holds_history_def NewMapStore_def ms_ok_def ms_view_def history_map_def)

theorem history_appends_witness:
  "\<exists>st' resp s'. Run memory_agent demo_run_env demo_request memory_agent_state = (st', Inr resp) \<and>
     loadSessionMessages (NewSessionMemoryWithStore (map_store_ops (\<lambda>_. 0)) ''a'' ''s'') (demo_run_env\<lparr>en_load_time := 9\<rparr>)
       (as_session st') = (s', Inr (rq_Messages demo_request @ rs_Messages resp)) \<and>
     map (\<lambda>m. am_Text (m_ai m)) (rs_Messages resp) = [''three'']"
proof -
  let ?R = "Run memory_agent demo_run_env demo_request memory_agent_state"
  obtain st' r where R: "?R = (st', r)" by fastforce
  have c: "case snd ?R of Inr resp \<Rightarrow> map (\<lambda>m. am_Text (m_ai m)) (rs_Messages resp) = [''three''] | Inl _ \<Rightarrow> False" by code_simp
  then obtain resp where resp: "r = Inr resp" "map (\<lambda>m. am_Text (m_ai m)) (rs_Messages resp) = [''three'']"
    using R by (cases r) auto
  have len: "length (rs_Messages resp) = 1" using arg_cong [OF resp(2), of length] by simp
  let ?mgr = "NewManager [WithSession (NewSessionMemoryWithStore (map_store_ops (\<lambda>_. 0)) ''a'' ''s'')] ::
    (any_value map_store, unit, any_value, compressor) manager"
  have m: "ag_memoryManager memory_agent = Some ?mgr"
      "mg_session ?mgr = Some (NewSessionMemoryWithStore (map_store_ops (\<lambda>_. 0)) ''a'' ''s'')" "mg_promoter ?mgr = Some PromoteAll"
    by (simp_all add: memory_agent_def New_def NewManager_def WithSession_def)
  have g: "runInputGuards memory_agent en demo_request = (demo_request, None)" for en
    by (simp add: runInputGuards_def memory_agent_def New_def)
  have e: "en_load demo_run_env = None" "en_store demo_run_env = (\<lambda>_. None)" "en_promote demo_run_env = None"
      "en_promote_time demo_run_env = (\<lambda>_. 6)" "en_load_time demo_run_env = 0"
      "as_session memory_agent_state = NewMapStore" "length (rq_Messages demo_request) = 1"
    by (simp_all add: demo_run_env_def memory_agent_state_def demo_request_def)
  have "\<exists>s'. loadSessionMessages (NewSessionMemoryWithStore (map_store_ops (\<lambda>_. 0)) ''a'' ''s'') (demo_run_env\<lparr>en_load_time := 9\<rparr>)
      (as_session st') = (s', Inr ([] @ rq_Messages demo_request @ rs_Messages resp)) \<and>
    holds_history (en_load_time (demo_run_env\<lparr>en_load_time := 9\<rparr>)) s' ([] @ rq_Messages demo_request @ rs_Messages resp)"
    using R resp(1) len
    by (intro history_appends [OF m, of demo_run_env 8 0 memory_agent_state "[]" demo_request demo_request])
      (simp_all add: e g holds_no_history max_messages_def)
  then show ?thesis using R resp by auto
qed

end
