(* ===== verification/AgentStream.thy ===== *)
theory AgentStream
  imports AgentHistory
begin

text \<open>
  The streaming variant of the task agent (\<open>RunStream\<close>, \<open>runStreamLoop\<close>, \<open>finalizeStream\<close>, \<open>buildSend\<close> of
  \<open>agent/taskagent/task.go\<close>).  The stream of an answer of the model is the list of what \<open>Recv\<close> returns
  until \<open>io.EOF\<close>, and the usage it reports; how a delta is appended to a message is an argument, since the
  message type is not of this library.  A send function takes an event and may fail.  The property: a
  stream of the same answers has the effects of \<open>Run\<close>.
\<close>

section \<open>Streams of the model and send functions\<close>

record stream_choice =
  sc_Delta :: ai_message
  sc_FinishReason :: "finish_reason option"

datatype received = Chunk "stream_choice list" | RecvError gerror

record chat_stream =
  cs_Recv :: "received list"
  cs_Usage :: "usage option"

type_synonym ('w, 's) sender = "agent_event \<Rightarrow> ('w, 's) agent_state \<Rightarrow> ('w, 's) agent_state \<times> gerror option"

record ('w, 's, 'p) stream_config =
  sa_ChatCompletionStream :: "('w, 'p llm_request, chat_stream) completer"
  sa_middlewares :: "(('w, 's) sender \<Rightarrow> ('w, 's) sender) list"
  sa_AppendDelta :: "ai_message \<Rightarrow> ai_message \<Rightarrow> ai_message"

text \<open>The first middleware is the outermost; events about calls of the model are not handed to the hooks.\<close>

fun is_LLMCallEnd :: "agent_event \<Rightarrow> bool" where
  "is_LLMCallEnd (LLMCallEnd _ _) = True"
| "is_LLMCallEnd _ = False"

definition buildSend :: "(('w, 's) sender \<Rightarrow> ('w, 's) sender) list \<Rightarrow> ('w, 's) sender \<Rightarrow> ('w, 's) sender" where
  "buildSend middlewares raw =
     (let next_send = foldr (\<lambda>mw send. mw send) middlewares raw
      in (\<lambda>e st. next_send e (if is_LLMCallEnd e then st else dispatch e st)))"

section \<open>The loop\<close>

fun recv_loop ::
  "(ai_message \<Rightarrow> ai_message \<Rightarrow> ai_message) \<Rightarrow> ('w, 's) sender \<Rightarrow> received list \<Rightarrow> ai_message \<Rightarrow> finish_reason \<Rightarrow>
     nat \<Rightarrow> ('w, 's) agent_state \<Rightarrow> ('w, 's) agent_state \<times> (ai_message \<times> finish_reason \<times> nat) res" where
  "recv_loop ap send [] accumulated finishReason streamBytes st =
     (st, Inr (accumulated, finishReason, streamBytes))"
| "recv_loop ap send (RecvError recvErr # rs) accumulated finishReason streamBytes st =
     (st, Inl (Errorf ''vage: stream recv: %w'' [] (Some recvErr)))"
| "recv_loop ap send (Chunk choices # rs) accumulated finishReason streamBytes st =
     (case choices of
        [] \<Rightarrow> recv_loop ap send rs accumulated finishReason streamBytes st
      | choice # _ \<Rightarrow>
          (let delta = sc_Delta choice;
               accumulated' = ap accumulated delta;
               finishReason' = (case sc_FinishReason choice of Some r \<Rightarrow> r | None \<Rightarrow> finishReason)
           in if am_Text delta \<noteq> [] then
                (case send (TextDelta (am_Text delta)) st of
                   (st1, Some err) \<Rightarrow> (st1, Inl err)
                 | (st1, None) \<Rightarrow>
                     recv_loop ap send rs accumulated' finishReason' (streamBytes + length (am_Text delta)) st1)
              else recv_loop ap send rs accumulated' finishReason' streamBytes st))"

fun stream_tools ::
  "('w, 's, 't, 'p) agent \<Rightarrow> run_env \<Rightarrow> ('w, 's) sender \<Rightarrow> tool_call list \<Rightarrow> ai_message list \<Rightarrow> ('w, 's) agent_state \<Rightarrow>
     ('w, 's) agent_state \<times> ai_message list res" where
  "stream_tools a en send [] messages st = (st, Inr messages)"
| "stream_tools a en send (tc # tcs) messages st =
     (case send (ToolCallStart (tc_ID tc) (tc_Name tc) (tc_Arguments tc)) st of
        (st1, Some err) \<Rightarrow> (st1, Inl err)
      | (st1, None) \<Rightarrow>
          (case executeToolCall a en (as_world st1) tc of
             (w, result) \<Rightarrow>
               (case send (ToolCallEnd (tc_ID tc) (tc_Name tc)) (st1\<lparr>as_world := w\<rparr>) of
                  (st2, Some err) \<Rightarrow> (st2, Inl err)
                | (st2, None) \<Rightarrow>
                    (case send (ToolResultEvent (tc_ID tc) (tc_Name tc) result) st2 of
                       (st3, Some err) \<Rightarrow> (st3, Inl err)
                     | (st3, None) \<Rightarrow> stream_tools a en send tcs (messages @ [tool_message result]) st3))))"

definition finalizeStream ::
  "('w, 's, 't, 'p) agent \<Rightarrow> run_env \<Rightarrow> ('w, 's) sender \<Rightarrow> run_context \<Rightarrow> stop_reason \<Rightarrow> ('w, 's) agent_state \<Rightarrow>
     ('w, 's) agent_state \<times> gerror option" where
  "finalizeStream a en send rc stopReason st =
     (let partial = (stopReason \<noteq> StopReasonComplete);
          respMsgs = buildResponseMsgs a en (rx_lastMsg rc) partial;
          finish = (\<lambda>respMsgs'.
            (let st1 = st\<lparr>as_session := storeAndPromoteMessages a en (rx_sessionID rc) (rx_reqMsgs rc) respMsgs'
                         (rx_sessionMsgCount rc) (as_session st)\<rparr>
             in (case (if stopReason = StopReasonBudgetExhausted
                       then send (TokenBudgetExhausted (bt_budget (rx_tracker rc)) (bt_consumed (rx_tracker rc))
                         (rx_iteration rc + 1) (rx_estimated rc)) st1
                       else (st1, None)) of
                   (st2, Some err) \<Rightarrow> (st2, Some err)
                 | (st2, None) \<Rightarrow> send (AgentEnd (first_text respMsgs') stopReason) st2)))
      in (case runOutputGuards a en (rx_sessionID rc) respMsgs of
            Inl err \<Rightarrow> if partial then finish respMsgs else (st, Some err)
          | Inr guardedMsgs \<Rightarrow> finish guardedMsgs))"

text \<open>Four bytes count as one token when the stream reports no usage.\<close>

definition estimatedTokens :: "nat \<Rightarrow> int" where
  "estimatedTokens streamBytes =
     (let est = (int streamBytes + 3) div 4 in if est < 1 \<and> streamBytes > 0 then 1 else est)"

definition note_stream ::
  "run_env \<Rightarrow> ('w, 's) sender \<Rightarrow> string \<Rightarrow> usage option \<Rightarrow> nat \<Rightarrow> run_context \<Rightarrow> ('w, 's) agent_state \<Rightarrow>
     ('w, 's) agent_state \<times> run_context" where
  "note_stream en send model streamUsage streamBytes rc st =
     (case streamUsage of
        Some u \<Rightarrow>
          (fst (send (LLMCallEnd model u) st),
           rc\<lparr>rx_totalUsage := en_add en (rx_totalUsage rc) u, rx_tracker := fst (Add (TotalTokens u) (rx_tracker rc))\<rparr>)
      | None \<Rightarrow> (st, rc\<lparr>rx_tracker := fst (Add (estimatedTokens streamBytes) (rx_tracker rc))\<rparr>))"

fun stream_loop ::
  "('w, 's, 't, 'p) agent \<Rightarrow> ('w, 's, 'p) stream_config \<Rightarrow> run_env \<Rightarrow> ('w, 's) sender \<Rightarrow> run_params \<Rightarrow> 'p ai_tool list \<Rightarrow>
     nat \<Rightarrow> int \<Rightarrow> ai_message list \<Rightarrow> run_context \<Rightarrow> ('w, 's) agent_state \<Rightarrow> ('w, 's) agent_state \<times> gerror option" where
  "stream_loop a sa en send p aiTools 0 iter messages rc st =
     finalizeStream a en send (rc\<lparr>rx_iteration := rp_maxIter p - 1\<rparr>) StopReasonMaxIterations st"
| "stream_loop a sa en send p aiTools (Suc n) iter messages rc st =
     (let rc1 = rc\<lparr>rx_iteration := iter\<rparr> in
      if Exhausted (rx_tracker rc1) then finalizeStream a en send rc1 StopReasonBudgetExhausted st
      else
        (case send (IterationStart iter) st of
           (st1, Some err) \<Rightarrow> (st1, Some err)
         | (st1, None) \<Rightarrow>
             (case sa_ChatCompletionStream sa (as_world st1) (chat_req p aiTools messages) of
                (w, Inl err) \<Rightarrow> (st1\<lparr>as_world := w\<rparr>, Some (Errorf ''vage: chat completion stream: %w'' [] (Some err)))
              | (w, Inr stream) \<Rightarrow>
                  (case recv_loop (sa_AppendDelta sa) send (cs_Recv stream) (text_message RoleAssistant [])
                          (FinishReason []) 0 (st1\<lparr>as_world := w\<rparr>) of
                     (st2, Inl err) \<Rightarrow> (st2, Some err)
                   | (st2, Inr (accumulated, finishReason, streamBytes)) \<Rightarrow>
                       (case note_stream en send (rp_model p) (cs_Usage stream) streamBytes rc1 st2 of
                          (st3, rc2) \<Rightarrow>
                            (let rc3 = rc2\<lparr>rx_lastMsg := accumulated\<rparr>; messages1 = messages @ [accumulated]
                             in if finishReason \<noteq> FinishReasonToolCalls \<or> length (am_ToolCalls accumulated) = 0
                                then finalizeStream a en send rc3 StopReasonComplete st3
                                else if Exhausted (rx_tracker rc3)
                                then finalizeStream a en send rc3 StopReasonBudgetExhausted st3
                                else (case stream_tools a en send (am_ToolCalls accumulated) messages1 st3 of
                                        (st4, Inl err) \<Rightarrow> (st4, Some err)
                                      | (st4, Inr messages2) \<Rightarrow>
                                          stream_loop a sa en send p aiTools n (iter + 1) messages2 rc3 st4)))))))"

definition runStreamLoop ::
  "('w, 's, 't, 'p) agent \<Rightarrow> ('w, 's, 'p) stream_config \<Rightarrow> run_env \<Rightarrow> request \<Rightarrow> run_params \<Rightarrow> build_result \<Rightarrow>
     'p ai_tool list \<Rightarrow> ('w, 's) sender \<Rightarrow> ('w, 's) agent_state \<Rightarrow> ('w, 's) agent_state \<times> gerror option" where
  "runStreamLoop a sa en req p br aiTools send st =
     (let rc = \<lparr>rx_sessionID = rq_SessionID req, rx_tracker = newBudgetTracker (rp_runTokenBudget p),
                rx_totalUsage = usage_zero, rx_sessionMsgCount = br_sessionMsgCount br, rx_reqMsgs = rq_Messages req,
                rx_lastMsg = text_message (RoleOther []) [], rx_iteration = 0, rx_estimated = True\<rparr>
      in (case send AgentStart st of
            (st1, Some err) \<Rightarrow> (st1, Some err)
          | (st1, None) \<Rightarrow>
              stream_loop a sa en send p aiTools (nat (rp_maxIter p)) 0 (br_messages br) rc st1))"

text \<open>The result is an error or the producer of the stream, which is given the send function of the stream.\<close>

definition RunStream ::
  "('w, 's, 't, 'p) agent \<Rightarrow> ('w, 's, 'p) stream_config \<Rightarrow> run_env \<Rightarrow> request \<Rightarrow> ('w, 's) agent_state \<Rightarrow>
     ('w, 's) agent_state \<times> (('w, 's) sender \<Rightarrow> ('w, 's) agent_state \<Rightarrow> ('w, 's) agent_state \<times> gerror option) res" where
  "RunStream a sa en req st =
     (case ag_chatCompleter a of
        None \<Rightarrow> (st, Inl (Sentinel ''vage: ChatCompleter is required''))
      | Some _ \<Rightarrow>
          (case runInputGuards a en req of
             (req', Some err) \<Rightarrow> (st, Inl err)
           | (req', None) \<Rightarrow>
               (let p = resolveRunParams a (rq_Options req')
                in (case buildInitialMessages a en (rq_Messages req') (as_session st) of
                      (s', Inl err) \<Rightarrow> (st\<lparr>as_session := s'\<rparr>, Inl err)
                    | (s', Inr br0) \<Rightarrow>
                        (let br = injectSkillInstructions a (rq_SessionID req') br0;
                             aiTools = prepareAITools a (mergeSkillToolFilter a (rp_toolFilter p) (rq_SessionID req'))
                         in (st\<lparr>as_session := s'\<rparr>,
                             Inr (\<lambda>raw. runStreamLoop a sa en req' p br aiTools (buildSend (sa_middlewares sa) raw))))))))"

section \<open>Streaming and not streaming\<close>

text \<open>What a consumer that never fails is: the events only reach the hooks.\<close>

definition open_sender :: "('w, 's) sender" where
  "open_sender e st = (st, None)"

text \<open>A stream carries an answer when its pieces add up to the message of the answer and it reports the usage.\<close>

fun add_up :: "(ai_message \<Rightarrow> ai_message \<Rightarrow> ai_message) \<Rightarrow> received list \<Rightarrow> ai_message \<times> finish_reason \<Rightarrow>
    (ai_message \<times> finish_reason) option" where
  "add_up ap [] x = Some x"
| "add_up ap (RecvError _ # rs) x = None"
| "add_up ap (Chunk [] # rs) x = add_up ap rs x"
| "add_up ap (Chunk (c # _) # rs) x =
     add_up ap rs (ap (fst x) (sc_Delta c), case sc_FinishReason c of Some r \<Rightarrow> r | None \<Rightarrow> snd x)"

definition carries :: "(ai_message \<Rightarrow> ai_message \<Rightarrow> ai_message) \<Rightarrow> chat_stream \<Rightarrow> chat_response \<Rightarrow> bool" where
  "carries ap stream resp \<longleftrightarrow> (\<exists>choice rest. cp_Choices resp = choice # rest \<and>
     add_up ap (cs_Recv stream) (text_message RoleAssistant [], FinishReason []) =
       Some (ch_Message choice, ch_FinishReason choice) \<and>
     cs_Usage stream = Some (cp_Usage resp))"

definition same_answers ::
  "(ai_message \<Rightarrow> ai_message \<Rightarrow> ai_message) \<Rightarrow> ('w, 'q, chat_response) completer \<Rightarrow> ('w, 'q, chat_stream) completer \<Rightarrow> bool" where
  "same_answers ap cc sc \<longleftrightarrow> (\<forall>w q. case cc w q of
      (w', Inl _) \<Rightarrow> (\<exists>e. sc w q = (w', Inl e))
    | (w', Inr resp) \<Rightarrow> (\<exists>stream. sc w q = (w', Inr stream) \<and> carries ap stream resp))"

text \<open>The events that both variants hand to the hooks, without the flag of the budget event.\<close>

fun common_event :: "agent_event \<Rightarrow> agent_event option" where
  "common_event (TextDelta _) = None"
| "common_event (IterationStart _) = None"
| "common_event (ToolResultEvent _ _ _) = None"
| "common_event (LLMCallEnd _ _) = None"
| "common_event (TokenBudgetExhausted b u i _) = Some (TokenBudgetExhausted b u i False)"
| "common_event e = Some e"

definition same_effects :: "('w, 's) agent_state \<Rightarrow> ('w, 's) agent_state \<Rightarrow> bool" where
  "same_effects st st' \<longleftrightarrow> as_world st = as_world st' \<and> as_session st = as_session st' \<and>
     List.map_filter common_event (as_events st) = List.map_filter common_event (as_events st')"

definition same_context :: "run_context \<Rightarrow> run_context \<Rightarrow> bool" where
  "same_context rc rc' \<longleftrightarrow> rx_sessionID rc = rx_sessionID rc' \<and> rx_tracker rc = rx_tracker rc' \<and>
     rx_sessionMsgCount rc = rx_sessionMsgCount rc' \<and> rx_reqMsgs rc = rx_reqMsgs rc' \<and>
     rx_lastMsg rc = rx_lastMsg rc' \<and> rx_iteration rc = rx_iteration rc'"

lemma map_filter_append [simp]: "List.map_filter f (xs @ ys) = List.map_filter f xs @ List.map_filter f ys"
  by (induction xs) (auto simp: map_filter_simps split: option.splits)

lemma open_send [simp]:
  "buildSend [] open_sender e st = (if is_LLMCallEnd e then st else dispatch e st, None)"
  by (simp add: buildSend_def open_sender_def)

lemma same_effects_dispatch [simp]:
  "common_event e = None \<Longrightarrow> same_effects st (dispatch e st') \<longleftrightarrow> same_effects st st'"
  by (simp add: same_effects_def dispatch_def map_filter_simps)

lemma same_effects_dispatch_both:
  "same_effects st st' \<Longrightarrow> common_event e = common_event e' \<Longrightarrow> same_effects (dispatch e st) (dispatch e' st')"
  by (auto simp: same_effects_def dispatch_def map_filter_simps split: option.splits)

lemma same_effects_world: "same_effects st st' \<Longrightarrow> same_effects (st\<lparr>as_world := w\<rparr>) (st'\<lparr>as_world := w\<rparr>)"
  by (simp add: same_effects_def)

lemma recv_adds_up:
  assumes "add_up ap rs (acc, fr) = Some (m, r)"
  shows "\<exists>st' b. recv_loop ap (buildSend [] open_sender) rs acc fr bytes st = (st', Inr (m, r, b)) \<and>
    (\<forall>st0. same_effects st0 st' \<longleftrightarrow> same_effects st0 st)"
  using assms
proof (induction ap rs "(acc, fr)" arbitrary: acc fr bytes st rule: add_up.induct)
  case (4 ap c cs rs acc fr)
  note IH = 4(1) [OF 4(2) [unfolded add_up.simps], unfolded fst_conv snd_conv]
  show ?case
    using IH [of "bytes + length (am_Text (sc_Delta c))" "dispatch (TextDelta (am_Text (sc_Delta c))) st"] IH [of bytes st]
    by (auto simp: Let_def)
qed auto

lemma tools_agree:
  assumes "same_effects st st'"
  shows "\<exists>st2'. stream_tools a en (buildSend [] open_sender) tcs ms st' = (st2', Inr (snd (call_tools a en tcs ms st))) \<and>
    same_effects (fst (call_tools a en tcs ms st)) st2'"
  using assms
proof (induction a en tcs ms st arbitrary: st' rule: call_tools.induct)
  case (2 a en tc tcs ms st)
  let ?s = "ToolCallStart (tc_ID tc) (tc_Name tc) (tc_Arguments tc)"
  have s: "same_effects (dispatch ?s st) (dispatch ?s st')" using 2(2) by (rule same_effects_dispatch_both) simp
  then have w: "as_world (dispatch ?s st') = as_world (dispatch ?s st)" by (simp add: same_effects_def)
  obtain w r where x: "executeToolCall a en (as_world (dispatch ?s st)) tc = (w, r)" by fastforce
  have s2: "same_effects (dispatch (ToolCallEnd (tc_ID tc) (tc_Name tc)) (dispatch ?s st\<lparr>as_world := w\<rparr>))
      (dispatch (ToolResultEvent (tc_ID tc) (tc_Name tc) r) (dispatch (ToolCallEnd (tc_ID tc) (tc_Name tc)) (dispatch ?s st'\<lparr>as_world := w\<rparr>)))"
    by (simp add: same_effects_dispatch_both same_effects_world s)
  show ?case using 2(1) [OF refl x [symmetric] refl s2] x w by (simp add: Let_def)
qed simp

lemma finalize_agrees:
  assumes "same_effects st st'" "same_context rc rc'" "\<forall>ms. \<exists>ms'. runOutputGuards a en (rx_sessionID rc) ms = Inr ms'"
  shows "\<exists>st2'. finalizeStream a en (buildSend [] open_sender) rc' r st' = (st2', None) \<and>
    same_effects (fst (finalizeRun a en rc r st)) st2'"
proof -
  obtain ms' where g: "runOutputGuards a en (rx_sessionID rc) (buildResponseMsgs a en (rx_lastMsg rc) (r \<noteq> StopReasonComplete)) = Inr ms'"
    using assms(3) by blast
  let ?S = "\<lambda>s. storeAndPromoteMessages a en (rx_sessionID rc) (rx_reqMsgs rc) ms' (rx_sessionMsgCount rc) s"
  have "same_effects (st\<lparr>as_session := ?S (as_session st)\<rparr>) (st'\<lparr>as_session := ?S (as_session st')\<rparr>)"
    using assms(1) by (simp add: same_effects_def)
  then show ?thesis
    using g assms(2)
    by (auto simp: finalizeStream_def finalizeRun_def Let_def same_context_def intro!: same_effects_dispatch_both)
qed

text \<open>The loops agree, answer by answer.\<close>

definition agree ::
  "('w, 's) agent_state \<times> response res \<Rightarrow> ('w, 's) agent_state \<times> gerror option \<Rightarrow> bool" where
  "agree x y \<longleftrightarrow> (case snd x of
      Inr _ \<Rightarrow> snd y = None \<and> same_effects (fst x) (fst y)
    | Inl _ \<Rightarrow> snd y \<noteq> None \<and> as_session (fst x) = as_session (fst y))"

lemma finalize_agree:
  assumes "same_effects st st'" "same_context rc rc'" "\<forall>ms. \<exists>ms'. runOutputGuards a en (rx_sessionID rc) ms = Inr ms'"
  shows "agree (apsnd Inr (finalizeRun a en rc r st)) (finalizeStream a en (buildSend [] open_sender) rc' r st')"
  using finalize_agrees [OF assms, of r] by (auto simp: agree_def)

lemma loops_agree:
  assumes "same_answers (sa_AppendDelta sa) cc (sa_ChatCompletionStream sa)"
    and "\<forall>ms. \<exists>ms'. runOutputGuards a en sid ms = Inr ms'"
    and "same_effects st st'" "same_context rc rc'" "rx_sessionID rc = sid"
  shows "agree (run_loop a en cc p tools n iter ms rc st)
    (stream_loop a sa en (buildSend [] open_sender) p tools n iter ms rc' st')"
  using assms(3-)
proof (induction n arbitrary: iter ms rc rc' st st')
  case 0
  have "same_context (rc\<lparr>rx_iteration := rp_maxIter p - 1\<rparr>) (rc'\<lparr>rx_iteration := rp_maxIter p - 1\<rparr>)"
    using 0(2) by (simp add: same_context_def)
  from finalize_agree [OF 0(1) this] show ?case using assms(2) 0(3) by (simp del: open_send)
next
  case (Suc n)
  let ?rc1 = "rc\<lparr>rx_iteration := iter\<rparr>" and ?rc1' = "rc'\<lparr>rx_iteration := iter\<rparr>"
  have c1: "same_context ?rc1 ?rc1'" and tr: "rx_tracker rc' = rx_tracker rc"
    using Suc.prems(2) by (simp_all add: same_context_def)
  show ?case
  proof (cases "Exhausted (rx_tracker rc)")
    case True
    then show ?thesis
      using finalize_agree [OF Suc.prems(1) c1, of a en StopReasonBudgetExhausted] assms(2) Suc.prems(3) tr
      by (simp del: open_send)
  next
    case False
    let ?st1 = "dispatch (IterationStart iter) st'"
    have send1: "buildSend [] open_sender (IterationStart iter) st' = (?st1, None)" by simp
    have e1: "same_effects st ?st1" using Suc.prems(1) by simp
    then have w1: "as_world ?st1 = as_world st" by (simp add: same_effects_def)
    obtain w r where r: "cc (as_world st) (chat_req p tools ms) = (w, r)" by fastforce
    note sa = assms(1) [unfolded same_answers_def, rule_format, of "as_world st" "chat_req p tools ms", unfolded r]
    show ?thesis
    proof (cases r)
      case (Inl err)
      then obtain e where "sa_ChatCompletionStream sa (as_world st) (chat_req p tools ms) = (w, Inl e)" using sa by auto
      then show ?thesis using False tr r Inl w1 Suc.prems(1) send1
        by (simp add: agree_def same_effects_def dispatch_def del: open_send)
    next
      case (Inr resp)
      then obtain stream where s: "sa_ChatCompletionStream sa (as_world st) (chat_req p tools ms) = (w, Inr stream)"
          "carries (sa_AppendDelta sa) stream resp"
        using sa by auto
      then obtain ch chs where ch: "cp_Choices resp = ch # chs"
          "add_up (sa_AppendDelta sa) (cs_Recv stream) (text_message RoleAssistant [], FinishReason []) =
             Some (ch_Message ch, ch_FinishReason ch)"
          "cs_Usage stream = Some (cp_Usage resp)"
        by (auto simp: carries_def)
      obtain st2 b where st2: "recv_loop (sa_AppendDelta sa) (buildSend [] open_sender) (cs_Recv stream)
          (text_message RoleAssistant []) (FinishReason []) 0 (?st1\<lparr>as_world := w\<rparr>) = (st2, Inr (ch_Message ch, ch_FinishReason ch, b))"
          "same_effects (st\<lparr>as_world := w\<rparr>) st2"
        using recv_adds_up [OF ch(2)] same_effects_world [OF e1, of w] by blast
      define rc3 where "rc3 = note_response en resp ?rc1\<lparr>rx_lastMsg := ch_Message ch\<rparr>"
      define rc3' where "rc3' = ?rc1'\<lparr>rx_totalUsage := en_add en (rx_totalUsage ?rc1') (cp_Usage resp),
        rx_tracker := fst (Add (TotalTokens (cp_Usage resp)) (rx_tracker ?rc1')), rx_lastMsg := ch_Message ch\<rparr>"
      have c3: "same_context rc3 rc3'" "rx_sessionID rc3 = sid"
        using Suc.prems(2,3) by (simp_all add: rc3_def rc3'_def same_context_def note_response_def)
      have tr3: "rx_tracker rc3' = rx_tracker rc3" using c3(1) by (simp add: same_context_def)
      let ?final = "\<not> (ch_FinishReason ch = FinishReasonToolCalls \<and> am_ToolCalls (ch_Message ch) \<noteq> [])"
      have L: "run_loop a en cc p tools (Suc n) iter ms rc st =
          after_answer a en cc p tools n iter ms rc3 (ch_Message ch) ?final (st\<lparr>as_world := w\<rparr>)"
        using run_loop_answer [of rc cc st p tools ms w resp ch chs a en n iter] False r Inr ch(1) by (simp add: rc3_def)
      have R: "stream_loop a sa en (buildSend [] open_sender) p tools (Suc n) iter ms rc' st' =
          (if ?final then finalizeStream a en (buildSend [] open_sender) rc3' StopReasonComplete st2
           else if Exhausted (rx_tracker rc3') then finalizeStream a en (buildSend [] open_sender) rc3' StopReasonBudgetExhausted st2
           else (case stream_tools a en (buildSend [] open_sender) (am_ToolCalls (ch_Message ch)) (ms @ [ch_Message ch]) st2 of
                   (st4, Inl err) \<Rightarrow> (st4, Some err)
                 | (st4, Inr ms2) \<Rightarrow> stream_loop a sa en (buildSend [] open_sender) p tools n (iter + 1) ms2 rc3' st4))"
        using False tr w1 s(1) st2(1) ch(3) send1 open_send [of "LLMCallEnd (rp_model p) (cp_Usage resp)" st2]
        by (simp add: Let_def note_stream_def rc3'_def del: open_send)
      obtain st3 ms3 where ct: "call_tools a en (am_ToolCalls (ch_Message ch)) (ms @ [ch_Message ch]) (st\<lparr>as_world := w\<rparr>) = (st3, ms3)"
        by fastforce
      obtain st4 where st4: "stream_tools a en (buildSend [] open_sender) (am_ToolCalls (ch_Message ch)) (ms @ [ch_Message ch]) st2 = (st4, Inr ms3)"
          "same_effects st3 st4"
        using tools_agree [OF st2(2), of a en "am_ToolCalls (ch_Message ch)" "ms @ [ch_Message ch]"] ct by auto
      have "\<forall>ms. \<exists>ms'. runOutputGuards a en (rx_sessionID rc3) ms = Inr ms'" using assms(2) c3(2) by simp
      note F = finalize_agree [OF st2(2) c3(1) this]
      show ?thesis
        using F [of StopReasonComplete] F [of StopReasonBudgetExhausted] Suc.IH [OF st4(2) c3] tr3
        unfolding L R by (simp add: after_answer_def ct st4(1) del: open_send)
    qed
  qed
qed

lemma runInputGuards_session: "runInputGuards a en req = (req', None) \<Longrightarrow> rq_SessionID req' = rq_SessionID req"
  using runInputGuards_options by blast

lemma Run_agrees:
  assumes "ag_chatCompleter a = Some cc" "same_answers (sa_AppendDelta sa) cc (sa_ChatCompletionStream sa)"
    and "sa_middlewares sa = []" "\<forall>ms. \<exists>ms'. runOutputGuards a en (rq_SessionID req) ms = Inr ms'"
  shows "case RunStream a sa en req st of
      (st0, Inl e) \<Rightarrow> snd (Run a en req st) = Inl e
    | (st0, Inr producer) \<Rightarrow> agree (Run a en req st) (producer open_sender st0)"
proof -
  obtain req' ge where g: "runInputGuards a en req = (req', ge)" by fastforce
  show ?thesis
  proof (cases ge)
    case (Some e)
    then show ?thesis using assms(1) g by (simp add: RunStream_def Run_def)
  next
    case None
    obtain s' rb where b: "buildInitialMessages a en (rq_Messages req') (as_session st) = (s', rb)" by fastforce
    have b1: "buildInitialMessages a en (rq_Messages req') (as_session (dispatch AgentStart st)) = (s', rb)"
      using b by (simp add: dispatch_def)
    show ?thesis
    proof (cases rb)
      case (Inl e)
      then show ?thesis using assms(1) g None b b1 by (simp add: RunStream_def Run_def Let_def)
    next
      case (Inr br0)
      have s: "rq_SessionID req' = rq_SessionID req" using runInputGuards_session g None by blast
      have "buildSend [] open_sender AgentStart (st\<lparr>as_session := s'\<rparr>) = (dispatch AgentStart st\<lparr>as_session := s'\<rparr>, None)"
        by (simp add: dispatch_def)
      then show ?thesis
        using assms(1,3) g None b b1 Inr s
        by (auto simp: RunStream_def Run_def Let_def runStreamLoop_def same_effects_def same_context_def
          simp del: open_send intro!: loops_agree [OF assms(2,4)])
    qed
  qed
qed


text \<open>A stream of one piece for the model of the example.\<close>

definition demo_stream :: "(nat, unit, unit) stream_config" where
  "demo_stream =
     \<lparr>sa_ChatCompletionStream = (\<lambda>w q. case demo_model w q of
        (w', Inl e) \<Rightarrow> (w', Inl e)
      | (w', Inr resp) \<Rightarrow> (w', Inr
          \<lparr>cs_Recv = [Chunk [], Chunk [\<lparr>sc_Delta = ch_Message (hd (cp_Choices resp)),
              sc_FinishReason = Some (ch_FinishReason (hd (cp_Choices resp)))\<rparr>]],
           cs_Usage = Some (cp_Usage resp)\<rparr>)),
      sa_middlewares = [], sa_AppendDelta = (\<lambda>m d.
        m\<lparr>am_Text := am_Text m @ am_Text d, am_ToolCalls := am_ToolCalls m @ am_ToolCalls d\<rparr>)\<rparr>"

lemma demo_same_answers: "same_answers (sa_AppendDelta demo_stream) demo_model (sa_ChatCompletionStream demo_stream)"
  by (simp add: same_answers_def demo_stream_def demo_model_def carries_def text_message_def)


end
