(* ===== verification/Streams.thy ===== *)
theory Streams
  imports Prelude "HOL-Library.Sublist"
begin

text \<open>
  Event streams (\<open>schema/stream.go\<close>).  A producer runs in a goroutine and hands events to a channel; the consumer
  calls \<open>Recv\<close> and may call \<open>Close\<close> at any time.  The producer is a tree: it returns, or it sends an event and
  goes on with the answer of \<open>send\<close>; a producer that never returns is not represented.  The steps of the two
  sides and the cancellation of the context interleave freely.
\<close>

section \<open>Producers\<close>

datatype ('e, 'x) producer =
    Return "'x option"
  | Send 'e "'x option \<Rightarrow> ('e, 'x) producer"

text \<open>Between the test of the flag and the \<open>select\<close> of \<open>send\<close>, the stream may be closed.\<close>

datatype ('e, 'x) producer_phase =
    Running "('e, 'x) producer"
  | Selecting 'e "'x option \<Rightarrow> ('e, 'x) producer"
  | Closing
  | Finished

datatype ('e, 'x) received_event = Got 'e | Failed 'x | EndOfStream

record ('e, 'x) run_stream =
  rs_bufSize :: nat
  rs_ch :: "'e list"
  rs_chClosed :: bool
  rs_doneClosed :: bool
  rs_err :: "'x option"
  rs_closed :: bool
  rs_cancelled :: bool
  rs_phase :: "('e, 'x) producer_phase"
  rs_waiting :: bool
  rs_sent :: "'e list"
  rs_log :: "('e, 'x) received_event list"

text \<open>The last two fields record the events that were sent and what \<open>Recv\<close> returned.\<close>

definition NewRunStream :: "nat \<Rightarrow> bool \<Rightarrow> ('e, 'x) producer \<Rightarrow> ('e, 'x) run_stream" where
  "NewRunStream bufSize cancelled p =
     \<lparr>rs_bufSize = bufSize, rs_ch = [], rs_chClosed = False, rs_doneClosed = False, rs_err = None, rs_closed = False,
      rs_cancelled = cancelled, rs_phase = Running p, rs_waiting = False, rs_sent = [], rs_log = []\<rparr>"

section \<open>Steps\<close>

datatype stream_move =
    Check | Deliver | HandOver | GiveUp | Finish | CloseDone
  | Recv | Take | Ended
  | Close | Cancel

text \<open>\<open>closedErr\<close> is \<open>ErrRunStreamClosed\<close>.  \<open>HandOver\<close> is a send on a channel without a buffer, which needs a waiting
  receiver; when both sides of the \<open>select\<close> are ready either may be taken.\<close>

fun stream_step :: "'x \<Rightarrow> stream_move \<Rightarrow> ('e, 'x) run_stream \<Rightarrow> ('e, 'x) run_stream option" where
  "stream_step closedErr Check st =
     (case rs_phase st of
        Running (Send e k) \<Rightarrow>
          Some (st\<lparr>rs_phase := (if rs_closed st then Running (k (Some closedErr)) else Selecting e k)\<rparr>)
      | _ \<Rightarrow> None)"
| "stream_step closedErr Deliver st =
     (case rs_phase st of
        Selecting e k \<Rightarrow>
          if length (rs_ch st) < rs_bufSize st
          then Some (st\<lparr>rs_ch := rs_ch st @ [e], rs_sent := rs_sent st @ [e], rs_phase := Running (k None)\<rparr>) else None
      | _ \<Rightarrow> None)"
| "stream_step closedErr HandOver st =
     (case rs_phase st of
        Selecting e k \<Rightarrow>
          if rs_bufSize st = 0 \<and> rs_waiting st
          then Some (st\<lparr>rs_waiting := False, rs_log := rs_log st @ [Got e], rs_sent := rs_sent st @ [e],
            rs_phase := Running (k None)\<rparr>) else None
      | _ \<Rightarrow> None)"
| "stream_step closedErr GiveUp st =
     (case rs_phase st of
        Selecting e k \<Rightarrow> if rs_cancelled st then Some (st\<lparr>rs_phase := Running (k (Some closedErr))\<rparr>) else None
      | _ \<Rightarrow> None)"
| "stream_step closedErr Finish st =
     (case rs_phase st of
        Running (Return err) \<Rightarrow> Some (st\<lparr>rs_err := err, rs_chClosed := True, rs_phase := Closing\<rparr>)
      | _ \<Rightarrow> None)"
| "stream_step closedErr CloseDone st =
     (case rs_phase st of
        Closing \<Rightarrow> Some (st\<lparr>rs_doneClosed := True, rs_phase := Finished\<rparr>)
      | _ \<Rightarrow> None)"
| "stream_step closedErr Recv st =
     (if rs_waiting st then None
      else if rs_closed st then Some (st\<lparr>rs_log := rs_log st @ [Failed closedErr]\<rparr>)
      else Some (st\<lparr>rs_waiting := True\<rparr>))"
| "stream_step closedErr Take st =
     (case rs_ch st of
        e # rest \<Rightarrow>
          if rs_waiting st then Some (st\<lparr>rs_ch := rest, rs_waiting := False, rs_log := rs_log st @ [Got e]\<rparr>) else None
      | [] \<Rightarrow> None)"
| "stream_step closedErr Ended st =
     (if rs_waiting st \<and> rs_ch st = [] \<and> rs_chClosed st
      then Some (st\<lparr>rs_waiting := False,
        rs_log := rs_log st @ [case rs_err st of Some err \<Rightarrow> Failed err | None \<Rightarrow> EndOfStream]\<rparr>)
      else None)"
| "stream_step closedErr Close st = Some (st\<lparr>rs_closed := True, rs_cancelled := True\<rparr>)"
| "stream_step closedErr Cancel st = Some (st\<lparr>rs_cancelled := True\<rparr>)"

fun stream_steps :: "'x \<Rightarrow> stream_move list \<Rightarrow> ('e, 'x) run_stream \<Rightarrow> ('e, 'x) run_stream option" where
  "stream_steps closedErr [] st = Some st"
| "stream_steps closedErr (s # ss) st =
     (case stream_step closedErr s st of None \<Rightarrow> None | Some st' \<Rightarrow> stream_steps closedErr ss st')"

section \<open>What the consumer gets\<close>

definition got :: "('e, 'x) received_event list \<Rightarrow> 'e list" where
  "got rs = List.map_filter (\<lambda>r. case r of Got e \<Rightarrow> Some e | _ \<Rightarrow> None) rs"

lemma got_append [simp]: "got (xs @ ys) = got xs @ got ys"
  by (induction xs) (auto simp: got_def map_filter_simps split: option.split)

lemma got_simps [simp]: "got [] = []" "got [Got e] = [e]" "got [Failed x] = []" "got [EndOfStream] = []"
  by (simp_all add: got_def map_filter_simps)

text \<open>The outcomes a producer can have sent by, and the returns it can end with.\<close>

inductive produces :: "'x \<Rightarrow> ('e, 'x) producer \<Rightarrow> 'e list \<Rightarrow> ('e, 'x) producer \<Rightarrow> bool" for closedErr where
  produces_start: "produces closedErr p [] p"
| produces_sent: "produces closedErr p es (Send e k) \<Longrightarrow> produces closedErr p (es @ [e]) (k None)"
| produces_refused: "produces closedErr p es (Send e k) \<Longrightarrow> produces closedErr p es (k (Some closedErr))"

fun answer_ok :: "'x \<Rightarrow> ('e, 'x) run_stream \<Rightarrow> ('e, 'x) received_event \<Rightarrow> bool" where
  "answer_ok closedErr st (Got e) = True"
| "answer_ok closedErr st (Failed x) =
     (x = closedErr \<and> rs_closed st \<or> rs_chClosed st \<and> rs_ch st = [] \<and> rs_err st = Some x)"
| "answer_ok closedErr st EndOfStream = (rs_chClosed st \<and> rs_ch st = [] \<and> rs_err st = None)"

lemma answer_ok_mono:
  "answer_ok closedErr st r \<Longrightarrow> (rs_closed st \<Longrightarrow> rs_closed st') \<Longrightarrow>
     (rs_chClosed st \<Longrightarrow> rs_ch st = [] \<Longrightarrow> rs_chClosed st' \<and> rs_ch st' = [] \<and> rs_err st' = rs_err st) \<Longrightarrow>
     answer_ok closedErr st' r"
  by (cases r) auto

fun rest_of :: "('e, 'x) producer_phase \<Rightarrow> 'x option \<Rightarrow> ('e, 'x) producer" where
  "rest_of (Running q) err = q"
| "rest_of (Selecting e k) err = Send e k"
| "rest_of Closing err = Return err"
| "rest_of Finished err = Return err"

definition stream_inv :: "'x \<Rightarrow> ('e, 'x) producer \<Rightarrow> ('e, 'x) run_stream \<Rightarrow> bool" where
  "stream_inv closedErr p st \<longleftrightarrow>
     rs_sent st = got (rs_log st) @ rs_ch st \<and> length (rs_ch st) \<le> rs_bufSize st \<and>
     (rs_closed st \<longrightarrow> rs_cancelled st) \<and>
     (rs_chClosed st \<longleftrightarrow> rs_phase st = Closing \<or> rs_phase st = Finished) \<and>
     (rs_doneClosed st \<longleftrightarrow> rs_phase st = Finished) \<and>
     produces closedErr p (rs_sent st) (rest_of (rs_phase st) (rs_err st)) \<and>
     (\<forall>r\<in>set (rs_log st). answer_ok closedErr st r)"

lemma produces_sent': "produces closedErr p (xs @ ys) (Send e k) \<Longrightarrow> produces closedErr p (xs @ ys @ [e]) (k None)"
  using produces_sent [of closedErr p "xs @ ys" e k] by simp

lemma stream_inv_start: "stream_inv closedErr p (NewRunStream n c p)"
  by (simp add: stream_inv_def NewRunStream_def produces_start)

lemma stream_inv_step:
  assumes I: "stream_inv closedErr p st" and s: "stream_step closedErr m st = Some st'"
  shows "stream_inv closedErr p st'"
proof -
  let ?old = "\<lambda>st'. \<forall>r\<in>set (rs_log st). answer_ok closedErr st' r"
  have old: "?old st'" if "rs_closed st \<Longrightarrow> rs_closed st'"
      "rs_chClosed st \<Longrightarrow> rs_ch st = [] \<Longrightarrow> rs_chClosed st' \<and> rs_ch st' = [] \<and> rs_err st' = rs_err st" for st'
    using I answer_ok_mono [OF _ that] unfolding stream_inv_def by blast
  show ?thesis
  proof (cases m)
    case Check
    then obtain e k where "rs_phase st = Running (Send e k)"
        "st' = st\<lparr>rs_phase := (if rs_closed st then Running (k (Some closedErr)) else Selecting e k)\<rparr>"
      using s by (auto split: producer_phase.splits producer.splits)
    then show ?thesis using I old [of st'] by (auto simp: stream_inv_def intro: produces_refused)
  next
    case Deliver
    then obtain e k where "rs_phase st = Selecting e k" "length (rs_ch st) < rs_bufSize st"
        "st' = st\<lparr>rs_ch := rs_ch st @ [e], rs_sent := rs_sent st @ [e], rs_phase := Running (k None)\<rparr>"
      using s by (auto split: producer_phase.splits if_splits)
    then show ?thesis using I old [of st'] by (auto simp: stream_inv_def intro: produces_sent produces_sent')
  next
    case HandOver
    then obtain e k where h: "rs_phase st = Selecting e k" "rs_bufSize st = 0" "rs_waiting st"
        "st' = st\<lparr>rs_waiting := False, rs_log := rs_log st @ [Got e], rs_sent := rs_sent st @ [e], rs_phase := Running (k None)\<rparr>"
      using s by (auto split: producer_phase.splits if_splits)
    moreover have "rs_ch st = []" using I h(2) by (simp add: stream_inv_def)
    ultimately show ?thesis using I old [of st'] by (auto simp: stream_inv_def intro: produces_sent produces_sent')
  next
    case GiveUp
    then obtain e k where "rs_phase st = Selecting e k" "st' = st\<lparr>rs_phase := Running (k (Some closedErr))\<rparr>"
      using s by (auto split: producer_phase.splits if_splits)
    then show ?thesis using I old [of st'] by (auto simp: stream_inv_def intro: produces_refused)
  next
    case Finish
    then obtain err where "rs_phase st = Running (Return err)" "st' = st\<lparr>rs_err := err, rs_chClosed := True, rs_phase := Closing\<rparr>"
      using s by (auto split: producer_phase.splits producer.splits)
    then show ?thesis using I old [of st'] by (auto simp: stream_inv_def)
  next
    case CloseDone
    then have "rs_phase st = Closing" "st' = st\<lparr>rs_doneClosed := True, rs_phase := Finished\<rparr>"
      using s by (auto split: producer_phase.splits)
    then show ?thesis using I old [of st'] by (auto simp: stream_inv_def)
  next
    case Recv
    then show ?thesis using I s old [of st'] by (auto simp: stream_inv_def split: if_splits)
  next
    case Take
    then obtain e rest where "rs_ch st = e # rest"
        "st' = st\<lparr>rs_ch := rest, rs_waiting := False, rs_log := rs_log st @ [Got e]\<rparr>"
      using s by (auto split: list.splits if_splits)
    then show ?thesis using I old [of st'] by (auto simp: stream_inv_def)
  next
    case Ended
    then have "rs_ch st = []" "rs_chClosed st" "st' = st\<lparr>rs_waiting := False,
        rs_log := rs_log st @ [case rs_err st of Some err \<Rightarrow> Failed err | None \<Rightarrow> EndOfStream]\<rparr>"
      using s by (auto split: if_splits)
    then show ?thesis using I old [of st'] by (auto simp: stream_inv_def split: option.splits)
  next
    case Close
    then show ?thesis using I s old [of st'] by (auto simp: stream_inv_def)
  next
    case Cancel
    then show ?thesis using I s old [of st'] by (auto simp: stream_inv_def)
  qed
qed

lemma stream_inv_steps:
  "stream_inv closedErr p st \<Longrightarrow> stream_steps closedErr ms st = Some st' \<Longrightarrow> stream_inv closedErr p st'"
  by (induction ms arbitrary: st) (auto split: option.splits dest: stream_inv_step)

text \<open>
  C27: a stream delivers what was sent.  At any time the events that \<open>Recv\<close> has returned are, in order, a prefix of
  those the producer has sent, and at most the buffer is missing.  When \<open>Recv\<close> returns \<open>io.EOF\<close>, or an error other
  than \<open>ErrRunStreamClosed\<close>, nothing is missing and the producer has returned, without an error or with that one.
\<close>

theorem stream_delivers:
  assumes "stream_steps closedErr ms (NewRunStream bufSize cancelled p) = Some st"
  shows "prefix (got (rs_log st)) (rs_sent st) \<and> length (rs_sent st) \<le> length (got (rs_log st)) + bufSize \<and>
    (EndOfStream \<in> set (rs_log st) \<longrightarrow> got (rs_log st) = rs_sent st \<and> produces closedErr p (rs_sent st) (Return None)) \<and>
    (\<forall>x. Failed x \<in> set (rs_log st) \<and> x \<noteq> closedErr \<longrightarrow>
       got (rs_log st) = rs_sent st \<and> produces closedErr p (rs_sent st) (Return (Some x)))"
proof -
  have I: "stream_inv closedErr p st" by (rule stream_inv_steps [OF stream_inv_start assms])
  have "rs_bufSize st' = rs_bufSize st0" if "stream_step closedErr m st0 = Some st'" for m and st0 st' :: "('a, 'b) run_stream"
    using that by (cases m) (auto split: producer_phase.splits producer.splits if_splits list.splits)
  then have "rs_bufSize st = rs_bufSize st0" if "stream_steps closedErr ms st0 = Some st" for st0
    using that by (induction ms arbitrary: st0) (fastforce split: option.splits)+
  from this [OF assms] have n: "rs_bufSize st = bufSize" by (simp add: NewRunStream_def)
  have end_of: "produces closedErr p (rs_sent st) (Return (rs_err st))" if "rs_chClosed st"
    using I that by (auto simp: stream_inv_def)
  have ok: "answer_ok closedErr st r" if "r \<in> set (rs_log st)" for r
    using I that by (auto simp: stream_inv_def)
  show ?thesis
    using I n end_of ok [of EndOfStream] ok [of "Failed _"] by (fastforce simp: stream_inv_def)
qed

section \<open>The producer comes to its end\<close>

definition producer_moves :: "stream_move list" where
  "producer_moves = [Check, Deliver, HandOver, GiveUp, Finish, CloseDone]"

definition goes_on :: "(('e, 'x) producer \<times> ('e, 'x) producer) set" where
  "goes_on = {(p', p). \<exists>e k x. p = Send e k \<and> p' = k x}"

lemma wf_goes_on: "wf goes_on"
proof (rule wfUNIVI)
  fix P :: "('a, 'b) producer \<Rightarrow> bool" and p
  assume *: "\<forall>p. (\<forall>q. (q, p) \<in> goes_on \<longrightarrow> P q) \<longrightarrow> P p"
  show "P p"
  proof (induction p)
    case (Return x)
    have "\<forall>q. (q, Return x) \<in> goes_on \<longrightarrow> P q" by (auto simp: goes_on_def)
    then show ?case using * by blast
  next
    case (Send e k)
    have "\<forall>q. (q, Send e k) \<in> goes_on \<longrightarrow> P q" using Send by (auto simp: goes_on_def)
    then show ?case using * by blast
  qed
qed

lemma goes_on_Send [simp]: "(k x, Send e k) \<in> goes_on"
  by (auto simp: goes_on_def)

fun phase_rank :: "('e, 'x) producer_phase \<Rightarrow> nat" where
  "phase_rank (Running _) = 3"
| "phase_rank (Selecting _ _) = 2"
| "phase_rank Closing = 1"
| "phase_rank Finished = 0"

definition stream_rank :: "('e, 'x) run_stream \<Rightarrow> ('e, 'x) producer \<times> nat" where
  "stream_rank st = (rest_of (rs_phase st) (rs_err st), phase_rank (rs_phase st))"

lemma producer_move_decreases:
  assumes "stream_step closedErr m st = Some st'" "m \<in> set producer_moves"
  shows "(stream_rank st', stream_rank st) \<in> goes_on <*lex*> less_than"
  using assms
  by (cases m) (auto simp: producer_moves_def stream_rank_def split: producer_phase.splits producer.splits if_splits)

lemma no_endless_producer:
  fixes f :: "nat \<Rightarrow> ('e, 'x) run_stream"
  shows "\<not> (\<forall>i. \<exists>m\<in>set producer_moves. stream_step closedErr m (f i) = Some (f (Suc i)))"
proof
  assume *: "\<forall>i. \<exists>m\<in>set producer_moves. stream_step closedErr m (f i) = Some (f (Suc i))"
  have step: "(stream_rank (f (Suc i)), stream_rank (f i)) \<in> goes_on <*lex*> less_than" for i
  proof -
    obtain m where "m \<in> set producer_moves" "stream_step closedErr m (f i) = Some (f (Suc i))" using * by blast
    then show ?thesis by (rule producer_move_decreases [rotated])
  qed
  have "wf ((goes_on :: (('e, 'x) producer \<times> ('e, 'x) producer) set) <*lex*> less_than)"
    by (intro wf_lex_prod wf_goes_on wf_less_than)
  from wf_no_infinite_down_chainE [OF this, of "\<lambda>i. stream_rank (f i)"] step show False by blast
qed

lemma cancelled_step: "stream_step closedErr m st = Some st' \<Longrightarrow> rs_cancelled st \<Longrightarrow> rs_cancelled st'"
  by (cases m) (auto split: producer_phase.splits producer.splits if_splits list.splits)


text \<open>A producer of two events over a buffer of one.\<close>

definition two_events :: "(nat, nat) producer" where
  "two_events = Send 1 (\<lambda>r. case r of Some e \<Rightarrow> Return (Some e) | None \<Rightarrow> Send 2 (\<lambda>r. Return r))"

theorem stream_delivers_witness:
  "\<exists>st. stream_steps 9 [Check, Deliver, Recv, Take, Check, Recv, Deliver, Take, Finish, Recv, Ended]
       (NewRunStream 1 False two_events) = Some st \<and>
     EndOfStream \<in> set (rs_log st) \<and> got (rs_log st) = rs_sent st \<and> rs_sent st = [1, 2]"
proof -
  let ?r = "stream_steps 9 [Check, Deliver, Recv, Take, Check, Recv, Deliver, Take, Finish, Recv, Ended]
      (NewRunStream 1 False two_events)"
  have "case ?r of Some st \<Rightarrow> EndOfStream \<in> set (rs_log st) \<and> rs_sent st = [1, 2] | None \<Rightarrow> False" by code_simp
  then obtain st where st: "?r = Some st" "EndOfStream \<in> set (rs_log st)" "rs_sent st = [1, 2]"
    by (cases ?r) simp_all
  have "got (rs_log st) = rs_sent st" using stream_delivers [OF st(1)] st(2) by blast
  then show ?thesis using st by blast
qed


end
