(* ===== verification/Hooks.thy ===== *)
theory Hooks
  imports Prelude "HOL-Library.Multiset"
begin

text \<open>
  Delivery of events: the hook manager (\<open>hook/hook.go\<close>, \<open>hook/manager.go\<close>) and the merging of streams
  (\<open>MergeStreams\<close> of \<open>schema/stream.go\<close>).  What hooks do is foreign: a synchronous hook changes the world and may
  return an error, an asynchronous one has a channel of a capacity, and starting and stopping it may fail.
  The error of the context before the \<open>k\<close>-th hook is an argument.
\<close>

section \<open>Hooks\<close>

definition matches :: "string list \<Rightarrow> string \<Rightarrow> bool" where
  "matches flt eventType \<longleftrightarrow> (if length flt = 0 then True else eventType \<in> set flt)"

record ('w, 'e) hook =
  hk_OnEvent :: "'w \<Rightarrow> 'e \<Rightarrow> 'w \<times> gerror option"
  hk_Filter :: "string list"

definition NewHookFunc :: "('w \<Rightarrow> 'e \<Rightarrow> 'w \<times> gerror option) \<Rightarrow> string list \<Rightarrow> ('w, 'e) hook" where
  "NewHookFunc fn types = \<lparr>hk_OnEvent = fn, hk_Filter = types\<rparr>"

record 'e async_hook =
  ah_Filter :: "string list"
  ah_capacity :: nat
  ah_queue :: "'e list"

record ('w, 'e) hook_manager =
  hm_syncHooks :: "('w, 'e) hook list"
  hm_asyncHooks :: "'e async_hook list"

definition hm_NewManager :: "('w, 'e) hook_manager" where
  "hm_NewManager = \<lparr>hm_syncHooks = [], hm_asyncHooks = []\<rparr>"

definition hm_Register :: "('w, 'e) hook list \<Rightarrow> ('w, 'e) hook_manager \<Rightarrow> ('w, 'e) hook_manager" where
  "hm_Register hooks m = m\<lparr>hm_syncHooks := hm_syncHooks m @ hooks\<rparr>"

definition RegisterAsync :: "'e async_hook list \<Rightarrow> ('w, 'e) hook_manager \<Rightarrow> ('w, 'e) hook_manager" where
  "RegisterAsync hooks m = m\<lparr>hm_asyncHooks := hm_asyncHooks m @ hooks\<rparr>"

section \<open>Dispatch\<close>

text \<open>The flag says that the context was found cancelled, and \<open>Dispatch\<close> returns.\<close>

fun dispatch_sync ::
  "(nat \<Rightarrow> gerror option) \<Rightarrow> string \<Rightarrow> 'e \<Rightarrow> nat \<Rightarrow> ('w, 'e) hook list \<Rightarrow> 'w \<Rightarrow> 'w \<times> bool" where
  "dispatch_sync ctx eventType e k [] w = (w, False)"
| "dispatch_sync ctx eventType e k (h # hs) w =
     (if ctx k \<noteq> None then (w, True)
      else if \<not> matches (hk_Filter h) eventType then dispatch_sync ctx eventType e (Suc k) hs w
      else dispatch_sync ctx eventType e (Suc k) hs (fst (hk_OnEvent h w e)))"

definition offer :: "'e \<Rightarrow> 'e async_hook \<Rightarrow> 'e async_hook" where
  "offer e h = (if length (ah_queue h) < ah_capacity h then h\<lparr>ah_queue := ah_queue h @ [e]\<rparr> else h)"

fun dispatch_async ::
  "(nat \<Rightarrow> gerror option) \<Rightarrow> string \<Rightarrow> 'e \<Rightarrow> nat \<Rightarrow> 'e async_hook list \<Rightarrow> 'e async_hook list" where
  "dispatch_async ctx eventType e k [] = []"
| "dispatch_async ctx eventType e k (h # hs) =
     (if ctx k \<noteq> None then h # hs
      else (if matches (ah_Filter h) eventType then offer e h else h) # dispatch_async ctx eventType e (Suc k) hs)"

definition hm_Dispatch ::
  "(nat \<Rightarrow> gerror option) \<Rightarrow> string \<Rightarrow> 'e \<Rightarrow> ('w, 'e) hook_manager option \<Rightarrow> 'w \<Rightarrow>
     'w \<times> ('w, 'e) hook_manager option" where
  "hm_Dispatch ctx eventType e m w =
     (case m of
        None \<Rightarrow> (w, None)
      | Some m \<Rightarrow>
          (case dispatch_sync ctx eventType e 0 (hm_syncHooks m) w of
             (w', True) \<Rightarrow> (w', Some m)
           | (w', False) \<Rightarrow>
               (w', Some (m\<lparr>hm_asyncHooks :=
                 dispatch_async ctx eventType e (length (hm_syncHooks m)) (hm_asyncHooks m)\<rparr>))))"

text \<open>With a live context the matching hooks see the event in the order of registration, each once, whatever errors
  they return, and a full channel drops it.\<close>

lemma dispatch_sync_all:
  "dispatch_sync (\<lambda>_. None) eventType e k hs w =
     (fold (\<lambda>h w. fst (hk_OnEvent h w e)) (filter (\<lambda>h. matches (hk_Filter h) eventType) hs) w, False)"
  by (induction hs arbitrary: k w) simp_all

lemma dispatch_async_all:
  "dispatch_async (\<lambda>_. None) eventType e k hs = map (\<lambda>h. if matches (ah_Filter h) eventType then offer e h else h) hs"
  by (induction hs arbitrary: k) simp_all

lemma Dispatch_live:
  "hm_Dispatch (\<lambda>_. None) eventType e (Some m) w =
     (fold (\<lambda>h w. fst (hk_OnEvent h w e)) (filter (\<lambda>h. matches (hk_Filter h) eventType) (hm_syncHooks m)) w,
      Some (m\<lparr>hm_asyncHooks := map (\<lambda>h. if matches (ah_Filter h) eventType then offer e h else h) (hm_asyncHooks m)\<rparr>))"
  by (simp add: hm_Dispatch_def dispatch_sync_all dispatch_async_all)

text \<open>The channels keep within their capacity, whatever is dispatched.\<close>

definition queues_fit :: "'e async_hook list \<Rightarrow> bool" where
  "queues_fit hs \<longleftrightarrow> (\<forall>h\<in>set hs. length (ah_queue h) \<le> ah_capacity h)"

lemma dispatch_async_fit: "queues_fit hs \<Longrightarrow> queues_fit (dispatch_async ctx eventType e k hs)"
  by (induction hs arbitrary: k) (auto simp: queues_fit_def offer_def)

section \<open>Starting and stopping\<close>

datatype hook_call = StartHook nat | StopHook nat

text \<open>The calls made and the error; \<open>outcome i\<close> is what \<open>Start\<close> of hook \<open>i\<close> returns.\<close>

fun start_loop :: "(nat \<Rightarrow> gerror option) \<Rightarrow> nat \<Rightarrow> nat \<Rightarrow> hook_call list \<times> gerror option" where
  "start_loop outcome i 0 = ([], None)"
| "start_loop outcome i (Suc n) =
     (case outcome i of
        Some err \<Rightarrow> (StartHook i # map StopHook (rev [0..<i]), Some err)
      | None \<Rightarrow> apfst (Cons (StartHook i)) (start_loop outcome (Suc i) n))"

definition hm_Start :: "(nat \<Rightarrow> gerror option) \<Rightarrow> ('w, 'e) hook_manager \<Rightarrow> hook_call list \<times> gerror option" where
  "hm_Start outcome m = start_loop outcome 0 (length (hm_asyncHooks m))"

definition hm_Stop :: "(nat \<Rightarrow> gerror option) \<Rightarrow> ('w, 'e) hook_manager \<Rightarrow> hook_call list \<times> gerror list" where
  "hm_Stop outcome m =
     (let n = length (hm_asyncHooks m)
      in (map StopHook [0..<n], List.map_filter outcome [0..<n]))"

text \<open>A failed start stops what it has started, in reverse order.\<close>

lemma start_loop_calls:
  "start_loop outcome i n = (calls, err) \<Longrightarrow>
     (case err of
        None \<Rightarrow> calls = map StartHook [i..<i + n] \<and> (\<forall>j\<in>{i..<i + n}. outcome j = None)
      | Some e \<Rightarrow> \<exists>j. i \<le> j \<and> j < i + n \<and> outcome j = Some e \<and>
          calls = map StartHook [i..<Suc j] @ map StopHook (rev [0..<j]))"
proof (induction n arbitrary: i calls)
  case (Suc n)
  show ?case
  proof (cases "outcome i")
    case (Some e)
    then have "err = Some e" "calls = map StartHook [i..<Suc i] @ map StopHook (rev [0..<i])" using Suc.prems by auto
    moreover have "i \<le> i \<and> i < i + Suc n" by simp
    ultimately show ?thesis using Some unfolding \<open>err = Some e\<close> option.case by blast
  next
    case None
    then obtain cs where cs: "start_loop outcome (Suc i) n = (cs, err)" "calls = StartHook i # cs"
      using Suc.prems by (cases "start_loop outcome (Suc i) n") auto
    from Suc.IH [OF cs(1)] show ?thesis
    proof (cases err)
      case None
      then show ?thesis using Suc.IH [OF cs(1)] cs(2) \<open>outcome i = None\<close>
        by (auto simp: upt_conv_Cons le_less_Suc_eq Suc_le_eq dest: le_neq_implies_less)
    next
      case (Some e)
      then obtain j where j: "Suc i \<le> j" "j < Suc i + n" "outcome j = Some e"
          "cs = map StartHook [Suc i..<Suc j] @ map StopHook (rev [0..<j])"
        using Suc.IH [OF cs(1)] by auto
      have "[i..<Suc j] = i # [Suc i..<Suc j]" using j(1) by (intro upt_conv_Cons) simp
      then have "calls = map StartHook [i..<Suc j] @ map StopHook (rev [0..<j])" using cs(2) j(4) by simp
      moreover have "i \<le> j \<and> j < i + Suc n" using j(1,2) by simp
      ultimately show ?thesis using j(3) unfolding Some option.case by blast
    qed
  qed
qed simp

lemma failed_start_stops:
  assumes "hm_Start outcome m = (calls, Some e)"
  shows "\<exists>j. outcome j = Some e \<and> j < length (hm_asyncHooks m) \<and>
    calls = map StartHook [0..<Suc j] @ map StopHook (rev [0..<j])"
  using start_loop_calls [OF assms [unfolded hm_Start_def]] by auto

section \<open>Merging streams\<close>

text \<open>
  One goroutine per source: \<open>None\<close> when it has returned, else the events its source still yields and the error at its
  end, if any.  \<open>Refused\<close> is an event whose \<open>send\<close> fails, and is lost; \<open>Quit\<close> is a goroutine that finds the context
  done.  Forwarded events carry the number of their source.
\<close>

record ('e, 'x) merge_state =
  mg_sources :: "('e list \<times> 'x option) option list"
  mg_out :: "(nat \<times> 'e) list"
  mg_errs :: "'x list"

datatype merge_move = Forward nat | Refused nat | Quit nat | SourceEnd nat

definition MergeStreams :: "('e list \<times> 'x option) list \<Rightarrow> ('e, 'x) merge_state" where
  "MergeStreams streams = \<lparr>mg_sources = map Some streams, mg_out = [], mg_errs = []\<rparr>"

definition source_at :: "nat \<Rightarrow> ('e, 'x) merge_state \<Rightarrow> ('e list \<times> 'x option) option" where
  "source_at i st = (if i < length (mg_sources st) then mg_sources st ! i else None)"

fun merge_step :: "merge_move \<Rightarrow> ('e, 'x) merge_state \<Rightarrow> ('e, 'x) merge_state option" where
  "merge_step (Forward i) st =
     (case source_at i st of
        Some (e # es, x) \<Rightarrow>
          Some (st\<lparr>mg_sources := (mg_sources st)[i := Some (es, x)], mg_out := mg_out st @ [(i, e)]\<rparr>)
      | _ \<Rightarrow> None)"
| "merge_step (Refused i) st =
     (case source_at i st of
        Some (e # es, x) \<Rightarrow> Some (st\<lparr>mg_sources := (mg_sources st)[i := None]\<rparr>)
      | _ \<Rightarrow> None)"
| "merge_step (Quit i) st =
     (case source_at i st of
        Some _ \<Rightarrow> Some (st\<lparr>mg_sources := (mg_sources st)[i := None]\<rparr>)
      | None \<Rightarrow> None)"
| "merge_step (SourceEnd i) st =
     (case source_at i st of
        Some ([], x) \<Rightarrow>
          Some (st\<lparr>mg_sources := (mg_sources st)[i := None],
            mg_errs := (case x of Some err \<Rightarrow> mg_errs st @ [err] | None \<Rightarrow> mg_errs st)\<rparr>)
      | _ \<Rightarrow> None)"

definition merge_waits :: "('e, 'x) merge_state \<Rightarrow> bool" where
  "merge_waits st \<longleftrightarrow> (\<exists>s\<in>set (mg_sources st). s \<noteq> None)"

definition merge_result :: "('e, 'x) merge_state \<Rightarrow> 'x list option" where
  "merge_result st = (if length (mg_errs st) > 0 then Some (mg_errs st) else None)"

definition from_source :: "nat \<Rightarrow> ('e, 'x) merge_state \<Rightarrow> 'e list" where
  "from_source i st = map snd (filter (\<lambda>p. fst p = i) (mg_out st))"

text \<open>Every source is forwarded in its own order, and nothing else is.\<close>

definition merge_inv :: "('e list \<times> 'x option) list \<Rightarrow> ('e, 'x) merge_state \<Rightarrow> bool" where
  "merge_inv streams st \<longleftrightarrow> length (mg_sources st) = length streams \<and>
     (\<forall>p\<in>set (mg_out st). fst p < length streams) \<and>
     (\<forall>i<length streams. \<exists>rest. fst (streams ! i) = from_source i st @ rest \<and>
        (\<forall>es x. mg_sources st ! i = Some (es, x) \<longrightarrow> es = rest \<and> x = snd (streams ! i)))"

lemma merge_inv_start: "merge_inv streams (MergeStreams streams)"
  by (auto simp: merge_inv_def MergeStreams_def from_source_def)

lemma merge_inv_step:
  assumes "merge_inv streams st" "merge_step m st = Some st'"
  shows "merge_inv streams st'"
  using assms
  by (cases m)
    (fastforce simp: merge_inv_def source_at_def from_source_def nth_list_update split: option.splits list.splits if_splits)+

end
