(* ===== verification/Router.thy ===== *)
theory Router
  imports AgentStream Streams Hooks
begin

text \<open>
  Router agents (\<open>agent/routeragent\<close>) and the helpers for all agents (\<open>agent/agent.go\<close>).  An agent is an identifier
  and what its \<open>Run\<close> does to the world; it may return no response.  \<open>rand.Intn\<close>, the error of the context and the
  duration are arguments.
\<close>

section \<open>Agents\<close>

record 'w any_agent =
  aa_ID :: string
  aa_Run :: "'w \<Rightarrow> request \<Rightarrow> 'w \<times> response option res"

definition text_request :: "int \<Rightarrow> string \<Rightarrow> request" where
  "text_request t input =
     \<lparr>rq_Messages = [NewUserMessage t input], rq_SessionID = [], rq_Options = None, rq_Metadata = Map.empty\<rparr>"

definition RunText :: "'w any_agent \<Rightarrow> int \<Rightarrow> string \<Rightarrow> 'w \<Rightarrow> 'w \<times> response option res" where
  "RunText a t input w = aa_Run a w (text_request t input)"

text \<open>A run as a stream of two events; \<open>RunToStream\<close> is its producer.  A missing response makes it panic (\<open>None\<close>).\<close>

definition RunToStream ::
  "'w any_agent \<Rightarrow> request \<Rightarrow> (agent_event \<Rightarrow> 'w \<Rightarrow> 'w \<times> gerror option) \<Rightarrow> 'w \<Rightarrow> ('w \<times> gerror option) option" where
  "RunToStream a req send w =
     (case send AgentStart w of
        (w1, Some err) \<Rightarrow> Some (w1, Some err)
      | (w1, None) \<Rightarrow>
          (case aa_Run a w1 req of
             (w2, Inl err) \<Rightarrow> Some (w2, Some err)
           | (w2, Inr None) \<Rightarrow> None
           | (w2, Inr (Some resp)) \<Rightarrow>
               Some (send (AgentEnd (first_text (rs_Messages resp)) StopReasonNone) w2)))"

section \<open>Routes\<close>

record 'w route =
  rt_Agent :: "'w any_agent option"
  rt_Description :: string

record 'w route_result =
  rr_Agent :: "'w any_agent option"
  rr_Usage :: "usage option"

type_synonym 'w route_func = "'w \<Rightarrow> request option \<Rightarrow> 'w route list \<Rightarrow> 'w \<times> 'w route_result option res"

record 'w router =
  ro_routes :: "'w route list"
  ro_routeFunc :: "'w route_func option"

definition WithFunc :: "'w route_func \<Rightarrow> 'w router \<Rightarrow> 'w router" where
  "WithFunc fn a = a\<lparr>ro_routeFunc := Some fn\<rparr>"

text \<open>\<open>None\<close> is the panic for a route without an agent.\<close>

definition ro_New :: "'w route list \<Rightarrow> ('w router \<Rightarrow> 'w router) list \<Rightarrow> 'w router option" where
  "ro_New routes opts =
     (if list_ex (\<lambda>r. rt_Agent r = None) routes then None
      else Some (fold (\<lambda>opt a. opt a) opts \<lparr>ro_routes = routes, ro_routeFunc = None\<rparr>))"

definition no_routes :: gerror where
  "no_routes = Errorf ''routeragent: no routes available'' [] None"

definition route_to :: "'w route list \<Rightarrow> nat \<Rightarrow> usage option \<Rightarrow> 'w route_result option res" where
  "route_to routes i u = Inr (Some \<lparr>rr_Agent = rt_Agent (routes ! i), rr_Usage = u\<rparr>)"

definition FirstFunc :: "'w route_func" where
  "FirstFunc w req routes = (w, if length routes = 0 then Inl no_routes else route_to routes 0 None)"

definition IndexFunc :: "int \<Rightarrow> 'w route_func" where
  "IndexFunc i w req routes =
     (w, if i < 0 \<or> i \<ge> int (length routes)
         then Inl (Errorf ''routeragent: index %d out of range [0, %d)'' [AInt i, AInt (int (length routes))] None)
         else route_to routes (nat i) None)"

definition lastUserMessageText :: "request option \<Rightarrow> string" where
  "lastUserMessageText req =
     (case req of
        None \<Rightarrow> []
      | Some q \<Rightarrow> if length (rq_Messages q) = 0 then [] else am_Text (m_ai (last (rq_Messages q))))"

definition fallback_or :: "int \<Rightarrow> 'w route list \<Rightarrow> usage option \<Rightarrow> gerror \<Rightarrow> 'w route_result option res" where
  "fallback_or fallback routes u e =
     (if fallback \<ge> 0 \<and> fallback < int (length routes) then route_to routes (nat fallback) u else Inl e)"

definition KeywordFunc :: "int \<Rightarrow> 'w route_func" where
  "KeywordFunc fallback w req routes =
     (w, if length routes = 0 then Inl no_routes
         else
           (let text = lastUserMessageText req; lower = to_lower text in
            case find (\<lambda>r. rt_Description r \<noteq> [] \<and> contains lower (to_lower (rt_Description r))) routes of
              Some r \<Rightarrow> Inr (Some \<lparr>rr_Agent = rt_Agent r, rr_Usage = None\<rparr>)
            | None \<Rightarrow> fallback_or fallback routes None
                (Errorf ''routeragent: no route matched keyword in %q'' [AStr text] None)))"

definition RandomFunc :: "(nat \<Rightarrow> nat) \<Rightarrow> 'w route_func" where
  "RandomFunc intn w req routes =
     (w, if length routes = 0 then Inl no_routes else route_to routes (intn (length routes)) None)"

section \<open>Routing by a model\<close>

text \<open>\<open>strconv.Atoi\<close>: an optional sign and decimal digits, within 64 bits.\<close>

definition is_digit :: "char \<Rightarrow> bool" where
  "is_digit c \<longleftrightarrow> 48 \<le> (of_char c :: nat) \<and> (of_char c :: nat) \<le> 57"

definition digits_value :: "string \<Rightarrow> int" where
  "digits_value s = fold (\<lambda>c n. 10 * n + (int (of_char c) - 48)) s 0"

definition Atoi :: "string \<Rightarrow> int option" where
  "Atoi s =
     (let neg = (case s of c # _ \<Rightarrow> c = CHR ''-'' | [] \<Rightarrow> False);
          ds = (case s of c # cs \<Rightarrow> if c = CHR ''-'' \<or> c = CHR ''+'' then cs else s | [] \<Rightarrow> []);
          v = (if neg then - digits_value ds else digits_value ds)
      in if ds = [] \<or> \<not> list_all is_digit ds \<or> v < - (2 ^ 63) \<or> v \<ge> 2 ^ 63 then None else Some v)"

definition routes_text :: "'w route list \<Rightarrow> string" where
  "routes_text routes =
     concat (map (\<lambda>i. itoa (int i) @ '': '' @ rt_Description (routes ! i) @ [CHR 0x0A]) [0..<length routes])"

definition routing_prompt :: "'w route list \<Rightarrow> string" where
  "routing_prompt routes =
     ''You are a routing agent. Based on the user'' @ [CHR 0x27] @
     ''s message, select the most appropriate agent to handle the request.'' @ [CHR 0x0A, CHR 0x0A] @
     ''Available agents:'' @ [CHR 0x0A] @ routes_text routes @ [CHR 0x0A] @
     ''Respond with ONLY the index number of the selected agent. No other text.''"

definition routing_request :: "string \<Rightarrow> string \<Rightarrow> string \<Rightarrow> 'p llm_request" where
  "routing_request model prompt userText =
     \<lparr>cr_Model = model, cr_Messages = [text_message RoleSystem prompt, text_message RoleUser userText], cr_Tools = [],
      cr_Temperature = None, cr_MaxTokens = None, cr_TopP = None, cr_N = None, cr_Stop = [],
      cr_FrequencyPenalty = None, cr_PresencePenalty = None, cr_Seed = None, cr_ResponseFormat = (),
      cr_ToolChoice = (), cr_Stream = False\<rparr>"

definition parsed_index :: "string \<Rightarrow> 'w route list \<Rightarrow> nat res" where
  "parsed_index reply routes =
     (let text = trim_space reply in
      case Atoi text of
        None \<Rightarrow> Inl (Errorf ''routeragent: LLM returned non-numeric response %q'' [AStr text] None)
      | Some idx \<Rightarrow>
          if idx < 0 \<or> idx \<ge> int (length routes)
          then Inl (Errorf ''routeragent: LLM returned index %d out of range [0, %d)'' [AInt idx, AInt (int (length routes))] None)
          else Inr (nat idx))"

definition LLMFunc :: "('w, 'p llm_request, chat_response) completer \<Rightarrow> string \<Rightarrow> int \<Rightarrow> 'w route_func" where
  "LLMFunc cc model fallback w req routes =
     (if length routes = 0 then (w, Inl no_routes)
      else
        (case cc w (routing_request model (routing_prompt routes) (lastUserMessageText req)) of
           (w', Inl err) \<Rightarrow>
             (w', fallback_or fallback routes None (Errorf ''routeragent: LLM routing: %w'' [] (Some err)))
         | (w', Inr resp) \<Rightarrow>
             (w', case cp_Choices resp of
                    [] \<Rightarrow> fallback_or fallback routes (Some (cp_Usage resp))
                      (Errorf ''routeragent: LLM returned empty choices'' [] None)
                  | choice # _ \<Rightarrow>
                      (case parsed_index (am_Text (ch_Message choice)) routes of
                         Inl e \<Rightarrow> fallback_or fallback routes (Some (cp_Usage resp)) e
                       | Inr i \<Rightarrow> route_to routes i (Some (cp_Usage resp))))))"

section \<open>Running a router\<close>

definition ro_Run ::
  "'w router \<Rightarrow> (usage \<Rightarrow> usage \<Rightarrow> usage) \<Rightarrow> gerror option \<Rightarrow> int \<Rightarrow> request \<Rightarrow> 'w \<Rightarrow> 'w \<times> response option res" where
  "ro_Run a add ctx duration req w =
     (if length (ro_routes a) = 0 then (w, Inl (Errorf ''routeragent: no routes configured'' [] None))
      else
        (case ro_routeFunc a of
           None \<Rightarrow> (w, Inl (Errorf ''routeragent: no routing function'' [] None))
         | Some fn \<Rightarrow>
             (case ctx of
                Some err \<Rightarrow> (w, Inl err)
              | None \<Rightarrow>
                  (case fn w (Some req) (ro_routes a) of
                     (w1, Inl err) \<Rightarrow> (w1, Inl (Errorf ''routeragent: route select: %w'' [] (Some err)))
                   | (w1, Inr r) \<Rightarrow>
                       (case Option.bind r (\<lambda>res. map_option (Pair res) (rr_Agent res)) of
                          None \<Rightarrow> (w1, Inl (Errorf ''routeragent: route select returned nil agent'' [] None))
                        | Some (result, agent) \<Rightarrow>
                            (case aa_Run agent w1 req of
                               (w2, Inl err) \<Rightarrow> (w2, Inl err)
                             | (w2, Inr None) \<Rightarrow>
                                 (w2, Inl (Errorf ''routeragent: nil response from agent %s'' [AStr (aa_ID agent)] None))
                             | (w2, Inr (Some resp)) \<Rightarrow>
                                 (w2, Inr (Some (resp
                                   \<lparr>rs_Usage := (case rr_Usage result of
                                        None \<Rightarrow> rs_Usage resp
                                      | Some u \<Rightarrow> Some (case rs_Usage resp of
                                            Some v \<Rightarrow> add (add usage_zero u) v
                                          | None \<Rightarrow> add usage_zero u)),
                                    rs_SessionID := rq_SessionID req, rs_Duration := duration\<rparr>)))))))))"

section \<open>Properties\<close>

text \<open>The keyword function takes the first route that matches.\<close>

lemma KeywordFunc_first:
  assumes "i < length routes" "rt_Description (routes ! i) \<noteq> []"
    "sublist (to_lower (rt_Description (routes ! i))) (to_lower (lastUserMessageText req))"
    "\<And>j. j < i \<Longrightarrow> rt_Description (routes ! j) = [] \<or>
       \<not> sublist (to_lower (rt_Description (routes ! j))) (to_lower (lastUserMessageText req))"
  shows "KeywordFunc fallback w req routes = (w, Inr (Some \<lparr>rr_Agent = rt_Agent (routes ! i), rr_Usage = None\<rparr>))"
proof -
  let ?P = "\<lambda>r. rt_Description r \<noteq> [] \<and> contains (to_lower (lastUserMessageText req)) (to_lower (rt_Description r))"
  have "find ?P routes = Some (routes ! i)"
    using assms by (auto simp: find_Some_iff contains_iff intro!: exI [of _ i])
  then show ?thesis using assms(1) by (auto simp: KeywordFunc_def Let_def)
qed

text \<open>The route a model chose: the index it answered, if that is one, else the fallback.\<close>

definition chosen_route :: "chat_response res \<Rightarrow> 'w route list \<Rightarrow> int \<Rightarrow> nat" where
  "chosen_route r routes fallback =
     (case r of
        Inl _ \<Rightarrow> nat fallback
      | Inr resp \<Rightarrow>
          (case cp_Choices resp of
             [] \<Rightarrow> nat fallback
           | choice # _ \<Rightarrow>
               (case parsed_index (am_Text (ch_Message choice)) routes of Inl _ \<Rightarrow> nat fallback | Inr i \<Rightarrow> i)))"

definition routing_usage :: "chat_response res \<Rightarrow> usage option" where
  "routing_usage r = (case r of Inl _ \<Rightarrow> None | Inr resp \<Rightarrow> Some (cp_Usage resp))"

lemma parsed_index_less: "parsed_index reply routes = Inr i \<Longrightarrow> i < length routes"
  by (auto simp: parsed_index_def Let_def nat_less_iff split: option.splits if_splits)

lemma LLMFunc_fallback:
  assumes "0 \<le> fallback" "fallback < int (length routes)"
    "cc w (routing_request model (routing_prompt routes) (lastUserMessageText req)) = (w1, r)"
  shows "LLMFunc cc model fallback w req routes = (w1, route_to routes (chosen_route r routes fallback) (routing_usage r))"
    and "chosen_route r routes fallback < length routes"
  using assms parsed_index_less
  by (auto simp: LLMFunc_def chosen_route_def routing_usage_def fallback_or_def nat_less_iff
      split: sum.splits list.splits)

text \<open>
  C25: a router with a fallback answers as the agent it chose.  With a model for routing and a fallback index within the
  routes, the router never fails on its own: it runs the agent whose index the model answered, or the
  fallback if the call failed or the answer is not the index of a route, in the world the model left; it
  passes an error of that agent on, and otherwise returns its messages with the session of the request,
  and with the tokens of the routing added to the usage.
\<close>

theorem router_with_fallback:
  assumes "ro_New routes [WithFunc (LLMFunc cc model fallback)] = Some a" "0 \<le> fallback" "fallback < int (length routes)"
    and "cc w (routing_request model (routing_prompt routes) (lastUserMessageText (Some req))) = (w1, r)"
  shows "\<exists>agent. rt_Agent (routes ! chosen_route r routes fallback) = Some agent \<and>
    chosen_route r routes fallback < length routes \<and>
    (case (aa_Run agent w1 req, ro_Run a add None duration req w) of
       ((w2, Inl e), (w', Inl e')) \<Rightarrow> w' = w2 \<and> e' = e
     | ((w2, Inr None), (w', Inl e')) \<Rightarrow> w' = w2
     | ((w2, Inr (Some resp)), (w', Inr (Some resp'))) \<Rightarrow>
         w' = w2 \<and> rs_Messages resp' = rs_Messages resp \<and> rs_SessionID resp' = rq_SessionID req \<and>
         rs_Usage resp' = (case (routing_usage r, rs_Usage resp) of
           (None, v) \<Rightarrow> v
         | (Some u, None) \<Rightarrow> Some (add usage_zero u)
         | (Some u, Some v) \<Rightarrow> Some (add (add usage_zero u) v))
     | _ \<Rightarrow> False)"
proof -
  let ?i = "chosen_route r routes fallback"
  have a: "a = \<lparr>ro_routes = routes, ro_routeFunc = Some (LLMFunc cc model fallback)\<rparr>"
    and ag: "\<forall>r\<in>set routes. rt_Agent r \<noteq> None"
    using assms(1) by (auto simp: ro_New_def WithFunc_def list_ex_iff split: if_splits)
  note L = LLMFunc_fallback [of fallback routes cc w model "Some req" w1 r, OF assms(2-4)]
  obtain agent where agent: "rt_Agent (routes ! ?i) = Some agent" using ag L(2) nth_mem by blast
  have "routes \<noteq> []" using L(2) by auto
  then have run: "ro_Run a add None duration req w =
      (case aa_Run agent w1 req of
         (w2, Inl err) \<Rightarrow> (w2, Inl err)
       | (w2, Inr None) \<Rightarrow>
           (w2, Inl (Errorf ''routeragent: nil response from agent %s'' [AStr (aa_ID agent)] None))
       | (w2, Inr (Some resp)) \<Rightarrow>
           (w2, Inr (Some (resp
             \<lparr>rs_Usage := (case routing_usage r of
                  None \<Rightarrow> rs_Usage resp
                | Some u \<Rightarrow> Some (case rs_Usage resp of
                      Some v \<Rightarrow> add (add usage_zero u) v
                    | None \<Rightarrow> add usage_zero u)),
              rs_SessionID := rq_SessionID req, rs_Duration := duration\<rparr>))))"
    using L(1) agent by (simp add: a ro_Run_def route_to_def)
  show ?thesis
    using agent L(2) unfolding run by (auto split: prod.split sum.split option.split)
qed

text \<open>Two agents, and a model that answers \<open>" 1 "\<close>.\<close>

definition echo_agent :: "string \<Rightarrow> nat any_agent" where
  "echo_agent i = \<lparr>aa_ID = i, aa_Run = (\<lambda>w q. (w + 10, Inr (Some (response_zero\<lparr>rs_Messages := [NewUserMessage 0 i]\<rparr>))))\<rparr>"

definition two_routes :: "nat route list" where
  "two_routes = [\<lparr>rt_Agent = Some (echo_agent ''x''), rt_Description = ''first''\<rparr>,
     \<lparr>rt_Agent = Some (echo_agent ''y''), rt_Description = ''second''\<rparr>]"

definition routing_answer :: chat_response where
  "routing_answer = \<lparr>cp_Choices = [\<lparr>ch_Message = text_message RoleAssistant '' 1 '', ch_FinishReason = FinishReason ''stop''\<rparr>],
     cp_Usage = demo_usage\<rparr>"

definition routing_model :: "(nat, unit llm_request, chat_response) completer" where
  "routing_model w q = (Suc w, Inr routing_answer)"

theorem router_with_fallback_witness:
  "\<exists>a w' resp. ro_New two_routes [WithFunc (LLMFunc routing_model ''m'' 0)] = Some a \<and>
     ro_Run a usage_plus None 3 demo_request 0 = (w', Inr (Some resp)) \<and>
     w' = 11 \<and> rs_Messages resp = [NewUserMessage 0 ''y''] \<and> rs_SessionID resp = ''s'' \<and>
     rs_Usage resp = Some (usage_plus usage_zero demo_usage)"
proof -
  obtain a where a: "ro_New two_routes [WithFunc (LLMFunc routing_model ''m'' 0)] = Some a"
    by (simp add: ro_New_def two_routes_def)
  have i: "chosen_route (Inr routing_answer) two_routes 0 = 1" by code_simp
  have r: "routing_model 0 (routing_request ''m'' (routing_prompt two_routes) (lastUserMessageText (Some demo_request))) =
      (1, Inr routing_answer)"
    by (simp add: routing_model_def)
  obtain agent where agent: "rt_Agent (two_routes ! 1) = Some agent" "agent = echo_agent ''y''" by (simp add: two_routes_def)
  have "rq_SessionID demo_request = ''s''" by (simp add: demo_request_def)
  then show ?thesis
    using router_with_fallback [OF a _ _ r, of usage_plus 3] a agent i
    by (auto simp: two_routes_def echo_agent_def routing_usage_def routing_answer_def response_zero_def
      split: prod.splits sum.splits option.splits)
qed

end
