(* ===== verification/Patterns.thy ===== *)
theory Patterns
  imports Guard
begin

text \<open>
  The default patterns of package \<open>guard\<close> (\<open>injection.go\<close>, \<open>pii.go\<close>) and the part of Go's package \<open>regexp\<close> that they use.
  A pattern is a sequence of atoms: one character of a class, any number of them, or one of some texts.  All
  classes are of ASCII characters, so bytes stand for them; under the flag \<open>(?i)\<close> the letters \<open>k\<close> and \<open>s\<close>
  also match the Kelvin sign and the long s.
\<close>

section \<open>Matching\<close>

datatype atom = One "char \<Rightarrow> bool" | Many "char \<Rightarrow> bool" | Alts "string list"

type_synonym regexp = "atom list"

text \<open>What remains of a text after an atom, the preferred match first: repetition is greedy.\<close>

fun rests :: "atom \<Rightarrow> string \<Rightarrow> string list" where
  "rests (One P) [] = []"
| "rests (One P) (c # s) = (if P c then [s] else [])"
| "rests (Many P) [] = [[]]"
| "rests (Many P) (c # s) = (if P c then rests (Many P) s @ [c # s] else [c # s])"
| "rests (Alts ws) s = map (\<lambda>w. drop (length w) s) (filter (has_prefix s) ws)"

fun match_rests :: "regexp \<Rightarrow> string \<Rightarrow> string list" where
  "match_rests [] s = [s]"
| "match_rests (a # r) s = concat (map (match_rests r) (rests a s))"

fun match_string :: "regexp \<Rightarrow> string \<Rightarrow> bool" where
  "match_string r [] \<longleftrightarrow> match_rests r [] \<noteq> []"
| "match_string r (c # s) \<longleftrightarrow> match_rests r (c # s) \<noteq> [] \<or> match_string r s"

text \<open>\<open>ReplaceAllString\<close> for patterns that do not match the empty text and replacements without a dollar sign.\<close>

function replace_all :: "regexp \<Rightarrow> string \<Rightarrow> string \<Rightarrow> string" where
  "replace_all r repl [] = []"
| "replace_all r repl (c # s) =
     (case match_rests r (c # s) of
        [] \<Rightarrow> c # replace_all r repl s
      | t # _ \<Rightarrow> if length t \<le> length s then repl @ replace_all r repl t else c # replace_all r repl s)"
  by pat_completeness auto
termination
  by (relation "measure (\<lambda>(r, repl, s). length s)") auto

definition regexp_rule :: "string \<Rightarrow> regexp \<Rightarrow> pattern_rule" where
  "regexp_rule name r =
     \<lparr>pr_Name = name, MatchString = match_string r, ReplaceAllString = (\<lambda>s repl. replace_all r repl s)\<rparr>"

section \<open>The default patterns\<close>

definition is_digit :: "char \<Rightarrow> bool" where
  "is_digit c \<longleftrightarrow> byte_in 48 57 c"

definition is_letter :: "char \<Rightarrow> bool" where
  "is_letter c \<longleftrightarrow> byte_in 65 90 c \<or> byte_in 97 122 c"

definition plus :: "(char \<Rightarrow> bool) \<Rightarrow> regexp" where
  "plus P = [One P, Many P]"

definition email_pattern :: regexp where
  "email_pattern =
     plus (\<lambda>c. is_letter c \<or> is_digit c \<or> c \<in> set ''._%+-'') @ [One (\<lambda>c. c = CHR ''@'')] @
     plus (\<lambda>c. is_letter c \<or> is_digit c \<or> c \<in> set ''.-'') @ [One (\<lambda>c. c = CHR ''.'')] @
     [One is_letter, One is_letter, Many is_letter]"

definition phone_pattern :: regexp where
  "phone_pattern = [One (\<lambda>c. c = CHR ''1''), One (byte_in 51 57)] @ replicate 9 (One is_digit)"

definition id_card_pattern :: regexp where
  "id_card_pattern = replicate 17 (One is_digit) @ [One (\<lambda>c. is_digit c \<or> c = CHR ''X'' \<or> c = CHR ''x'')]"

definition pii_patterns_default :: "(string \<times> regexp) list" where
  "pii_patterns_default =
     [(''email'', email_pattern), (''phone'', phone_pattern), (''id_card'', id_card_pattern)]"

definition DefaultPIIPatterns :: "pattern_rule list" where
  "DefaultPIIPatterns = map (\<lambda>(n, r). regexp_rule n r) pii_patterns_default"

text \<open>A lower-case letter under \<open>(?i)\<close>.\<close>

definition fold_char :: "char \<Rightarrow> atom" where
  "fold_char c = Alts ([[c], [char_of (of_char c - 32 :: nat)]] @
     (if c = CHR ''k'' then [[CHR 0xE2, CHR 0x84, CHR 0xAA]] else []) @
     (if c = CHR ''s'' then [[CHR 0xC5, CHR 0xBF]] else []))"

definition fold_word :: "string \<Rightarrow> regexp" where
  "fold_word w = map fold_char w"

definition blanks :: regexp where
  "blanks = plus (\<lambda>c. c = CHR '' '' \<or> byte_in 9 10 c \<or> byte_in 12 13 c)"

definition DefaultInjectionPatterns :: "pattern_rule list" where
  "DefaultInjectionPatterns =
     [regexp_rule ''ignore_instructions'' (fold_word ''ignore'' @ blanks @ fold_word ''previous'' @ blanks @ fold_word ''instructions''),
      regexp_rule ''role_hijack'' (fold_word ''you'' @ blanks @ fold_word ''are'' @ blanks @ fold_word ''now''),
      regexp_rule ''disregard'' (fold_word ''disregard'' @ blanks @ fold_word ''all''),
      regexp_rule ''system_prompt'' (fold_word ''system'' @ blanks @ fold_word ''prompt''),
      regexp_rule ''jailbreak'' (fold_word ''jailbreak'')]"

section \<open>What a pattern matches\<close>

fun atom_match :: "atom \<Rightarrow> string \<Rightarrow> bool" where
  "atom_match (One P) v \<longleftrightarrow> (\<exists>c. v = [c] \<and> P c)"
| "atom_match (Many P) v \<longleftrightarrow> list_all P v"
| "atom_match (Alts ws) v \<longleftrightarrow> v \<in> set ws"

fun regexp_match :: "regexp \<Rightarrow> string \<Rightarrow> bool" where
  "regexp_match [] v \<longleftrightarrow> v = []"
| "regexp_match (a # r) v \<longleftrightarrow> (\<exists>x y. v = x @ y \<and> atom_match a x \<and> regexp_match r y)"

lemma rests_Many: "t \<in> set (rests (Many P) s) \<longleftrightarrow> (\<exists>x. s = x @ t \<and> list_all P x)"
proof (induction s)
  case (Cons c s)
  then show ?case by (auto simp: Cons_eq_append_conv)
qed auto

lemma rests_iff: "t \<in> set (rests a s) \<longleftrightarrow> (\<exists>x. s = x @ t \<and> atom_match a x)"
proof (cases a)
  case (One P)
  then show ?thesis by (cases s) (auto simp: Cons_eq_append_conv)
next
  case (Alts ws)
  then show ?thesis by (force simp: has_prefix_iff prefix_def)
qed (simp add: rests_Many)

lemma match_rests_iff: "t \<in> set (match_rests r s) \<longleftrightarrow> (\<exists>v. s = v @ t \<and> regexp_match r v)"
proof (induction r arbitrary: s)
  case (Cons a r)
  have "t \<in> set (match_rests (a # r) s) \<longleftrightarrow>
      (\<exists>u. (\<exists>x. s = x @ u \<and> atom_match a x) \<and> (\<exists>y. u = y @ t \<and> regexp_match r y))"
    by (simp add: Cons.IH Bex_def rests_iff)
  also have "\<dots> \<longleftrightarrow> (\<exists>x y. s = x @ y @ t \<and> atom_match a x \<and> regexp_match r y)" by blast
  also have "\<dots> \<longleftrightarrow> (\<exists>v. s = v @ t \<and> regexp_match (a # r) v)"
    by simp (metis append.assoc)
  finally show ?case .
qed auto

lemma match_rests_None: "match_rests r s = [] \<longleftrightarrow> (\<nexists>v. prefix v s \<and> regexp_match r v)"
  using match_rests_iff [of _ r s] by (auto simp: prefix_def) (metis list.set_intros(1) neq_Nil_conv)+

text \<open>A pattern is found in a text exactly if a part of the text is in its language.\<close>

lemma match_string_iff: "match_string r s \<longleftrightarrow> (\<exists>v. sublist v s \<and> regexp_match r v)"
proof (induction s)
  case Nil
  then show ?case using match_rests_None [of r "[]"] by auto
next
  case (Cons c s)
  then show ?case using match_rests_None [of r "c # s"] by (auto simp: sublist_Cons_right)
qed

section \<open>Redaction\<close>

lemma replace_step:
  "replace_all r repl (c # s) = (case match_rests r (c # s) of
     [] \<Rightarrow> c # replace_all r repl s
   | t # _ \<Rightarrow> if length t \<le> length s then repl @ replace_all r repl t else c # replace_all r repl s)"
  by (rule replace_all.simps(2))

text \<open>A replacement is a barrier for a pattern if no match can reach into it or lies in it.\<close>

definition barrier :: "string \<Rightarrow> regexp \<Rightarrow> bool" where
  "barrier repl r \<longleftrightarrow> repl \<noteq> [] \<and>
     (\<forall>v. regexp_match r v \<longrightarrow> v \<noteq> [] \<and> hd repl \<notin> set v \<and> last repl \<notin> set v \<and> \<not> sublist v repl)"

lemma replace_cases:
  obtains (keep) "replace_all r repl (c # s) = c # replace_all r repl s"
      "match_rests r (c # s) = [] \<or> (\<exists>v. regexp_match r v \<and> v = [])"
  | (drop) t where "replace_all r repl (c # s) = repl @ replace_all r repl t" "suffix t s" "length t \<le> length s"
proof (cases "match_rests r (c # s)")
  case Nil
  then show thesis using keep by simp
next
  case (Cons t ts)
  obtain v where v: "c # s = v @ t" "regexp_match r v" using match_rests_iff [of t r "c # s"] Cons by auto
  show thesis
  proof (cases "length t \<le> length s")
    case True
    then have "suffix t s" using v(1) by (cases v) (auto simp: suffix_def)
    then show thesis using drop [of t] Cons True by simp
  next
    case False
    then have "v = []" using v(1) by (cases v) auto
    then show thesis using keep Cons False v(2) by auto
  qed
qed

text \<open>What is found in a text after replacement, at its start or anywhere, was in it before.\<close>

lemma replaced_prefix:
  "prefix v (replace_all r repl s) \<Longrightarrow> repl \<noteq> [] \<Longrightarrow> hd repl \<notin> set v \<Longrightarrow> prefix v s"
proof (induction s arbitrary: v)
  case (Cons c s)
  show ?case
  proof (cases rule: replace_cases [of r repl c s])
    case keep
    then show ?thesis using Cons by (cases v) auto
  next
    case (drop t)
    then show ?thesis using Cons.prems by (cases v; cases repl) auto
  qed
qed simp

lemma sublist_barrier:
  assumes "sublist v (repl @ y)" "repl \<noteq> []" "last repl \<notin> set v" "\<not> sublist v repl"
  shows "sublist v y"
proof -
  consider "sublist v y" | xs1 xs2 where "v = xs1 @ xs2" "suffix xs1 repl" "prefix xs2 y"
    using assms(1,4) by (auto simp: sublist_append)
  then show ?thesis
  proof cases
    case (2 xs1 xs2)
    have "xs1 = []"
    proof (rule ccontr)
      assume "xs1 \<noteq> []"
      then have "last xs1 = last repl" using 2(2) by (auto simp: suffix_def)
      then show False using assms(3) 2(1) \<open>xs1 \<noteq> []\<close> by (metis Un_iff last_in_set set_append)
    qed
    then show ?thesis using 2 by (auto intro: prefix_imp_sublist)
  qed
qed

lemma replaced_sublist:
  "sublist v (replace_all r repl s) \<Longrightarrow> repl \<noteq> [] \<Longrightarrow> hd repl \<notin> set v \<Longrightarrow> last repl \<notin> set v \<Longrightarrow> \<not> sublist v repl \<Longrightarrow>
     sublist v s"
proof (induction s rule: length_induct)
  case (1 s)
  show ?case
  proof (cases s)
    case Nil
    then show ?thesis using 1(2) by simp
  next
    case (Cons c s')
    show ?thesis
    proof (cases rule: replace_cases [of r repl c s'])
      case keep
      consider "prefix v (c # replace_all r repl s')" | "sublist v (replace_all r repl s')"
        using 1(2) keep Cons by (auto simp: sublist_Cons_right)
      then show ?thesis
      proof cases
        case 1
        then have "prefix v (c # s')"
          using replaced_prefix [of "tl v" r repl s'] \<open>repl \<noteq> []\<close> \<open>hd repl \<notin> set v\<close> by (cases v) auto
        then show ?thesis using Cons by (simp add: prefix_imp_sublist)
      next
        case 2
        then show ?thesis using 1 Cons by (auto simp: sublist_Cons_right)
      qed
    next
      case (drop t)
      then have "sublist v (replace_all r repl t)" using sublist_barrier 1(2-6) Cons by metis
      then have "sublist v t" using 1 drop Cons by auto
      then show ?thesis using drop(2) Cons by (metis sublist_order.order_trans suffix_imp_sublist sublist_Cons_right)
    qed
  qed
qed

text \<open>Replacing leaves no match, and brings up no match of another pattern.\<close>

lemma replace_keeps_clean:
  assumes "barrier repl r'" "\<not> match_string r' s"
  shows "\<not> match_string r' (replace_all r repl s)"
  using assms replaced_sublist [of _ r repl s] unfolding match_string_iff barrier_def by blast

lemma replace_cleans:
  assumes b: "barrier repl r"
  shows "\<not> match_string r (replace_all r repl s)"
proof (induction s rule: length_induct)
  case (1 s)
  show ?case
  proof (cases s)
    case Nil
    then show ?thesis using b by (auto simp: match_string_iff barrier_def)
  next
    case (Cons c s')
    show ?thesis
    proof (cases rule: replace_cases [of r repl c s'])
      case keep
      have no: "match_rests r (c # s') = []" using keep(2) b by (auto simp: barrier_def)
      have "\<not> match_string r (replace_all r repl s')" using 1 Cons by simp
      moreover have "\<not> prefix v (c # replace_all r repl s')" if "regexp_match r v" for v
      proof
        assume p: "prefix v (c # replace_all r repl s')"
        have v: "v \<noteq> []" "hd repl \<notin> set v" "repl \<noteq> []" using b that by (auto simp: barrier_def)
        then have "prefix v (c # s')" using p replaced_prefix [of "tl v" r repl s'] by (cases v) auto
        then show False using no that by (auto simp: match_rests_None)
      qed
      ultimately show ?thesis using keep(1) Cons by (auto simp: match_string_iff sublist_Cons_right)
    next
      case (drop t)
      have "\<not> match_string r (replace_all r repl t)" using 1 Cons drop by simp
      then show ?thesis
        using drop(1) Cons b sublist_barrier [of _ repl "replace_all r repl t"]
        by (auto simp: match_string_iff barrier_def)
    qed
  qed
qed

lemma replace_id: "\<not> match_string r s \<Longrightarrow> replace_all r repl s = s"
  by (induction s) (simp_all split: list.split)

lemma redact_loop_clean:
  assumes "\<forall>p\<in>set ps. barrier repl (snd p)" "redact_loop repl (map (\<lambda>(n, r). regexp_rule n r) ps) s vs = (out, vs')"
  shows "(\<forall>p\<in>set ps. \<not> match_string (snd p) out) \<and>
    (\<forall>r. barrier repl r \<and> \<not> match_string r s \<longrightarrow> \<not> match_string r out) \<and>
    (vs' = vs \<longleftrightarrow> out = s) \<and> length vs \<le> length vs' \<and>
    ((\<forall>p\<in>set ps. \<not> match_string (snd p) s) \<longrightarrow> out = s)"
  using assms
proof (induction ps arbitrary: s vs)
  case (Cons p ps)
  obtain n r where p: "p = (n, r)" by fastforce
  have b: "barrier repl r" "\<forall>p\<in>set ps. barrier repl (snd p)" using Cons.prems(1) p by auto
  let ?s = "replace_all r repl s"
  have clean: "\<not> match_string r ?s" using replace_cleans [OF b(1)] .
  show ?case
  proof (cases "?s = s")
    case True
    then have "redact_loop repl (map (\<lambda>(n, r). regexp_rule n r) ps) s vs = (out, vs')"
      using Cons.prems(2) p by (simp add: regexp_rule_def)
    from Cons.IH [OF b(2) this] show ?thesis using p clean True b(1) by auto
  next
    case False
    then have "redact_loop repl (map (\<lambda>(n, r). regexp_rule n r) ps) ?s (vs @ [n]) = (out, vs')"
      using Cons.prems(2) p by (simp add: regexp_rule_def)
    note IH = Cons.IH [OF b(2) this]
    have m: "match_string r s" using False replace_id by metis
    have "\<not> match_string r out" using IH b(1) clean by blast
    then have ne: "out \<noteq> s" using m by auto
    have "\<not> match_string r' out" if "barrier repl r'" "\<not> match_string r' s" for r'
      using IH that replace_keeps_clean by blast
    then show ?thesis using IH p ne m \<open>\<not> match_string r out\<close> by auto
  qed
qed auto

section \<open>The default guards\<close>

fun atom_char :: "atom \<Rightarrow> char \<Rightarrow> bool" where
  "atom_char (One P) c \<longleftrightarrow> P c"
| "atom_char (Many P) c \<longleftrightarrow> P c"
| "atom_char (Alts ws) c \<longleftrightarrow> list_ex (\<lambda>w. c \<in> set w) ws"

lemma regexp_match_chars: "regexp_match r v \<Longrightarrow> c \<in> set v \<Longrightarrow> list_ex (\<lambda>a. atom_char a c) r"
proof (induction r arbitrary: v)
  case (Cons a r)
  obtain x y where v: "v = x @ y" "atom_match a x" "regexp_match r y" using Cons.prems(1) by auto
  have "atom_char a c" if "c \<in> set x" using v(2) that by (cases a) (auto simp: list_all_iff list_ex_iff)
  then show ?case using Cons.IH [OF v(3)] Cons.prems(2) v(1) by auto
qed simp

lemma barrierI:
  assumes "\<not> list_ex (\<lambda>a. atom_char a (hd repl)) r" "\<not> list_ex (\<lambda>a. atom_char a (last repl)) r"
    and "repl \<noteq> []" "\<not> match_string r repl" "r = One P # r'"
  shows "barrier repl r"
  unfolding barrier_def
proof (intro conjI allI impI)
  fix v
  assume m: "regexp_match r v"
  show "v \<noteq> []" using m assms(5) by auto
  show "hd repl \<notin> set v" "last repl \<notin> set v" using regexp_match_chars [OF m] assms(1,2) by auto
  show "\<not> sublist v repl" using m assms(4) by (auto simp: match_string_iff)
qed (rule assms(3))

lemma default_chars:
  "\<not> list_ex (\<lambda>a. atom_char a (hd ''[REDACTED]'')) email_pattern"
  "\<not> list_ex (\<lambda>a. atom_char a (last ''[REDACTED]'')) email_pattern"
  "\<not> list_ex (\<lambda>a. atom_char a (hd ''[REDACTED]'')) phone_pattern"
  "\<not> list_ex (\<lambda>a. atom_char a (last ''[REDACTED]'')) phone_pattern"
  "\<not> list_ex (\<lambda>a. atom_char a (hd ''[REDACTED]'')) id_card_pattern"
  "\<not> list_ex (\<lambda>a. atom_char a (last ''[REDACTED]'')) id_card_pattern"
  by code_simp+

lemma default_no_match:
  "\<not> match_string email_pattern ''[REDACTED]''"
  "\<not> match_string phone_pattern ''[REDACTED]''"
  "\<not> match_string id_card_pattern ''[REDACTED]''"
  by code_simp+

lemma default_barriers: "\<forall>p\<in>set pii_patterns_default. barrier ''[REDACTED]'' (snd p)"
proof -
  have "barrier ''[REDACTED]'' email_pattern"
    by (rule barrierI [OF default_chars(1,2) _ default_no_match(1)]) (simp_all add: email_pattern_def plus_def)
  moreover have "barrier ''[REDACTED]'' phone_pattern"
    by (rule barrierI [OF default_chars(3,4) _ default_no_match(2)]) (simp_all add: phone_pattern_def)
  moreover have "barrier ''[REDACTED]'' id_card_pattern"
    by (rule barrierI [OF default_chars(5,6) _ default_no_match(3)]) (simp_all add: id_card_pattern_def numeral_eq_Suc)
  ultimately show ?thesis by (simp add: pii_patterns_default_def)
qed

text \<open>The interface of a redaction: a replacement that is a barrier for every pattern of the list.\<close>

locale clean_redaction =
  fixes repl :: string and rs :: "(string \<times> regexp) list"
  assumes barriers: "p \<in> set rs \<Longrightarrow> barrier repl (snd p)"
begin

abbreviation rules :: "pattern_rule list" where
  "rules \<equiv> map (\<lambda>(n, r). regexp_rule n r) rs"

lemma redacted_clean:
  assumes "redact_loop repl rules content [] = (out, vs)"
  shows "(\<forall>p\<in>set rules. \<not> MatchString p out) \<and> (vs = [] \<longleftrightarrow> out = content) \<and>
    ((\<forall>p\<in>set rules. \<not> MatchString p content) \<longrightarrow> out = content)"
  using redact_loop_clean [OF _ assms] barriers by (auto simp: regexp_rule_def)

lemma redacted_twice:
  assumes "redact_loop repl rules content [] = (out, vs)"
  shows "redact_loop repl rules out [] = (out, [])"
proof -
  obtain out' vs' where o: "redact_loop repl rules out [] = (out', vs')" by fastforce
  show ?thesis using redacted_clean [OF assms] redacted_clean [OF o] o by auto
qed

end

interpretation default_pii: clean_redaction "''[REDACTED]''" pii_patterns_default
  by unfold_locales (use default_barriers in blast)

lemma default_redact:
  "redact (NewPIIGuard DefaultPIIPatterns []) content = redact_loop ''[REDACTED]'' default_pii.rules content []"
  by (simp add: redact_def NewPIIGuard_def DefaultPIIPatterns_def)

text \<open>
  C39: redaction with the default patterns is complete.  The guard for personal data passes a message exactly if it contains
  no e-mail address, telephone number or identity number in the sense of the patterns; otherwise it rewrites it
  to a text that contains none of them, whatever the replacements put next to each other, and which the guard passes
  as it is.
\<close>

theorem redaction_complete:
  "(\<forall>p\<in>set DefaultPIIPatterns. \<not> MatchString p (gm_Content msg)) \<and>
     pii_Check (NewPIIGuard DefaultPIIPatterns []) msg = Inr (Some Pass) \<or>
   (\<exists>p\<in>set DefaultPIIPatterns. MatchString p (gm_Content msg)) \<and>
     (\<exists>out vs. pii_Check (NewPIIGuard DefaultPIIPatterns []) msg =
          Inr (Some (Rewrite ''pii'' out ''PII detected and redacted'' vs)) \<and> vs \<noteq> [] \<and>
        (\<forall>p\<in>set DefaultPIIPatterns. \<not> MatchString p out) \<and>
        pii_Check (NewPIIGuard DefaultPIIPatterns []) (msg\<lparr>gm_Content := out\<rparr>) = Inr (Some Pass))"
proof -
  let ?g = "NewPIIGuard DefaultPIIPatterns []"
  obtain out vs where o: "redact ?g (gm_Content msg) = (out, vs)" by fastforce
  note D = default_pii.redacted_clean [OF o [unfolded default_redact], folded DefaultPIIPatterns_def]
  note o' = default_pii.redacted_twice [OF o [unfolded default_redact], folded default_redact]
  show ?thesis
  proof (cases "vs = []")
    case True
    then have "pii_Check ?g msg = Inr (Some Pass)" using o by (simp add: pii_Check_def)
    then show ?thesis using D True by auto
  next
    case False
    then have "pii_Check ?g msg = Inr (Some (Rewrite ''pii'' out ''PII detected and redacted'' vs))"
      using o by (simp add: pii_Check_def)
    moreover have "pii_Check ?g (msg\<lparr>gm_Content := out\<rparr>) = Inr (Some Pass)" using o' by (simp add: pii_Check_def)
    ultimately show ?thesis using D False by auto
  qed
qed

theorem redaction_complete_witness:
  "\<exists>out vs. pii_Check (NewPIIGuard DefaultPIIPatterns [])
      \<lparr>gm_Direction = DirectionInput, gm_Content = ''a@b.cc, 13912345678'', gm_AgentID = [], gm_SessionID = []\<rparr> =
      Inr (Some (Rewrite ''pii'' out ''PII detected and redacted'' vs)) \<and>
    \<not> match_string phone_pattern out \<and> \<not> match_string email_pattern out"
proof -
  let ?m = "\<lparr>gm_Direction = DirectionInput, gm_Content = ''a@b.cc, 13912345678'', gm_AgentID = [], gm_SessionID = []\<rparr>"
  have ps: "regexp_rule ''email'' email_pattern \<in> set DefaultPIIPatterns"
    "regexp_rule ''phone'' phone_pattern \<in> set DefaultPIIPatterns"
    by (simp_all add: DefaultPIIPatterns_def pii_patterns_default_def)
  have "match_string phone_pattern (gm_Content ?m)" by code_simp
  then have "\<exists>p\<in>set DefaultPIIPatterns. MatchString p (gm_Content ?m)"
    by (intro bexI [OF _ ps(2)]) (simp only: regexp_rule_def pattern_rule.simps)
  then obtain out vs where o: "pii_Check (NewPIIGuard DefaultPIIPatterns []) ?m =
      Inr (Some (Rewrite ''pii'' out ''PII detected and redacted'' vs))" "\<forall>p\<in>set DefaultPIIPatterns. \<not> MatchString p out"
    using redaction_complete [of ?m] by blast
  have "\<not> match_string email_pattern out" "\<not> match_string phone_pattern out"
    using bspec [OF o(2) ps(1)] bspec [OF o(2) ps(2)] by (simp_all add: regexp_rule_def)
  with o(1) show ?thesis by blast
qed

text \<open>But the patterns are applied in order, and the digits of an identity number contain a telephone number when the year of
  birth begins with 19: the six digits of the region and the check digit stay.\<close>

lemma id_card_partly_redacted:
  "redact (NewPIIGuard DefaultPIIPatterns []) ''110105199003074512'' = (''110105[REDACTED]2'', [''phone''])"
  by code_simp

text \<open>The default patterns against injection see a word in any mixture of cases.\<close>

lemma fold_word_match:
  "list_all (\<lambda>c. byte_in 97 122 c) w \<Longrightarrow> to_lower v = w \<Longrightarrow> regexp_match (fold_word w) v"
proof (induction w arbitrary: v)
  case (Cons c w)
  then obtain d v' where v: "v = d # v'" "lower_char d = c" "to_lower v' = w" by (auto simp: to_lower_def)
  have "d = c \<or> d = char_of (of_char c - 32 :: nat)"
    using v(2) by (auto simp: lower_char_def split: if_splits)
  then have "atom_match (fold_char c) [d]" by (auto simp: fold_char_def)
  moreover have "regexp_match (fold_word w) v'" using Cons v(3) by simp
  ultimately have "regexp_match (fold_char c # fold_word w) ([d] @ v')" unfolding regexp_match.simps by blast
  then show ?case using v(1) by (simp add: fold_word_def)
qed (simp add: fold_word_def to_lower_def)

lemma jailbreak_blocked:
  assumes "sublist v (gm_Content msg)" "to_lower v = ''jailbreak''" "gm_Direction msg = DirectionInput"
  shows "\<exists>vs. pi_Check DefaultInjectionPatterns msg = Inr (Some (Block ''prompt_injection'' ''prompt injection detected'' vs)) \<and>
    ''jailbreak'' \<in> set vs"
proof -
  have "regexp_match (fold_word ''jailbreak'') v" by (rule fold_word_match [OF _ assms(2)]) (simp add: byte_in_def)
  then have "match_string (fold_word ''jailbreak'') (gm_Content msg)" using assms(1) by (auto simp: match_string_iff)
  moreover define vs where "vs = map pr_Name (filter (\<lambda>p. MatchString p (gm_Content msg)) DefaultInjectionPatterns)"
  ultimately have "''jailbreak'' \<in> set vs" by (simp add: DefaultInjectionPatterns_def regexp_rule_def)
  moreover have "pi_Check DefaultInjectionPatterns msg =
      Inr (Some (Block ''prompt_injection'' ''prompt injection detected'' vs))"
    using assms(3) \<open>''jailbreak'' \<in> set vs\<close> by (auto simp: pi_Check_def vs_def [symmetric])
  ultimately show ?thesis by blast
qed

end
