(* ===== verification/GoText.thy ===== *)
theory GoText
  imports GoStrings
begin

text \<open>
  More functions of Go's package \<open>strings\<close>: searching, cutting, splitting, joining and replacing.  The separators and
  the texts searched for are never empty where the sources call them.
\<close>

definition upper_char :: "char \<Rightarrow> char" where
  "upper_char c = (if 97 \<le> (of_char c :: nat) \<and> (of_char c :: nat) \<le> 122 then char_of (of_char c - 32 :: nat) else c)"

definition to_upper :: "string \<Rightarrow> string" where
  "to_upper s = map upper_char s"

text \<open>The position of the first occurrence; \<open>None\<close> is \<open>-1\<close>.\<close>

fun str_index :: "string \<Rightarrow> string \<Rightarrow> nat option" where
  "str_index [] sub = (if sub = [] then Some 0 else None)"
| "str_index (c # s) sub = (if has_prefix (c # s) sub then Some 0 else map_option Suc (str_index s sub))"

definition str_cut :: "string \<Rightarrow> string \<Rightarrow> (string \<times> string) option" where
  "str_cut s sep = (case str_index s sep of None \<Rightarrow> None | Some i \<Rightarrow> Some (take i s, drop (i + length sep) s))"

lemma str_index_Some: "str_index s sub = Some i \<Longrightarrow> s = take i s @ sub @ drop (i + length sub) s"
proof (induction s arbitrary: i)
  case (Cons c s)
  then show ?case
    by (cases "has_prefix (c # s) sub") (auto simp: has_prefix_def, metis append_take_drop_id)
qed (auto split: if_splits)

lemma str_index_le: "str_index s sub = Some i \<Longrightarrow> i + length sub \<le> length s"
proof (induction s arbitrary: i)
  case (Cons c s)
  then show ?case
    by (cases "has_prefix (c # s) sub") (auto simp: has_prefix_iff dest: prefix_length_le)
qed (auto split: if_splits)

lemma str_index_None: "str_index s sub = None \<longleftrightarrow> \<not> sublist sub s"
  by (induction s) (auto simp: sublist_Cons_right has_prefix_iff)

lemma str_index_first: "str_index s sub = Some i \<Longrightarrow> s = p @ sub @ q \<Longrightarrow> i \<le> length p"
proof (induction s arbitrary: i p)
  case (Cons c s)
  show ?case
  proof (cases p)
    case Nil
    then have "has_prefix (c # s) sub" using Cons.prems(2) by (simp add: has_prefix_iff)
    then show ?thesis using Cons.prems(1) by simp
  next
    case p: (Cons b p')
    then have s: "s = p' @ sub @ q" using Cons.prems(2) by simp
    show ?thesis using Cons.IH [OF _ s] Cons.prems(1) p by (auto split: if_splits)
  qed
qed (auto split: if_splits)

function str_split :: "string \<Rightarrow> string \<Rightarrow> string list" where
  "str_split s sep =
     (if sep = [] then [s]
      else (case str_cut s sep of None \<Rightarrow> [s] | Some (before, after) \<Rightarrow> before # str_split after sep))"
  by pat_completeness auto
termination
proof (relation "measure (\<lambda>(s, sep). length s)")
  fix s sep :: string and z before after
  assume sep: "sep \<noteq> []" and c: "str_cut s sep = Some z" "(before, after) = z"
  then obtain i where i: "str_index s sep = Some i" "after = drop (i + length sep) s"
    by (auto simp: str_cut_def split: option.splits)
  have "0 < length sep" using sep by simp
  with str_index_le [OF i(1)] have "length s - (i + length sep) < length s" by linarith
  then show "((after, sep), (s, sep)) \<in> measure (\<lambda>(s, sep). length s)" by (simp add: i(2))
qed simp

declare str_split.simps [simp del]

lemma str_split_Some: "sep \<noteq> [] \<Longrightarrow> str_cut s sep = Some (b, a) \<Longrightarrow> str_split s sep = b # str_split a sep"
  by (subst str_split.simps) simp

lemma str_split_None: "str_cut s sep = None \<Longrightarrow> str_split s sep = [s]"
  by (subst str_split.simps) simp

fun str_join :: "string \<Rightarrow> string list \<Rightarrow> string" where
  "str_join sep [] = []"
| "str_join sep [s] = s"
| "str_join sep (s # t # ss) = s @ sep @ str_join sep (t # ss)"

definition str_count :: "string \<Rightarrow> string \<Rightarrow> nat" where
  "str_count s sub = length (str_split s sub) - 1"

definition str_replace_first :: "string \<Rightarrow> string \<Rightarrow> string \<Rightarrow> string" where
  "str_replace_first s old new =
     (case str_cut s old of None \<Rightarrow> s | Some (before, after) \<Rightarrow> before @ new @ after)"

definition str_replace_all :: "string \<Rightarrow> string \<Rightarrow> string \<Rightarrow> string" where
  "str_replace_all s old new = str_join new (str_split s old)"

lemma str_cut_Some: "str_cut s sep = Some (b, a) \<Longrightarrow> s = b @ sep @ a"
  by (auto simp: str_cut_def dest: str_index_Some split: option.splits)

lemma str_cut_None: "str_cut s sep = None \<longleftrightarrow> \<not> sublist sep s"
  using str_index_None [of s sep] by (auto simp: str_cut_def split: option.splits)

lemma str_split_not_Nil [simp]: "str_split s sep \<noteq> []"
  by (subst str_split.simps) (simp split: option.split)

lemma str_join_Cons: "ss \<noteq> [] \<Longrightarrow> str_join sep (s # ss) = s @ sep @ str_join sep ss"
  by (cases ss) simp_all

text \<open>Splitting and joining: round trips both ways.\<close>

lemma str_join_split: "str_join sep (str_split s sep) = s"
proof (induction s sep rule: str_split.induct)
  case (1 s sep)
  then show ?case
    by (subst str_split.simps) (auto simp: str_join_Cons dest: str_cut_Some split: option.splits)
qed

lemma str_count_0: "sub \<noteq> [] \<Longrightarrow> str_count s sub = 0 \<longleftrightarrow> \<not> sublist sub s"
  unfolding str_count_def
  by (subst str_split.simps) (auto simp: str_cut_None [symmetric] split: option.splits)

lemma str_count_1:
  assumes "sub \<noteq> []" "str_count s sub = 1"
  shows "\<exists>b a. str_cut s sub = Some (b, a) \<and> s = b @ sub @ a \<and> \<not> sublist sub a \<and>
    (\<forall>p q. s = p @ sub @ q \<longrightarrow> length b \<le> length p)"
proof -
  obtain b a where c: "str_cut s sub = Some (b, a)" and n: "length (str_split a sub) = 1"
    using assms unfolding str_count_def
    by (subst (asm) str_split.simps) (auto split: option.splits)
  have "\<not> sublist sub a" using str_count_0 [OF assms(1), of a] n by (simp add: str_count_def)
  moreover have "length b \<le> length p" if "s = p @ sub @ q" for p q
    using str_index_first [OF _ that] c by (auto simp: str_cut_def split: option.splits)
  ultimately show ?thesis using c str_cut_Some [OF c] by blast
qed

lemma str_replace_count_1:
  assumes "old \<noteq> []" "str_count s old = 1"
  shows "str_replace_all s old new = str_replace_first s old new"
proof -
  obtain b a where c: "str_cut s old = Some (b, a)" "\<not> sublist old a" using str_count_1 [OF assms] by blast
  have "str_split a old = [a]" using c(2) by (subst str_split.simps) (simp add: str_cut_None [symmetric])
  then have "str_split s old = [b, a]" using c(1) assms(1) by (subst str_split.simps) simp
  then show ?thesis by (simp add: str_replace_all_def str_replace_first_def c(1))
qed

text \<open>Single characters as separators.\<close>

lemma has_prefix_single: "has_prefix s [c] \<longleftrightarrow> (\<exists>t. s = c # t)"
  by (cases s) (auto simp: has_prefix_def)

lemma str_index_char: "str_index s [c] = (if c \<in> set s then Some (length (takeWhile (\<lambda>x. x \<noteq> c) s)) else None)"
  by (induction s) (auto simp: has_prefix_single)

lemma str_split_char_Nil [simp]: "str_split [] [c] = [[]]"
  by (subst str_split.simps) (simp add: str_cut_def)

lemma str_split_char:
  "str_split s [c] =
     (if c \<in> set s then takeWhile (\<lambda>x. x \<noteq> c) s # str_split (drop (Suc (length (takeWhile (\<lambda>x. x \<noteq> c) s))) s) [c]
      else [s])"
  by (subst str_split.simps)
    (simp add: str_cut_def str_index_char, metis append_eq_conv_conj takeWhile_dropWhile_id)

lemma str_split_char_Cons:
  "str_split (d # s) [c] =
     (if d = c then [] # str_split s [c] else (d # hd (str_split s [c])) # tl (str_split s [c]))"
  using str_split_char [of "d # s" c] str_split_char [of s c] by (cases "c \<in> set s") simp_all

lemma str_split_free: "c \<notin> set s \<Longrightarrow> str_split s [c] = [s]"
  by (induction s) (auto simp: str_split_char_Cons)

lemma str_split_char_append:
  "str_split (s @ c # t) [c] = str_split s [c] @ str_split t [c]"
  by (induction s) (auto simp: str_split_char_Cons)

lemma str_split_join:
  "ss \<noteq> [] \<Longrightarrow> \<forall>s\<in>set ss. c \<notin> set s \<Longrightarrow> str_split (str_join [c] ss) [c] = ss"
proof (induction ss)
  case (Cons s ss)
  then show ?case
    by (cases "ss = []") (auto simp: str_join_Cons str_split_free str_split_char_append)
qed simp

lemma str_split_parts_free: "s' \<in> set (str_split s [c]) \<Longrightarrow> c \<notin> set s'"
proof (induction s arbitrary: s')
  case (Cons d s)
  have h: "c \<notin> set (hd (str_split s [c]))" and t: "\<forall>x\<in>set (tl (str_split s [c])). c \<notin> set x"
    using Cons.IH list.set_sel(2) [OF str_split_not_Nil] by (auto intro: list.set_sel(1))
  show ?case using Cons.prems h t Cons.IH by (auto simp: str_split_char_Cons split: if_splits)
qed simp

text \<open>Texts that trimming leaves alone: those that neither begin nor end with a blank.\<close>

lemma trim_space_id: "x \<noteq> [] \<Longrightarrow> \<not> is_space (hd x) \<Longrightarrow> \<not> is_space (last x) \<Longrightarrow> trim_space x = x"
proof -
  assume x: "x \<noteq> []" "\<not> is_space (hd x)" "\<not> is_space (last x)"
  have "dropWhile is_space x = x" using x(1,2) by (cases x) auto
  moreover have "dropWhile is_space (rev x) = rev x" using x(1,3) by (cases x rule: rev_cases) auto
  ultimately show ?thesis by (simp add: trim_space_def)
qed

lemma trim_space_ends:
  assumes "v \<noteq> []" "trim_space v = v"
  shows "\<not> is_space (hd v) \<and> \<not> is_space (last v)"
proof -
  have "length v \<le> length (dropWhile is_space v)"
    using assms(2) by (metis trim_space_def length_rev length_dropWhile_le)
  moreover obtain zs where zs: "v = zs @ dropWhile is_space v"
    using suffix_dropWhile [of is_space v] by (auto simp: suffix_def)
  then have "length v = length zs + length (dropWhile is_space v)" by (metis length_append)
  ultimately have d: "dropWhile is_space v = v" using zs by simp
  then have r: "dropWhile is_space (rev v) = rev v" using assms(2) by (metis trim_space_def rev_rev_ident)
  show ?thesis
    using d r assms(1) hd_dropWhile [of is_space v] hd_dropWhile [of is_space "rev v"] by (simp add: hd_rev)
qed

end
