(* ===== verification/Paths.thy ===== *)
theory Paths
  imports GoText
begin

text \<open>
  Path names: what the sources use of Go's package \<open>path/filepath\<close> on Unix, and \<open>tool/toolkit/path.go\<close>.  The
  resolution of symbolic links is an argument.  A clean absolute path is also seen as the list of its
  components; on this view the check of the allowed directories is a test of prefixes.
\<close>

section \<open>Lexical processing\<close>

abbreviation slash :: string where
  "slash \<equiv> ''/''"

definition is_abs :: "string \<Rightarrow> bool" where
  "is_abs path = has_prefix path slash"

text \<open>The elements kept so far are in reverse order.\<close>

fun clean_parts :: "bool \<Rightarrow> string list \<Rightarrow> string list \<Rightarrow> string list" where
  "clean_parts rooted acc [] = rev acc"
| "clean_parts rooted acc (p # ps) =
     (if p = [] \<or> p = ''.'' then clean_parts rooted acc ps
      else if p = ''..'' then
        (case acc of
           [] \<Rightarrow> clean_parts rooted (if rooted then [] else [''..'']) ps
         | a # acc' \<Rightarrow> if a = ''..'' then clean_parts rooted (''..'' # acc) ps else clean_parts rooted acc' ps)
      else clean_parts rooted (p # acc) ps)"

definition path_clean :: "string \<Rightarrow> string" where
  "path_clean path =
     (let rooted = is_abs path;
          out = (if rooted then slash else []) @ str_join slash (clean_parts rooted [] (str_split path slash))
      in if out = [] then ''.'' else out)"

definition path_dir :: "string \<Rightarrow> string" where
  "path_dir path = path_clean (rev (dropWhile (\<lambda>c. c \<noteq> CHR ''/'') (rev path)))"

definition path_base :: "string \<Rightarrow> string" where
  "path_base path =
     (if path = [] then ''.''
      else let stem = dropWhile (\<lambda>c. c = CHR ''/'') (rev path);
               name = rev (takeWhile (\<lambda>c. c \<noteq> CHR ''/'') stem)
           in if name = [] then slash else name)"

definition path_join :: "string \<Rightarrow> string \<Rightarrow> string" where
  "path_join a b =
     (if a \<noteq> [] then path_clean (a @ slash @ b) else if b \<noteq> [] then path_clean b else [])"

section \<open>Lengths\<close>

definition weight :: "string list \<Rightarrow> nat" where
  "weight ss = sum_list (map (\<lambda>s. Suc (length s)) ss)"

lemma weight_simps [simp]:
  "weight [] = 0" "weight (s # ss) = Suc (length s) + weight ss" "weight (ss @ ts) = weight ss + weight ts"
  "weight (rev ss) = weight ss"
  by (simp_all add: weight_def flip: rev_map)

lemma weight_split: "weight (str_split s [c]) = Suc (length s)"
proof (induction s)
  case (Cons d s)
  then show ?case using list.collapse [OF str_split_not_Nil, of s "[c]"]
    by (cases "str_split s [c]") (auto simp: str_split_char_Cons)
qed simp

lemma length_str_join: "length (str_join [c] ss) = weight ss - 1"
  by (induction "[c]" ss rule: str_join.induct) simp_all

lemma clean_parts_weight: "weight (clean_parts r acc ps) \<le> weight acc + weight ps"
proof (induction r acc ps rule: clean_parts.induct)
  case (2 rooted acc p ps)
  consider "p = [] \<or> p = ''.''" | "\<not> (p = [] \<or> p = ''.'')" "p = ''..''" | "\<not> (p = [] \<or> p = ''.'')" "p \<noteq> ''..''"
    by blast
  then show ?case
  proof cases
    case 1
    then show ?thesis using "2.IH"(1) by auto
  next
    case up: 2
    show ?thesis
    proof (cases acc)
      case Nil
      then show ?thesis using "2.IH"(2) [OF up Nil] up by (cases rooted) simp_all
    next
      case (Cons a acc')
      then show ?thesis using "2.IH"(3,4) [OF up Cons] up by (cases "a = ''..''") simp_all
    qed
  next
    case 3
    then show ?thesis using "2.IH"(5) by simp
  qed
qed simp

lemma clean_parts_skip [simp]: "clean_parts r acc (ps @ [[]]) = clean_parts r acc ps"
  by (induction r acc ps rule: clean_parts.induct) (auto split: list.splits)

lemma is_abs_iff: "is_abs p \<longleftrightarrow> (\<exists>q. p = CHR ''/'' # q)"
  by (auto simp: is_abs_def has_prefix_single)

lemma path_clean_abs: "path_clean (CHR ''/'' # q) = slash @ str_join slash (clean_parts True [] (str_split q slash))"
  by (simp add: path_clean_def is_abs_def has_prefix_single str_split_char_Cons Let_def)

lemma path_clean_rel:
  "\<not> is_abs p \<Longrightarrow> path_clean p =
     (let out = str_join slash (clean_parts False [] (str_split p slash)) in if out = [] then ''.'' else out)"
  by (simp add: path_clean_def Let_def)

lemma path_clean_length: "p \<noteq> [] \<Longrightarrow> length (path_clean p) \<le> length p"
proof (cases "is_abs p")
  case True
  then obtain q where q: "p = CHR ''/'' # q" by (auto simp: is_abs_iff)
  have "weight (clean_parts True [] (str_split q slash)) \<le> Suc (length q)"
    using clean_parts_weight [of True "[]" "str_split q slash"] by (simp add: weight_split)
  then show ?thesis by (simp add: q path_clean_abs length_str_join)
next
  case False
  assume "p \<noteq> []"
  then have n: "1 \<le> length p" by (cases p) simp_all
  have "weight (clean_parts False [] (str_split p slash)) \<le> Suc (length p)"
    using clean_parts_weight [of False "[]" "str_split p slash"] by (simp add: weight_split)
  then have "length (str_join slash (clean_parts False [] (str_split p slash))) \<le> length p"
    by (simp add: length_str_join)
  then show ?thesis using n False by (simp add: path_clean_rel Let_def)
qed

text \<open>A trailing slash is dropped, except from the root.\<close>

lemma path_clean_trailing:
  assumes "p \<noteq> []"
  shows "length (path_clean (p @ slash)) \<le> length p"
proof (cases "is_abs p")
  case True
  then obtain q where q: "p = CHR ''/'' # q" by (auto simp: is_abs_iff)
  have s: "str_split (q @ slash) slash = str_split q slash @ [[]]" using str_split_char_append [of q "CHR ''/''" "[]"] by simp
  have "length (path_clean (p @ slash)) = Suc (weight (clean_parts True [] (str_split q slash)) - 1)"
    unfolding q append_Cons path_clean_abs s by (simp add: length_str_join)
  also have "\<dots> \<le> Suc (length q)"
    using clean_parts_weight [of True "[]" "str_split q slash"] by (simp add: weight_split)
  finally show ?thesis by (simp add: q)
next
  case False
  with assms have F: "\<not> is_abs (p @ slash)" by (cases p) (auto simp: is_abs_iff)
  have n: "1 \<le> length p" using assms by (cases p) simp_all
  have s: "str_split (p @ slash) slash = str_split p slash @ [[]]" using str_split_char_append [of p "CHR ''/''" "[]"] by simp
  have "length (str_join slash (clean_parts False [] (str_split p slash))) \<le> length p"
    using clean_parts_weight [of False "[]" "str_split p slash"] by (simp add: weight_split length_str_join)
  then show ?thesis using n by (simp add: path_clean_rel [OF F] s Let_def)
qed

lemma path_dir_shorter:
  assumes "path_dir p \<noteq> p"
  shows "p = [] \<or> path_dir p = ''.'' \<or> length (path_dir p) < length p"
proof -
  define r where "r = dropWhile (\<lambda>c. c \<noteq> CHR ''/'') (rev p)"
  have d: "path_dir p = path_clean (rev r)" by (simp add: path_dir_def r_def)
  show ?thesis
  proof (cases r)
    case Nil
    then show ?thesis by (simp add: d path_clean_def is_abs_def has_prefix_def)
  next
    case (Cons x r')
    then have x: "x = CHR ''/''" using hd_dropWhile [of "\<lambda>c. c \<noteq> CHR ''/''" "rev p"] by (auto simp: r_def)
    show ?thesis
    proof (cases "r' = []")
      case True
      have one: "path_clean slash = slash" by (simp add: path_clean_abs)
      have "length r \<le> length p" using length_dropWhile_le [of "\<lambda>c. c \<noteq> CHR ''/''" "rev p"] by (simp add: r_def)
      moreover have "p = slash" if "length p = 1"
        using that Cons True x by (cases p) (auto simp: r_def split: if_splits)
      ultimately show ?thesis using assms d one Cons True x
        by (cases "length p = 1") (auto simp: Suc_le_eq le_less)
    next
      case False
      have "rev r = rev r' @ slash" using Cons x by simp
      with False path_clean_trailing [of "rev r'"] have "length (path_dir p) \<le> length r'" by (simp add: d)
      moreover have "length r' < length r" using Cons by simp
      moreover have "length r \<le> length p" using length_dropWhile_le [of "\<lambda>c. c \<noteq> CHR ''/''" "rev p"] by (simp add: r_def)
      ultimately show ?thesis by linarith
    qed
  qed
qed

text \<open>Going up ends: the measure of both loops that do.\<close>

lemma path_dir_measure:
  assumes "path_dir path \<noteq> path"
  shows "(if path_dir path = ''.'' then 0 else if path_dir path = [] then 1 else length (path_dir path)) <
    (if path = ''.'' then 0 else if path = [] then 1 else length path)"
proof -
  have dot: "path_dir ''.'' = ''.''" by (simp add: path_dir_def path_clean_def is_abs_def has_prefix_def)
  have "path_dir [] = ''.''" by (simp add: path_dir_def path_clean_def is_abs_def has_prefix_def)
  moreover have "path_dir path \<noteq> ''.'' \<Longrightarrow> path \<noteq> [] \<Longrightarrow> length (path_dir path) < length path"
    using path_dir_shorter [OF assms] by blast
  moreover have "path_dir path \<noteq> []" by (simp add: path_dir_def path_clean_def Let_def)
  moreover have "path \<noteq> ''.''" using assms dot by auto
  ultimately show ?thesis by auto
qed

section \<open>Resolution and validation\<close>

function ResolveExistingPath :: "(string \<Rightarrow> string res) \<Rightarrow> string \<Rightarrow> string res" where
  "ResolveExistingPath evalSymlinks path =
     (case evalSymlinks path of
        Inr resolved \<Rightarrow> Inr resolved
      | Inl err \<Rightarrow>
          if path_dir path = path then Inr path
          else (case ResolveExistingPath evalSymlinks (path_dir path) of
                  Inl err' \<Rightarrow> Inl err'
                | Inr resolvedParent \<Rightarrow> Inr (path_join resolvedParent (path_base path))))"
  by pat_completeness auto
termination
proof (relation "measure (\<lambda>(ev, p). if p = ''.'' then 0 else if p = [] then 1 else length p)")
  fix ev :: "string \<Rightarrow> string res" and path :: string and err
  assume "path_dir path \<noteq> path"
  then show "((ev, path_dir path), (ev, path)) \<in>
      measure (\<lambda>(ev, p). if p = ''.'' then 0 else if p = [] then 1 else length p)"
    using path_dir_measure by auto
qed simp

declare ResolveExistingPath.simps [simp del]

definition in_dir :: "string \<Rightarrow> string \<Rightarrow> bool" where
  "in_dir resolved dir \<longleftrightarrow> has_prefix resolved (dir @ slash) \<or> resolved = dir"

definition ValidatePath :: "string \<Rightarrow> (string \<Rightarrow> string res) \<Rightarrow> string \<Rightarrow> string list \<Rightarrow> string res" where
  "ValidatePath toolName evalSymlinks path allowedDirs =
     (if path = [] then Inl (Errorf ''%s tool: file_path must not be empty'' [AStr toolName] None)
      else if \<not> is_abs path then Inl (Errorf ''%s tool: path must be absolute: %s'' [AStr toolName, AStr path] None)
      else
        (let cleaned = path_clean path in
         if allowedDirs = [] then Inr cleaned
         else (case ResolveExistingPath evalSymlinks cleaned of
                 Inl err \<Rightarrow> Inl (Errorf ''%s tool: failed to resolve path: %w'' [AStr toolName] (Some err))
               | Inr resolved \<Rightarrow>
                   if list_ex (in_dir resolved) allowedDirs then Inr cleaned
                   else Inl (Errorf ''%s tool: path not allowed: %s'' [AStr toolName, AStr path] None))))"

definition CleanAllowedDirs :: "string list \<Rightarrow> string list" where
  "CleanAllowedDirs dirs = map path_clean dirs"

section \<open>Clean absolute paths are lists of names\<close>

definition good_name :: "string \<Rightarrow> bool" where
  "good_name s \<longleftrightarrow> s \<noteq> [] \<and> s \<noteq> ''.'' \<and> s \<noteq> ''..'' \<and> CHR ''/'' \<notin> set s"

definition render :: "string list \<Rightarrow> string" where
  "render names = slash @ str_join slash names"

definition names_of :: "string \<Rightarrow> string list" where
  "names_of path = filter (\<lambda>s. s \<noteq> []) (str_split path slash)"

lemma good_names_plain: "list_all good_name cs \<Longrightarrow> \<forall>s\<in>set cs. CHR ''/'' \<notin> set s \<and> s \<noteq> []"
  by (auto simp: list_all_iff good_name_def)

lemma split_render:
  "list_all good_name cs \<Longrightarrow> str_split (render cs) slash = [] # (if cs = [] then [[]] else cs)"
  using good_names_plain [of cs] str_split_join [of cs "CHR ''/''"]
  by (simp add: render_def str_split_char_Cons)

lemma names_of_render [simp]: "list_all good_name cs \<Longrightarrow> names_of (render cs) = cs"
  using good_names_plain [of cs] by (auto simp: names_of_def split_render intro: filter_True)

lemma clean_parts_good:
  "list_all good_name acc \<Longrightarrow> \<forall>s\<in>set ps. CHR ''/'' \<notin> set s \<Longrightarrow> list_all good_name (clean_parts True acc ps)"
proof (induction ps arbitrary: acc)
  case (Cons p ps)
  then show ?case by (cases acc) (auto simp: good_name_def)
qed (simp add: list_all_rev)

lemma clean_parts_id: "list_all good_name ps \<Longrightarrow> clean_parts r acc ps = rev acc @ ps"
  by (induction ps arbitrary: acc) (auto simp: good_name_def)

lemma path_clean_good:
  assumes "is_abs p"
  shows "\<exists>cs. list_all good_name cs \<and> path_clean p = render cs"
proof -
  obtain q where q: "p = CHR ''/'' # q" using assms by (auto simp: is_abs_iff)
  have "list_all good_name (clean_parts True [] (str_split q slash))"
    by (rule clean_parts_good) (auto dest: str_split_parts_free)
  then show ?thesis by (auto simp: q path_clean_abs render_def)
qed

lemma is_abs_render [simp]: "is_abs (render cs)"
  by (simp add: is_abs_iff render_def)

lemma split_join_names:
  "list_all good_name cs \<Longrightarrow> clean_parts r [] (str_split (str_join slash cs) slash) = cs"
  using good_names_plain [of cs] str_split_join [of cs "CHR ''/''"] clean_parts_id [of cs r "[]"]
  by (cases "cs = []") simp_all

lemma path_clean_render [simp]: "list_all good_name cs \<Longrightarrow> path_clean (render cs) = render cs"
  by (simp add: render_def path_clean_abs split_join_names)

lemma str_join_snoc: "cs \<noteq> [] \<Longrightarrow> str_join sep (cs @ [c]) = str_join sep cs @ sep @ c"
proof (induction cs)
  case (Cons a cs)
  then show ?case by (cases "cs = []") (simp_all add: str_join_Cons)
qed simp

lemma str_join_append:
  "cs \<noteq> [] \<Longrightarrow> ds \<noteq> [] \<Longrightarrow> str_join sep (cs @ ds) = str_join sep cs @ sep @ str_join sep ds"
proof (induction cs)
  case (Cons a cs)
  then show ?case by (cases "cs = []") (simp_all add: str_join_Cons)
qed simp

lemma render_snoc: "render (cs @ [c]) = (if cs = [] then slash @ c else render cs @ slash @ c)"
  by (simp add: render_def str_join_snoc)

lemma path_dir_render [simp]:
  assumes "list_all good_name cs"
  shows "path_dir (render cs) = render (butlast cs)"
proof (cases cs rule: rev_cases)
  case Nil
  then show ?thesis by (simp add: path_dir_def render_def path_clean_abs)
next
  case (snoc ds c)
  have g: "list_all good_name ds" and c: "CHR ''/'' \<notin> set c"
    using assms by (auto simp: snoc good_name_def)
  have up: "dropWhile (\<lambda>x. x \<noteq> CHR ''/'') (rev (q @ slash @ c)) = CHR ''/'' # rev q" for q
  proof -
    have "\<And>x. x \<in> set (rev c) \<Longrightarrow> x \<noteq> CHR ''/''" using c by auto
    then show ?thesis using dropWhile_append2 [of "rev c" "\<lambda>x. x \<noteq> CHR ''/''" "CHR ''/'' # rev q"] by simp
  qed
  have "path_clean (render ds @ slash) = render ds"
    using str_split_char_append [of "str_join slash ds" "CHR ''/''" "[]"] g
    by (simp add: render_def path_clean_abs split_join_names)
  moreover have "path_clean slash = render []" by (simp add: render_def path_clean_abs)
  ultimately show ?thesis using up [of "render ds"] up [of "[]"]
    by (simp add: snoc path_dir_def render_snoc)
qed

lemma path_base_render [simp]:
  assumes "list_all good_name (cs @ [c])"
  shows "path_base (render (cs @ [c])) = c"
proof -
  have c: "c \<noteq> []" "CHR ''/'' \<notin> set c" using assms by (auto simp: good_name_def)
  then have "rev c \<noteq> []" "hd (rev c) \<noteq> CHR ''/''" using list.set_sel(1) [of "rev c"] by auto
  then have stem: "dropWhile (\<lambda>x. x = CHR ''/'') (rev c @ t) = rev c @ t" for t
    by (cases "rev c") auto
  have "takeWhile (\<lambda>x. x \<noteq> CHR ''/'') (rev c @ CHR ''/'' # t) = rev c" for t
    using c(2) by (subst takeWhile_append2) auto
  then show ?thesis
    using c by (simp add: path_base_def render_snoc stem)
qed

lemma path_join_render [simp]:
  assumes "list_all good_name (cs @ [c])"
  shows "path_join (render cs) c = render (cs @ [c])"
proof -
  have g: "list_all good_name cs" "list_all good_name [c]" using assms by auto
  have c: "str_split c slash = [c]" using g(2) by (intro str_split_free) (simp add: good_name_def)
  have "str_split (str_join slash cs @ slash @ c) slash = str_split (str_join slash cs) slash @ [c]"
    using str_split_char_append [of "str_join slash cs" "CHR ''/''" c] c by simp
  moreover have "clean_parts True [] (str_split (str_join slash cs) slash @ [c]) = cs @ [c]"
    using good_names_plain [OF g(1)] str_split_join [of cs "CHR ''/''"] clean_parts_id [OF assms, of True "[]"]
      clean_parts_id [OF g(2), of True "[]"]
    by (cases "cs = []") (simp_all add: clean_parts_id)
  ultimately show ?thesis by (simp add: path_join_def render_def path_clean_abs)
qed

lemma render_inject: "list_all good_name cs \<Longrightarrow> list_all good_name ds \<Longrightarrow> render cs = render ds \<longleftrightarrow> cs = ds"
  by (metis names_of_render)

text \<open>Being in a directory is having its names as a prefix, except for the root.\<close>

lemma in_dir_render:
  assumes "list_all good_name rs" "list_all good_name ds" "ds \<noteq> []"
  shows "in_dir (render rs) (render ds) \<longleftrightarrow> prefix ds rs"
proof
  assume "prefix ds rs"
  then obtain es where rs: "rs = ds @ es" by (auto simp: prefix_def)
  show "in_dir (render rs) (render ds)"
  proof (cases es)
    case (Cons e es')
    have "str_join slash (ds @ e # es') = str_join slash ds @ slash @ str_join slash (e # es')"
      using assms(3) by (simp add: str_join_append)
    then show ?thesis by (simp add: rs Cons in_dir_def render_def has_prefix_iff)
  qed (simp add: rs in_dir_def)
next
  assume "in_dir (render rs) (render ds)"
  then consider "render rs = render ds" | t where "render rs = render ds @ slash @ t"
    by (auto simp: in_dir_def has_prefix_iff prefix_def)
  then show "prefix ds rs"
  proof cases
    case 2
    then have "str_join slash rs = str_join slash ds @ slash @ t" by (simp add: render_def)
    then have s: "str_split (str_join slash rs) slash = ds @ str_split t slash"
      using str_split_char_append [of "str_join slash ds" "CHR ''/''" t] str_split_join [of ds "CHR ''/''"]
        good_names_plain [OF assms(2)] assms(3) by simp
    have "rs \<noteq> []" using s assms(3) by (cases ds) auto
    then have "str_split (str_join slash rs) slash = rs"
      using str_split_join [of rs "CHR ''/''"] good_names_plain [OF assms(1)] by simp
    with s show ?thesis by (simp add: prefix_def)
  qed (use assms in \<open>simp add: render_inject\<close>)
qed

section \<open>What resolution and validation do\<close>

text \<open>
  The longest existing ancestor is resolved and the rest is kept; the names are in reverse order.  The documented behaviour of
  \<open>EvalSymlinks\<close> that is relied on: its results for clean absolute paths are clean and absolute.
\<close>

fun resolve_rev :: "(string \<Rightarrow> string res) \<Rightarrow> string list \<Rightarrow> string list" where
  "resolve_rev ev [] = (case ev slash of Inr r \<Rightarrow> names_of r | Inl err \<Rightarrow> [])"
| "resolve_rev ev (c # cs) =
     (case ev (render (rev (c # cs))) of Inr r \<Rightarrow> names_of r | Inl err \<Rightarrow> resolve_rev ev cs @ [c])"

definition resolved_names :: "(string \<Rightarrow> string res) \<Rightarrow> string list \<Rightarrow> string list" where
  "resolved_names ev cs = resolve_rev ev (rev cs)"

definition clean_links :: "(string \<Rightarrow> string res) \<Rightarrow> bool" where
  "clean_links ev \<longleftrightarrow>
     (\<forall>cs r. list_all good_name cs \<and> ev (render cs) = Inr r \<longrightarrow> (\<exists>rs. list_all good_name rs \<and> r = render rs))"

lemma clean_linksD:
  "clean_links ev \<Longrightarrow> list_all good_name cs \<Longrightarrow> ev (render cs) = Inr r \<Longrightarrow> \<exists>rs. list_all good_name rs \<and> r = render rs"
  by (auto simp: clean_links_def)

lemma ResolveExistingPath_names:
  assumes "clean_links ev" "list_all good_name cs"
  shows "list_all good_name (resolved_names ev cs) \<and>
    ResolveExistingPath ev (render cs) = Inr (render (resolved_names ev cs))"
  using assms(2)
proof (induction cs rule: rev_induct)
  case Nil
  have "path_dir (render []) = render []" by simp
  moreover have "render [] = slash" by (simp add: render_def)
  ultimately show ?case using clean_linksD [OF assms(1), of "[]"]
    by (subst ResolveExistingPath.simps) (auto simp: resolved_names_def split: sum.splits)
next
  case (snoc c cs)
  note g = snoc.prems
  then have g': "list_all good_name cs" by simp
  have ne: "render cs \<noteq> render (cs @ [c])" using render_inject [OF g' g] by simp
  note IH = snoc.IH [OF g']
  show ?case
  proof (cases "ev (render (cs @ [c]))")
    case (Inr r)
    then obtain rs where "list_all good_name rs" "r = render rs" using clean_linksD [OF assms(1) g] by blast
    then show ?thesis using Inr by (subst ResolveExistingPath.simps) (simp add: resolved_names_def)
  next
    case (Inl err)
    have gr: "list_all good_name (resolved_names ev cs @ [c])" using IH g by simp
    then have "path_join (render (resolved_names ev cs)) c = render (resolved_names ev cs @ [c])"
      by (rule path_join_render)
    then show ?thesis using Inl IH gr ne path_dir_render [OF g] path_base_render [OF g]
      by (subst ResolveExistingPath.simps) (simp add: resolved_names_def)
  qed
qed

text \<open>
  C29: file tools stay inside their directories.  With allowed directories other than the root, a path is accepted
  exactly if it is absolute and what it names, with the symbolic links of its longest existing ancestor
  resolved, lies in an allowed directory or is one; neither \<open>".."\<close>, nor links, nor a directory whose name
  merely begins like an allowed one gets around that.  The accepted path is the cleaned one.
\<close>

theorem paths_confined:
  assumes "clean_links ev" "dirs \<noteq> []" "\<forall>d\<in>set dirs. is_abs d \<and> path_clean d \<noteq> slash"
  shows "ValidatePath tool ev path (CleanAllowedDirs dirs) = Inr p \<longleftrightarrow>
    is_abs path \<and> p = path_clean path \<and>
    (\<exists>d\<in>set dirs. prefix (names_of (path_clean d)) (resolved_names ev (names_of p)))"
proof (cases "is_abs path")
  case True
  then obtain cs where cs: "list_all good_name cs" "path_clean path = render cs" using path_clean_good by blast
  note R = ResolveExistingPath_names [OF assms(1) cs(1)]
  have "in_dir (render (resolved_names ev cs)) (path_clean d) \<longleftrightarrow> prefix (names_of (path_clean d)) (resolved_names ev cs)"
    if "d \<in> set dirs" for d
  proof -
    have d: "is_abs d" "path_clean d \<noteq> slash" using assms(3) that by auto
    obtain ds where ds: "list_all good_name ds" "path_clean d = render ds" using path_clean_good [OF d(1)] by blast
    have "ds \<noteq> []" using ds(2) d(2) by (auto simp: render_def)
    with ds R show ?thesis by (simp add: in_dir_render)
  qed
  then have "list_ex (in_dir (render (resolved_names ev cs))) (CleanAllowedDirs dirs) \<longleftrightarrow>
      (\<exists>d\<in>set dirs. prefix (names_of (path_clean d)) (resolved_names ev cs))"
    by (auto simp: CleanAllowedDirs_def list_ex_iff)
  moreover have "path \<noteq> []" "CleanAllowedDirs dirs \<noteq> []"
    using True assms(2) by (auto simp: is_abs_iff CleanAllowedDirs_def)
  ultimately show ?thesis using True R cs by (auto simp: ValidatePath_def)
next
  case False
  then show ?thesis by (simp add: ValidatePath_def)
qed

text \<open>A link inside the allowed directory that leads out of it, and a directory with a longer name.\<close>

definition demo_links :: "string \<Rightarrow> string res" where
  "demo_links p =
     (if p = ''/w/out'' then Inr ''/etc'' else if p \<in> {''/'', ''/w'', ''/w/a'', ''/work''} then Inr p
      else Inl (External ''lstat''))"

theorem paths_confined_witness:
  "ValidatePath ''write'' demo_links ''/w/./x/../a/new'' (CleanAllowedDirs [''/w/'']) = Inr ''/w/a/new'' \<and>
   ValidatePath ''write'' demo_links ''/w/out/passwd'' (CleanAllowedDirs [''/w/'']) \<noteq> Inr ''/w/out/passwd'' \<and>
   ValidatePath ''write'' demo_links ''/work/x'' (CleanAllowedDirs [''/w/'']) \<noteq> Inr ''/work/x''"
proof -
  have "\<exists>rs. list_all good_name rs \<and> q = render rs" if "demo_links p = Inr q" for p q
  proof -
    have "q \<in> render ` {[''etc''], [], [''w''], [''w'', ''a''], [''work'']}"
      using that by (auto simp: demo_links_def render_def split: if_splits)
    moreover have "\<forall>rs\<in>{[''etc''], [], [''w''], [''w'', ''a''], [''work'']}. list_all good_name rs"
      by (simp add: good_name_def)
    ultimately show ?thesis by blast
  qed
  then have L: "clean_links demo_links" by (auto simp: clean_links_def)
  have D: "\<forall>d\<in>set [''/w/'']. is_abs d \<and> path_clean d \<noteq> slash" by code_simp
  have "is_abs ''/w/./x/../a/new'' \<and> ''/w/a/new'' = path_clean ''/w/./x/../a/new'' \<and>
      (\<exists>d\<in>set [''/w/'']. prefix (names_of (path_clean d)) (resolved_names demo_links (names_of ''/w/a/new'')))"
    by code_simp
  moreover have "\<not> (\<exists>d\<in>set [''/w/'']. prefix (names_of (path_clean d)) (resolved_names demo_links (names_of ''/w/out/passwd'')))"
    by code_simp
  moreover have "\<not> (\<exists>d\<in>set [''/w/'']. prefix (names_of (path_clean d)) (resolved_names demo_links (names_of ''/work/x'')))"
    by code_simp
  ultimately show ?thesis using paths_confined [OF L _ D, of "''write''"] by blast
qed

text \<open>With the root as an allowed directory no path but the root itself is accepted.\<close>

lemma root_allows_nothing: "ValidatePath ''read'' (\<lambda>p. Inr p) ''/a'' (CleanAllowedDirs [''/'']) \<noteq> Inr ''/a''"
  by code_simp

end
