(* ===== verification/Files.thy ===== *)
theory Files
  imports Paths ToolRegistry
begin

text \<open>
  The file tools: \<open>tool/toolkit/atomicwrite.go\<close>, \<open>snippet.go\<close>, \<open>tool/edit\<close>, \<open>tool/write\<close> and \<open>tool/read\<close>.  A file
  system maps clean absolute paths to files and directories; two names that links make the same are not
  identified.  The record \<open>os_env\<close> holds what the operating system decides: which call fails, how far a
  failing call gets, the name of a temporary file, the entries of a directory.  Arguments arrive decoded; the
  lock that \<open>edit\<close> takes on its path makes a call one step with respect to other edits of the same file.
\<close>

section \<open>The file system\<close>

datatype fs_node = FileNode string nat | DirNode

type_synonym files = "string \<rightharpoonup> fs_node"

datatype os_call =
    Stat | OpenFile | ReadFile | ReadDir | MkdirAll | CreateTemp | WriteTemp | CloseTemp | ChmodTemp | RenameTemp | RemoveTemp

record os_env =
  oe_links :: "string \<Rightarrow> string res"
  oe_fail :: "os_call \<Rightarrow> gerror option"
  oe_partial :: nat
  oe_temp :: string
  oe_list :: "string \<Rightarrow> (string \<times> bool) list"
  oe_readErr :: "(nat \<times> gerror) option"
  oe_ctx :: "int \<Rightarrow> gerror option"
  oe_text :: "gerror \<Rightarrow> string"

datatype stat_info = NotExist | StatError gerror | IsFile string nat | IsDirectory

definition os_stat :: "os_env \<Rightarrow> string \<Rightarrow> files \<Rightarrow> stat_info" where
  "os_stat os p fs =
     (case oe_fail os Stat of
        Some e \<Rightarrow> StatError e
      | None \<Rightarrow> (case fs p of None \<Rightarrow> NotExist | Some DirNode \<Rightarrow> IsDirectory | Some (FileNode c m) \<Rightarrow> IsFile c m))"

text \<open>The directory and everything above it, from the root down; a failing call gets only so far.\<close>

definition ancestors :: "string \<Rightarrow> string list" where
  "ancestors dir = map render (prefixes (names_of dir))"

fun mkdirs :: "string list \<Rightarrow> files \<Rightarrow> files \<times> gerror option" where
  "mkdirs [] fs = (fs, None)"
| "mkdirs (p # ps) fs =
     (case fs p of
        None \<Rightarrow> mkdirs ps (fs(p \<mapsto> DirNode))
      | Some DirNode \<Rightarrow> mkdirs ps fs
      | Some (FileNode _ _) \<Rightarrow> (fs, Some (External ''not a directory'')))"

definition os_MkdirAll :: "os_env \<Rightarrow> string \<Rightarrow> files \<Rightarrow> files \<times> gerror option" where
  "os_MkdirAll os dir fs =
     (case oe_fail os MkdirAll of
        Some e \<Rightarrow> (fst (mkdirs (take (oe_partial os) (ancestors dir)) fs), Some e)
      | None \<Rightarrow> mkdirs (ancestors dir) fs)"

section \<open>Atomic writes\<close>

definition tmp_name :: "os_env \<Rightarrow> string \<Rightarrow> string" where
  "tmp_name os path = path_join (path_dir path) (oe_temp os)"

definition os_Remove :: "os_env \<Rightarrow> string \<Rightarrow> files \<Rightarrow> files" where
  "os_Remove os p fs = (if oe_fail os RemoveTemp = None then fs(p := None) else fs)"

definition os_Rename :: "os_env \<Rightarrow> string \<Rightarrow> string \<Rightarrow> files \<Rightarrow> files \<times> gerror option" where
  "os_Rename os old new fs =
     (case oe_fail os RenameTemp of
        Some e \<Rightarrow> (fs, Some e)
      | None \<Rightarrow>
          if fs new = Some DirNode then (fs, Some (External ''file exists''))
          else (fs(old := None, new := fs old), None))"

definition AtomicWriteFile :: "os_env \<Rightarrow> string \<Rightarrow> string \<Rightarrow> nat \<Rightarrow> files \<Rightarrow> files \<times> gerror option" where
  "AtomicWriteFile os path content perm fs =
     (case os_MkdirAll os (path_dir path) fs of
        (fs1, Some err) \<Rightarrow> (fs1, Some (Errorf ''failed to create directories: %w'' [] (Some err)))
      | (fs1, None) \<Rightarrow>
          (case oe_fail os CreateTemp of
             Some err \<Rightarrow> (fs1, Some (Errorf ''failed to create temp file: %w'' [] (Some err)))
           | None \<Rightarrow>
               (let tmpPath = tmp_name os path;
                    written = (if oe_fail os WriteTemp = None then content else take (oe_partial os) content);
                    fs2 = fs1(tmpPath \<mapsto> FileNode written 384)
                in case oe_fail os WriteTemp of
                     Some writeErr \<Rightarrow>
                       (os_Remove os tmpPath fs2, Some (Errorf ''failed to write temp file: %w'' [] (Some writeErr)))
                   | None \<Rightarrow>
                       (case oe_fail os CloseTemp of
                          Some closeErr \<Rightarrow>
                            (os_Remove os tmpPath fs2, Some (Errorf ''failed to close temp file: %w'' [] (Some closeErr)))
                        | None \<Rightarrow>
                            (case oe_fail os ChmodTemp of
                               Some chmodErr \<Rightarrow>
                                 (os_Remove os tmpPath fs2,
                                  Some (Errorf ''failed to set file permissions: %w'' [] (Some chmodErr)))
                             | None \<Rightarrow>
                                 (case os_Rename os tmpPath path (fs2(tmpPath \<mapsto> FileNode written perm)) of
                                    (fs3, Some renameErr) \<Rightarrow>
                                      (os_Remove os tmpPath fs3,
                                       Some (Errorf ''failed to rename temp file: %w'' [] (Some renameErr)))
                                  | (fs3, None) \<Rightarrow> (fs3, None)))))))"

section \<open>Snippets\<close>

fun target_line :: "int \<Rightarrow> int \<Rightarrow> nat \<Rightarrow> string list \<Rightarrow> nat" where
  "target_line byteOffset pos i [] = 0"
| "target_line byteOffset pos i (line # rest) =
     (let nextPos = pos + int (length line) + 1 in
      if byteOffset < nextPos then i
      else if rest = [] then i
      else target_line byteOffset nextPos (Suc i) rest)"

definition pad_left :: "nat \<Rightarrow> string \<Rightarrow> string" where
  "pad_left w s = replicate (w - length s) (CHR '' '') @ s"

definition newline :: string where
  "newline = [char_of (10 :: nat)]"

definition GenerateEditSnippet :: "string \<Rightarrow> int \<Rightarrow> int \<Rightarrow> string" where
  "GenerateEditSnippet content byteOffset contextLines =
     (if length content = 0 then []
      else
        (let contextLines' = (if contextLines \<le> 0 then 3 else contextLines);
             offset0 = (if byteOffset < 0 then 0 else byteOffset);
             offset1 = (if offset0 \<ge> int (length content) then int (length content) - 1 else offset0);
             lines = str_split content newline;
             targetLine = int (target_line offset1 0 0 lines);
             start = max 0 (targetLine - contextLines');
             stop = min (int (length lines)) (targetLine + contextLines' + 1)
         in concat (map (\<lambda>i. pad_left 4 (itoa (i + 1)) @ ''| '' @ lines ! nat i @ newline) [start..stop - 1])))"

section \<open>The edit tool\<close>

record edit_tool =
  et_allowedDirs :: "string list"
  et_maxFileBytes :: int

record edit_args =
  ea_FilePath :: string
  ea_OldString :: string
  ea_NewString :: string
  ea_ReplaceAll :: bool

definition et_WithMaxFileBytes :: "int \<Rightarrow> edit_tool \<Rightarrow> edit_tool" where
  "et_WithMaxFileBytes n et = et\<lparr>et_maxFileBytes := n\<rparr>"

definition et_WithAllowedDirs :: "string list \<Rightarrow> edit_tool \<Rightarrow> edit_tool" where
  "et_WithAllowedDirs dirs et = et\<lparr>et_allowedDirs := CleanAllowedDirs dirs\<rparr>"

definition et_New :: "(edit_tool \<Rightarrow> edit_tool) list \<Rightarrow> edit_tool" where
  "et_New opts = fold (\<lambda>opt et. opt et) opts \<lparr>et_allowedDirs = [], et_maxFileBytes = 1024 * 1024\<rparr>"

definition failing :: "files \<Rightarrow> string \<Rightarrow> files \<times> tool_result" where
  "failing fs s = (fs, ErrorResult [] s)"

definition edited :: "edit_args \<Rightarrow> string \<Rightarrow> string" where
  "edited parsed contentStr =
     (if ea_ReplaceAll parsed then str_replace_all contentStr (ea_OldString parsed) (ea_NewString parsed)
      else str_replace_first contentStr (ea_OldString parsed) (ea_NewString parsed))"

text \<open>From the content of the file on.\<close>

definition edit_content :: "os_env \<Rightarrow> edit_args \<Rightarrow> string \<Rightarrow> string \<Rightarrow> nat \<Rightarrow> files \<Rightarrow> files \<times> tool_result" where
  "edit_content os parsed cleaned contentStr mode fs =
     (let count = str_count contentStr (ea_OldString parsed) in
      if count = 0 then failing fs ''edit tool: old_string not found in file''
      else if count > 1 \<and> \<not> ea_ReplaceAll parsed then
        failing fs (''edit tool: old_string matches '' @ itoa (int count) @ '' locations; provide more context to make the match unique, or set replace_all to true'')
      else
        (let changePos = (case str_index contentStr (ea_OldString parsed) of Some i \<Rightarrow> int i | None \<Rightarrow> - 1);
             newContent = edited parsed contentStr
         in case AtomicWriteFile os cleaned newContent mode fs of
              (fs', Some writeErr) \<Rightarrow> failing fs' (''edit tool: '' @ oe_text os writeErr)
            | (fs', None) \<Rightarrow>
                (let msg = ''replaced '' @ itoa (int count) @ '' occurrence(s) in '' @ cleaned;
                     snippet = GenerateEditSnippet newContent changePos 3
                 in (fs', TextResult []
                      (if snippet \<noteq> [] then msg @ newline @ ''--- snippet ---'' @ newline @ snippet else msg)))))"

definition et_Handler :: "edit_tool \<Rightarrow> os_env \<Rightarrow> edit_args res \<Rightarrow> files \<Rightarrow> files \<times> tool_result" where
  "et_Handler et os args fs =
     (case oe_ctx os 0 of
        Some err \<Rightarrow> failing fs (''edit tool: '' @ oe_text os err)
      | None \<Rightarrow>
          (case args of
             Inl err \<Rightarrow> failing fs (''edit tool: invalid arguments: '' @ oe_text os err)
           | Inr parsed \<Rightarrow>
               (case ValidatePath ''edit'' (oe_links os) (ea_FilePath parsed) (et_allowedDirs et) of
                  Inl err \<Rightarrow> failing fs (oe_text os err)
                | Inr cleaned \<Rightarrow>
                    if ea_OldString parsed = [] then failing fs ''edit tool: old_string must not be empty''
                    else if ea_OldString parsed = ea_NewString parsed then
                      failing fs ''edit tool: old_string and new_string must differ''
                    else
                      (case os_stat os cleaned fs of
                         NotExist \<Rightarrow> failing fs (''edit tool: file does not exist: '' @ cleaned)
                       | StatError err \<Rightarrow> failing fs (''edit tool: '' @ oe_text os err)
                       | IsDirectory \<Rightarrow> failing fs (''edit tool: path is a directory, not a file: '' @ cleaned)
                       | IsFile content mode \<Rightarrow>
                           if int (length content) > et_maxFileBytes et then
                             failing fs (''edit tool: file exceeds maximum size ('' @ itoa (et_maxFileBytes et) @ '' bytes)'')
                           else
                             (case oe_fail os ReadFile of
                                Some err \<Rightarrow> failing fs (''edit tool: '' @ oe_text os err)
                              | None \<Rightarrow> edit_content os parsed cleaned content mode fs)))))"

section \<open>The write tool\<close>

record write_tool =
  wt_allowedDirs :: "string list"
  wt_maxWriteBytes :: int

record write_args =
  wa_FilePath :: string
  wa_Content :: string
  wa_CreateOnly :: bool

definition wt_WithMaxWriteBytes :: "int \<Rightarrow> write_tool \<Rightarrow> write_tool" where
  "wt_WithMaxWriteBytes n wt = wt\<lparr>wt_maxWriteBytes := n\<rparr>"

definition wt_WithAllowedDirs :: "string list \<Rightarrow> write_tool \<Rightarrow> write_tool" where
  "wt_WithAllowedDirs dirs wt = wt\<lparr>wt_allowedDirs := CleanAllowedDirs dirs\<rparr>"

definition wt_New :: "(write_tool \<Rightarrow> write_tool) list \<Rightarrow> write_tool" where
  "wt_New opts = fold (\<lambda>opt wt. opt wt) opts \<lparr>wt_allowedDirs = [], wt_maxWriteBytes = 1024 * 1024\<rparr>"

text \<open>New files get the permission bits 0644; other files keep theirs, which the write of a directory never reaches.\<close>

definition kept_perm :: "stat_info \<Rightarrow> nat option" where
  "kept_perm info =
     (case info of NotExist \<Rightarrow> None | StatError _ \<Rightarrow> None | IsFile _ mode \<Rightarrow> Some mode | IsDirectory \<Rightarrow> Some 493)"

definition wt_Handler :: "write_tool \<Rightarrow> os_env \<Rightarrow> write_args res \<Rightarrow> files \<Rightarrow> files \<times> tool_result" where
  "wt_Handler wt os args fs =
     (case oe_ctx os 0 of
        Some err \<Rightarrow> failing fs (''write tool: '' @ oe_text os err)
      | None \<Rightarrow>
          (case args of
             Inl err \<Rightarrow> failing fs (''write tool: invalid arguments: '' @ oe_text os err)
           | Inr parsed \<Rightarrow>
               (case ValidatePath ''write'' (oe_links os) (wa_FilePath parsed) (wt_allowedDirs wt) of
                  Inl err \<Rightarrow> failing fs (oe_text os err)
                | Inr cleaned \<Rightarrow>
                    if int (length (wa_Content parsed)) > wt_maxWriteBytes wt then
                      failing fs (''write tool: content exceeds maximum size ('' @ itoa (wt_maxWriteBytes wt) @ '' bytes)'')
                    else
                      (let present = kept_perm (os_stat os cleaned fs) in
                       if present \<noteq> None \<and> wa_CreateOnly parsed then
                         failing fs (''write tool: file already exists (create_only=true): '' @ cleaned)
                       else
                         (case AtomicWriteFile os cleaned (wa_Content parsed)
                                 (case present of Some perm \<Rightarrow> perm | None \<Rightarrow> 420) fs of
                            (fs', Some writeErr) \<Rightarrow> failing fs' (''write tool: '' @ oe_text os writeErr)
                          | (fs', None) \<Rightarrow>
                              (fs', TextResult [] (''wrote '' @ itoa (int (length (wa_Content parsed))) @ '' bytes to '' @ cleaned)))))))"

section \<open>The read tool\<close>

record read_tool =
  rt_allowedDirs :: "string list"
  rt_maxReadBytes :: int

record read_args =
  ra_FilePath :: string
  ra_Offset :: "int option"
  ra_Limit :: "int option"
  ra_ShowLineNumbers :: bool

definition rt_WithMaxReadBytes :: "int \<Rightarrow> read_tool \<Rightarrow> read_tool" where
  "rt_WithMaxReadBytes n rt = rt\<lparr>rt_maxReadBytes := n\<rparr>"

definition rt_WithAllowedDirs :: "string list \<Rightarrow> read_tool \<Rightarrow> read_tool" where
  "rt_WithAllowedDirs dirs rt = rt\<lparr>rt_allowedDirs := CleanAllowedDirs dirs\<rparr>"

definition rt_New :: "(read_tool \<Rightarrow> read_tool) list \<Rightarrow> read_tool" where
  "rt_New opts = fold (\<lambda>opt rt. opt rt) opts \<lparr>rt_allowedDirs = [], rt_maxReadBytes = 256 * 1024\<rparr>"

text \<open>
  \<open>bufio.Scanner\<close> with a buffer of at most \<open>maxScanLineBytes\<close>: the lines it returns, without their ends, and its
  error.  A line that does not fit ends the scan; an error of the file ends it after what was read.
\<close>

definition maxScanLineBytes :: int where
  "maxScanLineBytes = 1024 * 1024"

definition drop_cr :: "string \<Rightarrow> string" where
  "drop_cr line = (if line \<noteq> [] \<and> last line = char_of (13 :: nat) then butlast line else line)"

fun scan_lines :: "string list \<Rightarrow> string list \<times> bool" where
  "scan_lines [] = ([], False)"
| "scan_lines (line # rest) =
     (if rest = [] \<and> line = [] then ([], False)
      else if int (length line) \<ge> maxScanLineBytes then ([], True)
      else (case scan_lines rest of (lines, tooLong) \<Rightarrow> (drop_cr line # lines, tooLong)))"

definition scanner :: "os_env \<Rightarrow> string \<Rightarrow> string list \<times> gerror option" where
  "scanner os content =
     (case oe_readErr os of
        None \<Rightarrow>
          (case scan_lines (str_split content newline) of
             (lines, tooLong) \<Rightarrow>
               (lines, if tooLong then Some (Sentinel ''bufio.Scanner: token too long'') else None))
      | Some (n, err) \<Rightarrow>
          (case scan_lines (str_split (take n content) newline) of
             (lines, tooLong) \<Rightarrow>
               (lines, Some (if tooLong then Sentinel ''bufio.Scanner: token too long'' else err))))"

definition shown_line :: "bool \<Rightarrow> int \<Rightarrow> string \<Rightarrow> string" where
  "shown_line numbers lineNum line = (if numbers then itoa lineNum @ [char_of (9 :: nat)] @ line else line)"

definition add_line :: "string \<Rightarrow> string \<Rightarrow> string" where
  "add_line result line = (if result \<noteq> [] then result @ newline @ line else line)"

text \<open>The result is the text to return or the error to report; the loop ends with the scanner or with the limit.\<close>

fun read_loop ::
  "read_tool \<Rightarrow> os_env \<Rightarrow> bool \<Rightarrow> int \<Rightarrow> int option \<Rightarrow> gerror option \<Rightarrow> int \<Rightarrow> int \<Rightarrow> int \<Rightarrow> string \<Rightarrow> string list \<Rightarrow> tool_result" where
  "read_loop rt os numbers offset limit scanErr lineNum linesRead totalBytes result [] =
     (case scanErr of
        Some err \<Rightarrow> ErrorResult [] (''read tool: error reading file: '' @ oe_text os err)
      | None \<Rightarrow> TextResult [] result)"
| "read_loop rt os numbers offset limit scanErr lineNum linesRead totalBytes result (line # rest) =
     (case oe_ctx os (lineNum + 1) of
        Some err \<Rightarrow> ErrorResult [] (''read tool: '' @ oe_text os err)
      | None \<Rightarrow>
          (let lineNum' = lineNum + 1 in
           if lineNum' < offset then
             read_loop rt os numbers offset limit scanErr lineNum' linesRead totalBytes result rest
           else
             (let lineLen = int (length line) + 1 in
              if totalBytes + lineLen > rt_maxReadBytes rt then
                (let remaining = rt_maxReadBytes rt - totalBytes;
                     result' = (if remaining > 0
                       then add_line result (shown_line numbers lineNum' (take (nat remaining) line)) else result)
                 in TextResult [] (result' @ newline @ ''... [output truncated, showing first '' @
                      itoa (rt_maxReadBytes rt) @ '' bytes]''))
              else
                (let result' = add_line result (shown_line numbers lineNum' line);
                     linesRead' = linesRead + 1
                 in if (case limit of Some n \<Rightarrow> linesRead' \<ge> n | None \<Rightarrow> False) then TextResult [] result'
                    else read_loop rt os numbers offset limit scanErr lineNum' linesRead' (totalBytes + lineLen)
                           result' rest))))"

definition listDirectory :: "os_env \<Rightarrow> string \<Rightarrow> tool_result" where
  "listDirectory os dir =
     (case oe_fail os ReadDir of
        Some err \<Rightarrow> ErrorResult [] (''read tool: '' @ oe_text os err)
      | None \<Rightarrow>
          (let listing = oe_list os dir;
               shown = concat (map (\<lambda>(name, isDir). name @ (if isDir then ''/'' else []) @ newline) (take 200 listing));
               more = (if length listing > 200
                 then newline @ ''... truncated, showing first 200 of '' @ itoa (int (length listing)) @ '' entries''
                 else [])
           in TextResult [] (''Directory: '' @ dir @ newline @ newline @ shown @ more)))"

definition rt_Handler :: "read_tool \<Rightarrow> os_env \<Rightarrow> read_args res \<Rightarrow> files \<Rightarrow> tool_result" where
  "rt_Handler rt os args fs =
     (case oe_ctx os 0 of
        Some err \<Rightarrow> ErrorResult [] (''read tool: '' @ oe_text os err)
      | None \<Rightarrow>
          (case args of
             Inl err \<Rightarrow> ErrorResult [] (''read tool: invalid arguments: '' @ oe_text os err)
           | Inr parsed \<Rightarrow>
               (case ValidatePath ''read'' (oe_links os) (ra_FilePath parsed) (rt_allowedDirs rt) of
                  Inl err \<Rightarrow> ErrorResult [] (oe_text os err)
                | Inr cleaned \<Rightarrow>
                    (let offset = (case ra_Offset parsed of Some n \<Rightarrow> n | None \<Rightarrow> 1) in
                     if offset < 1 then ErrorResult [] ''read tool: offset must be >= 1''
                     else if (case ra_Limit parsed of Some n \<Rightarrow> n < 1 | None \<Rightarrow> False)
                     then ErrorResult [] ''read tool: limit must be >= 1''
                     else
                       (case os_stat os cleaned fs of
                          NotExist \<Rightarrow> ErrorResult [] (''read tool: file does not exist: '' @ cleaned)
                        | StatError err \<Rightarrow> ErrorResult [] (''read tool: '' @ oe_text os err)
                        | IsDirectory \<Rightarrow> listDirectory os cleaned
                        | IsFile content mode \<Rightarrow>
                            (case oe_fail os OpenFile of
                               Some err \<Rightarrow> ErrorResult [] (''read tool: '' @ oe_text os err)
                             | None \<Rightarrow>
                                 (case scanner os content of
                                    (lines, scanErr) \<Rightarrow>
                                      read_loop rt os (ra_ShowLineNumbers parsed) offset (ra_Limit parsed) scanErr
                                        0 0 0 [] lines)))))))"

section \<open>Registration\<close>

definition file_tool_def :: "string \<Rightarrow> string \<Rightarrow> 'p \<Rightarrow> bool \<Rightarrow> 'p tool_def" where
  "file_tool_def name description parameters readOnly =
     \<lparr>td_Name = name, td_Description = description, td_Parameters = parameters, td_ForceUse = False,
      td_Source = ''local'', td_MCPServerURI = [], td_AgentID = [], td_ReadOnly = readOnly\<rparr>"

definition et_Register ::
  "string \<Rightarrow> 'p \<Rightarrow> (string \<Rightarrow> edit_args res) \<Rightarrow> os_env \<Rightarrow> (edit_tool \<Rightarrow> edit_tool) list \<Rightarrow> (files, 'p) registry \<Rightarrow>
     (files, 'p) registry \<times> gerror option" where
  "et_Register description parameters decode os opts =
     RegisterIfAbsent (file_tool_def ''edit'' description parameters False)
       (Some (\<lambda>fs name args. case et_Handler (et_New opts) os (decode args) fs of (fs', r) \<Rightarrow> (fs', Inr r)))"

definition wt_Register ::
  "string \<Rightarrow> 'p \<Rightarrow> (string \<Rightarrow> write_args res) \<Rightarrow> os_env \<Rightarrow> (write_tool \<Rightarrow> write_tool) list \<Rightarrow> (files, 'p) registry \<Rightarrow>
     (files, 'p) registry \<times> gerror option" where
  "wt_Register description parameters decode os opts =
     RegisterIfAbsent (file_tool_def ''write'' description parameters False)
       (Some (\<lambda>fs name args. case wt_Handler (wt_New opts) os (decode args) fs of (fs', r) \<Rightarrow> (fs', Inr r)))"

definition rt_Register ::
  "string \<Rightarrow> 'p \<Rightarrow> (string \<Rightarrow> read_args res) \<Rightarrow> os_env \<Rightarrow> (read_tool \<Rightarrow> read_tool) list \<Rightarrow> (files, 'p) registry \<Rightarrow>
     (files, 'p) registry \<times> gerror option" where
  "rt_Register description parameters decode os opts =
     RegisterIfAbsent (file_tool_def ''read'' description parameters True)
       (Some (\<lambda>fs name args. (fs, Inr (rt_Handler (rt_New opts) os (decode args) fs))))"

end
