(* ===== verification/FileProps.thy ===== *)
theory FileProps
  imports Files
begin

text \<open>
  What the file tools promise: writes are all or nothing and leave nothing else behind, an edit replaces exactly the text it
  was asked to replace, and a read returns the requested lines.
\<close>

section \<open>Atomic writes\<close>

lemma mkdirs_frame:
  "mkdirs ps fs = (fs', e) \<Longrightarrow> fs' q = fs q \<or> fs q = None \<and> fs' q = Some DirNode \<and> q \<in> set ps"
proof (induction ps arbitrary: fs)
  case (Cons p ps)
  show ?case
  proof (cases "fs p")
    case None
    then have "mkdirs ps (fs(p \<mapsto> DirNode)) = (fs', e)" using Cons.prems by simp
    from Cons.IH [OF this] None show ?thesis by (cases "q = p") auto
  next
    case (Some nd)
    then show ?thesis using Cons by (cases nd) auto
  qed
qed simp

lemma MkdirAll_frame:
  "os_MkdirAll os dir fs = (fs', e) \<Longrightarrow> fs' q = fs q \<or> fs q = None \<and> fs' q = Some DirNode \<and> q \<in> set (ancestors dir)"
  by (auto simp: os_MkdirAll_def split: option.splits prod.splits dest!: in_set_takeD dest: mkdirs_frame)
    (metis fst_conv in_set_takeD mkdirs_frame prod.exhaust_sel)+

lemma ancestors_short:
  "list_all good_name ds \<Longrightarrow> q \<in> set (ancestors (render ds)) \<Longrightarrow> list_all good_name (ds @ [n]) \<Longrightarrow> q \<noteq> render (ds @ [n])"
proof
  assume g: "list_all good_name ds" "list_all good_name (ds @ [n])" and q: "q \<in> set (ancestors (render ds))" "q = render (ds @ [n])"
  then obtain es where es: "prefix es ds" "q = render es" by (auto simp: ancestors_def)
  then have "list_all good_name es" using g(1) by (auto simp: prefix_def)
  then have "es = ds @ [n]" using es q(2) g(2) by (simp add: render_inject)
  then show False using es(1) by (auto dest: prefix_length_le)
qed

definition fresh_temp :: "os_env \<Rightarrow> string list \<Rightarrow> string \<Rightarrow> files \<Rightarrow> bool" where
  "fresh_temp os ds n fs \<longleftrightarrow>
     list_all good_name (ds @ [n]) \<and> good_name (oe_temp os) \<and> oe_temp os \<noteq> n \<and> fs (render (ds @ [oe_temp os])) = None"

lemma tmp_name_render: "fresh_temp os ds n fs \<Longrightarrow> tmp_name os (render (ds @ [n])) = render (ds @ [oe_temp os])"
  by (simp add: tmp_name_def fresh_temp_def)

lemma atomic_contract:
  assumes "fresh_temp os ds n fs" "AtomicWriteFile os (render (ds @ [n])) content perm fs = (fs', e)"
  shows "fs' (render (ds @ [n])) = (if e = None then Some (FileNode content perm) else fs (render (ds @ [n])))"
    and "q \<noteq> render (ds @ [n]) \<Longrightarrow> fs' q = fs q \<or>
      fs q = None \<and> fs' q = Some DirNode \<and> q \<in> set (ancestors (render ds)) \<or>
      e \<noteq> None \<and> oe_fail os RemoveTemp \<noteq> None \<and> q = render (ds @ [oe_temp os])"
proof -
  let ?p = "render (ds @ [n])" and ?t = "render (ds @ [oe_temp os])"
  have g: "list_all good_name ds" "list_all good_name (ds @ [n])" "list_all good_name (ds @ [oe_temp os])"
    and t: "fs ?t = None" using assms(1) by (auto simp: fresh_temp_def)
  have tp: "?t \<noteq> ?p" using render_inject [OF g(3,2)] assms(1) by (auto simp: fresh_temp_def)
  have d: "path_dir ?p = render ds" using path_dir_render [OF g(2)] by simp
  obtain fs1 e1 where m: "os_MkdirAll os (render ds) fs = (fs1, e1)" by fastforce
  have F: "fs1 q = fs q \<or> fs q = None \<and> fs1 q = Some DirNode \<and> q \<in> set (ancestors (render ds))" for q
    by (rule MkdirAll_frame [OF m])
  have p1: "fs1 ?p = fs ?p" using F [of ?p] ancestors_short [OF g(1) _ g(2)] by auto
  have t1: "fs1 ?t = None" using F [of ?t] ancestors_short [OF g(1) _ g(3)] t by auto
  note A = assms(2) [unfolded AtomicWriteFile_def d m tmp_name_render [OF assms(1)] Let_def os_Rename_def]
  show "fs' ?p = (if e = None then Some (FileNode content perm) else fs ?p)"
    using A p1 t1 tp by (auto simp: os_Remove_def split: option.splits if_splits)
  show "fs' q = fs q \<or> fs q = None \<and> fs' q = Some DirNode \<and> q \<in> set (ancestors (render ds)) \<or>
      e \<noteq> None \<and> oe_fail os RemoveTemp \<noteq> None \<and> q = ?t" if "q \<noteq> ?p"
    using A F [of q] t1 t that by (cases "q = ?t") (auto simp: os_Remove_def split: option.splits if_splits)
qed

text \<open>
  C30: atomic writes.  Whichever call of the operating system fails, and however far it got, the file at the path has either
  the new content with the given permissions, when no error is reported, or exactly what it had before, when
  one is.  Nothing else changes, except that missing parent directories are created; the temporary file
  stays behind only if removing it failed as well.
\<close>

theorem atomic_write:
  assumes "fresh_temp os ds n fs" "AtomicWriteFile os (render (ds @ [n])) content perm fs = (fs', e)"
  shows "fs' (render (ds @ [n])) = (if e = None then Some (FileNode content perm) else fs (render (ds @ [n]))) \<and>
    (\<forall>q. q \<noteq> render (ds @ [n]) \<longrightarrow> fs' q = fs q \<or>
      fs q = None \<and> fs' q = Some DirNode \<and> q \<in> set (ancestors (render ds)) \<or>
      e \<noteq> None \<and> oe_fail os RemoveTemp \<noteq> None \<and> q = tmp_name os (render (ds @ [n])))"
  using atomic_contract [OF assms] tmp_name_render [OF assms(1)] by (cases "e = None") auto

definition demo_os :: "(os_call \<Rightarrow> gerror option) \<Rightarrow> os_env" where
  "demo_os fails = \<lparr>oe_links = (\<lambda>p. Inr p), oe_fail = fails, oe_partial = 2, oe_temp = ''.atomic-1.tmp'',
     oe_list = (\<lambda>_. []), oe_readErr = None, oe_ctx = (\<lambda>_. None), oe_text = (\<lambda>_. ''error'')\<rparr>"

definition disk_full :: "os_call \<Rightarrow> gerror option" where
  "disk_full c = (if c = WriteTemp then Some (External ''no space left on device'') else None)"

definition demo_fs :: files where
  "demo_fs = [''/'' \<mapsto> DirNode, ''/w'' \<mapsto> DirNode, ''/w/a'' \<mapsto> FileNode ''one two'' 416]"

text \<open>A full disk in the middle of a write, in a directory that exists.\<close>

theorem atomic_write_witness:
  "\<exists>fs' e. AtomicWriteFile (demo_os disk_full) (render [''w'', ''a'']) ''three'' 416 demo_fs = (fs', Some e) \<and>
     fs' (render [''w'', ''a'']) = Some (FileNode ''one two'' 416) \<and> fs' (render [''w'', ''.atomic-1.tmp'']) = None"
proof -
  have f: "fresh_temp (demo_os disk_full) [''w''] ''a'' demo_fs"
    by (simp add: fresh_temp_def demo_os_def good_name_def demo_fs_def render_def)
  obtain fs' e where A: "AtomicWriteFile (demo_os disk_full) (render ([''w''] @ [''a''])) ''three'' 416 demo_fs = (fs', e)"
    by fastforce
  moreover have "snd (AtomicWriteFile (demo_os disk_full) (render ([''w''] @ [''a''])) ''three'' 416 demo_fs) \<noteq> None"
    by code_simp
  ultimately have e: "e \<noteq> None" by simp
  have "demo_fs (render [''w'', ''a'']) = Some (FileNode ''one two'' 416)" by code_simp
  moreover have "demo_fs (render [''w'', ''.atomic-1.tmp'']) = None" by code_simp
  moreover have "render [''w'', ''.atomic-1.tmp''] \<noteq> render [''w'', ''a'']" by code_simp
  moreover have "oe_fail (demo_os disk_full) RemoveTemp = None" by code_simp
  moreover have "render [''w'', ''.atomic-1.tmp''] \<notin> set (ancestors (render [''w'']))" by code_simp
  ultimately show ?thesis using atomic_write [OF f A] A e by fastforce
qed

section \<open>Edits\<close>

definition plain_dirs :: "string list \<Rightarrow> files \<Rightarrow> bool" where
  "plain_dirs ds fs \<longleftrightarrow> (\<forall>p\<in>set (ancestors (render ds)). \<forall>c m. fs p \<noteq> Some (FileNode c m))"

lemma mkdirs_plain: "\<forall>p\<in>set ps. \<forall>c m. fs p \<noteq> Some (FileNode c m) \<Longrightarrow> snd (mkdirs ps fs) = None"
proof (induction ps arbitrary: fs)
  case (Cons p ps)
  show ?case
  proof (cases "fs p")
    case None
    have "\<forall>q\<in>set ps. \<forall>c m. (fs(p \<mapsto> DirNode)) q \<noteq> Some (FileNode c m)" using Cons.prems by auto
    from Cons.IH [OF this] None show ?thesis by (simp add: fun_upd_def)
  next
    case (Some nd)
    then show ?thesis using Cons by (cases nd) auto
  qed
qed simp

lemma write_succeeds:
  assumes "fresh_temp os ds n fs" "plain_dirs ds fs" "oe_fail os = (\<lambda>_. None)" "fs (render (ds @ [n])) \<noteq> Some DirNode"
  shows "snd (AtomicWriteFile os (render (ds @ [n])) content perm fs) = None"
proof -
  have g: "list_all good_name ds" "list_all good_name (ds @ [n])" "list_all good_name (ds @ [oe_temp os])"
    using assms(1) by (auto simp: fresh_temp_def)
  have tp: "render (ds @ [oe_temp os]) \<noteq> render (ds @ [n])"
    using render_inject [OF g(3,2)] assms(1) by (auto simp: fresh_temp_def)
  have d: "path_dir (render (ds @ [n])) = render ds" using path_dir_render [OF g(2)] by simp
  obtain fs1 where m: "os_MkdirAll os (render ds) fs = (fs1, None)"
    using mkdirs_plain [of "ancestors (render ds)" fs] assms(2,3)
    by (cases "mkdirs (ancestors (render ds)) fs") (auto simp: plain_dirs_def os_MkdirAll_def)
  have "fs1 (render (ds @ [n])) \<noteq> Some DirNode"
    using MkdirAll_frame [OF m, of "render (ds @ [n])"] ancestors_short [OF g(1) _ g(2)] assms(4) by auto
  then show ?thesis
    using tp assms(3) by (simp add: AtomicWriteFile_def d m tmp_name_render [OF assms(1)] Let_def os_Rename_def)
qed

lemma IsError_results [simp]: "tr_IsError (ErrorResult i s)" "\<not> tr_IsError (TextResult i s)"
  by (simp_all add: ErrorResult_def TextResult_def)

lemma str_cut_first: "str_cut s sep = Some (b, a) \<Longrightarrow> s = p @ sep @ q \<Longrightarrow> length b \<le> length p"
  by (auto simp: str_cut_def dest: str_index_first split: option.splits)

lemma str_replace_all_cut:
  "old \<noteq> [] \<Longrightarrow> str_cut s old = Some (b, a) \<Longrightarrow> str_replace_all s old new = b @ new @ str_replace_all a old new"
  by (simp add: str_replace_all_def str_split.simps [of s] str_join_Cons)

text \<open>
  C31: an edit replaces exactly what it was asked to.  When no call of the operating system fails, an edit of a file is
  refused, and changes nothing, exactly if the old text is empty, equal to the new one or not in the file, if
  the file is too large, or if all occurrences are not wanted and there is more than one.  Otherwise the
  file, with its permissions, has the new text in place of the first occurrence, and of all later ones
  when asked; when only one was to be replaced, no other follows it.
\<close>

theorem edit_exact:
  assumes "ValidatePath ''edit'' (oe_links os) (ea_FilePath args) (et_allowedDirs et) = Inr (render (ds @ [n]))"
    and "oe_fail os = (\<lambda>_. None)" "oe_ctx os 0 = None" "fresh_temp os ds n fs" "plain_dirs ds fs"
    and "fs (render (ds @ [n])) = Some (FileNode content mode)" "et_Handler et os (Inr args) fs = (fs', r)"
  shows "(tr_IsError r \<longleftrightarrow> ea_OldString args = [] \<or> ea_OldString args = ea_NewString args \<or>
        int (length content) > et_maxFileBytes et \<or> \<not> sublist (ea_OldString args) content \<or>
        \<not> ea_ReplaceAll args \<and> 1 < str_count content (ea_OldString args)) \<and>
    (if tr_IsError r then fs' = fs
     else (\<exists>b a. content = b @ ea_OldString args @ a \<and>
       (\<forall>p q. content = p @ ea_OldString args @ q \<longrightarrow> length b \<le> length p) \<and>
       fs' (render (ds @ [n])) = Some (FileNode (b @ ea_NewString args @
         (if ea_ReplaceAll args then str_replace_all a (ea_OldString args) (ea_NewString args) else a)) mode) \<and>
       (ea_ReplaceAll args \<or> \<not> sublist (ea_OldString args) a)))"
proof (cases "ea_OldString args = [] \<or> ea_OldString args = ea_NewString args \<or> int (length content) > et_maxFileBytes et")
  case True
  then have "fs' = fs" "tr_IsError r"
    using assms(7) by (auto simp: et_Handler_def os_stat_def failing_def assms(1-3,6) split: if_splits)
  with True show ?thesis by auto
next
  case False
  let ?old = "ea_OldString args" and ?count = "str_count content (ea_OldString args)"
  have H: "edit_content os args (render (ds @ [n])) content mode fs = (fs', r)"
    using assms False by (simp add: et_Handler_def os_stat_def)
  note zero = str_count_0 [of ?old content]
  show ?thesis
  proof (cases "?count = 0 \<or> ?count > 1 \<and> \<not> ea_ReplaceAll args")
    case True
    then show ?thesis using H zero False by (auto simp: edit_content_def failing_def Let_def split: if_splits)
  next
    case ok: False
    have S: "sublist ?old content" using zero ok False by auto
    obtain b a where c: "str_cut content ?old = Some (b, a)"
      using S str_cut_None [of content ?old] by (cases "str_cut content ?old") auto
    have "edited args content = b @ ea_NewString args @
        (if ea_ReplaceAll args then str_replace_all a ?old (ea_NewString args) else a)"
      using c False by (simp add: edited_def str_replace_all_cut str_replace_first_def)
    moreover have "snd (AtomicWriteFile os (render (ds @ [n])) (edited args content) mode fs) = None"
      by (rule write_succeeds) (use assms in simp_all)
    then have "\<not> tr_IsError r \<and> AtomicWriteFile os (render (ds @ [n])) (edited args content) mode fs = (fs', None)"
      using H ok by (auto simp: edit_content_def Let_def split: prod.splits)
    moreover have "\<not> ea_ReplaceAll args \<Longrightarrow> \<not> sublist ?old a"
    proof -
      assume "\<not> ea_ReplaceAll args"
      with ok have "?count = 1" by auto
      then show ?thesis using str_count_1 [of ?old content] c False by auto
    qed
    ultimately show ?thesis
      using atomic_contract(1) [OF assms(4), of "edited args content" mode fs' None] S ok False
        str_cut_Some [OF c] str_cut_first [OF c]
      by auto
  qed
qed

definition demo_edit :: edit_args where
  "demo_edit = \<lparr>ea_FilePath = ''/w/./a'', ea_OldString = ''two'', ea_NewString = ''three'', ea_ReplaceAll = False\<rparr>"

theorem edit_exact_witness:
  "\<exists>fs' r. et_Handler (et_New []) (demo_os (\<lambda>_. None)) (Inr demo_edit) demo_fs = (fs', r) \<and> \<not> tr_IsError r \<and>
     fs' (render [''w'', ''a'']) = Some (FileNode ''one three'' 416)"
proof -
  let ?os = "demo_os (\<lambda>_. None)"
  have v: "ValidatePath ''edit'' (oe_links ?os) (ea_FilePath demo_edit) (et_allowedDirs (et_New [])) =
      Inr (render ([''w''] @ [''a'']))"
    by code_simp
  have f: "fresh_temp ?os [''w''] ''a'' demo_fs"
    by (simp add: fresh_temp_def demo_os_def good_name_def demo_fs_def render_def)
  have d: "plain_dirs [''w''] demo_fs"
    by (auto simp: plain_dirs_def ancestors_def render_def demo_fs_def good_name_def names_of_def str_split_char_Cons)
  have c: "demo_fs (render ([''w''] @ [''a''])) = Some (FileNode ''one two'' 416)" by code_simp
  have n: "oe_fail ?os = (\<lambda>_. None)" "oe_ctx ?os 0 = None" by (simp_all add: demo_os_def)
  obtain fs' r where H: "et_Handler (et_New []) ?os (Inr demo_edit) demo_fs = (fs', r)" by fastforce
  have "\<not> tr_IsError (snd (et_Handler (et_New []) ?os (Inr demo_edit) demo_fs))" by code_simp
  then have ok: "\<not> tr_IsError r" using H by simp
  from edit_exact [OF v n f d c H] ok obtain b a where
    "''one two'' = b @ ''two'' @ a" "\<not> sublist ''two'' a" "\<forall>p q. ''one two'' = p @ ''two'' @ q \<longrightarrow> length b \<le> length p"
    and N: "fs' (render [''w'', ''a'']) = Some (FileNode (b @ ''three'' @ a) 416)"
    by (auto simp: demo_edit_def)
  moreover have "length b \<le> length ''one ''" using calculation(3) [rule_format, of "''one ''" "[]"] by simp
  moreover have "length b = 4 \<or> length b < 4" using calculation(5) by auto
  ultimately have "b = ''one '' \<and> a = []"
    by (auto simp: append_eq_Cons_conv Cons_eq_append_conv)
  then show ?thesis using H ok N by auto
qed

text \<open>Overlapping occurrences count once, so an edit can be unique for the tool and ambiguous in the file.\<close>

lemma overlapping_is_unique: "str_count ''aaa'' ''aa'' = 1 \<and> ''aaa'' = [] @ ''aa'' @ ''a'' \<and> ''aaa'' = ''a'' @ ''aa'' @ []"
  by code_simp

section \<open>Reading\<close>

definition plain_line :: "string \<Rightarrow> bool" where
  "plain_line l \<longleftrightarrow> char_of (10 :: nat) \<notin> set l \<and> drop_cr l = l \<and> int (length l) < maxScanLineBytes"

definition unlines :: "string list \<Rightarrow> string" where
  "unlines ls = concat (map (\<lambda>l. l @ newline) ls)"

lemma split_unlines: "\<forall>l\<in>set ls. plain_line l \<Longrightarrow> str_split (unlines ls) newline = ls @ [[]]"
proof (induction ls)
  case (Cons l ls)
  then show ?case
    using str_split_char_append [of l "char_of (10 :: nat)" "unlines ls"] str_split_free [of "char_of (10 :: nat)" l]
    by (simp add: unlines_def newline_def plain_line_def)
qed (simp add: unlines_def newline_def)

lemma scan_plain: "\<forall>l\<in>set ls. plain_line l \<Longrightarrow> scan_lines (ls @ [[]]) = (ls, False)"
  by (induction ls) (auto simp: plain_line_def not_le)

text \<open>The lines shown, from a number on.\<close>

fun shown_from :: "bool \<Rightarrow> int \<Rightarrow> string list \<Rightarrow> string list" where
  "shown_from numbers k [] = []"
| "shown_from numbers k (l # ls) = shown_line numbers k l # shown_from numbers (k + 1) ls"

definition at_most :: "int option \<Rightarrow> int \<Rightarrow> string list \<Rightarrow> string list" where
  "at_most limit seen ls = (case limit of None \<Rightarrow> ls | Some n \<Rightarrow> take (nat (n - seen)) ls)"

definition bytes :: "string list \<Rightarrow> int" where
  "bytes ls = sum_list (map (\<lambda>l. int (length l) + 1) ls)"

lemma bytes_simps [simp]: "bytes [] = 0" "bytes (l # ls) = int (length l) + 1 + bytes ls"
  by (simp_all add: bytes_def)

lemma bytes_nonneg: "0 \<le> bytes ls"
  by (induction ls) simp_all

lemma at_most_Cons:
  "(\<forall>n. limit = Some n \<longrightarrow> seen < n) \<Longrightarrow> at_most limit seen (l # ls) =
     l # (if (case limit of Some n \<Rightarrow> seen + 1 \<ge> n | None \<Rightarrow> False) then [] else at_most limit (seen + 1) ls)"
proof (cases limit)
  case (Some n)
  assume "\<forall>n. limit = Some n \<longrightarrow> seen < n"
  with Some have "nat (n - seen) = Suc (nat (n - (seen + 1)))" by simp
  then show ?thesis using Some by (simp add: at_most_def)
qed (simp add: at_most_def)

lemma read_loop_skip:
  assumes "\<forall>i. oe_ctx os i = None"
  shows "read_loop rt os numbers offset limit e lineNum seen sofar result ls =
    read_loop rt os numbers offset limit e (lineNum + int (min (nat (offset - 1 - lineNum)) (length ls))) seen sofar result
      (drop (nat (offset - 1 - lineNum)) ls)"
proof (induction ls arbitrary: lineNum)
  case (Cons l ls)
  show ?case
  proof (cases "lineNum + 1 < offset")
    case True
    then have "nat (offset - 1 - lineNum) = Suc (nat (offset - 1 - (lineNum + 1)))" by simp
    then show ?thesis using Cons.IH [of "lineNum + 1"] True assms by (simp add: add.assoc min_def)
  qed simp
qed simp

lemma read_loop_window:
  assumes "\<forall>i. oe_ctx os i = None"
  shows "offset \<le> lineNum + 1 \<Longrightarrow> \<forall>n. limit = Some n \<longrightarrow> seen < n \<Longrightarrow>
    sofar + bytes (at_most limit seen ls) \<le> rt_maxReadBytes rt \<Longrightarrow>
    read_loop rt os numbers offset limit None lineNum seen sofar result ls =
      TextResult [] (fold (\<lambda>l r. add_line r l) (shown_from numbers (lineNum + 1) (at_most limit seen ls)) result)"
proof (induction ls arbitrary: lineNum seen sofar result)
  case Nil
  then show ?case by (simp add: at_most_def split: option.split)
next
  case (Cons l ls)
  note A = at_most_Cons [OF Cons.prems(2), of l ls]
  have b: "sofar + (int (length l) + 1) \<le> rt_maxReadBytes rt"
    using Cons.prems(3) bytes_nonneg [of "at_most limit (seen + 1) ls"] unfolding A
    by (cases "case limit of Some n \<Rightarrow> seen + 1 \<ge> n | None \<Rightarrow> False") simp_all
  show ?case
  proof (cases "case limit of Some n \<Rightarrow> seen + 1 \<ge> n | None \<Rightarrow> False")
    case True
    then show ?thesis using A b Cons.prems(1) assms by simp
  next
    case False
    then have "\<forall>n. limit = Some n \<longrightarrow> seen + 1 < n" by auto
    then show ?thesis
      using Cons.IH [of "lineNum + 1" "seen + 1" "sofar + (int (length l) + 1)"] A b False Cons.prems assms
      by simp
  qed
qed

text \<open>A line that is empty adds nothing as long as the result is empty.\<close>

lemma add_lines:
  "fold (\<lambda>l r. add_line r l) ls r =
     (if r \<noteq> [] then str_join newline (r # ls) else str_join newline (dropWhile (\<lambda>l. l = []) ls))"
proof (induction ls arbitrary: r)
  case (Cons l ls)
  have "str_join newline ((r @ newline @ l) # ls) = str_join newline (r # l # ls)" by (cases ls) simp_all
  then show ?case using Cons.IH by (simp add: add_line_def)
qed simp

lemma dropWhile_numbered: "dropWhile (\<lambda>l. l = []) (shown_from True k ls) = shown_from True k ls"
  by (cases ls) (simp_all add: shown_line_def)

lemma shown_plain: "shown_from False k ls = ls"
  by (induction ls arbitrary: k) (simp_all add: shown_line_def)

definition requested :: "read_args \<Rightarrow> string list \<Rightarrow> string list" where
  "requested args ls = at_most (ra_Limit args) 0 (drop (nat (case ra_Offset args of Some n \<Rightarrow> n | None \<Rightarrow> 1) - 1) ls)"

lemma read_file:
  assumes "ValidatePath ''read'' (oe_links os) (ra_FilePath args) (rt_allowedDirs rt) = Inr path"
    and "oe_fail os = (\<lambda>_. None)" "\<forall>i. oe_ctx os i = None" "oe_readErr os = None"
    and "fs path = Some (FileNode (unlines ls) mode)" "\<forall>l\<in>set ls. plain_line l"
    and "(case ra_Offset args of Some n \<Rightarrow> n | None \<Rightarrow> 1) = k" "1 \<le> k" "\<forall>n. ra_Limit args = Some n \<longrightarrow> 0 < n"
    and "bytes (requested args ls) \<le> rt_maxReadBytes rt"
  shows "rt_Handler rt os (Inr args) fs =
    TextResult [] (str_join newline (dropWhile (\<lambda>l. l = []) (shown_from (ra_ShowLineNumbers args) k (requested args ls))))"
proof -
  have n: "nat (k - 1) = nat k - 1" using assms(8) by simp
  have L: "\<not> (case ra_Limit args of Some n \<Rightarrow> n < 1 | None \<Rightarrow> False)" using assms(9) by (auto split: option.split)
  have "rt_Handler rt os (Inr args) fs =
      read_loop rt os (ra_ShowLineNumbers args) k (ra_Limit args) None 0 0 0 [] ls"
    using assms(1-5,7,8) L split_unlines [OF assms(6)] scan_plain [OF assms(6)]
    by (simp add: rt_Handler_def os_stat_def scanner_def Let_def)
  also have "\<dots> = read_loop rt os (ra_ShowLineNumbers args) k (ra_Limit args) None
      (int (min (nat (k - 1)) (length ls))) 0 0 [] (drop (nat k - 1) ls)"
    using read_loop_skip [OF assms(3), of rt "ra_ShowLineNumbers args" k "ra_Limit args" None 0 0 0 "[]" ls] n by simp
  also have "\<dots> = TextResult [] (str_join newline
      (dropWhile (\<lambda>l. l = []) (shown_from (ra_ShowLineNumbers args) k (requested args ls))))"
  proof (cases "nat (k - 1) \<le> length ls")
    case True
    then show ?thesis
      using read_loop_window [OF assms(3), of k "k - 1" "ra_Limit args" 0 0 "drop (nat k - 1) ls" rt] assms(7-10)
      by (simp add: add_lines requested_def min_def)
  next
    case False
    then have "drop (nat k - 1) ls = []" using n by simp
    moreover from this have "requested args ls = []"
      unfolding requested_def assms(7) by (cases "ra_Limit args") (simp_all add: at_most_def)
    ultimately show ?thesis by simp
  qed
  finally show ?thesis .
qed


definition demo_write :: write_args where
  "demo_write = \<lparr>wa_FilePath = ''/w/b'', wa_Content = unlines [''one'', ''two'', ''three''], wa_CreateOnly = True\<rparr>"

definition demo_read :: read_args where
  "demo_read = \<lparr>ra_FilePath = ''/w/../w/b'', ra_Offset = Some 2, ra_Limit = Some 5, ra_ShowLineNumbers = False\<rparr>"


text \<open>An empty first line is lost.\<close>

lemma leading_blank_lost:
  "tr_Content (rt_Handler (rt_New []) (demo_os (\<lambda>_. None)) (Inr (demo_read\<lparr>ra_Offset := None\<rparr>))
     [''/w/b'' \<mapsto> FileNode (newline @ ''a'') 420]) = [\<lparr>cp_Type = ''text'', cp_Text = ''a''\<rparr>]"
  by code_simp

section \<open>Snippets\<close>

text \<open>The line marked by a position is the one that holds it.\<close>

lemma target_line_at:
  "pos \<le> offset \<Longrightarrow> ls \<noteq> [] \<Longrightarrow> offset < pos + bytes ls \<Longrightarrow>
    (\<exists>j < length ls. target_line offset pos i ls = i + j \<and> pos + bytes (take j ls) \<le> offset \<and>
       offset < pos + bytes (take (Suc j) ls))"
proof (induction ls arbitrary: pos i)
  case (Cons l ls)
  show ?case
  proof (cases "offset < pos + int (length l) + 1")
    case True
    then show ?thesis using Cons.prems by (intro exI [of _ 0]) simp
  next
    case False
    with Cons.prems have ne: "ls \<noteq> []" by auto
    obtain j where "j < length ls" "target_line offset (pos + int (length l) + 1) (Suc i) ls = Suc i + j"
        "pos + int (length l) + 1 + bytes (take j ls) \<le> offset"
        "offset < pos + int (length l) + 1 + bytes (take (Suc j) ls)"
      using Cons.IH [of "pos + int (length l) + 1" "Suc i"] False ne Cons.prems by (auto simp: add.assoc)
    then show ?thesis using False ne by (intro exI [of _ "Suc j"]) (simp add: Let_def)
  qed
qed simp

end
