(* ===== verification/EditLocks.thy ===== *)
theory EditLocks
  imports Files
begin

text \<open>
  Concurrent edits under the locks of \<open>tool/toolkit/filelock.go\<close>.  Each edit is a goroutine that looks up the mutex of its
  path, locks it, reads the file, writes it back and unlocks, as the handler of \<open>tool/edit/edit_tool.go\<close> does; the write
  tool of \<open>tool/write/write_tool.go\<close> writes without a lock.  A job is a path and what it makes of the
  content it has read.
\<close>

datatype 'c edit_pc = Begin | Waiting nat | Holding nat | HasRead nat 'c | Written nat | Ended

record 'c lock_state =
  lk_locks :: "string \<rightharpoonup> nat"
  lk_made :: nat
  lk_owner :: "nat \<rightharpoonup> nat"
  lk_pc :: "nat \<Rightarrow> 'c edit_pc"
  lk_files :: "string \<Rightarrow> 'c"
  lk_order :: "nat list"

text \<open>\<open>lk_owner\<close> has the locked mutexes with the jobs that locked them; \<open>lk_order\<close> only records which jobs have written, in order.\<close>

definition lock_start :: "(string \<Rightarrow> 'c) \<Rightarrow> 'c lock_state" where
  "lock_start files =
     \<lparr>lk_locks = Map.empty, lk_made = 0, lk_owner = Map.empty, lk_pc = (\<lambda>_. Begin), lk_files = files, lk_order = []\<rparr>"

text \<open>The first half of \<open>LockPath\<close>, one step under the mutex of the table.\<close>

definition get_mutex :: "string \<Rightarrow> 'c lock_state \<Rightarrow> 'c lock_state \<times> nat" where
  "get_mutex path s =
     (case lk_locks s path of
        Some m \<Rightarrow> (s, m)
      | None \<Rightarrow> (s\<lparr>lk_locks := (lk_locks s)(path \<mapsto> lk_made s), lk_made := Suc (lk_made s)\<rparr>, lk_made s))"

datatype 'c lock_move =
    Lookup nat
  | Acquire nat
  | ReadFile nat
  | WriteBack nat
  | Unlock nat
  | PlainWrite string 'c

definition to_pc :: "nat \<Rightarrow> 'c edit_pc \<Rightarrow> 'c lock_state \<Rightarrow> 'c lock_state" where
  "to_pc i p s = s\<lparr>lk_pc := (lk_pc s)(i := p)\<rparr>"

fun lock_step :: "(string \<times> ('c \<Rightarrow> 'c)) list \<Rightarrow> 'c lock_move \<Rightarrow> 'c lock_state \<Rightarrow> 'c lock_state option" where
  "lock_step jobs (Lookup i) s =
     (if i < length jobs \<and> lk_pc s i = Begin
      then (case get_mutex (fst (jobs ! i)) s of (s', m) \<Rightarrow> Some (to_pc i (Waiting m) s')) else None)"
| "lock_step jobs (Acquire i) s =
     (case lk_pc s i of
        Waiting m \<Rightarrow> if lk_owner s m \<noteq> None then None else Some (to_pc i (Holding m) (s\<lparr>lk_owner := (lk_owner s)(m \<mapsto> i)\<rparr>))
      | _ \<Rightarrow> None)"
| "lock_step jobs (ReadFile i) s =
     (case lk_pc s i of Holding m \<Rightarrow> Some (to_pc i (HasRead m (lk_files s (fst (jobs ! i)))) s) | _ \<Rightarrow> None)"
| "lock_step jobs (WriteBack i) s =
     (case lk_pc s i of
        HasRead m c \<Rightarrow> Some (to_pc i (Written m)
          (s\<lparr>lk_files := (lk_files s)(fst (jobs ! i) := snd (jobs ! i) c), lk_order := lk_order s @ [i]\<rparr>))
      | _ \<Rightarrow> None)"
| "lock_step jobs (Unlock i) s =
     (case lk_pc s i of Written m \<Rightarrow> Some (to_pc i Ended (s\<lparr>lk_owner := (lk_owner s)(m := None)\<rparr>)) | _ \<Rightarrow> None)"
| "lock_step jobs (PlainWrite path c) s = Some (s\<lparr>lk_files := (lk_files s)(path := c)\<rparr>)"

fun lock_steps :: "(string \<times> ('c \<Rightarrow> 'c)) list \<Rightarrow> 'c lock_move list \<Rightarrow> 'c lock_state \<Rightarrow> 'c lock_state option" where
  "lock_steps jobs [] s = Some s"
| "lock_steps jobs (m # ms) s =
     (case lock_step jobs m s of None \<Rightarrow> None | Some s' \<Rightarrow> lock_steps jobs ms s')"

section \<open>The invariant\<close>

fun mutex_of :: "'c edit_pc \<Rightarrow> nat option" where
  "mutex_of (Waiting m) = Some m"
| "mutex_of (Holding m) = Some m"
| "mutex_of (HasRead m c) = Some m"
| "mutex_of (Written m) = Some m"
| "mutex_of _ = None"

fun held_by :: "'c edit_pc \<Rightarrow> nat option" where
  "held_by (Holding m) = Some m"
| "held_by (HasRead m c) = Some m"
| "held_by (Written m) = Some m"
| "held_by _ = None"

definition apply_jobs :: "(string \<times> ('c \<Rightarrow> 'c)) list \<Rightarrow> nat list \<Rightarrow> (string \<Rightarrow> 'c) \<Rightarrow> (string \<Rightarrow> 'c)" where
  "apply_jobs jobs order files =
     fold (\<lambda>i fs. fs(fst (jobs ! i) := snd (jobs ! i) (fs (fst (jobs ! i))))) order files"

lemma apply_jobs_append [simp]:
  "apply_jobs jobs (order @ [i]) files =
     (apply_jobs jobs order files)(fst (jobs ! i) := snd (jobs ! i) (apply_jobs jobs order files (fst (jobs ! i))))"
  by (simp add: apply_jobs_def)

definition lock_inv :: "(string \<times> ('c \<Rightarrow> 'c)) list \<Rightarrow> (string \<Rightarrow> 'c) \<Rightarrow> 'c lock_state \<Rightarrow> bool" where
  "lock_inv jobs files s \<longleftrightarrow>
     (\<forall>i m. mutex_of (lk_pc s i) = Some m \<longrightarrow> lk_locks s (fst (jobs ! i)) = Some m) \<and>
     (\<forall>i m. lk_owner s m = Some i \<longleftrightarrow> held_by (lk_pc s i) = Some m) \<and>
     (\<forall>i m c. lk_pc s i = HasRead m c \<longrightarrow> c = lk_files s (fst (jobs ! i))) \<and>
     lk_files s = apply_jobs jobs (lk_order s) files \<and> distinct (lk_order s) \<and>
     (\<forall>i. i \<in> set (lk_order s) \<longleftrightarrow> lk_pc s i = Ended \<or> (\<exists>m. lk_pc s i = Written m)) \<and>
     (\<forall>i. lk_pc s i \<noteq> Begin \<longrightarrow> i < length jobs)"

lemma lock_inv_start: "lock_inv jobs files (lock_start files)"
  by (simp add: lock_inv_def lock_start_def apply_jobs_def)

text \<open>Jobs on the same path share the mutex, so at most one of them is between lock and unlock.\<close>

lemma held_mutex: "held_by p = Some m \<Longrightarrow> mutex_of p = Some m"
  by (cases p) auto

lemma one_holder:
  assumes "lock_inv jobs files s" "held_by (lk_pc s i) = Some m" "held_by (lk_pc s j) = Some k"
    and "fst (jobs ! i) = fst (jobs ! j)"
  shows "i = j"
proof -
  have "Some m = Some k" using assms held_mutex unfolding lock_inv_def by metis
  then have "lk_owner s m = Some i" "lk_owner s m = Some j" using assms(1-3) by (auto simp: lock_inv_def)
  then show ?thesis by simp
qed

lemma lookup_inv:
  assumes I: "lock_inv jobs files s" and b: "lk_pc s i = Begin" "i < length jobs"
    and g: "get_mutex (fst (jobs ! i)) s = (s', m)"
  shows "lock_inv jobs files (to_pc i (Waiting m) s')"
proof (cases "lk_locks s (fst (jobs ! i))")
  case (Some k)
  then have "s' = s" "m = k" using g by (simp_all add: get_mutex_def)
  then show ?thesis using I b Some by (auto simp: lock_inv_def to_pc_def)
next
  case None
  then have "s' = s\<lparr>lk_locks := (lk_locks s)(fst (jobs ! i) \<mapsto> m), lk_made := Suc m\<rparr>"
    using g by (auto simp: get_mutex_def)
  moreover have "mutex_of (lk_pc s j) \<noteq> Some k" if "fst (jobs ! j) = fst (jobs ! i)" for j k
    using I None that unfolding lock_inv_def by (metis option.distinct(1))
  ultimately show ?thesis using I b None by (auto simp: lock_inv_def to_pc_def)
qed

lemma acquire_inv:
  assumes I: "lock_inv jobs files s" and b: "lk_pc s i = Waiting m" "lk_owner s m = None"
  shows "lock_inv jobs files (to_pc i (Holding m) (s\<lparr>lk_owner := (lk_owner s)(m \<mapsto> i)\<rparr>))"
proof -
  have "held_by (lk_pc s j) \<noteq> Some m" for j
    using I b(2) unfolding lock_inv_def by (metis option.distinct(1))
  then show ?thesis using I b by (auto simp: lock_inv_def to_pc_def)
qed

lemma read_inv:
  assumes "lock_inv jobs files s" "lk_pc s i = Holding m"
  shows "lock_inv jobs files (to_pc i (HasRead m (lk_files s (fst (jobs ! i)))) s)"
  using assms by (auto simp: lock_inv_def to_pc_def)

lemma write_inv:
  assumes I: "lock_inv jobs files s" and b: "lk_pc s i = HasRead m c"
  shows "lock_inv jobs files (to_pc i (Written m)
    (s\<lparr>lk_files := (lk_files s)(fst (jobs ! i) := snd (jobs ! i) c), lk_order := lk_order s @ [i]\<rparr>))"
proof -
  have c: "c = lk_files s (fst (jobs ! i))" using I b by (auto simp: lock_inv_def)
  have other: "fst (jobs ! j) \<noteq> fst (jobs ! i)" if "lk_pc s j = HasRead k d" "j \<noteq> i" for j k d
    using one_holder [OF I, of j k i m] that b by auto
  have new: "i \<notin> set (lk_order s)" using I b by (auto simp: lock_inv_def)
  have f: "lk_files s = apply_jobs jobs (lk_order s) files" using I by (simp add: lock_inv_def)
  let ?s = "to_pc i (Written m)
    (s\<lparr>lk_files := (lk_files s)(fst (jobs ! i) := snd (jobs ! i) c), lk_order := lk_order s @ [i]\<rparr>)"
  have pc: "lk_pc ?s = (lk_pc s)(i := Written m)" "lk_locks ?s = lk_locks s" "lk_owner ?s = lk_owner s"
    "lk_order ?s = lk_order s @ [i]" "lk_files ?s = (lk_files s)(fst (jobs ! i) := snd (jobs ! i) c)"
    by (simp_all add: to_pc_def)
  have "lk_files ?s = apply_jobs jobs (lk_order ?s) files" using f c by (simp add: to_pc_def)
  moreover have "\<forall>j k d. lk_pc ?s j = HasRead k d \<longrightarrow> d = lk_files ?s (fst (jobs ! j))"
    using I other unfolding pc by (auto simp: lock_inv_def)
  moreover have "\<forall>j k. mutex_of (lk_pc ?s j) = Some k \<longrightarrow> lk_locks ?s (fst (jobs ! j)) = Some k"
    "\<forall>j k. lk_owner ?s k = Some j \<longleftrightarrow> held_by (lk_pc ?s j) = Some k" "\<forall>j. lk_pc ?s j \<noteq> Begin \<longrightarrow> j < length jobs"
    using I b unfolding pc by (auto simp: lock_inv_def)
  moreover have "distinct (lk_order ?s)" using I new unfolding pc by (simp add: lock_inv_def)
  moreover have "\<forall>j. j \<in> set (lk_order ?s) \<longleftrightarrow> lk_pc ?s j = Ended \<or> (\<exists>m. lk_pc ?s j = Written m)"
    using I b unfolding pc by (auto simp: lock_inv_def)
  ultimately show ?thesis unfolding lock_inv_def by blast
qed

lemma unlock_inv:
  assumes I: "lock_inv jobs files s" and b: "lk_pc s i = Written m"
  shows "lock_inv jobs files (to_pc i Ended (s\<lparr>lk_owner := (lk_owner s)(m := None)\<rparr>))"
proof -
  have "lk_owner s m = Some i" using I b by (simp add: lock_inv_def)
  then have "held_by (lk_pc s j) \<noteq> Some m" if "j \<noteq> i" for j
    using I that unfolding lock_inv_def by (metis option.inject)
  then show ?thesis using I b by (auto simp: lock_inv_def to_pc_def)
qed

text \<open>Every move of an edit keeps the invariant.\<close>

lemma lock_step_inv:
  "lock_inv jobs files s \<Longrightarrow> lock_step jobs mv s = Some s' \<Longrightarrow> (\<And>p c. mv \<noteq> PlainWrite p c) \<Longrightarrow> lock_inv jobs files s'"
  by (cases mv)
    (auto split: if_splits edit_pc.splits prod.splits
      intro: lookup_inv acquire_inv read_inv write_inv unlock_inv)

lemma lock_steps_inv:
  "lock_inv jobs files s \<Longrightarrow> lock_steps jobs ms s = Some s' \<Longrightarrow> (\<And>p c. PlainWrite p c \<notin> set ms) \<Longrightarrow> lock_inv jobs files s'"
proof (induction ms arbitrary: s)
  case (Cons mv ms)
  obtain t where t: "lock_step jobs mv s = Some t" "lock_steps jobs ms t = Some s'"
    using Cons.prems(2) by (auto split: option.splits)
  have "lock_inv jobs files t" using lock_step_inv [OF Cons.prems(1) t(1)] Cons.prems(3) by auto
  then show ?case using Cons.IH t(2) Cons.prems(3) by auto
qed simp

section \<open>Edits under locks\<close>

definition all_ended :: "(string \<times> ('c \<Rightarrow> 'c)) list \<Rightarrow> 'c lock_state \<Rightarrow> bool" where
  "all_ended jobs s \<longleftrightarrow> (\<forall>i<length jobs. lk_pc s i = Ended)"

lemma lock_progress:
  assumes I: "lock_inv jobs files s" and n: "\<not> all_ended jobs s"
  shows "\<exists>mv s'. (\<forall>p c. mv \<noteq> PlainWrite p c) \<and> lock_step jobs mv s = Some s'"
proof -
  have holder: ?thesis if h: "held_by (lk_pc s j) = Some m" for j m
  proof (cases "lk_pc s j")
    case (Holding k)
    then show ?thesis by (intro exI [of _ "ReadFile j"]) simp
  next
    case (HasRead k c)
    then show ?thesis by (intro exI [of _ "WriteBack j"]) simp
  next
    case (Written k)
    then show ?thesis by (intro exI [of _ "Unlock j"]) simp
  qed (use h in simp_all)
  obtain i where i: "i < length jobs" "lk_pc s i \<noteq> Ended" using n by (auto simp: all_ended_def)
  show ?thesis
  proof (cases "held_by (lk_pc s i)")
    case None
    then consider "lk_pc s i = Begin" | m where "lk_pc s i = Waiting m" using i(2) by (cases "lk_pc s i") auto
    then show ?thesis
    proof cases
      case 1
      then show ?thesis using i(1)
        by (cases "get_mutex (fst (jobs ! i)) s") (intro exI [of _ "Lookup i"], simp)
    next
      case (2 m)
      show ?thesis
      proof (cases "lk_owner s m")
        case None
        then show ?thesis using 2 by (intro exI [of _ "Acquire i"]) simp
      next
        case (Some j)
        then have "held_by (lk_pc s j) = Some m" using I by (simp add: lock_inv_def)
        then show ?thesis by (rule holder)
      qed
    qed
  qed (rule holder)
qed

text \<open>
  C40: edits of the same process never lose each other's changes.  However the goroutines of any number of edits are
  interleaved, at every moment the files are what the edits that have written, one after the other in the order of
  their writes, make of the files at the start, each reading what the one before it left; while not all have
  ended some goroutine can go on; and when all have ended, every edit has been applied exactly once.
\<close>

theorem edits_serialize:
  assumes "lock_steps jobs ms (lock_start files) = Some s" and "\<And>p c. PlainWrite p c \<notin> set ms"
  shows "lk_files s = apply_jobs jobs (lk_order s) files \<and> distinct (lk_order s) \<and>
    (all_ended jobs s \<or> (\<exists>mv s'. (\<forall>p c. mv \<noteq> PlainWrite p c) \<and> lock_step jobs mv s = Some s')) \<and>
    (all_ended jobs s \<longrightarrow> mset (lk_order s) = mset [0..<length jobs])"
proof -
  have I: "lock_inv jobs files s" by (rule lock_steps_inv [OF lock_inv_start assms])
  have "mset (lk_order s) = mset [0..<length jobs]" if e: "all_ended jobs s"
  proof -
    have ord: "i \<in> set (lk_order s) \<longleftrightarrow> lk_pc s i = Ended \<or> (\<exists>m. lk_pc s i = Written m)"
      and small: "lk_pc s i \<noteq> Begin \<Longrightarrow> i < length jobs" for i
      using I by (simp_all add: lock_inv_def)
    have mem: "i \<in> set (lk_order s) \<longleftrightarrow> i < length jobs" for i
    proof
      assume "i \<in> set (lk_order s)"
      then have "lk_pc s i \<noteq> Begin" using ord [of i] by (cases "lk_pc s i") simp_all
      then show "i < length jobs" by (rule small)
    next
      assume "i < length jobs"
      then have "lk_pc s i = Ended" using e by (simp add: all_ended_def)
      then show "i \<in> set (lk_order s)" using ord [of i] by blast
    qed
    have "set (lk_order s) = set [0..<length jobs]" by (rule set_eqI) (simp add: mem)
    moreover have "distinct (lk_order s)" using I by (simp add: lock_inv_def)
    ultimately show ?thesis using set_eq_iff_mset_eq_distinct [of "lk_order s" "[0..<length jobs]"] by simp
  qed
  moreover have "all_ended jobs s \<or> (\<exists>mv s'. (\<forall>p c. mv \<noteq> PlainWrite p c) \<and> lock_step jobs mv s = Some s')"
    using lock_progress [OF I] by blast
  moreover have "lk_files s = apply_jobs jobs (lk_order s) files" "distinct (lk_order s)"
    using I by (simp_all add: lock_inv_def)
  ultimately show ?thesis by (intro conjI impI) simp_all
qed

text \<open>Two edits of one file and one of another, interleaved; the second edit of the file waits for the first.\<close>

definition demo_jobs :: "(string \<times> (string \<Rightarrow> string)) list" where
  "demo_jobs = [(''/a'', \<lambda>c. c @ ''1''), (''/a'', \<lambda>c. c @ ''2''), (''/b'', \<lambda>c. c @ ''3'')]"

definition demo_moves :: "string lock_move list" where
  "demo_moves = [Lookup 1, Lookup 0, Lookup 2, Acquire 1, Acquire 2, ReadFile 1, ReadFile 2, WriteBack 2, WriteBack 1,
     Unlock 1, Acquire 0, Unlock 2, ReadFile 0, WriteBack 0, Unlock 0]"

theorem edits_serialize_witness:
  "\<exists>s. lock_steps demo_jobs demo_moves (lock_start (\<lambda>_. [])) = Some s \<and> all_ended demo_jobs s \<and>
     lk_files s ''/a'' = ''21'' \<and> mset (lk_order s) = {#0, 1, 2#}"
proof -
  let ?o = "lock_steps demo_jobs demo_moves (lock_start (\<lambda>_. []))"
  have r: "map_option (\<lambda>s. (all_ended demo_jobs s, lk_files s ''/a'')) ?o = Some (True, ''21'')"
    by (simp add: demo_jobs_def demo_moves_def lock_start_def get_mutex_def to_pc_def all_ended_def All_less_Suc numeral_eq_Suc)
  then obtain s where s: "?o = Some s" "all_ended demo_jobs s" "lk_files s ''/a'' = ''21''" by auto
  have "PlainWrite p c \<notin> set demo_moves" for p c by (simp add: demo_moves_def)
  from edits_serialize [OF s(1) this] s show ?thesis
    by (auto simp: demo_jobs_def numeral_eq_Suc)
qed

text \<open>The write tool takes no lock: what it writes between the reading and the writing of an edit is lost.\<close>

lemma write_during_edit_is_lost:
  "map_option (\<lambda>s. lk_files s p) (lock_steps [(p, f)]
     [Lookup 0, Acquire 0, ReadFile 0, PlainWrite p new, WriteBack 0, Unlock 0] (lock_start (\<lambda>_. old))) = Some (f old)"
  by (simp add: lock_start_def get_mutex_def to_pc_def)

end
