(* ===== verification/Eval.thy ===== *)
theory Eval
  imports GoText AgentPrep
begin

text \<open>
  Package \<open>eval\<close>: the evaluators of single answers (\<open>exact_match.go\<close>, \<open>contains.go\<close>, \<open>tool_call.go\<close>, \<open>cost.go\<close>,
  \<open>latency.go\<close>), the judge (\<open>llm_judge.go\<close>) and composites (\<open>composite.go\<close>).  Scores are rationals where the
  sources compute in 64-bit floats; the time a call takes is an argument, and so are \<open>strconv.ParseFloat\<close> and
  the text of an error.
\<close>

section \<open>Cases and results\<close>

record eval_case =
  ec_ID :: string
  ec_Input :: "request option"
  ec_Expected :: "response option"
  ec_Actual :: "response option"
  ec_Criteria :: "string list"
  ec_Tags :: "string list"

datatype detail_text = Plain string | Sprintf string "farg list"

record eval_detail =
  dt_Name :: string
  dt_Score :: rat
  dt_Passed :: bool
  dt_Message :: detail_text

record eval_result =
  er_CaseID :: string
  er_Score :: rat
  er_Passed :: bool
  er_Details :: "eval_detail list"
  er_Duration :: int
  er_Usage :: "usage option"
  er_Error :: string

type_synonym 'w evaluator = "'w \<Rightarrow> eval_case \<Rightarrow> 'w \<times> eval_result res"

definition lastAssistantText :: "response option \<Rightarrow> string" where
  "lastAssistantText resp =
     (case resp of
        None \<Rightarrow> []
      | Some r \<Rightarrow>
          (case find (\<lambda>m. m_role m = RoleAssistant) (rev (rs_Messages r)) of
             Some m \<Rightarrow> am_Text (m_ai m)
           | None \<Rightarrow> []))"

definition clamp :: "rat \<Rightarrow> rat \<Rightarrow> rat \<Rightarrow> rat" where
  "clamp v lo hi = (if v < lo then lo else if v > hi then hi else v)"

lemma clamp_unit [simp]: "0 \<le> clamp v 0 1" "clamp v 0 1 \<le> 1"
  by (simp_all add: clamp_def)

definition detail :: "string \<Rightarrow> rat \<Rightarrow> bool \<Rightarrow> detail_text \<Rightarrow> eval_detail" where
  "detail name score passed msg = \<lparr>dt_Name = name, dt_Score = score, dt_Passed = passed, dt_Message = msg\<rparr>"

definition eval_result_of ::
  "eval_case \<Rightarrow> rat \<Rightarrow> bool \<Rightarrow> eval_detail list \<Rightarrow> int \<Rightarrow> usage option \<Rightarrow> eval_result" where
  "eval_result_of c score passed details duration u =
     \<lparr>er_CaseID = ec_ID c, er_Score = score, er_Passed = passed, er_Details = details, er_Duration = duration,
      er_Usage = u, er_Error = []\<rparr>"

lemma eval_result_of_simps [simp]:
  "er_CaseID (eval_result_of c s p ds d u) = ec_ID c" "er_Score (eval_result_of c s p ds d u) = s"
  "er_Passed (eval_result_of c s p ds d u) = p" "er_Details (eval_result_of c s p ds d u) = ds"
  "er_Usage (eval_result_of c s p ds d u) = u" "er_Error (eval_result_of c s p ds d u) = []"
  by (simp_all add: eval_result_of_def)

section \<open>Evaluators without a state\<close>

definition exact_Evaluate :: "int \<Rightarrow> eval_case \<Rightarrow> eval_result res" where
  "exact_Evaluate duration c =
     (if ec_Expected c = None then Inl (Sentinel ''exact match requires a non-nil Expected response'')
      else
        (case ec_Actual c of
           None \<Rightarrow> Inl (Sentinel ''exact match requires a non-nil Actual response'')
         | Some actual \<Rightarrow>
             (let expectedText = lastAssistantText (ec_Expected c);
                  actualText = lastAssistantText (ec_Actual c);
                  passed = (actualText = expectedText);
                  score = (if passed then 1 else 0);
                  msg = (if passed then Plain ''exact match''
                    else Sprintf ''expected %q but got %q'' [AStr expectedText, AStr actualText])
              in Inr (eval_result_of c score passed [detail ''exact_match'' score passed msg] duration (rs_Usage actual)))))"

record contains_config =
  cc_Keywords :: "string list"
  cc_PassThreshold :: rat

definition NewContainsEval :: "contains_config option \<Rightarrow> contains_config res" where
  "NewContainsEval cfg =
     (case cfg of
        None \<Rightarrow> Inl (Sentinel ''ContainsEval requires a non-nil config'')
      | Some c \<Rightarrow>
          Inr \<lparr>cc_Keywords = cc_Keywords c,
               cc_PassThreshold = (if cc_PassThreshold c \<le> 0 then 1 else cc_PassThreshold c)\<rparr>)"

definition keyword_detail :: "string \<Rightarrow> string \<Rightarrow> eval_detail" where
  "keyword_detail actualText keyword =
     (if contains actualText (to_lower keyword) then detail keyword 1 True (Sprintf ''keyword %q found'' [AStr keyword])
      else detail keyword 0 False (Sprintf ''keyword %q not found'' [AStr keyword]))"

definition contains_Evaluate :: "contains_config \<Rightarrow> int \<Rightarrow> eval_case \<Rightarrow> eval_result res" where
  "contains_Evaluate e duration c =
     (case ec_Actual c of
        None \<Rightarrow> Inl (Sentinel ''contains eval requires a non-nil Actual response'')
      | Some actual \<Rightarrow>
          (let actualText = to_lower (lastAssistantText (ec_Actual c)) in
           if length (cc_Keywords e) = 0 then
             Inr (eval_result_of c 1 True
               [detail ''contains'' 1 True (Plain ''no keywords to check (vacuously true)'')] duration (rs_Usage actual))
           else
             (let details = map (keyword_detail actualText) (cc_Keywords e);
                  hits = length (filter dt_Passed details);
                  score = of_nat hits / of_nat (length (cc_Keywords e))
              in Inr (eval_result_of c score (score \<ge> cc_PassThreshold e) details duration (rs_Usage actual)))))"

record cost_config =
  co_Budget :: int
  co_FailOnMissingUsage :: bool

definition NewCostEval :: "cost_config option \<Rightarrow> cost_config res" where
  "NewCostEval cfg =
     (case cfg of
        None \<Rightarrow> Inl (Sentinel ''CostEval requires a non-nil config'')
      | Some c \<Rightarrow> if co_Budget c \<le> 0 then Inl (Sentinel ''cost budget must be greater than zero'') else Inr c)"

definition cost_Evaluate :: "cost_config \<Rightarrow> int \<Rightarrow> eval_case \<Rightarrow> eval_result res" where
  "cost_Evaluate e duration c =
     (case ec_Actual c of
        None \<Rightarrow> Inl (Sentinel ''cost eval requires a non-nil Actual response'')
      | Some actual \<Rightarrow>
          (case rs_Usage actual of
             None \<Rightarrow>
               if co_FailOnMissingUsage e then
                 Inr (eval_result_of c 0 False [detail ''cost'' 0 False
                   (Plain ''no usage data available and FailOnMissingUsage is enabled'')] duration None)
               else
                 Inr (eval_result_of c 1 True [detail ''cost'' 1 True (Plain ''no usage data available'')] duration None)
           | Some u \<Rightarrow>
               (let score = clamp (1 - of_int (TotalTokens u) / of_int (2 * co_Budget e)) 0 1;
                    passed = (TotalTokens u \<le> co_Budget e)
                in Inr (eval_result_of c score passed [detail ''cost'' score passed
                     (Sprintf ''used %d tokens vs budget %d'' [AInt (TotalTokens u), AInt (co_Budget e)])]
                     duration (Some u)))))"

definition NewLatencyEval :: "int \<Rightarrow> int res" where
  "NewLatencyEval thresholdMs =
     (if thresholdMs \<le> 0 then Inl (Sentinel ''latency threshold must be greater than zero'') else Inr thresholdMs)"

definition latency_Evaluate :: "int \<Rightarrow> int \<Rightarrow> eval_case \<Rightarrow> eval_result res" where
  "latency_Evaluate thresholdMs duration c =
     (case ec_Actual c of
        None \<Rightarrow> Inl (Sentinel ''latency eval requires a non-nil Actual response'')
      | Some actual \<Rightarrow>
          (let score = clamp (1 - of_int (rs_Duration actual) / of_int (2 * thresholdMs)) 0 1;
               passed = (rs_Duration actual \<le> thresholdMs)
           in Inr (eval_result_of c score passed [detail ''latency'' score passed
                (Sprintf ''duration %dms vs threshold %dms'' [AInt (rs_Duration actual), AInt thresholdMs])]
                duration (rs_Usage actual))))"

section \<open>Tool calls\<close>

definition extractToolCalls :: "response option \<Rightarrow> tool_call list" where
  "extractToolCalls resp =
     (case resp of
        None \<Rightarrow> []
      | Some r \<Rightarrow> concat (map (\<lambda>m. am_ToolCalls (m_ai m)) (filter (\<lambda>m. m_role m = RoleAssistant) (rs_Messages r))))"

text \<open>The search for one expected call consumes the actual calls up to the one of that name, or all of them.\<close>

fun find_call :: "string \<Rightarrow> tool_call list \<Rightarrow> (tool_call \<times> tool_call list) option" where
  "find_call name [] = None"
| "find_call name (actual # rest) = (if tc_Name actual = name then Some (actual, rest) else find_call name rest)"

fun match_calls :: "bool \<Rightarrow> tool_call list \<Rightarrow> tool_call list \<Rightarrow> nat \<Rightarrow> eval_detail list \<Rightarrow> nat \<times> eval_detail list" where
  "match_calls strictArgs [] actualCalls hits details = (hits, details)"
| "match_calls strictArgs (expected # rest) actualCalls hits details =
     (case find_call (tc_Name expected) actualCalls of
        Some (actual, later) \<Rightarrow>
          if strictArgs \<and> tc_Arguments actual \<noteq> tc_Arguments expected then
            match_calls strictArgs rest later hits (details @ [detail (tc_Name expected) 0 False
              (Sprintf ''tool %q found but arguments differ: expected %q, got %q''
                 [AStr (tc_Name expected), AStr (tc_Arguments expected), AStr (tc_Arguments actual)])])
          else
            match_calls strictArgs rest later (hits + 1)
              (details @ [detail (tc_Name expected) 1 True (Sprintf ''tool %q matched'' [AStr (tc_Name expected)])])
      | None \<Rightarrow>
          match_calls strictArgs rest [] hits (details @ [detail (tc_Name expected) 0 False
            (Sprintf ''tool %q not found in actual calls'' [AStr (tc_Name expected)])]))"

definition tool_Evaluate :: "bool \<Rightarrow> int \<Rightarrow> eval_case \<Rightarrow> eval_result res" where
  "tool_Evaluate strictArgs duration c =
     (case ec_Actual c of
        None \<Rightarrow> Inl (Sentinel ''tool call eval requires a non-nil Actual response'')
      | Some actual \<Rightarrow>
          (let expectedCalls = extractToolCalls (ec_Expected c) in
           if length expectedCalls = 0 then
             Inr (eval_result_of c 1 True [detail ''tool_calls'' 1 True (Plain ''no expected tool calls'')]
               duration (rs_Usage actual))
           else
             (case match_calls strictArgs expectedCalls (extractToolCalls (ec_Actual c)) 0 [] of
                (hits, details) \<Rightarrow>
                  Inr (eval_result_of c (of_nat hits / of_nat (length expectedCalls))
                    (hits = length expectedCalls) details duration (rs_Usage actual)))))"

definition NewToolCallEval :: "bool option \<Rightarrow> bool" where
  "NewToolCallEval cfg = (case cfg of None \<Rightarrow> False | Some strictArgs \<Rightarrow> strictArgs)"

section \<open>The judge\<close>

definition normalizeLabel :: "string \<Rightarrow> string" where
  "normalizeLabel line = trim_space (str_replace_all (str_replace_all line ''**'' []) ''*'' [])"

definition cutLabel :: "string \<Rightarrow> string \<Rightarrow> string option" where
  "cutLabel line label =
     (let normalized = normalizeLabel line;
          upper = to_upper normalized;
          prefix = to_upper label @ '':''
      in if has_prefix upper prefix then Some (trim_space (drop (length prefix) normalized)) else None)"

definition ParseBool :: "string \<Rightarrow> bool option" where
  "ParseBool s =
     (if s \<in> {''1'', ''t'', ''T'', ''true'', ''TRUE'', ''True''} then Some True
      else if s \<in> {''0'', ''f'', ''F'', ''false'', ''FALSE'', ''False''} then Some False
      else None)"

fun more_reasoning :: "string list \<Rightarrow> string list" where
  "more_reasoning [] = []"
| "more_reasoning (line # rest) =
     (let trimmed = trim_space line in
      if trimmed = [] then more_reasoning rest
      else if cutLabel trimmed ''SCORE'' \<noteq> None \<or> cutLabel trimmed ''PASSED'' \<noteq> None then []
      else trimmed # more_reasoning rest)"

record verdict =
  vd_score :: "rat option"
  vd_passed :: "bool option"
  vd_reasoning :: "string option"

text \<open>What has been found so far; the loop stops when nothing is missing.\<close>

definition judge_line :: "(string \<Rightarrow> rat res) \<Rightarrow> string \<Rightarrow> string list \<Rightarrow> verdict \<Rightarrow> verdict res" where
  "judge_line parseFloat line rest v =
     (case cutLabel line ''SCORE'' of
        Some after \<Rightarrow>
          (case parseFloat after of
             Inl err \<Rightarrow> Inl (Errorf ''invalid score value %q: %w'' [AStr after] (Some err))
           | Inr s \<Rightarrow> Inr (v\<lparr>vd_score := Some (clamp s 0 1)\<rparr>))
      | None \<Rightarrow>
          (case cutLabel line ''PASSED'' of
             Some after \<Rightarrow>
               (case ParseBool after of
                  None \<Rightarrow> Inl (Errorf ''invalid passed value %q: %w'' [AStr after]
                    (Some (External ''strconv.ParseBool: invalid syntax'')))
                | Some b \<Rightarrow> Inr (v\<lparr>vd_passed := Some b\<rparr>))
           | None \<Rightarrow>
               (case cutLabel line ''REASONING'' of
                  Some after \<Rightarrow> Inr (v\<lparr>vd_reasoning := Some (str_join '' '' (after # more_reasoning rest))\<rparr>)
                | None \<Rightarrow> Inr v)))"

definition all_found :: "verdict \<Rightarrow> bool" where
  "all_found v \<longleftrightarrow> vd_score v \<noteq> None \<and> vd_passed v \<noteq> None \<and> vd_reasoning v \<noteq> None"

fun judge_lines :: "(string \<Rightarrow> rat res) \<Rightarrow> string list \<Rightarrow> verdict \<Rightarrow> verdict res" where
  "judge_lines parseFloat [] v = Inr v"
| "judge_lines parseFloat (line # rest) v =
     (case judge_line parseFloat (trim_space line) rest v of
        Inl err \<Rightarrow> Inl err
      | Inr v' \<Rightarrow> if all_found v' then Inr v' else judge_lines parseFloat rest v')"

definition parseJudgeResponse :: "(string \<Rightarrow> rat res) \<Rightarrow> string \<Rightarrow> (rat \<times> bool \<times> string) res" where
  "parseJudgeResponse parseFloat s =
     (case judge_lines parseFloat (str_split s [char_of (10 :: nat)])
             \<lparr>vd_score = None, vd_passed = None, vd_reasoning = None\<rparr> of
        Inl err \<Rightarrow> Inl err
      | Inr v \<Rightarrow>
          (case vd_score v of
             None \<Rightarrow> Inl (Sentinel ''SCORE not found in judge response'')
           | Some score \<Rightarrow>
               (case vd_passed v of
                  None \<Rightarrow> Inl (Sentinel ''PASSED not found in judge response'')
                | Some passed \<Rightarrow> Inr (score, passed, (case vd_reasoning v of Some r \<Rightarrow> r | None \<Rightarrow> [])))))"

definition buildJudgePrompt :: "eval_case \<Rightarrow> string" where
  "buildJudgePrompt c =
     (let nl = [char_of (10 :: nat)];
          inputText = (case ec_Input c of
              None \<Rightarrow> []
            | Some i \<Rightarrow> if rq_Messages i = [] then [] else am_Text (m_ai (last (rq_Messages i))))
      in ''You are an evaluation judge. Score the following agent output.'' @ nl @ nl @
         ''Input: '' @ inputText @ nl @
         ''Actual Output: '' @ lastAssistantText (ec_Actual c) @ nl @
         (if ec_Expected c \<noteq> None then ''Expected Output: '' @ lastAssistantText (ec_Expected c) @ nl else []) @
         (if length (ec_Criteria c) > 0 then ''Evaluation Criteria: '' @ str_join '', '' (ec_Criteria c) @ nl else []) @
         nl @ ''Respond in exactly this format:'' @ nl @
         ''SCORE: <a number between 0.0 and 1.0>'' @ nl @
         ''PASSED: <true or false>'' @ nl @
         ''REASONING: <your explanation>'' @ nl)"

definition NewLLMJudgeEval ::
  "('w, 'p llm_request, chat_response) completer option \<Rightarrow> string \<Rightarrow>
     (('w, 'p llm_request, chat_response) completer \<times> string) res" where
  "NewLLMJudgeEval completer model =
     (case completer of
        None \<Rightarrow> Inl (Sentinel ''LLMJudgeEval requires a non-nil ChatCompleter'')
      | Some cc \<Rightarrow>
          if model = [] then Inl (Sentinel ''LLMJudgeEval requires a non-empty model name'') else Inr (cc, model))"

definition judge_request :: "string \<Rightarrow> string \<Rightarrow> 'p llm_request" where
  "judge_request model prompt =
     \<lparr>cr_Model = model, cr_Messages = [text_message RoleUser prompt], cr_Tools = [],
      cr_Temperature = None, cr_MaxTokens = None, cr_TopP = None, cr_N = None, cr_Stop = [],
      cr_FrequencyPenalty = None, cr_PresencePenalty = None, cr_Seed = None, cr_ResponseFormat = (),
      cr_ToolChoice = (), cr_Stream = False\<rparr>"

definition judge_Evaluate ::
  "(string \<Rightarrow> rat res) \<Rightarrow> ('w, 'p llm_request, chat_response) completer \<times> string \<Rightarrow> int \<Rightarrow> 'w evaluator" where
  "judge_Evaluate parseFloat e duration w c =
     (if ec_Actual c = None then (w, Inl (Sentinel ''LLM judge eval requires a non-nil Actual response''))
      else
        (case fst e w (judge_request (snd e) (buildJudgePrompt c)) of
           (w', Inl err) \<Rightarrow> (w', Inl (Errorf ''LLM judge call failed: %w'' [] (Some err)))
         | (w', Inr resp) \<Rightarrow>
             (let responseText = (case cp_Choices resp of [] \<Rightarrow> [] | ch # _ \<Rightarrow> am_Text (ch_Message ch));
                  u = Some (cp_Usage resp)
              in (w', case parseJudgeResponse parseFloat responseText of
                   Inl parseErr \<Rightarrow>
                     Inr (eval_result_of c 0 False [detail ''llm_judge'' 0 False
                       (Sprintf ''failed to parse judge response: %v'' [AErrs [parseErr]])] duration u)
                 | Inr (score, passed, reasoning) \<Rightarrow>
                     Inr (eval_result_of c score passed [detail ''llm_judge'' score passed (Plain reasoning)] duration u)))))"

section \<open>Composites\<close>

record 'w composite =
  cm_evaluators :: "('w evaluator \<times> rat) list"
  cm_failFast :: bool

definition NewCompositeEvaluator :: "bool option \<Rightarrow> ('w evaluator \<times> rat) list \<Rightarrow> 'w composite" where
  "NewCompositeEvaluator cfg evaluators =
     \<lparr>cm_evaluators = evaluators, cm_failFast = (case cfg of None \<Rightarrow> False | Some failFast \<Rightarrow> failFast)\<rparr>"

record composite_state =
  cs_details :: "eval_detail list"
  cs_score :: rat
  cs_passed :: bool
  cs_usage :: "usage option"
  cs_errors :: "string list"

definition effective_weights :: "('w evaluator \<times> rat) list \<Rightarrow> rat list" where
  "effective_weights evaluators =
     (if list_all (\<lambda>we. snd we = 0) evaluators then map (\<lambda>_. 1 / of_nat (length evaluators)) evaluators
      else map snd evaluators)"

definition add_result :: "rat \<Rightarrow> rat \<Rightarrow> eval_result \<Rightarrow> composite_state \<Rightarrow> composite_state" where
  "add_result weightSum weight r cs =
     cs\<lparr>cs_details := cs_details cs @ er_Details r,
        cs_score := (if weightSum > 0 then cs_score cs + er_Score r * weight / weightSum else cs_score cs),
        cs_passed := (cs_passed cs \<and> er_Passed r),
        cs_usage := (if er_Usage r \<noteq> None \<and> cs_usage cs = None then er_Usage r else cs_usage cs)\<rparr>"

definition add_error :: "(gerror \<Rightarrow> string) \<Rightarrow> nat \<Rightarrow> gerror \<Rightarrow> composite_state \<Rightarrow> composite_state" where
  "add_error errText i err cs =
     cs\<lparr>cs_errors := cs_errors cs @ [errText err],
        cs_details := cs_details cs @ [detail (''evaluator_'' @ itoa (int i)) 0 False (Sprintf ''error: %v'' [AErrs [err]])],
        cs_passed := False\<rparr>"

fun composite_loop ::
  "(gerror \<Rightarrow> string) \<Rightarrow> bool \<Rightarrow> rat \<Rightarrow> ('w evaluator \<times> rat) list \<Rightarrow> nat \<Rightarrow> eval_case \<Rightarrow> composite_state \<Rightarrow> 'w \<Rightarrow>
     'w \<times> composite_state res" where
  "composite_loop errText failFast weightSum [] i c cs w = (w, Inr cs)"
| "composite_loop errText failFast weightSum ((ev, weight) # rest) i c cs w =
     (case ev w c of
        (w', Inl err) \<Rightarrow>
          if failFast then (w', Inl err)
          else composite_loop errText failFast weightSum rest (Suc i) c (add_error errText i err cs) w'
      | (w', Inr r) \<Rightarrow> composite_loop errText failFast weightSum rest (Suc i) c (add_result weightSum weight r cs) w')"

definition composite_Evaluate :: "(gerror \<Rightarrow> string) \<Rightarrow> 'w composite \<Rightarrow> int \<Rightarrow> 'w evaluator" where
  "composite_Evaluate errText e duration w c =
     (if length (cm_evaluators e) = 0 then (w, Inr (eval_result_of c 1 True [] duration None))
      else
        (let weights = effective_weights (cm_evaluators e);
             weightSum = sum_list weights;
             cs0 = \<lparr>cs_details = [], cs_score = 0, cs_passed = True,
                    cs_usage = (case ec_Actual c of Some r \<Rightarrow> rs_Usage r | None \<Rightarrow> None), cs_errors = []\<rparr>
         in case composite_loop errText (cm_failFast e) weightSum (zip (map fst (cm_evaluators e)) weights) 0 c cs0 w of
              (w', Inl err) \<Rightarrow> (w', Inl err)
            | (w', Inr cs) \<Rightarrow>
                (w', Inr ((eval_result_of c (cs_score cs) (cs_passed cs) (cs_details cs) duration (cs_usage cs))
                  \<lparr>er_Error := (if length (cs_errors cs) > 0 then str_join ''; '' (cs_errors cs) else [])\<rparr>))))"

end
