(* ===== verification/EvalProps.thy ===== *)
theory EvalProps
  imports Eval
begin

text \<open>
  Evaluation of many cases (\<open>eval/batch.go\<close>), sequentially and by concurrent goroutines, and the properties of package
  \<open>eval\<close>: scores stay in the unit interval (locale \<open>unit_scores\<close>, interpreted for every evaluator), the tool
  calls are matched in order, the judge's format is read back, concurrency does not change a report.
\<close>

section \<open>Batches\<close>

record eval_report =
  ep_Results :: "eval_result list"
  ep_TotalCases :: nat
  ep_PassedCases :: nat
  ep_FailedCases :: nat
  ep_ErrorCases :: nat
  ep_AvgScore :: rat
  ep_TotalDuration :: int

definition empty_report :: "nat \<Rightarrow> eval_report" where
  "empty_report n =
     \<lparr>ep_Results = [], ep_TotalCases = n, ep_PassedCases = 0, ep_FailedCases = 0, ep_ErrorCases = 0,
      ep_AvgScore = 0, ep_TotalDuration = 0\<rparr>"

definition error_result :: "string \<Rightarrow> eval_case \<Rightarrow> eval_result" where
  "error_result s c =
     \<lparr>er_CaseID = ec_ID c, er_Score = 0, er_Passed = False, er_Details = [], er_Duration = 0, er_Usage = None,
      er_Error = s\<rparr>"

definition computeAvgScore :: "eval_report \<Rightarrow> eval_report" where
  "computeAvgScore rep =
     (let ok = filter (\<lambda>r. er_Error r = []) (ep_Results rep)
      in if length ok > 0 then rep\<lparr>ep_AvgScore := sum_list (map er_Score ok) / of_nat (length ok)\<rparr> else rep)"

definition add_ok :: "eval_result \<Rightarrow> eval_report \<Rightarrow> eval_report" where
  "add_ok r rep =
     (let rep' = rep\<lparr>ep_Results := ep_Results rep @ [r]\<rparr>
      in if er_Passed r then rep'\<lparr>ep_PassedCases := ep_PassedCases rep' + 1\<rparr>
         else rep'\<lparr>ep_FailedCases := ep_FailedCases rep' + 1\<rparr>)"

definition add_failure :: "eval_result \<Rightarrow> eval_report \<Rightarrow> eval_report" where
  "add_failure r rep = rep\<lparr>ep_Results := ep_Results rep @ [r], ep_ErrorCases := ep_ErrorCases rep + 1\<rparr>"

fun sequential_loop ::
  "(nat \<Rightarrow> gerror option) \<Rightarrow> (gerror \<Rightarrow> string) \<Rightarrow> 'w evaluator \<Rightarrow> nat \<Rightarrow> eval_case list \<Rightarrow> eval_report \<Rightarrow> 'w \<Rightarrow>
     'w \<times> eval_report \<times> gerror option" where
  "sequential_loop ctxErr errText ev i [] rep w = (w, rep, None)"
| "sequential_loop ctxErr errText ev i (c # cases) rep w =
     (case ctxErr i of
        Some err \<Rightarrow> (w, rep, Some err)
      | None \<Rightarrow>
          (case ev w c of
             (w', Inl err) \<Rightarrow>
               sequential_loop ctxErr errText ev (Suc i) cases (add_failure (error_result (errText err) c) rep) w'
           | (w', Inr r) \<Rightarrow> sequential_loop ctxErr errText ev (Suc i) cases (add_ok r rep) w'))"

definition batchEvalSequential ::
  "(nat \<Rightarrow> gerror option) \<Rightarrow> (gerror \<Rightarrow> string) \<Rightarrow> 'w evaluator \<Rightarrow> eval_case list \<Rightarrow> int \<Rightarrow> 'w \<Rightarrow>
     'w \<times> eval_report \<times> gerror option" where
  "batchEvalSequential ctxErr errText ev cases duration w =
     (case sequential_loop ctxErr errText ev 0 cases (empty_report (length cases)) w of
        (w', rep, ctxErr') \<Rightarrow> (w', (computeAvgScore rep)\<lparr>ep_TotalDuration := duration\<rparr>, ctxErr'))"

text \<open>
  The concurrent variant as a step function: the loop launches a goroutine per case until the context is cancelled; a
  goroutine enters the semaphore, evaluates its case, stores the result at its index and leaves.
\<close>

record 'w batch_state =
  ba_next :: nat
  ba_stopped :: "gerror option"
  ba_waiting :: "nat list"
  ba_inside :: "nat list"
  ba_results :: "eval_result option list"
  ba_world :: 'w

datatype batch_move = Launch | SeeCancelled gerror | EnterSem nat | Evaluated nat

definition batch_start :: "eval_case list \<Rightarrow> 'w \<Rightarrow> 'w batch_state" where
  "batch_start cases w =
     \<lparr>ba_next = 0, ba_stopped = None, ba_waiting = [], ba_inside = [],
      ba_results = replicate (length cases) None, ba_world = w\<rparr>"

definition store_result ::
  "(gerror \<Rightarrow> string) \<Rightarrow> 'w evaluator \<Rightarrow> eval_case list \<Rightarrow> nat \<Rightarrow> 'w batch_state \<Rightarrow> 'w batch_state" where
  "store_result errText ev cases i st =
     (case ev (ba_world st) (cases ! i) of
        (w', Inl err) \<Rightarrow>
          st\<lparr>ba_results := (ba_results st)[i := Some (error_result (errText err) (cases ! i))], ba_world := w'\<rparr>
      | (w', Inr r) \<Rightarrow> st\<lparr>ba_results := (ba_results st)[i := Some r], ba_world := w'\<rparr>)"

fun batch_step ::
  "nat \<Rightarrow> (gerror \<Rightarrow> string) \<Rightarrow> 'w evaluator \<Rightarrow> eval_case list \<Rightarrow> batch_move \<Rightarrow> 'w batch_state \<Rightarrow>
     'w batch_state option" where
  "batch_step concurrency errText ev cases Launch st =
     (if ba_stopped st = None \<and> ba_next st < length cases
      then Some (st\<lparr>ba_next := Suc (ba_next st), ba_waiting := ba_waiting st @ [ba_next st]\<rparr>) else None)"
| "batch_step concurrency errText ev cases (SeeCancelled err) st =
     (if ba_stopped st = None \<and> ba_next st < length cases then Some (st\<lparr>ba_stopped := Some err\<rparr>) else None)"
| "batch_step concurrency errText ev cases (EnterSem i) st =
     (if i \<in> set (ba_waiting st) \<and> length (ba_inside st) < concurrency
      then Some (st\<lparr>ba_waiting := remove1 i (ba_waiting st), ba_inside := ba_inside st @ [i]\<rparr>) else None)"
| "batch_step concurrency errText ev cases (Evaluated i) st =
     (if i \<in> set (ba_inside st)
      then Some (store_result errText ev cases i (st\<lparr>ba_inside := remove1 i (ba_inside st)\<rparr>)) else None)"

fun batch_steps ::
  "nat \<Rightarrow> (gerror \<Rightarrow> string) \<Rightarrow> 'w evaluator \<Rightarrow> eval_case list \<Rightarrow> batch_move list \<Rightarrow> 'w batch_state \<Rightarrow>
     'w batch_state option" where
  "batch_steps concurrency errText ev cases [] st = Some st"
| "batch_steps concurrency errText ev cases (m # ms) st =
     (case batch_step concurrency errText ev cases m st of
        None \<Rightarrow> None | Some st' \<Rightarrow> batch_steps concurrency errText ev cases ms st')"

fun tally :: "eval_result option list \<Rightarrow> eval_report \<Rightarrow> eval_report" where
  "tally [] rep = rep"
| "tally (None # rs) rep = tally rs rep"
| "tally (Some r # rs) rep = tally rs (if er_Error r \<noteq> [] then add_failure r rep else add_ok r rep)"

text \<open>What is returned once the loop has ended and no goroutine is left.\<close>

definition batchEvalConcurrent :: "eval_case list \<Rightarrow> int \<Rightarrow> 'w batch_state \<Rightarrow> (eval_report \<times> gerror option) option" where
  "batchEvalConcurrent cases duration st =
     (if (ba_next st = length cases \<or> ba_stopped st \<noteq> None) \<and> ba_waiting st = [] \<and> ba_inside st = []
      then Some ((computeAvgScore (tally (ba_results st) (empty_report (length cases))))\<lparr>ep_TotalDuration := duration\<rparr>,
        ba_stopped st)
      else None)"

definition WithConcurrency :: "int \<Rightarrow> int \<Rightarrow> int" where
  "WithConcurrency n concurrency = (if n > 0 then n else concurrency)"

text \<open>Whether a batch is sequential; \<open>opts\<close> are the arguments of \<open>WithConcurrency\<close>.\<close>

definition batch_concurrency :: "int list \<Rightarrow> nat option" where
  "batch_concurrency opts =
     (let concurrency = fold WithConcurrency opts 1 in if concurrency \<le> 1 then None else Some (nat concurrency))"

section \<open>Runs and their evaluation\<close>

text \<open>The agent runs for each case that has an input and no answer yet; the cases are distinct objects that keep the answers
  they got, also when a later run fails.  The evaluation of the batch is an argument.\<close>

fun run_cases ::
  "(nat \<Rightarrow> gerror option) \<Rightarrow> ('w \<Rightarrow> request \<Rightarrow> 'w \<times> response option res) \<Rightarrow> nat \<Rightarrow> eval_case list \<Rightarrow> 'w \<Rightarrow>
     'w \<times> eval_case list \<times> gerror option" where
  "run_cases ctxErr runFn i [] w = (w, [], None)"
| "run_cases ctxErr runFn i (c # cs) w =
     (case ctxErr i of
        Some err \<Rightarrow> (w, c # cs, Some (Errorf ''context cancelled before running case %s: %w'' [AStr (ec_ID c)] (Some err)))
      | None \<Rightarrow>
          (case (ec_Actual c, ec_Input c) of
             (None, Some input) \<Rightarrow>
               (case runFn w input of
                  (w', Inl err) \<Rightarrow> (w', c # cs, Some (Errorf ''agent run failed for case %s: %w'' [AStr (ec_ID c)] (Some err)))
                | (w', Inr resp) \<Rightarrow>
                    (case run_cases ctxErr runFn (Suc i) cs w' of
                       (w'', cs', e) \<Rightarrow> (w'', c\<lparr>ec_Actual := resp\<rparr> # cs', e)))
           | _ \<Rightarrow> (case run_cases ctxErr runFn (Suc i) cs w of (w'', cs', e) \<Rightarrow> (w'', c # cs', e))))"

definition RunAndEvaluate ::
  "(nat \<Rightarrow> gerror option) \<Rightarrow> ('w \<Rightarrow> request \<Rightarrow> 'w \<times> response option res) \<Rightarrow>
     (eval_case list \<Rightarrow> 'w \<Rightarrow> 'w \<times> eval_report \<times> gerror option) \<Rightarrow> eval_case list \<Rightarrow> 'w \<Rightarrow>
     'w \<times> eval_case list \<times> (eval_report \<times> gerror option) res" where
  "RunAndEvaluate ctxErr runFn batch cases w =
     (case run_cases ctxErr runFn 0 cases w of
        (w', cases', Some err) \<Rightarrow> (w', cases', Inl err)
      | (w', cases', None) \<Rightarrow> (case batch cases' w' of (w'', rep) \<Rightarrow> (w'', cases', Inr rep)))"

text \<open>Running the cases again is for free: they have their answers.\<close>

lemma run_cases_keeps:
  "run_cases ctxErr runFn i cs w = (w', cs', e) \<Longrightarrow>
     list_all2 (\<lambda>c c'. c' = c \<or> ec_Actual c = None \<and> (\<exists>resp. c' = c\<lparr>ec_Actual := resp\<rparr>)) cs cs'"
  by (induction ctxErr runFn i cs w arbitrary: w' cs' e rule: run_cases.induct)
    (auto simp: list_all2_same intro: list.rel_refl split: option.splits sum.splits prod.splits)

lemma run_cases_idle:
  "list_all (\<lambda>c. ec_Actual c \<noteq> None \<or> ec_Input c = None) cs \<Longrightarrow> \<forall>k\<ge>i. ctxErr k = None \<Longrightarrow>
     run_cases ctxErr runFn i cs w = (w, cs, None)"
  by (induction cs arbitrary: i) (auto split: option.split)

section \<open>Scores\<close>

locale unit_scores =
  fixes ev :: "'w evaluator"
  assumes in_unit: "ev w c = (w', Inr r) \<Longrightarrow> 0 \<le> er_Score r \<and> er_Score r \<le> 1"

lemma mean_in_unit:
  "\<forall>x\<in>set xs. 0 \<le> x \<and> x \<le> (1 :: rat) \<Longrightarrow> xs \<noteq> [] \<Longrightarrow>
    0 \<le> sum_list xs / of_nat (length xs) \<and> sum_list xs / of_nat (length xs) \<le> 1"
proof -
  assume xs: "\<forall>x\<in>set xs. 0 \<le> x \<and> x \<le> 1" "xs \<noteq> []"
  have "0 \<le> sum_list xs \<and> sum_list xs \<le> of_nat (length xs)" using xs(1) by (induction xs) auto
  then show ?thesis using xs(2) by (simp add: divide_le_eq)
qed

context unit_scores
begin

lemma sequential_scores:
  "sequential_loop ctxErr errText ev i cases rep w = (w', rep', e) \<Longrightarrow>
    \<forall>r\<in>set (ep_Results rep). 0 \<le> er_Score r \<and> er_Score r \<le> 1 \<Longrightarrow>
    \<forall>r\<in>set (ep_Results rep'). 0 \<le> er_Score r \<and> er_Score r \<le> 1"
proof (induction cases arbitrary: i rep w)
  case (Cons c cases)
  obtain w1 res where e: "ev w c = (w1, res)" by fastforce
  then show ?case using Cons in_unit [of w c w1]
    by (cases res) (fastforce simp: add_failure_def add_ok_def error_result_def Let_def split: option.splits if_splits)+
qed simp

lemma average_in_unit:
  assumes "batchEvalSequential ctxErr errText ev cases duration w = (w', rep, e)"
  shows "0 \<le> ep_AvgScore rep \<and> ep_AvgScore rep \<le> 1"
proof -
  obtain rep0 where L: "sequential_loop ctxErr errText ev 0 cases (empty_report (length cases)) w = (w', rep0, e)"
    and rep: "ep_AvgScore rep = ep_AvgScore (computeAvgScore rep0)"
    using assms by (auto simp: batchEvalSequential_def split: prod.splits)
  have S: "\<forall>r\<in>set (ep_Results rep0). 0 \<le> er_Score r \<and> er_Score r \<le> 1"
    by (rule sequential_scores [OF L]) (simp add: empty_report_def)
  have "ep_AvgScore rep' = ep_AvgScore rep1"
    if "sequential_loop ctxErr errText ev i cs rep1 v = (v', rep', e')" for i cs rep1 v v' rep' e'
    using that by (induction cs arbitrary: i rep1 v)
      (auto simp: add_failure_def add_ok_def Let_def split: option.splits prod.splits sum.splits if_splits)
  from this [OF L] have "ep_AvgScore rep0 = 0" by (simp add: empty_report_def)
  moreover have "\<forall>x\<in>set (map er_Score (filter (\<lambda>r. er_Error r = []) (ep_Results rep0))). 0 \<le> x \<and> x \<le> 1"
    using S by auto
  note mean_in_unit [OF this]
  ultimately show ?thesis unfolding rep by (auto simp: computeAvgScore_def Let_def)
qed

end

lemma share_in_unit: "a \<le> b \<Longrightarrow> 0 \<le> (of_nat a / of_nat b :: rat) \<and> (of_nat a / of_nat b :: rat) \<le> 1"
  by (cases "b = 0") (simp_all add: divide_le_eq)

lemma match_calls_le: "match_calls strict es as m ds = (m', ds') \<Longrightarrow> m' \<le> m + length es"
  by (induction strict es as m ds rule: match_calls.induct) (auto split: option.splits if_splits, fastforce+)

lemma parse_in_unit: "parseJudgeResponse parseFloat s = Inr (q, p, r) \<Longrightarrow> 0 \<le> q \<and> q \<le> 1"
proof -
  have found: "\<forall>q. vd_score v' = Some q \<longrightarrow> 0 \<le> q \<and> q \<le> 1"
    if "judge_lines parseFloat ls v = Inr v'" "\<forall>q. vd_score v = Some q \<longrightarrow> 0 \<le> q \<and> q \<le> 1" for ls v v'
    using that
  proof (induction ls arbitrary: v)
    case (Cons l ls)
    obtain v1 where v1: "judge_line parseFloat (trim_space l) ls v = Inr v1"
      and rest: "v' = v1 \<or> judge_lines parseFloat ls v1 = Inr v'"
      using Cons.prems(1) by (auto split: sum.splits if_splits)
    have "\<forall>q. vd_score v1 = Some q \<longrightarrow> 0 \<le> q \<and> q \<le> 1"
      using v1 Cons.prems(2) by (auto simp: judge_line_def split: option.splits sum.splits)
    then show ?case using rest Cons.IH by blast
  qed simp
  assume "parseJudgeResponse parseFloat s = Inr (q, p, r)"
  then obtain v where L: "judge_lines parseFloat (str_split s [char_of (10 :: nat)])
      \<lparr>vd_score = None, vd_passed = None, vd_reasoning = None\<rparr> = Inr v" and q: "vd_score v = Some q"
    by (auto simp: parseJudgeResponse_def split: sum.splits option.splits)
  show ?thesis using found [OF L] q by simp
qed

interpretation exact: unit_scores "\<lambda>w c. (w, exact_Evaluate (clock w) c)" for clock :: "'w \<Rightarrow> int"
  by unfold_locales (auto simp: exact_Evaluate_def Let_def split: if_splits option.splits)

interpretation containing: unit_scores "\<lambda>w c. (w, contains_Evaluate e (clock w) c)" for clock :: "'w \<Rightarrow> int" and e
proof
  fix w w' :: 'w and c r
  assume "(w, contains_Evaluate e (clock w) c) = (w', Inr r)"
  then show "0 \<le> er_Score r \<and> er_Score r \<le> 1"
    using share_in_unit [OF length_filter_le, of dt_Passed "map (keyword_detail (to_lower (lastAssistantText (ec_Actual c)))) (cc_Keywords e)"]
    by (auto simp: contains_Evaluate_def Let_def split: option.splits if_splits)
qed

interpretation tools: unit_scores "\<lambda>w c. (w, tool_Evaluate strict (clock w) c)" for clock :: "'w \<Rightarrow> int" and strict
proof
  fix w w' :: 'w and c r
  assume *: "(w, tool_Evaluate strict (clock w) c) = (w', Inr r)"
  obtain m ds where m: "match_calls strict (extractToolCalls (ec_Expected c)) (extractToolCalls (ec_Actual c)) 0 [] = (m, ds)"
    by fastforce
  then show "0 \<le> er_Score r \<and> er_Score r \<le> 1"
    using * share_in_unit [OF match_calls_le [OF m]]
    by (auto simp: tool_Evaluate_def Let_def split: option.splits if_splits)
qed

interpretation cost: unit_scores "\<lambda>w c. (w, cost_Evaluate e (clock w) c)" for clock :: "'w \<Rightarrow> int" and e
  by unfold_locales (auto simp: cost_Evaluate_def Let_def split: if_splits option.splits)

interpretation latency: unit_scores "\<lambda>w c. (w, latency_Evaluate threshold (clock w) c)" for clock :: "'w \<Rightarrow> int" and threshold
  by unfold_locales (auto simp: latency_Evaluate_def Let_def split: if_splits option.splits)

interpretation judge: unit_scores "judge_Evaluate parseFloat e duration" for parseFloat e duration
proof
  fix w w' :: 'a and c r
  assume "judge_Evaluate parseFloat e duration w c = (w', Inr r)"
  then show "0 \<le> er_Score r \<and> er_Score r \<le> 1"
    by (auto simp: judge_Evaluate_def Let_def split: if_splits prod.splits sum.splits dest: parse_in_unit)
qed

lemma composite_loop_score:
  assumes "0 < weightSum" "\<forall>(ev, wt)\<in>set evs. unit_scores ev \<and> 0 \<le> wt"
    and "composite_loop errText failFast weightSum evs i c cs w = (w', Inr cs')"
  shows "cs_score cs \<le> cs_score cs' \<and> cs_score cs' \<le> cs_score cs + sum_list (map snd evs) / weightSum"
  using assms(2,3)
proof (induction evs arbitrary: i cs w)
  case (Cons x evs)
  obtain ev wt where x: "x = (ev, wt)" by fastforce
  obtain w1 res where e: "ev w c = (w1, res)" by fastforce
  have pos: "0 \<le> wt / weightSum" using Cons.prems(1) x assms(1) by simp
  show ?case
  proof (cases res)
    case (Inl err)
    then have "composite_loop errText failFast weightSum evs (Suc i) c (add_error errText i err cs) w1 = (w', Inr cs')"
      using Cons.prems(2) e x by (simp split: if_splits)
    from Cons.IH [OF _ this] Cons.prems(1) pos show ?thesis
      by (simp add: x add_error_def add_divide_distrib)
  next
    case (Inr r)
    have r: "0 \<le> er_Score r" "er_Score r \<le> 1"
      using unit_scores.in_unit [of ev w c w1 r] Cons.prems(1) e Inr x by auto
    have s: "0 \<le> er_Score r * wt / weightSum" "er_Score r * wt / weightSum \<le> wt / weightSum"
      using r Cons.prems(1) x assms(1) by (auto intro!: divide_right_mono mult_left_le_one_le)
    have "composite_loop errText failFast weightSum evs (Suc i) c (add_result weightSum wt r cs) w1 = (w', Inr cs')"
      using Cons.prems(2) e x Inr by simp
    from Cons.IH [OF _ this] Cons.prems(1) s assms(1) show ?thesis
      by (simp add: x add_result_def add_divide_distrib)
  qed
qed simp

lemma effective_weights_pos:
  assumes "evs \<noteq> []" "\<forall>(ev, wt)\<in>set evs. 0 \<le> wt"
  shows "0 < sum_list (effective_weights evs)" "\<forall>wt\<in>set (effective_weights evs). 0 \<le> wt"
    "length (effective_weights evs) = length evs"
proof -
  show "length (effective_weights evs) = length evs" by (simp add: effective_weights_def)
  show *: "\<forall>wt\<in>set (effective_weights evs). 0 \<le> wt" using assms(2) by (auto simp: effective_weights_def)
  show "0 < sum_list (effective_weights evs)"
  proof (cases "list_all (\<lambda>we. snd we = 0) evs")
    case True
    then show ?thesis using assms(1) by (simp add: effective_weights_def sum_list_triv)
  next
    case False
    then obtain wt where "wt \<in> set (map snd evs)" "wt \<noteq> 0" by (force simp: list_all_iff)
    then have "wt \<in> set (effective_weights evs)" "wt \<noteq> 0" using False by (simp_all add: effective_weights_def)
    then show ?thesis using * sum_list_nonneg_eq_0_iff [of "effective_weights evs"] sum_list_nonneg [of "effective_weights evs"]
      by fastforce
  qed
qed

lemma composite_unit_scores:
  assumes "\<forall>(ev, wt)\<in>set (cm_evaluators e). unit_scores ev \<and> 0 \<le> wt"
  shows "unit_scores (composite_Evaluate errText e duration)"
proof
  fix w w' :: 'a and c r
  assume *: "composite_Evaluate errText e duration w c = (w', Inr r)"
  show "0 \<le> er_Score r \<and> er_Score r \<le> 1"
  proof (cases "cm_evaluators e = []")
    case False
    let ?ws = "effective_weights (cm_evaluators e)"
    have "\<forall>(ev, wt)\<in>set (cm_evaluators e). 0 \<le> wt" using assms by auto
    note W = effective_weights_pos [OF False this]
    have E: "\<forall>(ev, wt)\<in>set (zip (map fst (cm_evaluators e)) ?ws). unit_scores ev \<and> 0 \<le> wt"
      using assms W(2) by (fastforce dest: set_zip_leftD set_zip_rightD)
    have S: "map snd (zip (map fst (cm_evaluators e)) ?ws) = ?ws" using W(3) by simp
    obtain cs cs0 where L: "composite_loop errText (cm_failFast e) (sum_list ?ws) (zip (map fst (cm_evaluators e)) ?ws) 0 c cs0 w =
        (w', Inr cs)" "cs_score cs0 = 0" "er_Score r = cs_score cs"
      using * False by (auto simp: composite_Evaluate_def Let_def split: prod.splits sum.splits)
    show ?thesis using composite_loop_score [OF W(1) E L(1)] L(2,3) S W(1) by simp
  qed (use * in \<open>auto simp: composite_Evaluate_def\<close>)
qed

text \<open>
  Scores stay between 0 and 1.  For a composite of evaluators whose scores lie between 0 and 1, as those of all
  evaluators of the package do, with weights that are not negative, all of them zero included, so do the
  composite's own scores and the average of every batch evaluated with it, with or without failing evaluators.
\<close>

lemma composite_average_bounded:
  assumes "\<forall>(ev, wt)\<in>set evs. unit_scores ev \<and> 0 \<le> wt"
    and "batchEvalSequential ctxErr errText (composite_Evaluate errText (NewCompositeEvaluator cfg evs) duration)
      cases total_time w = (w', rep, e)"
  shows "0 \<le> ep_AvgScore rep \<and> ep_AvgScore rep \<le> 1 \<and>
    (composite_Evaluate errText (NewCompositeEvaluator cfg evs) duration w c = (v, Inr r) \<longrightarrow> 0 \<le> er_Score r \<and> er_Score r \<le> 1)"
proof -
  have "unit_scores (composite_Evaluate errText (NewCompositeEvaluator cfg evs) duration)"
    by (rule composite_unit_scores) (use assms(1) in \<open>simp add: NewCompositeEvaluator_def\<close>)
  from unit_scores.average_in_unit [OF this assms(2)] unit_scores.in_unit [OF this] show ?thesis by blast
qed

definition answer_case :: "string \<Rightarrow> string \<Rightarrow> eval_case" where
  "answer_case expected actual =
     \<lparr>ec_ID = ''case'', ec_Input = None,
      ec_Expected = Some (response_zero\<lparr>rs_Messages := [NewAssistantMessage 0 (text_message RoleAssistant expected) []]\<rparr>),
      ec_Actual = Some (response_zero\<lparr>rs_Messages := [NewAssistantMessage 0 (text_message RoleAssistant actual) []]\<rparr>),
      ec_Criteria = [], ec_Tags = []\<rparr>"

definition two_evaluators :: "(unit evaluator \<times> rat) list" where
  "two_evaluators =
     [(\<lambda>w c. (w, exact_Evaluate 0 c), 1),
      (\<lambda>w c. (w, contains_Evaluate \<lparr>cc_Keywords = [''yes''], cc_PassThreshold = 1\<rparr> 0 c), 3)]"

theorem composite_average_bounded_witness:
  "\<exists>rep. batchEvalSequential (\<lambda>_. None) (\<lambda>_. ''e'')
       (composite_Evaluate (\<lambda>_. ''e'') (NewCompositeEvaluator None two_evaluators) 0) [answer_case ''yes'' ''Oh yes''] 0 () =
     ((), rep, None) \<and> ep_AvgScore rep = 3 / 4 \<and> 0 \<le> ep_AvgScore rep \<and> ep_AvgScore rep \<le> 1"
proof -
  have u: "\<forall>(ev, wt)\<in>set two_evaluators. unit_scores ev \<and> 0 \<le> wt"
    using exact.unit_scores_axioms [of "\<lambda>_ :: unit. 0"] containing.unit_scores_axioms [of _ "\<lambda>_ :: unit. 0"]
    by (simp add: two_evaluators_def)
  let ?run = "batchEvalSequential (\<lambda>_. None) (\<lambda>_. ''e'')
       (composite_Evaluate (\<lambda>_. ''e'') (NewCompositeEvaluator None two_evaluators) 0) [answer_case ''yes'' ''Oh yes''] 0 ()"
  obtain w rep e where r: "?run = (w, rep, e)" by (metis prod_cases3)
  have "ep_AvgScore (fst (snd ?run)) = 3 / 4" by code_simp
  moreover have "snd (snd ?run) = None" by code_simp
  ultimately show ?thesis using composite_average_bounded [OF u r] r by simp
qed

section \<open>Concurrency\<close>

definition outcome :: "(gerror \<Rightarrow> string) \<Rightarrow> (eval_case \<Rightarrow> eval_result res) \<Rightarrow> eval_case \<Rightarrow> eval_result" where
  "outcome errText f c = (case f c of Inl err \<Rightarrow> error_result (errText err) c | Inr r \<Rightarrow> r)"

definition batch_inv ::
  "nat \<Rightarrow> (gerror \<Rightarrow> string) \<Rightarrow> (eval_case \<Rightarrow> eval_result res) \<Rightarrow> eval_case list \<Rightarrow> 'w batch_state \<Rightarrow> bool" where
  "batch_inv concurrency errText f cases st \<longleftrightarrow>
     distinct (ba_waiting st @ ba_inside st) \<and> (\<forall>i\<in>set (ba_waiting st @ ba_inside st). i < ba_next st) \<and>
     ba_next st \<le> length cases \<and> length (ba_inside st) \<le> concurrency \<and> length (ba_results st) = length cases \<and>
     (ba_stopped st \<noteq> None \<longrightarrow> ba_next st < length cases) \<and>
     (\<forall>i<length cases. ba_results st ! i =
        (if i < ba_next st \<and> i \<notin> set (ba_waiting st @ ba_inside st) then Some (outcome errText f (cases ! i)) else None))"

lemma batch_inv_start: "batch_inv concurrency errText f cases (batch_start cases w)"
  by (simp add: batch_inv_def batch_start_def)

lemma store_pure:
  "store_result errText (\<lambda>w c. (w, f c)) cases i st = st\<lparr>ba_results := (ba_results st)[i := Some (outcome errText f (cases ! i))]\<rparr>"
  by (cases st) (simp add: store_result_def outcome_def split: sum.split)

lemma batch_inv_step:
  assumes "batch_inv concurrency errText f cases st"
    and "batch_step concurrency errText (\<lambda>w c. (w, f c)) cases m st = Some st'"
  shows "batch_inv concurrency errText f cases st'"
proof (cases m)
  case Launch
  then have st': "st' = st\<lparr>ba_next := Suc (ba_next st), ba_waiting := ba_waiting st @ [ba_next st]\<rparr>"
    and n: "ba_next st < length cases" "ba_stopped st = None" using assms(2) by (auto split: if_splits)
  show ?thesis using assms(1) n unfolding st' batch_inv_def by (auto simp: less_Suc_eq)
next
  case (SeeCancelled err)
  then show ?thesis using assms by (auto simp: batch_inv_def split: if_splits)
next
  case (EnterSem i)
  then show ?thesis using assms by (auto simp: batch_inv_def distinct_remove1 split: if_splits)
next
  case (Evaluated i)
  then have i: "i \<in> set (ba_inside st)"
    and st': "st' = st\<lparr>ba_inside := remove1 i (ba_inside st),
      ba_results := (ba_results st)[i := Some (outcome errText f (cases ! i))]\<rparr>"
    using assms(2) by (auto simp: store_pure split: if_splits)
  have "length (ba_inside st) \<le> concurrency" using assms(1) by (simp add: batch_inv_def)
  then have l: "length (remove1 i (ba_inside st)) \<le> concurrency" using i by (simp add: length_remove1)
  have n: "i < ba_next st" "ba_next st \<le> length cases" using assms(1) i by (auto simp: batch_inv_def)
  then have "i < length cases" by linarith
  moreover have "length (ba_results st) = length cases" using assms(1) by (simp add: batch_inv_def)
  ultimately have upd: "(ba_results st)[i := x] ! j = (if i = j then x else ba_results st ! j)" for x j by simp
  show ?thesis using assms(1) i l n(1) unfolding st' batch_inv_def by (auto simp: upd distinct_remove1)
qed

lemma batch_inv_steps:
  "batch_inv concurrency errText f cases st \<Longrightarrow>
    batch_steps concurrency errText (\<lambda>w c. (w, f c)) cases ms st = Some st' \<Longrightarrow> batch_inv concurrency errText f cases st'"
  by (induction ms arbitrary: st) (auto split: option.splits dest: batch_inv_step)

text \<open>No deadlock: as long as there is no report, some goroutine or the loop can go on.\<close>

lemma batch_goes_on:
  assumes "0 < concurrency" "batchEvalConcurrent cases duration st = None" "ba_next st \<le> length cases"
  shows "\<exists>m st'. batch_step concurrency errText ev cases m st = Some st'"
proof (cases "ba_inside st")
  case (Cons i is')
  then have "\<exists>st'. batch_step concurrency errText ev cases (Evaluated i) st = Some st'" by simp
  then show ?thesis by blast
next
  case Nil
  show ?thesis
  proof (cases "ba_waiting st")
    case (Cons i is')
    then have "\<exists>st'. batch_step concurrency errText ev cases (EnterSem i) st = Some st'" using Nil assms(1) by simp
    then show ?thesis by blast
  next
    case w: Nil
    then have "\<exists>st'. batch_step concurrency errText ev cases Launch st = Some st'"
      using Nil assms(2,3) by (auto simp: batchEvalConcurrent_def split: if_splits)
    then show ?thesis by blast
  qed
qed

lemma tally_map_None: "tally (replicate k None) rep = rep"
  by (induction k) simp_all

lemma tally_append: "tally (xs @ ys) rep = tally ys (tally xs rep)"
  by (induction xs rep rule: tally.induct) simp_all

lemma sequential_tally:
  assumes "\<forall>e. errText e \<noteq> []" "\<forall>c\<in>set cases. \<forall>r. f c = Inr r \<longrightarrow> er_Error r = []"
    and "k \<le> length cases" "e \<noteq> None \<longrightarrow> k < length cases" "e = None \<longrightarrow> k = length cases"
  shows "sequential_loop (\<lambda>i. if i = k + i0 then e else None) errText (\<lambda>w c. (w, f c)) i0 cases rep w =
    (w, tally (map (\<lambda>c. Some (outcome errText f c)) (take k cases)) rep, e)"
  using assms(2-5)
proof (induction cases arbitrary: k i0 rep)
  case (Cons c cases)
  show ?case
  proof (cases k)
    case 0
    then have "e \<noteq> None" using Cons.prems(4) by auto
    then show ?thesis using 0 by auto
  next
    case (Suc k')
    have IH: "sequential_loop (\<lambda>i. if i = k' + Suc i0 then e else None) errText (\<lambda>w c. (w, f c)) (Suc i0) cases rep' w =
        (w, tally (map (\<lambda>c. Some (outcome errText f c)) (take k' cases)) rep', e)" for rep'
      using Cons.IH [of k' "Suc i0" rep'] Cons.prems Suc by auto
    show ?thesis
    proof (cases "f c")
      case (Inl err)
      then show ?thesis using IH Suc assms(1) by (simp add: outcome_def error_result_def)
    next
      case (Inr r)
      then have "er_Error r = []" using Cons.prems(1) by simp
      then show ?thesis using IH Suc Inr by (simp add: outcome_def)
    qed
  qed
qed simp


definition three_cases :: "eval_case list" where
  "three_cases = [answer_case ''a'' ''a'', answer_case ''b'' ''x'', answer_case ''c'' ''c'']"

definition demo_moves :: "batch_move list" where
  "demo_moves = [Launch, Launch, EnterSem 1, Launch, EnterSem 2, Evaluated 2, EnterSem 0, Evaluated 0, Evaluated 1]"


text \<open>
  A composite whose evaluator fails reports that in its result, not as an error: the sequential batch counts the case as
  failed, the concurrent one as an error.
\<close>

definition failing_composite :: "unit evaluator" where
  "failing_composite =
     composite_Evaluate (\<lambda>_. ''e'') (NewCompositeEvaluator None [(\<lambda>w c. (w, Inl (External ''down'')), 1)]) 0"

lemma batches_disagree:
  "(\<lambda>rep. (ep_FailedCases rep, ep_ErrorCases rep))
     (fst (snd (batchEvalSequential (\<lambda>_. None) (\<lambda>_. ''e'') failing_composite [answer_case ''a'' ''a''] 0 ()))) = (1, 0)"
  "map_option (\<lambda>st. map_option (\<lambda>(rep, e). (ep_FailedCases rep, ep_ErrorCases rep)) (batchEvalConcurrent [answer_case ''a'' ''a''] 0 st))
     (batch_steps 2 (\<lambda>_. ''e'') failing_composite [answer_case ''a'' ''a''] [Launch, EnterSem 0, Evaluated 0]
       (batch_start [answer_case ''a'' ''a''] ())) = Some (Some (0, 1))"
  by code_simp+

section \<open>Tool calls in order\<close>

lemma find_call_Some:
  "find_call name as = Some (a, later) \<Longrightarrow> \<exists>us. as = us @ a # later \<and> tc_Name a = name \<and> name \<notin> tc_Name ` set us"
proof (induction as)
  case (Cons b as)
  show ?case
  proof (cases "tc_Name b = name")
    case True
    then show ?thesis using Cons.prems by (intro exI [of _ "[]"]) simp
  next
    case False
    then obtain us where "as = us @ a # later" "tc_Name a = name" "name \<notin> tc_Name ` set us" using Cons by auto
    then show ?thesis using False by (intro exI [of _ "b # us"]) auto
  qed
qed simp

lemma find_call_None: "find_call name as = None \<longleftrightarrow> name \<notin> tc_Name ` set as"
  by (induction as) auto

lemma subseq_first: "x \<notin> set us \<Longrightarrow> subseq (x # xs) (us @ x # vs) \<longleftrightarrow> subseq xs vs"
  by (induction us) auto

lemma match_calls_subseq:
  "fst (match_calls False es as m ds) = m + length es \<longleftrightarrow> subseq (map tc_Name es) (map tc_Name as)"
proof (induction es arbitrary: as m ds)
  case (Cons e es)
  show ?case
  proof (cases "find_call (tc_Name e) as")
    case None
    have "fst (match_calls False es [] m ds') \<le> m + length es" for ds'
      using match_calls_le [of False es "[]" m ds'] by (metis fst_conv surj_pair)
    moreover have "\<not> subseq (tc_Name e # map tc_Name es) (map tc_Name as)"
      using None list_emb_set [of "(=)" "tc_Name e # map tc_Name es" "map tc_Name as" "tc_Name e"]
      by (auto simp: find_call_None)
    ultimately show ?thesis using None by (simp add: less_le_not_le le_less_Suc_eq not_le [symmetric])
       (metis Suc_n_not_le_n add_le_cancel_left)
  next
    case (Some p)
    obtain a later where p: "p = (a, later)" by fastforce
    from find_call_Some [OF Some [unfolded p]] obtain us
      where us: "as = us @ a # later" "tc_Name a = tc_Name e" "tc_Name e \<notin> set (map tc_Name us)" by auto
    then show ?thesis using Some p Cons.IH [of later "Suc m"] subseq_first [OF us(3)] by simp
  qed
qed simp

lemma match_calls_strict:
  "fst (match_calls True es as m ds) = m + length es \<Longrightarrow>
    subseq (map (\<lambda>t. (tc_Name t, tc_Arguments t)) es) (map (\<lambda>t. (tc_Name t, tc_Arguments t)) as)"
proof (induction es arbitrary: as m ds)
  case (Cons e es)
  have le: "fst (match_calls True es as' m ds') \<le> m + length es" for as' ds'
    using match_calls_le [of True es as' m ds'] by (metis fst_conv surj_pair)
  obtain a later where f: "find_call (tc_Name e) as = Some (a, later)" "tc_Arguments a = tc_Arguments e"
    using Cons.prems le by (auto split: option.splits if_splits) (metis Suc_n_not_le_n)+
  then have "fst (match_calls True es later (Suc m) (ds @ [detail (tc_Name e) 1 True (Sprintf ''tool %q matched'' [AStr (tc_Name e)])])) =
      Suc m + length es" using Cons.prems by simp
  note IH = Cons.IH [OF this]
  obtain us where "as = us @ a # later" "tc_Name a = tc_Name e" using find_call_Some [OF f(1)] by auto
  then show ?case using IH f(2) by (auto intro: subseq_drop_many)
qed simp

text \<open>
  Tool calls are expected in order.  Compared by name, an answer passes exactly if the names of the expected calls
  occur among those of the actual calls in the same order, others between them allowed; compared with
  arguments it passes only if the pairs of names and arguments do.  It passes exactly if the score is 1.
\<close>

lemma tool_calls_in_order:
  assumes "tool_Evaluate strict d c = Inr r"
  shows "(\<not> strict \<longrightarrow> (er_Passed r \<longleftrightarrow>
        subseq (map tc_Name (extractToolCalls (ec_Expected c))) (map tc_Name (extractToolCalls (ec_Actual c))))) \<and>
    (strict \<and> er_Passed r \<longrightarrow> subseq (map (\<lambda>t. (tc_Name t, tc_Arguments t)) (extractToolCalls (ec_Expected c)))
        (map (\<lambda>t. (tc_Name t, tc_Arguments t)) (extractToolCalls (ec_Actual c)))) \<and>
    (er_Passed r \<longleftrightarrow> er_Score r = 1)"
proof (cases "extractToolCalls (ec_Expected c) = []")
  case True
  then show ?thesis using assms by (auto simp: tool_Evaluate_def Let_def split: option.splits)
next
  case False
  let ?es = "extractToolCalls (ec_Expected c)" and ?as = "extractToolCalls (ec_Actual c)"
  obtain m ds where m: "match_calls strict ?es ?as 0 [] = (m, ds)" by fastforce
  have r: "er_Passed r \<longleftrightarrow> m = length ?es" "er_Score r = of_nat m / of_nat (length ?es)"
    using assms False m by (auto simp: tool_Evaluate_def Let_def split: option.splits)
  have "(of_nat m / of_nat (length ?es) :: rat) = 1 \<longleftrightarrow> m = length ?es" using False by auto
  then show ?thesis
    using r m match_calls_subseq [of ?es ?as 0 "[]"] match_calls_strict [of ?es ?as 0 "[]"] by (cases strict) auto
qed

definition calling_case :: "string list \<Rightarrow> string list \<Rightarrow> eval_case" where
  "calling_case expected actual =
     (let answer_of = (\<lambda>names. Some (response_zero\<lparr>rs_Messages := [NewAssistantMessage 0
            ((text_message RoleAssistant [])\<lparr>am_ToolCalls :=
               map (\<lambda>n. \<lparr>tc_ID = [], tc_Name = n, tc_Arguments = ''{}''\<rparr>) names\<rparr>) []]\<rparr>))
      in (answer_case [] [])\<lparr>ec_Expected := answer_of expected, ec_Actual := answer_of actual\<rparr>)"

theorem tool_calls_in_order_witness:
  "\<exists>r. tool_Evaluate False 0 (calling_case [''read'', ''edit''] [''grep'', ''read'', ''read'', ''edit'']) = Inr r \<and>
     er_Passed r \<and> er_Score r = 1"
proof -
  let ?c = "calling_case [''read'', ''edit''] [''grep'', ''read'', ''read'', ''edit'']"
  obtain r where r: "tool_Evaluate False 0 ?c = Inr r"
  proof (cases "tool_Evaluate False 0 ?c")
    case (Inl err)
    moreover have "case tool_Evaluate False 0 ?c of Inl _ \<Rightarrow> False | Inr _ \<Rightarrow> True" by code_simp
    ultimately show ?thesis by simp
  qed
  have "subseq (map tc_Name (extractToolCalls (ec_Expected ?c))) (map tc_Name (extractToolCalls (ec_Actual ?c)))"
    by code_simp
  with tool_calls_in_order [OF r] r show ?thesis by auto
qed

text \<open>
  With arguments the converse fails: the first call of the name is taken, also if a later one has the expected arguments.
\<close>

lemma strict_takes_first:
  "match_calls True [\<lparr>tc_ID = [], tc_Name = ''f'', tc_Arguments = ''2''\<rparr>]
     [\<lparr>tc_ID = [], tc_Name = ''f'', tc_Arguments = ''1''\<rparr>, \<lparr>tc_ID = [], tc_Name = ''f'', tc_Arguments = ''2''\<rparr>] 0 [] \<noteq> (1, [])
   \<and> fst (match_calls True [\<lparr>tc_ID = [], tc_Name = ''f'', tc_Arguments = ''2''\<rparr>]
     [\<lparr>tc_ID = [], tc_Name = ''f'', tc_Arguments = ''1''\<rparr>, \<lparr>tc_ID = [], tc_Name = ''f'', tc_Arguments = ''2''\<rparr>] 0 []) = 0"
  by simp

section \<open>The format of the judge\<close>

definition labelled :: "string \<Rightarrow> string \<Rightarrow> string \<Rightarrow> string" where
  "labelled bold name v = bold @ name @ '':'' @ bold @ '' '' @ v"

text \<open>A value on one line, without blanks around it and without stars.\<close>

definition plain_value :: "string \<Rightarrow> bool" where
  "plain_value v \<longleftrightarrow> v \<noteq> [] \<and> trim_space v = v \<and> CHR ''*'' \<notin> set v \<and> char_of (10 :: nat) \<notin> set v"

lemma str_index_after: "c \<notin> set x \<Longrightarrow> str_index (x @ c # t) (c # s) = (if has_prefix (c # t) (c # s) then Some (length x)
    else map_option (\<lambda>i. length x + Suc i) (str_index t (c # s)))"
  by (induction x) (auto simp: has_prefix_def option.map_comp comp_def)

lemma str_replace_all_absent: "\<not> sublist old s \<Longrightarrow> str_replace_all s old new = s"
  unfolding str_replace_all_def by (subst str_split.simps) (simp add: str_cut_None [symmetric])

lemma no_star: "CHR ''*'' \<notin> set s \<Longrightarrow> \<not> sublist ''**'' s \<and> \<not> sublist ''*'' s"
  by (auto dest: set_mono_sublist)

lemma drop_bold:
  assumes "CHR ''*'' \<notin> set x" "CHR ''*'' \<notin> set y"
  shows "str_replace_all (''**'' @ x @ ''**'' @ y) ''**'' [] = x @ y"
proof -
  have "str_cut (''**'' @ z) ''**'' = Some ([], z)" for z by (simp add: str_cut_def has_prefix_def)
  moreover have "str_cut (x @ ''**'' @ y) ''**'' = Some (x, y)"
    using assms(1) by (simp add: str_cut_def str_index_after has_prefix_def)
  moreover have "str_cut y ''**'' = None" using no_star [OF assms(2)] by (simp add: str_cut_None)
  ultimately have "str_split (''**'' @ x @ ''**'' @ y) ''**'' = [[], x, y]"
    using str_split_Some [of "''**''" "''**'' @ x @ ''**'' @ y"] str_split_Some [of "''**''" "x @ ''**'' @ y"]
      str_split_None [of y "''**''"]
    by simp
  then show ?thesis by (simp add: str_replace_all_def)
qed

lemma plain_ends: "plain_value v \<Longrightarrow> \<not> is_space (hd v) \<and> \<not> is_space (last v)"
  by (rule trim_space_ends) (auto simp: plain_value_def)

lemma upper_letter: "upper_char c \<in> set ''SCOREPAIDNG'' \<Longrightarrow> c \<noteq> CHR ''*'' \<and> \<not> is_space c \<and> c \<noteq> char_of (10 :: nat)"
proof -
  assume "upper_char c \<in> set ''SCOREPAIDNG''"
  moreover have "upper_char d \<notin> set ''SCOREPAIDNG''" if "d = CHR ''*'' \<or> is_space d \<or> d = char_of (10 :: nat)" for d
  proof -
    have "(of_char d :: nat) = 42 \<or> (of_char d :: nat) = 32 \<or> 9 \<le> (of_char d :: nat) \<and> (of_char d :: nat) \<le> 13"
      using that by (auto simp: is_space_def)
    then have "upper_char d = d \<and> (of_char d :: nat) \<le> 42" by (auto simp: upper_char_def)
    moreover have "\<forall>e\<in>set ''SCOREPAIDNG''. 42 < (of_char e :: nat)" by simp
    ultimately show ?thesis by (metis not_le)
  qed
  ultimately show ?thesis by blast
qed

lemma plain_label:
  assumes "to_upper name \<in> {''SCORE'', ''PASSED'', ''REASONING''}"
  shows "name \<noteq> []" "\<forall>c\<in>set name. c \<noteq> CHR ''*'' \<and> \<not> is_space c \<and> c \<noteq> char_of (10 :: nat)"
proof -
  show "name \<noteq> []" using assms by (auto simp: to_upper_def)
  have "upper_char c \<in> set ''SCOREPAIDNG''" if "c \<in> set name" for c
  proof -
    have "upper_char c \<in> set (to_upper name)" using that by (simp add: to_upper_def)
    then show ?thesis using assms by auto
  qed
  then show "\<forall>c\<in>set name. c \<noteq> CHR ''*'' \<and> \<not> is_space c \<and> c \<noteq> char_of (10 :: nat)" using upper_letter by blast
qed

lemma labelled_line:
  assumes "to_upper name \<in> {''SCORE'', ''PASSED'', ''REASONING''}" "bold \<in> {[], ''**''}" "plain_value v"
  shows "trim_space (labelled bold name v) = labelled bold name v"
    and "cutLabel (labelled bold name v) l =
      (if has_prefix (to_upper name @ '':'' @ '' '' @ to_upper v) (to_upper l @ '':'')
       then Some (trim_space (drop (length l + 1) (name @ '':'' @ '' '' @ v))) else None)"
    and "char_of (10 :: nat) \<notin> set (labelled bold name v)"
proof -
  note n = plain_label [OF assms(1)] and e = plain_ends [OF assms(3)]
  have v: "v \<noteq> []" "CHR ''*'' \<notin> set v" "char_of (10 :: nat) \<notin> set v" using assms(3) by (auto simp: plain_value_def)
  have free: "CHR ''*'' \<notin> set name" "char_of (10 :: nat) \<notin> set name" using n(2) by blast+
  have h: "\<not> is_space (hd name)" using n hd_in_set by blast
  have "char_of (10 :: nat) \<notin> set ('':'' @ [] @ '' '')" "char_of (10 :: nat) \<notin> set ('':'' @ ''**'' @ '' '')" by code_simp+
  then have "char_of (10 :: nat) \<notin> set bold" "char_of (10 :: nat) \<notin> set ('':'' @ '' '')" using assms(2) by auto
  then show "char_of (10 :: nat) \<notin> set (labelled bold name v)" using free(2) v(3) by (simp add: labelled_def)
  show "trim_space (labelled bold name v) = labelled bold name v"
  proof (rule trim_space_id)
    show "labelled bold name v \<noteq> []" by (simp add: labelled_def)
    show "\<not> is_space (hd (labelled bold name v))"
      using assms(2) h n(1) by (cases "bold = []") (simp_all add: labelled_def is_space_def)
    show "\<not> is_space (last (labelled bold name v))" using v e by (simp add: labelled_def)
  qed
  have s: "CHR ''*'' \<notin> set (name @ '':'')" "CHR ''*'' \<notin> set ('' '' @ v)" "CHR ''*'' \<notin> set (name @ '':'' @ '' '' @ v)"
    using free(1) v(2) by simp_all
  have "str_replace_all (labelled bold name v) ''**'' [] = name @ '':'' @ '' '' @ v"
    using assms(2) drop_bold [OF s(1,2)] no_star [OF s(3)] by (auto simp: labelled_def str_replace_all_absent)
  then have "normalizeLabel (labelled bold name v) = trim_space (name @ '':'' @ '' '' @ v)"
    using no_star [OF s(3)] by (simp add: normalizeLabel_def str_replace_all_absent)
  also have "\<dots> = name @ '':'' @ '' '' @ v"
    by (rule trim_space_id) (use n(1) v e h in simp_all)
  finally show "cutLabel (labelled bold name v) l =
      (if has_prefix (to_upper name @ '':'' @ '' '' @ to_upper v) (to_upper l @ '':'')
       then Some (trim_space (drop (length l + 1) (name @ '':'' @ '' '' @ v))) else None)"
    by (simp add: cutLabel_def Let_def to_upper_def upper_char_def)
qed

text \<open>
  The verdict of the judge is read back.  An answer in the requested format, with the labels in any case and bold or
  not, is parsed to the score, cut to the unit interval, the decision and the reason it states.
\<close>

lemma verdict_read_back:
  assumes "to_upper n1 = ''SCORE''" "to_upper n2 = ''PASSED''" "to_upper n3 = ''REASONING''"
    and "b1 \<in> {[], ''**''}" "b2 \<in> {[], ''**''}" "b3 \<in> {[], ''**''}"
    and "plain_value s" "plain_value b" "plain_value r" "parseFloat s = Inr q" "ParseBool b = Some p"
  shows "parseJudgeResponse parseFloat
      (str_join [char_of (10 :: nat)] [labelled b1 n1 s, labelled b2 n2 b, labelled b3 n3 r]) = Inr (clamp q 0 1, p, r)"
proof -
  have v: "trim_space ('' '' @ x) = x" if "plain_value x" for x
    using that by (simp add: plain_value_def trim_space_def is_space_def)
  have len: "length n1 = 5" "length n2 = 6" "length n3 = 9"
    using arg_cong [OF assms(1), of length] arg_cong [OF assms(2), of length] arg_cong [OF assms(3), of length]
    by (simp_all add: to_upper_def)
  have m: "to_upper n1 \<in> {''SCORE'', ''PASSED'', ''REASONING''}" "to_upper n2 \<in> {''SCORE'', ''PASSED'', ''REASONING''}"
      "to_upper n3 \<in> {''SCORE'', ''PASSED'', ''REASONING''}" using assms(1-3) by auto
  note L1 = labelled_line [OF m(1) assms(4,7)] and L2 = labelled_line [OF m(2) assms(5,8)]
    and L3 = labelled_line [OF m(3) assms(6,9)]
  have up: "to_upper ''SCORE'' = ''SCORE''" "to_upper ''PASSED'' = ''PASSED''" "to_upper ''REASONING'' = ''REASONING''"
    by code_simp+
  have c1: "cutLabel (labelled b1 n1 s) ''SCORE'' = Some s"
    using v [OF assms(7)] len by (simp add: L1(2) up assms(1) has_prefix_def)
  have c2: "cutLabel (labelled b2 n2 b) ''SCORE'' = None" "cutLabel (labelled b2 n2 b) ''PASSED'' = Some b"
    using v [OF assms(8)] len by (simp_all add: L2(2) up assms(2) has_prefix_def)
  have c3: "cutLabel (labelled b3 n3 r) ''SCORE'' = None" "cutLabel (labelled b3 n3 r) ''PASSED'' = None"
      "cutLabel (labelled b3 n3 r) ''REASONING'' = Some r"
    using v [OF assms(9)] len by (simp_all add: L3(2) up assms(3) has_prefix_def)
  have "str_split (str_join [char_of (10 :: nat)] [labelled b1 n1 s, labelled b2 n2 b, labelled b3 n3 r]) [char_of (10 :: nat)] =
      [labelled b1 n1 s, labelled b2 n2 b, labelled b3 n3 r]"
    by (rule str_split_join) (use L1(3) L2(3) L3(3) in auto)
  then show ?thesis
    by (simp add: parseJudgeResponse_def L1(1) L2(1) L3(1) judge_line_def c1 c2 c3 assms(10,11) all_found_def del: str_join.simps)
      simp
qed

theorem verdict_read_back_witness:
  "parseJudgeResponse (\<lambda>s. if s = ''1.5'' then Inr (3 / 2) else Inl (External ''syntax''))
     (str_join [char_of (10 :: nat)] [labelled ''**'' ''Score'' ''1.5'', labelled [] ''PASSED'' ''true'', labelled ''**'' ''reasoning'' ''It is good.'']) =
   Inr (1, True, ''It is good.'')"
proof -
  have "to_upper ''Score'' = ''SCORE''" "to_upper ''PASSED'' = ''PASSED''" "to_upper ''reasoning'' = ''REASONING''"
      "plain_value ''1.5''" "plain_value ''true''" "plain_value ''It is good.''" "ParseBool ''true'' = Some True"
      "clamp (3 / 2) 0 1 = 1"
    by code_simp+
  then show ?thesis
    using verdict_read_back [of "''Score''" "''PASSED''" "''reasoning''" "''**''" "[]" "''**''" "''1.5''" "''true''"
      "''It is good.''" "\<lambda>s. if s = ''1.5'' then Inr (3 / 2) else Inl (External ''syntax'')" "3 / 2" True]
    by simp
qed

text \<open>A blank before the colon is not accepted.\<close>

lemma blank_before_colon: "cutLabel ''SCORE : 1'' ''SCORE'' = None"
  by code_simp

end
