(* ===== verification/Commands.thy ===== *)
theory Commands
  imports Files
begin

text \<open>
  Tools that run commands: \<open>tool/toolkit/cmdrunner.go\<close>, \<open>truncate.go\<close>, \<open>tool/bash\<close>, \<open>tool/grep\<close> and \<open>tool/glob\<close> (on
  Unix).  What a command writes and how it ends is in the record \<open>process\<close>; which programs are installed, the
  modification times of files and \<open>strconv.ParseFloat\<close> are arguments.  The pipes
  between a command and its readers are in theory \<open>Pipes\<close>.
\<close>

section \<open>Truncation\<close>

text \<open>\<open>utf8.Valid\<close>.\<close>

function utf8_valid :: "string \<Rightarrow> bool" where
  "utf8_valid s \<longleftrightarrow>
     (if s = [] then True
      else (rune_width s = 1 \<longrightarrow> (of_char (hd s) :: nat) < 128) \<and> utf8_valid (drop (rune_width s) s))"
  by pat_completeness auto
termination
  by (relation "measure length") (auto intro: diff_less rune_width_pos)

declare utf8_valid.simps [simp del]

function shorten :: "string \<Rightarrow> string" where
  "shorten t = (if t \<noteq> [] \<and> \<not> utf8_valid t then shorten (butlast t) else t)"
  by pat_completeness auto
termination
  by (relation "measure length") auto

declare shorten.simps [simp del]

definition TruncateUTF8 :: "string \<Rightarrow> nat \<Rightarrow> string" where
  "TruncateUTF8 s maxBytes = (if length s \<le> maxBytes then s else shorten (take maxBytes s))"

section \<open>Running a command\<close>

datatype wait_error = ExitError int | WaitError gerror

record process =
  pr_stdoutPipe :: "gerror option"
  pr_stderrPipe :: "gerror option"
  pr_start :: "gerror option"
  pr_stdout :: string
  pr_stderr :: string
  pr_wait :: "wait_error option"
  pr_parent :: "gerror option"
  pr_child :: "gerror option"

record run_result =
  rr_Stdout :: string
  rr_Stderr :: string
  rr_ExitCode :: int
  rr_Truncated :: bool

definition run_result_of :: "string \<Rightarrow> string \<Rightarrow> int \<Rightarrow> bool \<Rightarrow> run_result" where
  "run_result_of out err code truncated =
     \<lparr>rr_Stdout = out, rr_Stderr = err, rr_ExitCode = code, rr_Truncated = truncated\<rparr>"

definition RunCommand :: "nat \<Rightarrow> string \<Rightarrow> process \<Rightarrow> run_result res" where
  "RunCommand maxOutputBytes timeout p =
     (case pr_stdoutPipe p of
        Some err \<Rightarrow> Inl (Errorf ''stdout pipe: %w'' [] (Some err))
      | None \<Rightarrow>
          (case pr_stderrPipe p of
             Some err \<Rightarrow> Inl (Errorf ''stderr pipe: %w'' [] (Some err))
           | None \<Rightarrow>
               (case pr_start p of
                  Some err \<Rightarrow> Inl (Errorf ''start: %w'' [] (Some err))
                | None \<Rightarrow>
                    (let buf = take (maxOutputBytes + 1) (pr_stdout p);
                         truncated = (length buf \<ge> maxOutputBytes + 1);
                         stdout = (if truncated then TruncateUTF8 buf maxOutputBytes else buf);
                         stderr = pr_stderr p
                     in case pr_wait p of
                          None \<Rightarrow> Inr (run_result_of stdout stderr 0 truncated)
                        | Some waitErr \<Rightarrow>
                            if truncated then Inr (run_result_of stdout stderr 0 True)
                            else if pr_parent p = Some CtxCanceled then Inl (Errorf ''command cancelled'' [] None)
                            else if pr_child p = Some CtxDeadline
                            then Inl (Errorf ''command timed out after %s'' [AStr timeout] None)
                            else (case waitErr of
                                    ExitError code \<Rightarrow> Inr (run_result_of stdout stderr code False)
                                  | WaitError e \<Rightarrow> Inl e)))))"

section \<open>The bash tool\<close>

record bash_tool =
  bt_timeout :: string
  bt_workingDir :: string
  bt_maxOutputBytes :: nat

definition bt_WithTimeout :: "string \<Rightarrow> bash_tool \<Rightarrow> bash_tool" where
  "bt_WithTimeout d bt = bt\<lparr>bt_timeout := d\<rparr>"

definition bt_WithWorkingDir :: "string \<Rightarrow> bash_tool \<Rightarrow> bash_tool" where
  "bt_WithWorkingDir dir bt = bt\<lparr>bt_workingDir := dir\<rparr>"

definition bt_WithMaxOutput :: "nat \<Rightarrow> bash_tool \<Rightarrow> bash_tool" where
  "bt_WithMaxOutput n bt = bt\<lparr>bt_maxOutputBytes := n\<rparr>"

definition bt_New :: "(bash_tool \<Rightarrow> bash_tool) list \<Rightarrow> bash_tool" where
  "bt_New opts = fold (\<lambda>opt bt. opt bt) opts
     \<lparr>bt_timeout = ''30s'', bt_workingDir = [], bt_maxOutputBytes = 256 * 1024\<rparr>"

text \<open>The output is the standard output followed by the error output, cut after one byte too many.\<close>

definition bash_execute :: "bash_tool \<Rightarrow> (gerror \<Rightarrow> string) \<Rightarrow> process \<Rightarrow> tool_result" where
  "bash_execute bt errText p =
     (case (pr_stdoutPipe p, pr_stderrPipe p, pr_start p) of
        (Some err, _, _) \<Rightarrow> ErrorResult [] (''bash tool: '' @ errText err)
      | (None, Some err, _) \<Rightarrow> ErrorResult [] (''bash tool: '' @ errText err)
      | (None, None, Some err) \<Rightarrow> ErrorResult [] (''bash tool: '' @ errText err)
      | (None, None, None) \<Rightarrow>
          (let buf = take (bt_maxOutputBytes bt + 1) (pr_stdout p @ pr_stderr p);
               truncated = (length buf \<ge> bt_maxOutputBytes bt + 1);
               output = (if truncated
                 then shorten (take (bt_maxOutputBytes bt) buf) @ newline @ ''... [output truncated, showing first '' @
                   itoa (int (bt_maxOutputBytes bt)) @ '' bytes]''
                 else buf)
           in case pr_wait p of
                None \<Rightarrow> TextResult [] output
              | Some waitErr \<Rightarrow>
                  if pr_parent p = Some CtxCanceled then ErrorResult [] (output @ newline @ ''command cancelled'')
                  else if pr_child p = Some CtxDeadline
                  then ErrorResult [] (output @ newline @ ''command timed out after '' @ bt_timeout bt)
                  else (case waitErr of
                          ExitError code \<Rightarrow> ErrorResult [] (output @ newline @ ''exit code: '' @ itoa code)
                        | WaitError e \<Rightarrow> ErrorResult [] (output @ newline @ errText e))))"

definition bt_Handler ::
  "bash_tool \<Rightarrow> (gerror \<Rightarrow> string) \<Rightarrow> (string \<Rightarrow> string \<Rightarrow> process) \<Rightarrow> string res \<Rightarrow> tool_result" where
  "bt_Handler bt errText sh args =
     (case args of
        Inl err \<Rightarrow> ErrorResult [] (''bash tool: invalid arguments: '' @ errText err)
      | Inr command \<Rightarrow>
          if command = [] then ErrorResult [] ''bash tool: command must not be empty''
          else bash_execute bt errText (sh (bt_workingDir bt) command))"

section \<open>The grep tool\<close>

text \<open>A text between single quotes.\<close>

definition quoted :: "string \<Rightarrow> string" where
  "quoted s = [CHR 0x27] @ s @ [CHR 0x27]"

record grep_tool =
  gr_timeout :: string
  gr_workingDir :: string
  gr_allowedDirs :: "string list"
  gr_maxOutputBytes :: nat

record grep_args =
  ga_Pattern :: string
  ga_Path :: string
  ga_Include :: string

definition gr_WithTimeout :: "string \<Rightarrow> grep_tool \<Rightarrow> grep_tool" where
  "gr_WithTimeout d gt = gt\<lparr>gr_timeout := d\<rparr>"

definition gr_WithWorkingDir :: "string \<Rightarrow> grep_tool \<Rightarrow> grep_tool" where
  "gr_WithWorkingDir dir gt = gt\<lparr>gr_workingDir := dir\<rparr>"

definition gr_WithAllowedDirs :: "string list \<Rightarrow> grep_tool \<Rightarrow> grep_tool" where
  "gr_WithAllowedDirs dirs gt = gt\<lparr>gr_allowedDirs := CleanAllowedDirs dirs\<rparr>"

definition gr_WithMaxOutput :: "nat \<Rightarrow> grep_tool \<Rightarrow> grep_tool" where
  "gr_WithMaxOutput n gt = gt\<lparr>gr_maxOutputBytes := n\<rparr>"

definition gr_New :: "(grep_tool \<Rightarrow> grep_tool) list \<Rightarrow> grep_tool" where
  "gr_New opts = fold (\<lambda>opt gt. opt gt) opts
     \<lparr>gr_timeout = ''30s'', gr_workingDir = [], gr_allowedDirs = [], gr_maxOutputBytes = 256 * 1024\<rparr>"

text \<open>\<open>installed\<close> is \<open>exec.LookPath\<close>; a command is the path of the program and its arguments.\<close>

definition resolveGrepCommand :: "(string \<Rightarrow> string option) \<Rightarrow> (string \<times> string) res" where
  "resolveGrepCommand installed =
     (case installed ''rg'' of
        Some p \<Rightarrow> Inr (p, ''rg'')
      | None \<Rightarrow>
          (case installed ''grep'' of
             Some p \<Rightarrow> Inr (p, ''grep'')
           | None \<Rightarrow> Inl (Errorf (''grep tool: neither '' @ quoted ''rg'' @ '' (ripgrep) nor '' @ quoted ''grep'' @
               '' found in PATH; please install one'') [] None)))"

definition buildGrepCommand ::
  "(string \<Rightarrow> string option) \<Rightarrow> string \<Rightarrow> string \<Rightarrow> string \<Rightarrow> (string \<times> string list) res" where
  "buildGrepCommand installed searchPath pattern includes =
     (case resolveGrepCommand installed of
        Inl err \<Rightarrow> Inl err
      | Inr (cmdPath, cmdType) \<Rightarrow>
          if cmdType = ''rg'' then
            Inr (cmdPath, [''--line-number'', ''--no-heading'', pattern] @
              (if includes \<noteq> [] then [''--glob'', includes] else []) @ [searchPath])
          else
            Inr (cmdPath, [''-rn'', pattern] @ (if includes \<noteq> [] then [''--include='' @ includes] else []) @ [searchPath]))"

definition grep_execute ::
  "grep_tool \<Rightarrow> (string \<Rightarrow> string option) \<Rightarrow> (string \<Rightarrow> string list \<Rightarrow> process) \<Rightarrow> string \<Rightarrow> string \<Rightarrow> string \<Rightarrow>
     run_result res" where
  "grep_execute gt installed run searchPath pattern includes =
     (case buildGrepCommand installed searchPath pattern includes of
        Inl err \<Rightarrow> Inl err
      | Inr (cmdPath, args) \<Rightarrow> RunCommand (gr_maxOutputBytes gt) (gr_timeout gt) (run cmdPath args))"

definition gr_Handler ::
  "grep_tool \<Rightarrow> os_env \<Rightarrow> (string \<Rightarrow> string option) \<Rightarrow> (string \<Rightarrow> string list \<Rightarrow> process) \<Rightarrow> grep_args res \<Rightarrow> tool_result" where
  "gr_Handler gt os installed run args =
     (case oe_ctx os 0 of
        Some err \<Rightarrow> ErrorResult [] (''grep tool: '' @ oe_text os err)
      | None \<Rightarrow>
          (case args of
             Inl err \<Rightarrow> ErrorResult [] (''grep tool: invalid arguments: '' @ oe_text os err)
           | Inr parsed \<Rightarrow>
               if ga_Pattern parsed = [] then ErrorResult [] ''grep tool: pattern must not be empty''
               else
                 (let searchPath0 = (if ga_Path parsed = [] then gr_workingDir gt else ga_Path parsed) in
                  if searchPath0 = [] then
                    ErrorResult [] ''grep tool: no search path provided and no working directory configured''
                  else
                    (let searchPath = path_clean searchPath0;
                         refused = (if gr_allowedDirs gt \<noteq> []
                           then (case ValidatePath ''grep'' (oe_links os) searchPath (gr_allowedDirs gt) of
                                   Inl err \<Rightarrow> Some err | Inr _ \<Rightarrow> None)
                           else None)
                     in case refused of
                          Some err \<Rightarrow> ErrorResult [] (oe_text os err)
                        | None \<Rightarrow>
                            (case grep_execute gt installed run searchPath (ga_Pattern parsed) (ga_Include parsed) of
                               Inl err \<Rightarrow> ErrorResult [] (''grep tool: '' @ oe_text os err)
                             | Inr result \<Rightarrow>
                                 if rr_ExitCode result = 0 then
                                   TextResult [] (rr_Stdout result @
                                     (if rr_Truncated result
                                      then newline @ ''... [output truncated, showing first '' @
                                        itoa (int (gr_maxOutputBytes gt)) @ '' bytes]''
                                      else []))
                                 else if rr_ExitCode result = 1 then
                                   TextResult [] (if rr_Stdout result = [] then ''No matches found.'' else rr_Stdout result)
                                 else
                                   ErrorResult [] (if rr_Stderr result \<noteq> []
                                     then trim_space (rr_Stdout result @ newline @ rr_Stderr result)
                                     else rr_Stdout result))))))"

section \<open>The glob tool\<close>

record glob_tool =
  gl_timeout :: string
  gl_workingDir :: string
  gl_allowedDirs :: "string list"
  gl_maxOutputBytes :: nat
  gl_maxResults :: nat

definition gl_WithTimeout :: "string \<Rightarrow> glob_tool \<Rightarrow> glob_tool" where
  "gl_WithTimeout d gt = gt\<lparr>gl_timeout := d\<rparr>"

definition gl_WithWorkingDir :: "string \<Rightarrow> glob_tool \<Rightarrow> glob_tool" where
  "gl_WithWorkingDir dir gt = gt\<lparr>gl_workingDir := dir\<rparr>"

definition gl_WithAllowedDirs :: "string list \<Rightarrow> glob_tool \<Rightarrow> glob_tool" where
  "gl_WithAllowedDirs dirs gt = gt\<lparr>gl_allowedDirs := CleanAllowedDirs dirs\<rparr>"

definition gl_WithMaxOutput :: "nat \<Rightarrow> glob_tool \<Rightarrow> glob_tool" where
  "gl_WithMaxOutput n gt = gt\<lparr>gl_maxOutputBytes := n\<rparr>"

definition gl_WithMaxResults :: "nat \<Rightarrow> glob_tool \<Rightarrow> glob_tool" where
  "gl_WithMaxResults n gt = gt\<lparr>gl_maxResults := n\<rparr>"

definition gl_New :: "(glob_tool \<Rightarrow> glob_tool) list \<Rightarrow> glob_tool" where
  "gl_New opts = fold (\<lambda>opt gt. opt gt) opts
     \<lparr>gl_timeout = ''30s'', gl_workingDir = [], gl_allowedDirs = [], gl_maxOutputBytes = 256 * 1024, gl_maxResults = 1000\<rparr>"

definition containsDotDot :: "string \<Rightarrow> bool" where
  "containsDotDot pattern \<longleftrightarrow> ''..'' \<in> set (str_split (str_replace_all pattern [CHR 0x5C] slash) slash)"

function isGitRepo :: "(string \<Rightarrow> bool) \<Rightarrow> string \<Rightarrow> bool" where
  "isGitRepo isDir dir =
     (if isDir (path_join dir ''.git'') then True
      else if path_dir dir = dir then False
      else isGitRepo isDir (path_dir dir))"
  by pat_completeness auto
termination
proof (relation "measure (\<lambda>(isDir, p). if p = ''.'' then 0 else if p = [] then 1 else length p)")
  fix isDir :: "string \<Rightarrow> bool" and path :: string
  assume "path_dir path \<noteq> path"
  then show "((isDir, path_dir path), (isDir, path)) \<in>
      measure (\<lambda>(isDir, p). if p = ''.'' then 0 else if p = [] then 1 else length p)"
    using path_dir_measure by auto
qed simp

declare isGitRepo.simps [simp del]

definition buildGitCommand :: "(string \<Rightarrow> string option) \<Rightarrow> string \<Rightarrow> string \<Rightarrow> (string \<times> string list) option" where
  "buildGitCommand installed dir pattern =
     map_option (\<lambda>gitPath. (gitPath, [''-C'', dir, ''ls-files'', ''--cached'', ''--others'', ''--exclude-standard'', pattern]))
       (installed ''git'')"

definition defaultExcludeDirs :: "string list" where
  "defaultExcludeDirs = [''.git'', ''.svn'', ''.hg'', ''node_modules'', ''__pycache__'', ''.DS_Store'']"

definition buildExcludeArgs :: "string list" where
  "buildExcludeArgs = concat (map (\<lambda>d. [''-not'', ''-path'', ''*/'' @ d @ ''/*'']) defaultExcludeDirs)"

definition buildGlobCommand ::
  "(string \<Rightarrow> string option) \<Rightarrow> bool \<Rightarrow> string \<Rightarrow> string \<Rightarrow> (string \<times> string list) res" where
  "buildGlobCommand installed hasPrintf dir pattern =
     (case installed ''find'' of
        None \<Rightarrow> Inl (Errorf (''glob tool: '' @ quoted ''find'' @ '' command not found; please install it'') [] None)
      | Some cmdPath \<Rightarrow>
          (let fullPattern = path_join dir pattern;
               args = [dir] @ buildExcludeArgs @ [''-path'', fullPattern, ''-type'', ''f'']
           in Inr (cmdPath, if hasPrintf then args @ [''-printf'', ''%T@'' @ [CHR 0x09] @ ''%p'' @ newline] else args)))"

definition toAbsolutePaths :: "string \<Rightarrow> string \<Rightarrow> string" where
  "toAbsolutePaths dir output =
     (let lines = filter (\<lambda>l. l \<noteq> []) (map trim_space (str_split output newline))
      in str_join newline (map (\<lambda>l. if is_abs l then l else path_join dir l) lines))"

definition glob_execute ::
  "glob_tool \<Rightarrow> (string \<Rightarrow> string option) \<Rightarrow> bool \<Rightarrow> (string \<Rightarrow> bool) \<Rightarrow> (string \<Rightarrow> string list \<Rightarrow> process) \<Rightarrow>
     string \<Rightarrow> string \<Rightarrow> run_result res" where
  "glob_execute gt installed hasPrintf isDir run dir pattern =
     (let git = (if isGitRepo isDir dir
            then (case buildGitCommand installed dir pattern of
                    None \<Rightarrow> None
                  | Some (cmdPath, args) \<Rightarrow>
                      (case RunCommand (gl_maxOutputBytes gt) (gl_timeout gt) (run cmdPath args) of
                         Inl err \<Rightarrow> None
                       | Inr result \<Rightarrow> if rr_ExitCode result = 0 then Some result else None))
            else None)
      in case git of
           Some result \<Rightarrow> Inr (result\<lparr>rr_Stdout := toAbsolutePaths dir (rr_Stdout result)\<rparr>)
         | None \<Rightarrow>
             (case buildGlobCommand installed hasPrintf dir pattern of
                Inl err \<Rightarrow> Inl err
              | Inr (cmdPath, args) \<Rightarrow>
                  (case RunCommand (gl_maxOutputBytes gt) (gl_timeout gt) (run cmdPath args) of
                     Inl err \<Rightarrow> Inl err
                   | Inr result \<Rightarrow>
                       if rr_ExitCode result = 1 \<and> rr_Stdout result \<noteq> [] then Inr (result\<lparr>rr_ExitCode := 0\<rparr>)
                       else if rr_ExitCode result \<noteq> 0 \<and> rr_Stdout result = []
                       then Inl (Errorf ''exit code: %d'' [AInt (rr_ExitCode result)] None)
                       else Inr result)))"

record file_entry =
  fe_path :: string
  fe_modTime :: rat

definition parse_entry :: "(string \<Rightarrow> rat res) \<Rightarrow> (string \<Rightarrow> rat option) \<Rightarrow> string \<Rightarrow> file_entry option" where
  "parse_entry parseFloat modTime line =
     (let stat = map_option (\<lambda>t. \<lparr>fe_path = line, fe_modTime = t\<rparr>) (modTime line) in
      case str_cut line [CHR 0x09] of
        None \<Rightarrow> stat
      | Some (before, after) \<Rightarrow>
          if before = [] then stat
          else (case parseFloat before of
                  Inr mtime \<Rightarrow> Some \<lparr>fe_path = after, fe_modTime = mtime\<rparr>
                | Inl err \<Rightarrow> stat))"

definition parse_entries :: "(string \<Rightarrow> rat res) \<Rightarrow> (string \<Rightarrow> rat option) \<Rightarrow> string \<Rightarrow> file_entry list" where
  "parse_entries parseFloat modTime output =
     List.map_filter (parse_entry parseFloat modTime) (filter (\<lambda>l. l \<noteq> []) (map trim_space (str_split output newline)))"

text \<open>\<open>slices.SortFunc\<close> is not stable; the order among equal times is given by ranks.\<close>

definition parseAndSortPaths ::
  "(string \<Rightarrow> rat res) \<Rightarrow> (string \<Rightarrow> rat option) \<Rightarrow> (file_entry \<Rightarrow> nat) \<Rightarrow> string \<Rightarrow> string list" where
  "parseAndSortPaths parseFloat modTime tie output =
     map fe_path (sort_key (\<lambda>e. - fe_modTime e) (sort_key tie (parse_entries parseFloat modTime output)))"

record glob_args =
  gb_Pattern :: string
  gb_Path :: string

definition gl_Handler ::
  "glob_tool \<Rightarrow> os_env \<Rightarrow> (string \<Rightarrow> rat res) \<Rightarrow> (string \<Rightarrow> rat option) \<Rightarrow> (file_entry \<Rightarrow> nat) \<Rightarrow> (string \<Rightarrow> string option) \<Rightarrow>
     bool \<Rightarrow> (string \<Rightarrow> string list \<Rightarrow> process) \<Rightarrow> files \<Rightarrow> glob_args res \<Rightarrow> tool_result" where
  "gl_Handler gt os parseFloat modTime tie installed hasPrintf run fs args =
     (case oe_ctx os 0 of
        Some err \<Rightarrow> ErrorResult [] (''glob tool: '' @ oe_text os err)
      | None \<Rightarrow>
          (case args of
             Inl err \<Rightarrow> ErrorResult [] (''glob tool: invalid arguments: '' @ oe_text os err)
           | Inr parsed \<Rightarrow>
               if gb_Pattern parsed = [] then ErrorResult [] ''glob tool: pattern must not be empty''
               else if has_prefix (gb_Pattern parsed) slash then ErrorResult [] ''glob tool: pattern must not be absolute''
               else if containsDotDot (gb_Pattern parsed) then
                 ErrorResult [] (''glob tool: pattern must not contain '' @ quoted ''..'' @ '' components'')
               else
                 (let dir0 = (if gb_Path parsed = [] then gl_workingDir gt else gb_Path parsed) in
                  if dir0 = [] then
                    ErrorResult [] ''glob tool: no search directory provided and no working directory configured''
                  else
                    (let dir = path_clean dir0;
                         refused = (if gl_allowedDirs gt \<noteq> []
                           then (case ValidatePath ''glob'' (oe_links os) dir (gl_allowedDirs gt) of
                                   Inl err \<Rightarrow> Some err | Inr _ \<Rightarrow> None)
                           else None)
                     in case refused of
                          Some err \<Rightarrow> ErrorResult [] (oe_text os err)
                        | None \<Rightarrow>
                            (case os_stat os dir fs of
                               NotExist \<Rightarrow> ErrorResult [] (''glob tool: directory does not exist: '' @ dir)
                             | StatError err \<Rightarrow> ErrorResult [] (''glob tool: '' @ oe_text os err)
                             | IsFile _ _ \<Rightarrow> ErrorResult [] (''glob tool: path is not a directory: '' @ dir)
                             | IsDirectory \<Rightarrow>
                                 (case glob_execute gt installed hasPrintf (\<lambda>p. fs p = Some DirNode) run dir (gb_Pattern parsed) of
                                    Inl err \<Rightarrow> ErrorResult [] (''glob tool: '' @ oe_text os err)
                                  | Inr result \<Rightarrow>
                                      (let sorted_paths = parseAndSortPaths parseFloat modTime tie (rr_Stdout result);
                                           resultsLimited = (length sorted_paths > gl_maxResults gt);
                                           shown = (if resultsLimited then take (gl_maxResults gt) sorted_paths else sorted_paths)
                                       in TextResult [] (str_join newline shown @
                                            (if rr_Truncated result
                                             then newline @ ''... [output truncated at '' @ itoa (int (gl_maxOutputBytes gt)) @
                                               '' bytes, results may be incomplete]''
                                             else []) @
                                            (if resultsLimited
                                             then newline @ ''... [results limited to '' @ itoa (int (gl_maxResults gt)) @ '' entries]''
                                             else []))))))))) "

section \<open>Registration\<close>

text \<open>Commands read and change a world that the tools do not look into.\<close>

definition bt_Register ::
  "string \<Rightarrow> 'p \<Rightarrow> (string \<Rightarrow> string res) \<Rightarrow> (gerror \<Rightarrow> string) \<Rightarrow> ('w \<Rightarrow> string \<Rightarrow> string \<Rightarrow> process) \<Rightarrow>
     ('w \<Rightarrow> string \<Rightarrow> 'w) \<Rightarrow> (bash_tool \<Rightarrow> bash_tool) list \<Rightarrow> ('w, 'p) registry \<Rightarrow> ('w, 'p) registry \<times> gerror option" where
  "bt_Register description parameters decode errText sh effect opts =
     RegisterIfAbsent (file_tool_def ''bash'' description parameters False)
       (Some (\<lambda>w name args. (effect w args, Inr (bt_Handler (bt_New opts) errText (sh w) (decode args)))))"

definition gr_Register ::
  "string \<Rightarrow> 'p \<Rightarrow> (string \<Rightarrow> grep_args res) \<Rightarrow> os_env \<Rightarrow> (string \<Rightarrow> string option) \<Rightarrow>
     (files \<Rightarrow> string \<Rightarrow> string list \<Rightarrow> process) \<Rightarrow> (grep_tool \<Rightarrow> grep_tool) list \<Rightarrow> (files, 'p) registry \<Rightarrow>
     (files, 'p) registry \<times> gerror option" where
  "gr_Register description parameters decode os installed run opts =
     RegisterIfAbsent (file_tool_def ''grep'' description parameters True)
       (Some (\<lambda>fs name args. (fs, Inr (gr_Handler (gr_New opts) os installed (run fs) (decode args)))))"

definition gl_Register ::
  "string \<Rightarrow> 'p \<Rightarrow> (string \<Rightarrow> glob_args res) \<Rightarrow> os_env \<Rightarrow> (string \<Rightarrow> rat res) \<Rightarrow> (string \<Rightarrow> rat option) \<Rightarrow>
     (file_entry \<Rightarrow> nat) \<Rightarrow> (string \<Rightarrow> string option) \<Rightarrow> bool \<Rightarrow> (files \<Rightarrow> string \<Rightarrow> string list \<Rightarrow> process) \<Rightarrow>
     (glob_tool \<Rightarrow> glob_tool) list \<Rightarrow> (files, 'p) registry \<Rightarrow> (files, 'p) registry \<times> gerror option" where
  "gl_Register description parameters decode os parseFloat modTime tie installed hasPrintf run opts =
     RegisterIfAbsent (file_tool_def ''glob'' description parameters True)
       (Some (\<lambda>fs name args. (fs, Inr (gl_Handler (gl_New opts) os parseFloat modTime tie installed hasPrintf (run fs) fs
          (decode args)))))"

section \<open>Properties\<close>

text \<open>Files are listed newest first, and nothing is lost by sorting.\<close>

lemma glob_newest_first:
  "\<exists>es. parseAndSortPaths parseFloat modTime tie output = map fe_path es \<and>
     mset es = mset (parse_entries parseFloat modTime output) \<and>
     sorted_wrt (\<lambda>a b. fe_modTime a \<ge> fe_modTime b) es"
proof -
  let ?es = "sort_key (\<lambda>e. - fe_modTime e) (sort_key tie (parse_entries parseFloat modTime output))"
  have "sorted_wrt (\<lambda>a b. - fe_modTime a \<le> - fe_modTime b) ?es"
    using sorted_sort_key [of "\<lambda>e. - fe_modTime e"] by (simp add: sorted_map)
  then show ?thesis
    by (intro exI [of _ ?es]) (simp add: parseAndSortPaths_def)
qed

text \<open>Nothing separates the pattern of a search from the options of the program.\<close>

lemma pattern_read_as_option:
  "installed ''rg'' = Some p \<Longrightarrow>
     buildGrepCommand installed dir ''--pre=rm'' [] =
       Inr (p, [''--line-number'', ''--no-heading'', ''--pre=rm'', dir])"
  by (simp add: buildGrepCommand_def resolveGrepCommand_def)

end
