(* ===== verification/Pipes.thy ===== *)
theory Pipes
  imports Commands
begin

text \<open>
  The pipes between a command and the readers of its two outputs.  \<open>RunCommand\<close> (\<open>tool/toolkit/cmdrunner.go\<close>)
  reads both at once and ends the command when it has read enough; \<open>BashTool.execute\<close>
  (\<open>tool/bash/bash_tool.go\<close>) reads one after the other.  A pipe holds at most \<open>cap\<close> bytes, and a write to a
  full pipe waits.  Also here: how much of a text \<open>TruncateUTF8\<close> keeps.
\<close>

section \<open>Truncation keeps whole runes\<close>

lemma utf8_valid_Nil [simp]: "utf8_valid []"
  by (simp add: utf8_valid.simps)

lemma shorten_prefix: "prefix (shorten t) t"
proof (induction t rule: shorten.induct)
  case (1 t)
  show ?case
    using 1 by (subst shorten.simps) (auto intro: prefix_order.trans [OF _ prefixeq_butlast])
qed

lemma shorten_valid: "utf8_valid (shorten t)"
proof (induction t rule: shorten.induct)
  case (1 t)
  then show ?case by (subst shorten.simps) auto
qed

lemma shorten_longest: "prefix p t \<Longrightarrow> utf8_valid p \<Longrightarrow> length p \<le> length (shorten t)"
proof (induction t rule: shorten.induct)
  case (1 t)
  show ?case
  proof (cases "t \<noteq> [] \<and> \<not> utf8_valid t")
    case True
    then have "p \<noteq> t" using 1 by auto
    then have "prefix p (butlast t)"
      using 1(2) True by (metis append_butlast_last_id prefix_snoc)
    then show ?thesis using 1 True by (subst shorten.simps) simp
  next
    case False
    then show ?thesis using 1(2) by (subst shorten.simps) (auto simp: prefix_length_le)
  qed
qed

lemma rune_width_le_4: "rune_width s \<le> 4"
  by (auto simp: rune_width_def split: list.splits)

definition starts3 :: "char \<Rightarrow> char \<Rightarrow> char \<Rightarrow> bool" where
  "starts3 b0 b1 b2 \<longleftrightarrow>
     (if b0 = CHR 0xE0 then byte_in 160 191 b1
      else if b0 = CHR 0xED then byte_in 128 159 b1 else byte_in 225 239 b0 \<and> is_cont b1) \<and> is_cont b2"

definition starts4 :: "char \<Rightarrow> char \<Rightarrow> char \<Rightarrow> char \<Rightarrow> bool" where
  "starts4 b0 b1 b2 b3 \<longleftrightarrow>
     (if b0 = CHR 0xF0 then byte_in 144 191 b1
      else if b0 = CHR 0xF4 then byte_in 128 143 b1 else byte_in 241 243 b0 \<and> is_cont b1) \<and> is_cont b2 \<and> is_cont b3"

lemma rune_width_cases:
  "rune_width [] = 0"
  "rune_width [a] = 1"
  "rune_width [a, b] = (if byte_in 194 223 a \<and> is_cont b then 2 else 1)"
  "rune_width [a, b, c] = (if byte_in 194 223 a \<and> is_cont b then 2 else if starts3 a b c then 3 else 1)"
  "rune_width (a # b # c # d # s) =
     (if byte_in 194 223 a \<and> is_cont b then 2 else if starts3 a b c then 3 else if starts4 a b c d then 4 else 1)"
  by (simp_all only: rune_width_def starts3_def starts4_def list.case refl)

lemma rune_width_take:
  assumes le: "rune_width s \<le> n"
  shows "rune_width (take n s) = rune_width s"
proof -
  have n: "n = 0 \<or> n = 1 \<or> n = 2 \<or> n = 3 \<or> (\<exists>m. n = Suc (Suc (Suc (Suc m))))"
    by (metis not0_implies_Suc One_nat_def numeral_2_eq_2 numeral_3_eq_3)
  consider "s = []" | a where "s = [a]" | a b where "s = [a, b]" | a b c where "s = [a, b, c]"
    | a b c d r where "s = a # b # c # d # r"
    by (metis list.exhaust)
  then show ?thesis
    using le n by cases (auto simp: rune_width_cases take_Cons' split: if_splits)
qed

lemma utf8_valid_step:
  "s \<noteq> [] \<Longrightarrow> utf8_valid s \<longleftrightarrow>
     (rune_width s = 1 \<longrightarrow> (of_char (hd s) :: nat) < 128) \<and> utf8_valid (drop (rune_width s) s)"
  by (subst utf8_valid.simps) simp

lemma valid_prefix_near:
  "utf8_valid s \<Longrightarrow> n \<le> length s \<Longrightarrow> \<exists>p. prefix p s \<and> utf8_valid p \<and> length p \<le> n \<and> n \<le> length p + 3"
proof (induction s arbitrary: n rule: utf8_valid.induct)
  case (1 s)
  show ?case
  proof (cases "n < rune_width s \<or> s = []")
    case True
    then show ?thesis using rune_width_le_4 [of s] 1(3) by (intro exI [of _ "[]"]) auto
  next
    case False
    let ?w = "rune_width s"
    have s: "s \<noteq> []" and w: "?w \<le> n" using False by auto
    have v: "?w = 1 \<longrightarrow> (of_char (hd s) :: nat) < 128" "utf8_valid (drop ?w s)"
      using 1(2) utf8_valid_step [OF s] by auto
    obtain p where p: "prefix p (drop ?w s)" "utf8_valid p" "length p \<le> n - ?w" "n - ?w \<le> length p + 3"
      using 1(1) [OF s v(2), of "n - ?w"] 1(3) by (metis diff_le_mono length_drop)
    have len: "length (take ?w s) = ?w" using rune_width_le [of s] by simp
    obtain q where q: "drop ?w s = p @ q" using p(1) by (auto simp: prefix_def)
    have sq: "s = (take ?w s @ p) @ q" using q by (metis append_take_drop_id append.assoc)
    have "take ?w s @ p = take (?w + length p) s"
      using len by (subst (2) sq) simp
    then have r: "rune_width (take ?w s @ p) = ?w" by (simp add: rune_width_take)
    have ne: "take ?w s @ p \<noteq> []" using rune_width_pos [OF s] s by simp
    have h: "hd (take ?w s @ p) = hd s" using rune_width_pos [OF s] s by (cases s) (simp_all add: take_Cons')
    have "utf8_valid (take ?w s @ p)" unfolding utf8_valid_step [OF ne] r h using v(1) p(2) len by simp
    moreover have "prefix (take ?w s @ p) s" using sq by (metis prefixI)
    moreover have "length (take ?w s @ p) \<le> n" "n \<le> length (take ?w s @ p) + 3"
      unfolding length_append len using p(3,4) w by linarith+
    ultimately show ?thesis by blast
  qed
qed

text \<open>
  Truncation never splits a rune and wastes nothing: a text longer than the limit becomes the longest of its
  prefixes within the limit that are valid UTF-8, and if the text was valid, at most three bytes of the
  limit are left unused.  (A text with an invalid byte is cut before that byte, however early it is.)
\<close>

lemma truncation_keeps_runes:
  assumes "maxBytes < length s"
  shows "prefix (TruncateUTF8 s maxBytes) s \<and> length (TruncateUTF8 s maxBytes) \<le> maxBytes \<and>
    utf8_valid (TruncateUTF8 s maxBytes) \<and>
    (\<forall>p. prefix p s \<and> length p \<le> maxBytes \<and> utf8_valid p \<longrightarrow> length p \<le> length (TruncateUTF8 s maxBytes)) \<and>
    (utf8_valid s \<longrightarrow> maxBytes \<le> length (TruncateUTF8 s maxBytes) + 3)"
proof -
  let ?t = "take maxBytes s"
  have T: "TruncateUTF8 s maxBytes = shorten ?t" using assms by (simp add: TruncateUTF8_def)
  have pre: "prefix p ?t" if "prefix p s" "length p \<le> maxBytes" for p
    using that by (auto simp: prefix_def)
  have longest: "length p \<le> length (shorten ?t)" if "prefix p s" "length p \<le> maxBytes" "utf8_valid p" for p
    using shorten_longest pre that by blast
  have "prefix (shorten ?t) s" using shorten_prefix take_is_prefix prefix_order.trans by blast
  moreover have "length (shorten ?t) \<le> maxBytes" using prefix_length_le [OF shorten_prefix, of ?t] by simp
  moreover have "maxBytes \<le> length (shorten ?t) + 3" if v: "utf8_valid s"
  proof -
    obtain p where p: "prefix p s" "utf8_valid p" "length p \<le> maxBytes" "maxBytes \<le> length p + 3"
      using valid_prefix_near [OF v, of maxBytes] assms by auto
    then show ?thesis using longest [of p] by linarith
  qed
  ultimately show ?thesis using T shorten_valid longest by simp
qed

text \<open>The limit falls into the two bytes of an accented letter.\<close>

lemma truncation_example:
  "TruncateUTF8 [CHR ''a'', CHR 0xC3, CHR 0xA9, CHR ''b''] 2 = ''a'' \<and>
   length (TruncateUTF8 [CHR ''a'', CHR 0xC3, CHR 0xA9, CHR ''b''] 2) \<le> 2"
proof -
  have "TruncateUTF8 [CHR ''a'', CHR 0xC3, CHR 0xA9, CHR ''b''] 2 = ''a''"
    by (simp add: TruncateUTF8_def shorten.simps utf8_valid.simps rune_width_cases byte_in_def is_cont_def)
  then show ?thesis using truncation_keeps_runes [of 2 "[CHR ''a'', CHR 0xC3, CHR 0xA9, CHR ''b'']"] by simp
qed

section \<open>A command and its pipes\<close>

datatype channel = ToStdout | ToStderr

text \<open>What the command still writes, whether it has ended, the contents of the two pipes and what was read from
  each.\<close>

record pipes =
  pp_todo :: "(channel \<times> char) list"
  pp_exited :: bool
  pp_out :: string
  pp_err :: string
  pp_stdout :: string
  pp_stderr :: string

definition started :: "(channel \<times> char) list \<Rightarrow> pipes" where
  "started ws = \<lparr>pp_todo = ws, pp_exited = False, pp_out = [], pp_err = [], pp_stdout = [], pp_stderr = []\<rparr>"

inductive command_step :: "nat \<Rightarrow> pipes \<Rightarrow> pipes \<Rightarrow> bool" for cap where
  write_out: "\<not> pp_exited s \<Longrightarrow> pp_todo s = (ToStdout, c) # ws \<Longrightarrow> length (pp_out s) < cap \<Longrightarrow>
    command_step cap s (s\<lparr>pp_todo := ws, pp_out := pp_out s @ [c]\<rparr>)"
| write_err: "\<not> pp_exited s \<Longrightarrow> pp_todo s = (ToStderr, c) # ws \<Longrightarrow> length (pp_err s) < cap \<Longrightarrow>
    command_step cap s (s\<lparr>pp_todo := ws, pp_err := pp_err s @ [c]\<rparr>)"
| exit: "\<not> pp_exited s \<Longrightarrow> pp_todo s = [] \<Longrightarrow> command_step cap s (s\<lparr>pp_exited := True\<rparr>)"

text \<open>\<open>RunCommand\<close>: two goroutines read; \<open>cancel\<close> ends a command that has written too much.\<close>

inductive run_step :: "nat \<Rightarrow> nat \<Rightarrow> pipes \<Rightarrow> pipes \<Rightarrow> bool" for cap maxOutputBytes where
  run_command: "command_step cap s s' \<Longrightarrow> run_step cap maxOutputBytes s s'"
| run_read_out: "length (pp_stdout s) \<le> maxOutputBytes \<Longrightarrow> pp_out s = c # r \<Longrightarrow>
    run_step cap maxOutputBytes s (s\<lparr>pp_out := r, pp_stdout := pp_stdout s @ [c]\<rparr>)"
| run_read_err: "pp_err s = c # r \<Longrightarrow>
    run_step cap maxOutputBytes s (s\<lparr>pp_err := r, pp_stderr := pp_stderr s @ [c]\<rparr>)"
| run_cancel: "length (pp_stdout s) > maxOutputBytes \<Longrightarrow> \<not> pp_exited s \<Longrightarrow>
    run_step cap maxOutputBytes s (s\<lparr>pp_exited := True\<rparr>)"

definition run_done :: "nat \<Rightarrow> pipes \<Rightarrow> bool" where
  "run_done maxOutputBytes s \<longleftrightarrow>
     pp_exited s \<and> pp_err s = [] \<and> (pp_out s = [] \<or> length (pp_stdout s) > maxOutputBytes)"

text \<open>\<open>BashTool.execute\<close>: one reader, the error output after the end of the standard output, one limit for both,
  and no end put to the command; both outputs are collected in \<open>pp_stdout\<close>.\<close>

inductive bash_step :: "nat \<Rightarrow> nat \<Rightarrow> pipes \<Rightarrow> pipes \<Rightarrow> bool" for cap maxOutputBytes where
  bash_command: "command_step cap s s' \<Longrightarrow> bash_step cap maxOutputBytes s s'"
| bash_read_out: "length (pp_stdout s) \<le> maxOutputBytes \<Longrightarrow> pp_out s = c # r \<Longrightarrow>
    bash_step cap maxOutputBytes s (s\<lparr>pp_out := r, pp_stdout := pp_stdout s @ [c]\<rparr>)"
| bash_read_err: "length (pp_stdout s) \<le> maxOutputBytes \<Longrightarrow> pp_exited s \<Longrightarrow> pp_out s = [] \<Longrightarrow> pp_err s = c # r \<Longrightarrow>
    bash_step cap maxOutputBytes s (s\<lparr>pp_err := r, pp_stdout := pp_stdout s @ [c]\<rparr>)"

definition bash_done :: "nat \<Rightarrow> pipes \<Rightarrow> bool" where
  "bash_done maxOutputBytes s \<longleftrightarrow>
     pp_exited s \<and> (pp_out s = [] \<and> pp_err s = [] \<or> length (pp_stdout s) > maxOutputBytes)"

definition bytes_on :: "channel \<Rightarrow> (channel \<times> char) list \<Rightarrow> string" where
  "bytes_on ch ws = map snd (filter (\<lambda>w. fst w = ch) ws)"

lemma bytes_on_simps [simp]:
  "bytes_on ch [] = []"
  "bytes_on ch ((d, c) # ws) = (if d = ch then c # bytes_on ch ws else bytes_on ch ws)"
  by (simp_all add: bytes_on_def)

inductive_cases command_stepE: "command_step cap s s'"
inductive_cases run_stepE: "run_step cap maxOutputBytes s s'"
inductive_cases bash_stepE: "bash_step cap maxOutputBytes s s'"

lemmas step_intros = command_step.intros run_step.intros bash_step.intros

text \<open>No byte is lost or invented, and only a command that wrote too much is ended early.\<close>

definition pipes_ok :: "(channel \<times> char) list \<Rightarrow> nat \<Rightarrow> pipes \<Rightarrow> bool" where
  "pipes_ok ws maxOutputBytes s \<longleftrightarrow>
     pp_stdout s @ pp_out s @ bytes_on ToStdout (pp_todo s) = bytes_on ToStdout ws \<and>
     pp_stderr s @ pp_err s @ bytes_on ToStderr (pp_todo s) = bytes_on ToStderr ws \<and>
     (pp_exited s \<longrightarrow> pp_todo s = [] \<or> length (pp_stdout s) > maxOutputBytes) \<and>
     length (pp_stdout s) \<le> Suc maxOutputBytes"

lemma command_step_ok: "command_step cap s s' \<Longrightarrow> pipes_ok ws n s \<Longrightarrow> pipes_ok ws n s'"
  by (erule command_stepE) (auto simp: pipes_ok_def)

lemma run_step_ok: "run_step cap n s s' \<Longrightarrow> pipes_ok ws n s \<Longrightarrow> pipes_ok ws n s'"
  by (erule run_stepE) (auto simp: command_step_ok, auto simp: pipes_ok_def)

lemma run_reach_ok: "(run_step cap n)\<^sup>*\<^sup>* (started ws) s \<Longrightarrow> pipes_ok ws n s"
  by (induction rule: rtranclp_induct) (auto simp: run_step_ok, simp add: pipes_ok_def started_def)

text \<open>Every step moves a byte on, or ends the command.\<close>

definition pending :: "pipes \<Rightarrow> nat" where
  "pending s = 2 * length (pp_todo s) + length (pp_out s) + length (pp_err s) + (if pp_exited s then 0 else 1)"

lemma run_step_pending: "run_step cap n s s' \<Longrightarrow> pending s' < pending s"
  by (erule run_stepE; (erule command_stepE)?) (auto simp: pending_def)

lemma run_step_progress:
  assumes cap: "0 < cap" and ok: "pipes_ok ws n s" and nd: "\<not> run_done n s"
  shows "\<exists>s'. run_step cap n s s'"
proof -
  consider c r where "pp_err s = c # r" | c r where "pp_out s = c # r" "length (pp_stdout s) \<le> n"
    | "length (pp_stdout s) > n" "\<not> pp_exited s"
    | "pp_err s = []" "pp_out s = []" "\<not> pp_exited s"
    using nd unfolding run_done_def by (metis neq_Nil_conv not_le)
  then show ?thesis
  proof cases
    case 4
    show ?thesis
    proof (cases "pp_todo s")
      case (Cons w ws')
      then show ?thesis using 4 cap
        by (cases w; cases "fst w") (auto intro!: exI run_command write_out write_err)
    qed (use 4 in \<open>blast intro: run_command exit\<close>)
  qed (blast intro: run_step.intros)+
qed

text \<open>
  C36: reading both outputs at once never gets stuck.  Whatever a command writes, in whatever order, to pipes
  that hold at least one byte: every state \<open>RunCommand\<close> can get into is finished or can go on, it is reached within
  twice as many steps as bytes and one more, and in a finished state the readers hold the standard output up to one byte past
  the limit and, unless that byte was reached and the command ended early, all of the error output.
\<close>

theorem outputs_are_drained:
  assumes "0 < cap" and "(run_step cap maxOutputBytes ^^ k) (started ws) s"
  shows "(run_done maxOutputBytes s \<or> (\<exists>s'. run_step cap maxOutputBytes s s')) \<and>
    k \<le> 2 * length ws + 1 \<and>
    (run_done maxOutputBytes s \<longrightarrow>
       pp_stdout s = take (Suc maxOutputBytes) (bytes_on ToStdout ws) \<and>
       prefix (pp_stderr s) (bytes_on ToStderr ws) \<and>
       (length (bytes_on ToStdout ws) \<le> maxOutputBytes \<longrightarrow> pp_stderr s = bytes_on ToStderr ws))"
proof -
  have ok: "pipes_ok ws maxOutputBytes s"
    by (rule run_reach_ok [OF relpowp_imp_rtranclp [OF assms(2)]])
  have "k + pending s \<le> pending (started ws)"
    using assms(2)
  proof (induction k arbitrary: s)
    case (Suc k)
    then obtain t where t: "(run_step cap maxOutputBytes ^^ k) (started ws) t" "run_step cap maxOutputBytes t s" by auto
    show ?case using Suc.IH [OF t(1)] run_step_pending [OF t(2)] by linarith
  qed simp
  then have "k \<le> 2 * length ws + 1" by (simp add: pending_def started_def)
  moreover have "pp_stdout s = take (Suc maxOutputBytes) (bytes_on ToStdout ws)"
    and "prefix (pp_stderr s) (bytes_on ToStderr ws)"
    and "length (bytes_on ToStdout ws) \<le> maxOutputBytes \<Longrightarrow> pp_stderr s = bytes_on ToStderr ws"
    if d: "run_done maxOutputBytes s"
  proof -
    show "prefix (pp_stderr s) (bytes_on ToStderr ws)" using ok unfolding pipes_ok_def by (metis prefixI)
    consider "length (pp_stdout s) = Suc maxOutputBytes" | "pp_out s = []" "pp_todo s = []"
      using ok d unfolding pipes_ok_def run_done_def by linarith
    then show "pp_stdout s = take (Suc maxOutputBytes) (bytes_on ToStdout ws)"
      using ok unfolding pipes_ok_def by cases (metis append_eq_conv_conj, metis append.right_neutral take_all bytes_on_simps(1))
    assume short: "length (bytes_on ToStdout ws) \<le> maxOutputBytes"
    have "length (pp_stdout s) \<le> length (bytes_on ToStdout ws)"
      using ok unfolding pipes_ok_def by (metis length_append le_add1)
    then show "pp_stderr s = bytes_on ToStderr ws"
      using ok d short by (auto simp: pipes_ok_def run_done_def)
  qed
  ultimately show ?thesis using run_step_progress [OF assms(1) ok] by blast
qed

text \<open>A byte for each output; the pipes hold one byte.\<close>

theorem outputs_are_drained_witness:
  "\<exists>s. (run_step 1 5 ^^ 5) (started [(ToStderr, CHR ''e''), (ToStdout, CHR ''o'')]) s \<and> run_done 5 s \<and>
     pp_stdout s = ''o'' \<and> pp_stderr s = ''e''"
proof -
  let ?ws = "[(ToStderr, CHR ''e''), (ToStdout, CHR ''o'')]"
  let ?s0 = "started ?ws"
  let ?s1 = "?s0\<lparr>pp_todo := [(ToStdout, CHR ''o'')], pp_err := ''e''\<rparr>"
  let ?s2 = "?s1\<lparr>pp_todo := [], pp_out := ''o''\<rparr>"
  let ?s3 = "?s2\<lparr>pp_exited := True\<rparr>"
  let ?s4 = "?s3\<lparr>pp_out := [], pp_stdout := ''o''\<rparr>"
  let ?s5 = "?s4\<lparr>pp_err := [], pp_stderr := ''e''\<rparr>"
  have "run_step 1 5 ?s0 ?s1"
    using write_err [of ?s0 "CHR ''e''" "[(ToStdout, CHR ''o'')]" 1] by (intro run_command) (simp add: started_def)
  moreover have "run_step 1 5 ?s1 ?s2"
    using write_out [of ?s1 "CHR ''o''" "[]" 1] by (intro run_command) (simp add: started_def)
  moreover have "run_step 1 5 ?s2 ?s3"
    using exit [of ?s2 1] by (intro run_command) (simp add: started_def)
  moreover have "run_step 1 5 ?s3 ?s4"
    using run_read_out [of ?s3 5 "CHR ''o''" "[]" 1] by (simp add: started_def)
  moreover have "run_step 1 5 ?s4 ?s5"
    using run_read_err [of ?s4 "CHR ''e''" "[]" 1 5] by (simp add: started_def)
  ultimately have run: "(run_step 1 5 ^^ 5) ?s0 ?s5"
    by (auto simp: numeral_eq_Suc relcompp_apply simp del: One_nat_def)
  have "run_done 5 ?s5" by (simp add: run_done_def started_def)
  with outputs_are_drained [OF _ run] run show ?thesis by (intro exI [of _ ?s5]) simp
qed

text \<open>The bash tool can get stuck until its deadline: when the command fills the pipe of the error output first,
  or when it writes more than the limit and the pipe hold.\<close>

definition bash_stuck :: "nat \<Rightarrow> nat \<Rightarrow> pipes \<Rightarrow> bool" where
  "bash_stuck cap maxOutputBytes s \<longleftrightarrow> \<not> bash_done maxOutputBytes s \<and> (\<forall>s'. \<not> bash_step cap maxOutputBytes s s')"

lemma fills_stderr:
  "k \<le> cap \<Longrightarrow> (bash_step cap n)\<^sup>*\<^sup>* (started (replicate k (ToStderr, c) @ ws))
     ((started ws)\<lparr>pp_err := replicate k c\<rparr>)"
proof (induction k arbitrary: ws)
  case (Suc k)
  have "(bash_step cap n)\<^sup>*\<^sup>* (started (replicate k (ToStderr, c) @ (ToStderr, c) # ws))
      ((started ((ToStderr, c) # ws))\<lparr>pp_err := replicate k c\<rparr>)"
    using Suc by simp
  moreover have "bash_step cap n ((started ((ToStderr, c) # ws))\<lparr>pp_err := replicate k c\<rparr>)
      ((started ws)\<lparr>pp_err := replicate (Suc k) c\<rparr>)"
    using write_err [of "(started ((ToStderr, c) # ws))\<lparr>pp_err := replicate k c\<rparr>" c ws cap] Suc.prems
    by (intro bash_command) (simp add: started_def replicate_append_same)
  ultimately show ?case by (simp add: replicate_app_Cons_same)
qed (simp add: started_def)

lemma bash_waits_for_stderr:
  "\<exists>s. (bash_step cap n)\<^sup>*\<^sup>* (started (replicate (Suc cap) (ToStderr, c))) s \<and> bash_stuck cap n s"
proof -
  let ?s = "(started [(ToStderr, c)])\<lparr>pp_err := replicate cap c\<rparr>"
  have "(bash_step cap n)\<^sup>*\<^sup>* (started (replicate (Suc cap) (ToStderr, c))) ?s"
    using fills_stderr [of cap cap n c "[(ToStderr, c)]"] by (simp add: replicate_append_same)
  moreover have "bash_stuck cap n ?s"
    by (auto simp: bash_stuck_def bash_done_def started_def elim!: bash_stepE command_stepE)
  ultimately show ?thesis by blast
qed

lemma bash_waits_for_the_deadline:
  assumes "length (pp_stdout s) > n" "length (pp_out s) = cap" "pp_todo s = (ToStdout, c) # ws" "\<not> pp_exited s"
  shows "bash_stuck cap n s" and "\<exists>s'. run_step cap n s s'"
  using assms by (auto simp: bash_stuck_def bash_done_def elim!: bash_stepE command_stepE intro: run_cancel)

end
