(* ===== verification/SkillLoader.thy ===== *)
theory SkillLoader
  imports Skills Files
begin

text \<open>
  Loading skills from files (\<open>skill/loader.go\<close>) and their discovery when a service starts
  (\<open>service/service.go\<close>).  The calls of package \<open>os\<close> are in the record \<open>skill_files\<close>; \<open>yaml.Unmarshal\<close> is an
  argument.  The loop over the map of the three directories of resources follows ranks.
\<close>

section \<open>The loader\<close>

record frontmatter =
  fm_Name :: string
  fm_Description :: string
  fm_License :: string
  fm_AllowedTools :: "string list"
  fm_Metadata :: "(string \<times> string) list"

text \<open>An entry of a directory is its name and whether it is a directory.\<close>

record skill_files =
  sf_ReadFile :: "string \<Rightarrow> string res"
  sf_ReadDir :: "string \<Rightarrow> (string \<times> bool) list res"
  sf_Stat :: "string \<Rightarrow> gerror option"

definition skillFileName :: string where
  "skillFileName = ''SKILL.md''"

definition splitFrontmatter :: "string \<Rightarrow> (string \<times> string) res" where
  "splitFrontmatter content0 =
     (let content = trim_space content0 in
      if \<not> has_prefix content ''---'' then Inl (Errorf ''missing frontmatter delimiter'' [] None)
      else
        (case str_cut (drop 3 content) (newline @ ''---'') of
           None \<Rightarrow> Inl (Errorf ''missing closing frontmatter delimiter'' [] None)
         | Some (before, after) \<Rightarrow> Inr (trim_space before, after)))"

definition parseSkillFile :: "(string \<Rightarrow> frontmatter res) \<Rightarrow> string \<Rightarrow> skill_def res" where
  "parseSkillFile yaml content =
     (case splitFrontmatter content of
        Inl err \<Rightarrow> Inl err
      | Inr (fm, body) \<Rightarrow>
          (case yaml fm of
             Inl err \<Rightarrow> Inl (Errorf ''parse frontmatter: %w'' [] (Some err))
           | Inr meta \<Rightarrow>
               Inr \<lparr>sd_Name = fm_Name meta, sd_Description = fm_Description meta, sd_License = fm_License meta,
                 sd_AllowedTools = fm_AllowedTools meta, sd_Metadata = fm_Metadata meta,
                 sd_Instructions = trim_space body, sd_BasePath = [], sd_Resources = []\<rparr>))"

definition resource_dirs :: "(string \<times> string) list" where
  "resource_dirs = [(''scripts'', ''script''), (''references'', ''reference''), (''assets'', ''asset'')]"

definition scanResources :: "skill_files \<Rightarrow> (string \<times> string \<Rightarrow> nat) \<Rightarrow> string \<Rightarrow> resource list" where
  "scanResources fs visit basePath =
     concat (map (\<lambda>(dirName, resType).
       let dirPath = path_join basePath dirName in
       case sf_ReadDir fs dirPath of
         Inl err \<Rightarrow> []
       | Inr entries \<Rightarrow>
           map (\<lambda>(name, isDir). \<lparr>rc_Type = resType, rc_Name = name, rc_Path = path_join dirPath name, rc_Content = []\<rparr>)
             (filter (\<lambda>(name, isDir). \<not> isDir) entries)) (sort_key visit resource_dirs))"

definition fl_Load ::
  "skill_files \<Rightarrow> (string \<Rightarrow> frontmatter res) \<Rightarrow> (string \<times> string \<Rightarrow> nat) \<Rightarrow> string \<Rightarrow> skill_def res" where
  "fl_Load fs yaml visit path =
     (let skillFile = path_join path skillFileName in
      case sf_ReadFile fs skillFile of
        Inl err \<Rightarrow> Inl (Errorf ''read skill file %q: %w'' [AStr skillFile] (Some err))
      | Inr dat \<Rightarrow>
          (case parseSkillFile yaml dat of
             Inl err \<Rightarrow> Inl (Errorf ''parse skill file %q: %w'' [AStr skillFile] (Some err))
           | Inr d \<Rightarrow> Inr (d\<lparr>sd_BasePath := path, sd_Resources := scanResources fs visit path\<rparr>)))"

fun discover_loop ::
  "skill_files \<Rightarrow> (string \<Rightarrow> frontmatter res) \<Rightarrow> (string \<times> string \<Rightarrow> nat) \<Rightarrow> string \<Rightarrow> (string \<times> bool) list \<Rightarrow> skill_def list" where
  "discover_loop fs yaml visit dir [] = []"
| "discover_loop fs yaml visit dir ((name, isDir) # es) =
     (if \<not> isDir then discover_loop fs yaml visit dir es
      else
        (let subDir = path_join dir name;
             skillFile = path_join subDir skillFileName
         in if sf_Stat fs skillFile \<noteq> None then discover_loop fs yaml visit dir es
            else (case fl_Load fs yaml visit subDir of
                    Inl err \<Rightarrow> discover_loop fs yaml visit dir es
                  | Inr d \<Rightarrow> d # discover_loop fs yaml visit dir es)))"

definition Discover ::
  "skill_files \<Rightarrow> (string \<Rightarrow> frontmatter res) \<Rightarrow> (string \<times> string \<Rightarrow> nat) \<Rightarrow> string \<Rightarrow> skill_def list res" where
  "Discover fs yaml visit dir =
     (case sf_ReadDir fs dir of
        Inl err \<Rightarrow> Inl (Errorf ''read skill directory %q: %w'' [AStr dir] (Some err))
      | Inr entries \<Rightarrow> Inr (discover_loop fs yaml visit dir entries))"

section \<open>Discovery at the start of a service\<close>

text \<open>The directory, the registry and the manager of a service.  The manager holds the registry by reference: the
  skills registered afterwards are in it.\<close>

record service_skills =
  ss_dir :: string
  ss_registry :: "skill_registry option"
  ss_manager :: "skill_manager option"

definition discoverSkills ::
  "skill_files \<Rightarrow> (string \<Rightarrow> frontmatter res) \<Rightarrow> (string \<times> string \<Rightarrow> nat) \<Rightarrow> service_skills \<Rightarrow> service_skills" where
  "discoverSkills fs yaml visit s =
     (if ss_dir s = [] then s
      else if ss_manager s \<noteq> None then s
      else
        (case Discover fs yaml visit (ss_dir s) of
           Inl err \<Rightarrow> s
         | Inr skills \<Rightarrow>
             (let registry0 = (case ss_registry s of
                    Some r \<Rightarrow> r
                  | None \<Rightarrow> sk_NewRegistry [WithValidator (DefaultValidator (\<lambda>d. map_sum id (map fst) (sf_ReadDir fs d)))]);
                  registry = fold (\<lambda>d r. fst (sk_Register (Some d) r)) skills registry0
              in s\<lparr>ss_registry := Some registry, ss_manager := Some (sm_NewManager registry)\<rparr>)))"

section \<open>Properties\<close>

lemma discover_loop_filter:
  "discover_loop fs yaml visit dir es =
     List.map_filter (\<lambda>(name, isDir).
       if isDir \<and> sf_Stat fs (path_join (path_join dir name) skillFileName) = None
       then (case fl_Load fs yaml visit (path_join dir name) of Inl _ \<Rightarrow> None | Inr d \<Rightarrow> Some d) else None) es"
  by (induction es) (auto simp: Let_def map_filter_simps split: sum.split)

lemma register_fold:
  "sk_validator r = Some v \<Longrightarrow>
    sk_validator (fold (\<lambda>d r. fst (sk_Register (Some d) r)) ds r) = Some v \<and>
    sk_Get name (fold (\<lambda>d r. fst (sk_Register (Some d) r)) ds r) =
      (case sk_Get name r of Some d \<Rightarrow> Some d | None \<Rightarrow> find (\<lambda>d. sd_Name d = name \<and> v (Some d) = None) ds)"
proof (induction ds arbitrary: r)
  case (Cons d ds)
  let ?r = "fst (sk_Register (Some d) r)"
  have v: "sk_validator ?r = Some v" using Cons.prems by (simp add: sk_Register_def split: option.split)
  have "sk_Get name ?r =
      (if sd_Name d = name \<and> v (Some d) = None \<and> sk_Get name r = None then Some d else sk_Get name r)"
    using Cons.prems by (auto simp: sk_Register_def sk_Get_def update_conv split: option.split)
  then show ?case using Cons.IH [OF v] by (auto split: option.split)
qed (simp split: option.split)

text \<open>
  C37: what a service offers after discovery.  With a directory of skills that can be read and no registry or manager of
  its own, the service has a manager in which a name leads to the first skill of the directory with that name that the
  default validator accepts, and to nothing if there is none; every such name obeys the naming rule, and exactly these skills
  can be activated in a session.
\<close>

theorem discovered_skills:
  assumes "ss_dir s \<noteq> []" "ss_registry s = None" "ss_manager s = None" "Discover fs yaml visit (ss_dir s) = Inr skills"
  shows "\<exists>m. ss_manager (discoverSkills fs yaml visit s) = Some m \<and>
    (\<forall>name. sk_Get name (sm_registry m) =
       find (\<lambda>d. sd_Name d = name \<and> DefaultValidator (\<lambda>d. map_sum id (map fst) (sf_ReadDir fs d)) (Some d) = None) skills) \<and>
    (\<forall>name d. sk_Get name (sm_registry m) = Some d \<longrightarrow> nameRegex name \<and> d \<in> set skills) \<and>
    (\<forall>now name session. (\<exists>a. snd (Activate now name session m) = Inr a) \<longleftrightarrow> sk_Get name (sm_registry m) \<noteq> None)"
proof -
  let ?v = "DefaultValidator (\<lambda>d. map_sum id (map fst) (sf_ReadDir fs d))"
  let ?init = "sk_NewRegistry [WithValidator ?v]"
  let ?r = "fold (\<lambda>d r. fst (sk_Register (Some d) r)) skills ?init"
  have r0: "sk_validator ?init = Some ?v" "\<And>name. sk_Get name ?init = None"
    by (simp_all add: sk_NewRegistry_def WithValidator_def sk_Get_def)
  have m: "ss_manager (discoverSkills fs yaml visit s) = Some (sm_NewManager ?r)"
    using assms by (simp add: discoverSkills_def Let_def)
  have get: "sk_Get name ?r = find (\<lambda>d. sd_Name d = name \<and> ?v (Some d) = None) skills" for name
    using register_fold [OF r0(1), of skills name] by (simp add: r0(2))
  have "nameRegex name \<and> d \<in> set skills" if "sk_Get name ?r = Some d" for name d
  proof -
    have "sd_Name d = name \<and> ?v (Some d) = None" "d \<in> set skills"
      using that unfolding get by (auto dest: find_SomeD)
    then show ?thesis
      by (auto simp: DefaultValidator_def CompositeValidator_None NameValidator_def ValidateName_def split: if_splits)
  qed
  moreover have "(\<exists>a. snd (Activate now name session (sm_NewManager ?r)) = Inr a) \<longleftrightarrow> sk_Get name ?r \<noteq> None"
    for now name session
    by (auto simp: Activate_def sm_NewManager_def Let_def split: option.split)
  ultimately show ?thesis using m get by (intro exI [of _ "sm_NewManager ?r"]) (simp add: sm_NewManager_def)
qed

text \<open>Two directories with the same skill name and one with a bad name.\<close>

definition demo_skill_files :: skill_files where
  "demo_skill_files = \<lparr>sf_ReadFile = (\<lambda>p.
       if p = ''/s/c/SKILL.md'' then Inr (''---'' @ newline @ ''Bad'' @ newline @ ''---'' @ newline @ ''x'')
       else Inr (''---'' @ newline @ ''pdf'' @ newline @ ''---'' @ newline @ ''Read '' @ p)),
     sf_ReadDir = (\<lambda>p. if p = ''/s'' then Inr [(''a'', True), (''b'', True), (''c'', True), (''n.txt'', False)]
       else if p \<in> {''/s/a'', ''/s/b'', ''/s/c''} then Inr [(''SKILL.md'', False)] else Inl (External ''absent'')),
     sf_Stat = (\<lambda>_. None)\<rparr>"

definition demo_yaml :: "string \<Rightarrow> frontmatter res" where
  "demo_yaml fm = Inr \<lparr>fm_Name = fm, fm_Description = [], fm_License = [], fm_AllowedTools = [], fm_Metadata = []\<rparr>"

definition demo_pdf :: "string \<Rightarrow> skill_def" where
  "demo_pdf p = \<lparr>sd_Name = ''pdf'', sd_Description = [], sd_License = [], sd_AllowedTools = [], sd_Metadata = [],
     sd_Instructions = ''Read '' @ p @ ''/SKILL.md'', sd_BasePath = p, sd_Resources = []\<rparr>"

lemma demo_discover: "Discover demo_skill_files demo_yaml (\<lambda>_. 0) ''/s'' =
   Inr [demo_pdf ''/s/a'', demo_pdf ''/s/b'', (demo_pdf ''/s/c'')\<lparr>sd_Name := ''Bad'', sd_Instructions := ''x''\<rparr>]"
  by code_simp

definition demo_validator :: validator where
  "demo_validator = DefaultValidator (\<lambda>d. map_sum id (map fst) (sf_ReadDir demo_skill_files d))"

lemma demo_validated:
  "demo_validator (Some (demo_pdf ''/s/a'')) = None"
  "demo_validator (Some ((demo_pdf ''/s/c'')\<lparr>sd_Name := ''Bad'', sd_Instructions := ''x''\<rparr>)) \<noteq> None"
  by code_simp+

theorem discovered_skills_witness:
  "\<exists>m. ss_manager (discoverSkills demo_skill_files demo_yaml (\<lambda>_. 0)
       \<lparr>ss_dir = ''/s'', ss_registry = None, ss_manager = None\<rparr>) = Some m \<and>
     sk_Get ''pdf'' (sm_registry m) = Some (demo_pdf ''/s/a'') \<and> sk_Get ''Bad'' (sm_registry m) = None"
proof -
  let ?s = "\<lparr>ss_dir = ''/s'', ss_registry = None, ss_manager = None\<rparr>"
  have "Discover demo_skill_files demo_yaml (\<lambda>_. 0) (ss_dir ?s) =
      Inr [demo_pdf ''/s/a'', demo_pdf ''/s/b'', (demo_pdf ''/s/c'')\<lparr>sd_Name := ''Bad'', sd_Instructions := ''x''\<rparr>]"
    by (simp add: demo_discover)
  from discovered_skills [OF _ _ _ this] obtain m where m:
    "ss_manager (discoverSkills demo_skill_files demo_yaml (\<lambda>_. 0) ?s) = Some m"
    "\<And>name. sk_Get name (sm_registry m) = find (\<lambda>d. sd_Name d = name \<and> demo_validator (Some d) = None)
      [demo_pdf ''/s/a'', demo_pdf ''/s/b'', (demo_pdf ''/s/c'')\<lparr>sd_Name := ''Bad'', sd_Instructions := ''x''\<rparr>]"
    unfolding demo_validator_def by auto
  have "sd_Name (demo_pdf p) = ''pdf''" for p by (simp add: demo_pdf_def)
  then show ?thesis using m demo_validated by (intro exI [of _ m]) simp
qed

text \<open>The file of a skill written out: the delimiters on lines of their own.\<close>

definition skill_file :: "string \<Rightarrow> string \<Rightarrow> string" where
  "skill_file fm body = ''---'' @ newline @ fm @ newline @ ''---'' @ newline @ body"

text \<open>A text in which the delimiter does not begin a line: the first delimiter comes after it.\<close>

lemma newline_not_hyphen: "char_of (10 :: nat) \<noteq> CHR ''-''"
  by code_simp

lemma newline_space: "is_space (char_of (10 :: nat))"
  by (simp add: is_space_def)

lemma first_delimiter:
  assumes "\<not> sublist (newline @ ''---'') p"
  shows "str_cut (p @ newline @ ''---'' @ rest) (newline @ ''---'') = Some (p, rest)"
proof -
  let ?d = "newline @ ''---''" let ?s = "p @ ?d @ rest"
  have "sublist ?d ?s" by (rule sublist_appendI)
  then obtain i where i: "str_index ?s ?d = Some i" using str_index_None [of ?s ?d] by (cases "str_index ?s ?d") auto
  have le: "i \<le> length p" using str_index_first [OF i refl] .
  define q where "q = drop (i + length ?d) ?s"
  have "?s = take i p @ ?d @ q" using str_index_Some [OF i] le by (simp add: q_def)
  then have "take i p @ drop i p @ ?d @ rest = take i p @ ?d @ q" by (metis append.assoc append_take_drop_id)
  then have us: "drop i p @ ?d @ rest = ?d @ q" by simp
  have "drop i p = []"
  proof -
    consider "drop i p = []" | a where "drop i p = [a]" | a b where "drop i p = [a, b]" | a b c where "drop i p = [a, b, c]"
      | a b c d r where "drop i p = a # b # c # d # r"
      by (metis list.exhaust)
    then show ?thesis
    proof cases
      case (5 a b c d r)
      then have "p = take i p @ ?d @ r" using us append_take_drop_id [of i p] by (simp add: newline_def)
      with assms show ?thesis by (metis sublist_appendI)
    qed (use us newline_not_hyphen in \<open>simp_all add: newline_def\<close>)
  qed
  then have "i = length p" using le by simp
  then show ?thesis using i by (simp add: str_cut_def newline_def)
qed

lemma trim_newline_left: "trim_space (newline @ x) = trim_space x"
  by (simp add: trim_space_def newline_def newline_space)

lemma trim_skill_file:
  assumes "trim_space body = body"
  shows "trim_space (skill_file fm body) =
    ''---'' @ newline @ fm @ newline @ ''---'' @ (if body = [] then [] else newline @ body)"
proof (cases "body = []")
  case True
  have h: "\<not> is_space (CHR ''-'')" by (simp add: is_space_def)
  show ?thesis using True h by (simp add: skill_file_def trim_space_def newline_def newline_space)
next
  case False
  have "\<not> is_space (last (skill_file fm body))" "skill_file fm body \<noteq> []" "\<not> is_space (hd (skill_file fm body))"
    using False trim_space_ends [OF False assms] by (simp_all add: skill_file_def is_space_def)
  then show ?thesis using False trim_space_id [of "skill_file fm body"] by (simp add: skill_file_def)
qed

text \<open>
  Skill files are read as they are written.  From a file with the front matter between two delimiter lines and the
  instructions after them the loader gets the front matter and the instructions back, provided that both are trimmed
  and that no line of the front matter begins with three hyphens; when the YAML parser refuses the front matter,
  its error is reported.
\<close>

lemma skill_file_read_back:
  assumes "trim_space fm = fm" "trim_space body = body" "\<not> sublist (newline @ ''---'') (newline @ fm)"
  shows "parseSkillFile yaml (skill_file fm body) =
    (case yaml fm of
       Inl err \<Rightarrow> Inl (Errorf ''parse frontmatter: %w'' [] (Some err))
     | Inr meta \<Rightarrow> Inr \<lparr>sd_Name = fm_Name meta, sd_Description = fm_Description meta, sd_License = fm_License meta,
         sd_AllowedTools = fm_AllowedTools meta, sd_Metadata = fm_Metadata meta, sd_Instructions = body,
         sd_BasePath = [], sd_Resources = []\<rparr>)"
proof -
  let ?rest = "if body = [] then [] else newline @ body"
  have "drop 3 (trim_space (skill_file fm body)) = (newline @ fm) @ newline @ ''---'' @ ?rest"
    unfolding trim_skill_file [OF assms(2)] by simp
  moreover have "has_prefix (trim_space (skill_file fm body)) ''---''"
    unfolding trim_skill_file [OF assms(2)] by (simp add: has_prefix_def)
  moreover have "trim_space (newline @ fm) = fm" using assms(1) by (simp add: trim_newline_left)
  ultimately have "splitFrontmatter (skill_file fm body) = Inr (fm, ?rest)"
    using first_delimiter [OF assms(3), of ?rest] unfolding splitFrontmatter_def Let_def by simp
  moreover have "trim_space ?rest = body" using assms(2) by (cases "body = []") (simp_all add: trim_newline_left)
  ultimately show ?thesis unfolding parseSkillFile_def by (cases "body = []") (simp_all split: sum.split)
qed

lemma skill_file_example:
  "parseSkillFile demo_yaml (skill_file ''pdf'' ''Read it.'') = Inr ((demo_pdf [])\<lparr>sd_Instructions := ''Read it.''\<rparr>)"
proof -
  have "\<not> contains (newline @ ''pdf'') (newline @ ''---'')" by code_simp
  then have "\<not> sublist (newline @ ''---'') (newline @ ''pdf'')" by (simp add: contains_iff)
  from skill_file_read_back [OF _ _ this, of "''Read it.''" demo_yaml] show ?thesis
    by (simp add: demo_yaml_def demo_pdf_def trim_space_def is_space_def)
qed

text \<open>A line of the front matter that begins with the delimiter ends it, whatever follows on the line.\<close>

lemma delimiter_is_a_prefix:
  "splitFrontmatter (skill_file (''a'' @ newline @ ''----b'') ''c'') =
     Inr (''a'', ''-b'' @ newline @ ''---'' @ newline @ ''c'')"
  by code_simp

end
