(* ===== verification/Tasks.thy ===== *)
theory Tasks
  imports AgentPrep
begin

text \<open>
  Package \<open>service\<close>: asynchronous tasks (\<open>task.go\<close>), the agents of a service and its HTTP handlers (\<open>service.go\<close>,
  \<open>handler.go\<close>).  Decoded request bodies, clock readings, new identifiers and what an agent answers are arguments;
  a reply is its status code and the value written as JSON.  The goroutines of asynchronous runs are a step
  function, and so is the writer of server-sent events.
\<close>

section \<open>The task store\<close>

datatype task_status =
    TaskStatusPending | TaskStatusRunning | TaskStatusCompleted | TaskStatusFailed | TaskStatusCancelled

record task =
  tk_ID :: string
  tk_AgentID :: string
  tk_Status :: task_status
  tk_Response :: "response option"
  tk_Error :: string
  tk_CreatedAt :: int
  tk_UpdatedAt :: int
  tk_cancel :: bool

record task_store =
  ts_tasks :: "(string \<times> task) list"
  ts_maxTasks :: int

definition NewTaskStore :: "int \<Rightarrow> task_store" where
  "NewTaskStore maxTasks = \<lparr>ts_tasks = [], ts_maxTasks = maxTasks\<rparr>"

definition ErrTooManyTasks :: gerror where
  "ErrTooManyTasks = Sentinel ''too many pending tasks''"

definition settled_task :: "task \<Rightarrow> bool" where
  "settled_task t \<longleftrightarrow>
     \<not> (tk_Status t \<noteq> TaskStatusCompleted \<and> tk_Status t \<noteq> TaskStatusFailed \<and> tk_Status t \<noteq> TaskStatusCancelled)"

fun oldest_scan :: "(string \<times> task) list \<Rightarrow> string \<Rightarrow> int \<Rightarrow> string" where
  "oldest_scan [] oldestID oldestTime = oldestID"
| "oldest_scan ((i, t) # rest) oldestID oldestTime =
     (if \<not> settled_task t then oldest_scan rest oldestID oldestTime
      else if oldestID = [] \<or> tk_UpdatedAt t < oldestTime then oldest_scan rest i (tk_UpdatedAt t)
      else oldest_scan rest oldestID oldestTime)"

text \<open>The order in which Go visits the map is given by ranks.\<close>

definition evictOneLocked :: "(string \<times> task \<Rightarrow> nat) \<Rightarrow> task_store \<Rightarrow> task_store \<times> bool" where
  "evictOneLocked visit s =
     (let oldestID = oldest_scan (sort_key visit (ts_tasks s)) [] 0 in
      if oldestID = [] then (s, False) else (s\<lparr>ts_tasks := AList.delete oldestID (ts_tasks s)\<rparr>, True))"

definition new_task :: "string \<Rightarrow> int \<Rightarrow> string \<Rightarrow> bool \<Rightarrow> task" where
  "new_task i now agentID cancel =
     \<lparr>tk_ID = i, tk_AgentID = agentID, tk_Status = TaskStatusPending, tk_Response = None, tk_Error = [],
      tk_CreatedAt = now, tk_UpdatedAt = now, tk_cancel = cancel\<rparr>"

definition ts_Create ::
  "(string \<times> task \<Rightarrow> nat) \<Rightarrow> string \<Rightarrow> int \<Rightarrow> string \<Rightarrow> bool \<Rightarrow> task_store \<Rightarrow> task_store \<times> task res" where
  "ts_Create visit i now agentID cancel s =
     (let t = new_task i now agentID cancel;
          add = (\<lambda>s'. (s'\<lparr>ts_tasks := AList.update i t (ts_tasks s')\<rparr>, Inr t))
      in if ts_maxTasks s > 0 \<and> int (length (ts_tasks s)) \<ge> ts_maxTasks s then
           (case evictOneLocked visit s of
              (s', False) \<Rightarrow> (s', Inl ErrTooManyTasks)
            | (s', True) \<Rightarrow> add s')
         else add s)"

definition ts_Get :: "string \<Rightarrow> task_store \<Rightarrow> task option" where
  "ts_Get i s = map_option (\<lambda>t. t\<lparr>tk_cancel := False\<rparr>) (map_of (ts_tasks s) i)"

definition UpdateStatus :: "string \<Rightarrow> task_status \<Rightarrow> int \<Rightarrow> task_store \<Rightarrow> task_store" where
  "UpdateStatus i status now s =
     (case map_of (ts_tasks s) i of
        None \<Rightarrow> s
      | Some t \<Rightarrow> s\<lparr>ts_tasks := AList.update i (t\<lparr>tk_Status := status, tk_UpdatedAt := now\<rparr>) (ts_tasks s)\<rparr>)"

definition SetResult :: "(gerror \<Rightarrow> string) \<Rightarrow> string \<Rightarrow> response option res \<Rightarrow> int \<Rightarrow> task_store \<Rightarrow> task_store" where
  "SetResult errText i outcome now s =
     (case map_of (ts_tasks s) i of
        None \<Rightarrow> s
      | Some t \<Rightarrow>
          if tk_Status t = TaskStatusCancelled then s
          else
            (let t' = (case outcome of
                 Inl err \<Rightarrow> t\<lparr>tk_UpdatedAt := now, tk_Status := TaskStatusFailed, tk_Error := errText err\<rparr>
               | Inr resp \<Rightarrow> t\<lparr>tk_UpdatedAt := now, tk_Status := TaskStatusCompleted, tk_Response := resp\<rparr>)
             in s\<lparr>ts_tasks := AList.update i t' (ts_tasks s)\<rparr>))"

text \<open>The second component is the answer; a cancelled task's context is cancelled with it, if it has one.\<close>

definition ts_Cancel :: "string \<Rightarrow> int \<Rightarrow> task_store \<Rightarrow> task_store \<times> bool" where
  "ts_Cancel i now s =
     (case map_of (ts_tasks s) i of
        None \<Rightarrow> (s, False)
      | Some t \<Rightarrow>
          if tk_Status t \<noteq> TaskStatusPending \<and> tk_Status t \<noteq> TaskStatusRunning then (s, False)
          else (s\<lparr>ts_tasks := AList.update i (t\<lparr>tk_Status := TaskStatusCancelled, tk_UpdatedAt := now\<rparr>) (ts_tasks s)\<rparr>, True))"

section \<open>The service\<close>

record 'w service_agent =
  va_ID :: string
  va_Name :: string
  va_Description :: string
  va_Run :: "'w \<Rightarrow> request \<Rightarrow> 'w \<times> response option res"

datatype routine = Starting | InRun

record ('w, 'p) service =
  sv_agents :: "(string \<times> 'w service_agent) list"
  sv_agentOrder :: "string list"
  sv_tools :: "'p tool_def list option"
  sv_tasks :: task_store
  sv_routines :: "(string \<times> routine) list"
  sv_cancelled :: "string list"
  sv_ids :: "string list"

definition WithMaxTasks :: "int \<Rightarrow> ('w, 'p) service \<Rightarrow> ('w, 'p) service" where
  "WithMaxTasks n s = s\<lparr>sv_tasks := (sv_tasks s)\<lparr>ts_maxTasks := n\<rparr>\<rparr>"

definition WithToolRegistry :: "'p tool_def list option \<Rightarrow> ('w, 'p) service \<Rightarrow> ('w, 'p) service" where
  "WithToolRegistry r s = s\<lparr>sv_tools := r\<rparr>"

definition sv_New :: "(('w, 'p) service \<Rightarrow> ('w, 'p) service) list \<Rightarrow> ('w, 'p) service" where
  "sv_New opts = fold (\<lambda>opt s. opt s) opts
     \<lparr>sv_agents = [], sv_agentOrder = [], sv_tools = None, sv_tasks = NewTaskStore 1000, sv_routines = [],
      sv_cancelled = [], sv_ids = []\<rparr>"

definition RegisterAgent :: "'w service_agent \<Rightarrow> ('w, 'p) service \<Rightarrow> ('w, 'p) service" where
  "RegisterAgent a s =
     (let s1 = (if map_of (sv_agents s) (va_ID a) = None then s\<lparr>sv_agentOrder := sv_agentOrder s @ [va_ID a]\<rparr> else s)
      in s1\<lparr>sv_agents := AList.update (va_ID a) a (sv_agents s1)\<rparr>)"

definition getAgent :: "string \<Rightarrow> ('w, 'p) service \<Rightarrow> 'w service_agent option" where
  "getAgent i s = map_of (sv_agents s) i"

definition listAgentsSorted :: "(string \<times> 'w service_agent \<Rightarrow> nat) \<Rightarrow> ('w, 'p) service \<Rightarrow> 'w service_agent list" where
  "listAgentsSorted visit s = sort_key va_ID (map snd (sort_key visit (sv_agents s)))"

section \<open>Handlers\<close>

datatype reply_text = Message string | MessageF string "farg list"

datatype 'p payload =
    PStatus string
  | PAgents "(string \<times> string \<times> string) list"
  | PAgent string string string
  | PResponse "response option"
  | PTaskID string
  | PTask task
  | PTools "'p tool_def list"

datatype 'p reply = Reply nat "'p payload" | ReplyError nat string reply_text

definition handleHealth :: "'p reply" where
  "handleHealth = Reply 200 (PStatus ''ok'')"

definition handleListAgents :: "(string \<times> 'w service_agent \<Rightarrow> nat) \<Rightarrow> ('w, 'p) service \<Rightarrow> 'p reply" where
  "handleListAgents visit s =
     Reply 200 (PAgents (map (\<lambda>a. (va_ID a, va_Name a, va_Description a)) (listAgentsSorted visit s)))"

definition agent_not_found :: "string \<Rightarrow> 'p reply" where
  "agent_not_found i = ReplyError 404 ''agent_not_found'' (MessageF ''agent %q not found'' [AStr i])"

definition handleGetAgent :: "string \<Rightarrow> ('w, 'p) service \<Rightarrow> 'p reply" where
  "handleGetAgent i s =
     (case getAgent i s of
        None \<Rightarrow> agent_not_found i
      | Some a \<Rightarrow> Reply 200 (PAgent (va_ID a) (va_Name a) (va_Description a)))"

definition invalid_request :: "(gerror \<Rightarrow> string) \<Rightarrow> gerror \<Rightarrow> 'p reply" where
  "invalid_request errText err =
     ReplyError 400 ''invalid_request'' (Message (''invalid request body: '' @ errText err))"

definition handleRun ::
  "(gerror \<Rightarrow> string) \<Rightarrow> string \<Rightarrow> request res \<Rightarrow> ('w, 'p) service \<Rightarrow> 'w \<Rightarrow> 'w \<times> 'p reply" where
  "handleRun errText i body s w =
     (case getAgent i s of
        None \<Rightarrow> (w, agent_not_found i)
      | Some a \<Rightarrow>
          (case body of
             Inl err \<Rightarrow> (w, invalid_request errText err)
           | Inr req \<Rightarrow>
               (case va_Run a w req of
                  (w', Inl err) \<Rightarrow> (w', ReplyError 500 ''agent_error'' (Message (errText err)))
                | (w', Inr resp) \<Rightarrow> (w', Reply 200 (PResponse resp)))))"

definition handleAsync ::
  "(gerror \<Rightarrow> string) \<Rightarrow> (string \<times> task \<Rightarrow> nat) \<Rightarrow> string \<Rightarrow> request res \<Rightarrow> string \<Rightarrow> int \<Rightarrow> ('w, 'p) service \<Rightarrow>
     ('w, 'p) service \<times> 'p reply" where
  "handleAsync errText visit i body taskID now s =
     (case getAgent i s of
        None \<Rightarrow> (s, agent_not_found i)
      | Some a \<Rightarrow>
          (case body of
             Inl err \<Rightarrow> (s, invalid_request errText err)
           | Inr req \<Rightarrow>
               (case ts_Create visit taskID now i True (sv_tasks s) of
                  (ts, Inl err) \<Rightarrow> (s\<lparr>sv_tasks := ts\<rparr>, ReplyError 429 ''too_many_tasks'' (Message (errText err)))
                | (ts, Inr t) \<Rightarrow>
                    (s\<lparr>sv_tasks := ts, sv_routines := sv_routines s @ [(tk_ID t, Starting)], sv_ids := tk_ID t # sv_ids s\<rparr>,
                     Reply 202 (PTaskID (tk_ID t))))))"

definition handleGetTask :: "string \<Rightarrow> ('w, 'p) service \<Rightarrow> 'p reply" where
  "handleGetTask taskID s =
     (case ts_Get taskID (sv_tasks s) of
        None \<Rightarrow> ReplyError 404 ''task_not_found'' (MessageF ''task %q not found'' [AStr taskID])
      | Some t \<Rightarrow> Reply 200 (PTask t))"

definition handleCancelTask :: "string \<Rightarrow> int \<Rightarrow> ('w, 'p) service \<Rightarrow> ('w, 'p) service \<times> 'p reply" where
  "handleCancelTask taskID now s =
     (case ts_Cancel taskID now (sv_tasks s) of
        (ts, False) \<Rightarrow>
          (s\<lparr>sv_tasks := ts\<rparr>,
           ReplyError 404 ''task_not_found'' (MessageF ''task %q not found or not cancellable'' [AStr taskID]))
      | (ts, True) \<Rightarrow>
          (s\<lparr>sv_tasks := ts, sv_cancelled := taskID # sv_cancelled s\<rparr>, Reply 200 (PStatus ''cancelled'')))"

definition handleListTools :: "('w, 'p) service \<Rightarrow> 'p reply" where
  "handleListTools s = Reply 200 (PTools (case sv_tools s of None \<Rightarrow> [] | Some defs \<Rightarrow> defs))"

text \<open>
  The events that change tasks: a request for a run, with the identifier drawn for it, which was never drawn before;
  the two calls a goroutine makes on the store; a request for cancellation.
\<close>

datatype service_move =
    AsyncRequest string "request res" string int "string \<times> task \<Rightarrow> nat"
  | BeginRun string int
  | EndRun string int "response option res"
  | CancelRequest string int

fun service_step :: "(gerror \<Rightarrow> string) \<Rightarrow> service_move \<Rightarrow> ('w, 'p) service \<Rightarrow> ('w, 'p) service option" where
  "service_step errText (AsyncRequest i body taskID now visit) s =
     (if taskID \<in> set (sv_ids s) \<or> taskID = [] then None else Some (fst (handleAsync errText visit i body taskID now s)))"
| "service_step errText (BeginRun taskID now) s =
     (if map_of (sv_routines s) taskID = Some Starting
      then Some (s\<lparr>sv_tasks := UpdateStatus taskID TaskStatusRunning now (sv_tasks s),
                   sv_routines := AList.update taskID InRun (sv_routines s)\<rparr>)
      else None)"
| "service_step errText (EndRun taskID now outcome) s =
     (if map_of (sv_routines s) taskID = Some InRun
      then Some (s\<lparr>sv_tasks := SetResult errText taskID outcome now (sv_tasks s),
                   sv_routines := AList.delete taskID (sv_routines s), sv_cancelled := taskID # sv_cancelled s\<rparr>)
      else None)"
| "service_step errText (CancelRequest taskID now) s = Some (fst (handleCancelTask taskID now s))"

fun service_steps :: "(gerror \<Rightarrow> string) \<Rightarrow> service_move list \<Rightarrow> ('w, 'p) service \<Rightarrow> ('w, 'p) service option" where
  "service_steps errText [] s = Some s"
| "service_steps errText (m # ms) s =
     (case service_step errText m s of None \<Rightarrow> None | Some s' \<Rightarrow> service_steps errText ms s')"

definition fresh_service :: "('w, 'p) service \<Rightarrow> bool" where
  "fresh_service s \<longleftrightarrow> ts_tasks (sv_tasks s) = [] \<and> sv_routines s = [] \<and> sv_ids s = []"

section \<open>Outcomes are final\<close>

fun fits :: "routine option \<Rightarrow> task_status \<Rightarrow> bool" where
  "fits (Some Starting) st \<longleftrightarrow> st = TaskStatusPending \<or> st = TaskStatusCancelled"
| "fits (Some InRun) st \<longleftrightarrow> st = TaskStatusRunning \<or> st = TaskStatusCancelled"
| "fits None st \<longleftrightarrow> st = TaskStatusCompleted \<or> st = TaskStatusFailed \<or> st = TaskStatusCancelled"

abbreviation lookup_task :: "string \<Rightarrow> ('w, 'p) service \<Rightarrow> task option" where
  "lookup_task i s \<equiv> map_of (ts_tasks (sv_tasks s)) i"

definition service_inv :: "('w, 'p) service \<Rightarrow> bool" where
  "service_inv s \<longleftrightarrow>
     (\<forall>i t. lookup_task i s = Some t \<longrightarrow> i \<in> set (sv_ids s) \<and> fits (map_of (sv_routines s) i) (tk_Status t)) \<and>
     (\<forall>i r. map_of (sv_routines s) i = Some r \<longrightarrow> i \<in> set (sv_ids s)) \<and>
     distinct (map fst (ts_tasks (sv_tasks s))) \<and> distinct (map fst (sv_routines s)) \<and>
     (ts_maxTasks (sv_tasks s) > 0 \<longrightarrow> int (length (ts_tasks (sv_tasks s))) \<le> ts_maxTasks (sv_tasks s))"

lemma length_update_le: "length (AList.update k v xs) \<le> Suc (length xs)"
  by (induction xs) auto

lemma length_update_present: "map_of xs k = Some v' \<Longrightarrow> length (AList.update k v xs) = length xs"
  by (induction xs) (auto split: if_splits)

lemma length_delete_present:
  "map_of xs k = Some v \<Longrightarrow> length (AList.delete k xs) < length xs"
proof -
  assume "map_of xs k = Some v"
  then have "(k, v) \<in> set xs" by (rule map_of_SomeD)
  then show ?thesis unfolding AList.delete_eq by (rule length_filter_less) simp
qed

lemma oldest_scan_member:
  "oldest_scan xs o' t0 = k \<Longrightarrow> k \<noteq> o' \<Longrightarrow> \<exists>t. (k, t) \<in> set xs \<and> settled_task t"
proof (induction xs arbitrary: o' t0)
  case (Cons x xs)
  obtain i t where x: "x = (i, t)" by fastforce
  show ?case
  proof (cases "settled_task t \<and> (o' = [] \<or> tk_UpdatedAt t < t0)")
    case True
    then have k: "oldest_scan xs i (tk_UpdatedAt t) = k" using Cons.prems x by simp
    show ?thesis
    proof (cases "k = i")
      case False
      then show ?thesis using Cons.IH [OF k] by auto
    qed (use True x in auto)
  next
    case False
    then have "oldest_scan xs o' t0 = k" using Cons.prems x by (auto split: if_splits)
    from Cons.IH [OF this Cons.prems(2)] show ?thesis by auto
  qed
qed simp

lemma evict_cases:
  assumes "evictOneLocked visit s = (s', True)"
  shows "\<exists>k t. s' = s\<lparr>ts_tasks := AList.delete k (ts_tasks s)\<rparr> \<and> (k, t) \<in> set (ts_tasks s) \<and> settled_task t"
  using assms oldest_scan_member [of "sort_key visit (ts_tasks s)" "[]" 0]
  by (auto simp: evictOneLocked_def Let_def split: if_splits)

lemma Create_cases:
  assumes "ts_Create visit i now a c s = (s', r)" "ts_maxTasks s > 0 \<longrightarrow> int (length (ts_tasks s)) \<le> ts_maxTasks s"
    and "distinct (map fst (ts_tasks s))"
  obtains (refused) "s' = s" "r = Inl ErrTooManyTasks"
  | (created) xs where "r = Inr (new_task i now a c)" "s' = s\<lparr>ts_tasks := AList.update i (new_task i now a c) xs\<rparr>"
      "xs = ts_tasks s \<or> (\<exists>k t. (k, t) \<in> set (ts_tasks s) \<and> settled_task t \<and> xs = AList.delete k (ts_tasks s))"
      "ts_maxTasks s > 0 \<longrightarrow> int (length xs) < ts_maxTasks s"
proof (cases "ts_maxTasks s > 0 \<and> int (length (ts_tasks s)) \<ge> ts_maxTasks s")
  case True
  show ?thesis
  proof (cases "evictOneLocked visit s")
    case (Pair s1 b)
    show ?thesis
    proof (cases b)
      case False
      then have "s1 = s" using Pair by (auto simp: evictOneLocked_def Let_def split: if_splits)
      then show ?thesis using assms(1) True Pair False by (intro refused) (auto simp: ts_Create_def Let_def)
    next
      case b: True
      with Pair have ev: "evictOneLocked visit s = (s1, True)" by simp
      obtain k t where e: "s1 = s\<lparr>ts_tasks := AList.delete k (ts_tasks s)\<rparr>" "(k, t) \<in> set (ts_tasks s)" "settled_task t"
        using evict_cases [OF ev] by blast
      have "length (AList.delete k (ts_tasks s)) < length (ts_tasks s)"
        using e(2) assms(3) by (intro length_delete_present [of _ _ t]) simp
      then show ?thesis using assms(1,2) True Pair b e
        by (intro created [of "AList.delete k (ts_tasks s)"]) (auto simp: ts_Create_def Let_def)
    qed
  qed
next
  case False
  then show ?thesis using assms(1) by (intro created [of "ts_tasks s"]) (auto simp: ts_Create_def Let_def)
qed

lemma fresh_inv: "fresh_service s \<Longrightarrow> service_inv s"
  by (auto simp: fresh_service_def service_inv_def)

text \<open>What an accepted request does to the store, the goroutines and the identifiers.\<close>

lemma handleAsync_cases:
  assumes "service_inv s" "fst (handleAsync errText visit a body i now s) = s'"
  obtains (same) "s' = s"
  | (accepted) xs where
      "s' = s\<lparr>sv_tasks := (sv_tasks s)\<lparr>ts_tasks := AList.update i (new_task i now a True) xs\<rparr>,
              sv_routines := sv_routines s @ [(i, Starting)], sv_ids := i # sv_ids s\<rparr>"
      "xs = ts_tasks (sv_tasks s) \<or> (\<exists>k t. (k, t) \<in> set (ts_tasks (sv_tasks s)) \<and> settled_task t \<and>
         xs = AList.delete k (ts_tasks (sv_tasks s)))"
      "ts_maxTasks (sv_tasks s) > 0 \<longrightarrow> int (length xs) < ts_maxTasks (sv_tasks s)"
proof (cases "getAgent a s = None \<or> (\<exists>e. body = Inl e)")
  case True
  then have "s' = s" using assms(2) by (auto simp: handleAsync_def split: option.splits sum.splits)
  then show ?thesis by (rule same)
next
  case False
  obtain ts r where c: "ts_Create visit i now a True (sv_tasks s) = (ts, r)" by fastforce
  have I: "ts_maxTasks (sv_tasks s) > 0 \<longrightarrow> int (length (ts_tasks (sv_tasks s))) \<le> ts_maxTasks (sv_tasks s)"
    "distinct (map fst (ts_tasks (sv_tasks s)))" using assms(1) by (auto simp: service_inv_def)
  have s': "s' = (case r of Inl err \<Rightarrow> s\<lparr>sv_tasks := ts\<rparr>
      | Inr t \<Rightarrow> s\<lparr>sv_tasks := ts, sv_routines := sv_routines s @ [(tk_ID t, Starting)], sv_ids := tk_ID t # sv_ids s\<rparr>)"
    using assms(2) False c by (auto simp: handleAsync_def split: option.splits sum.splits)
  show ?thesis
  proof (rule Create_cases [OF c I])
    assume "ts = sv_tasks s" "r = Inl ErrTooManyTasks"
    then show ?thesis using s' by (intro same) simp
  next
    fix xs
    assume *: "r = Inr (new_task i now a True)"
      "ts = sv_tasks s\<lparr>ts_tasks := AList.update i (new_task i now a True) xs\<rparr>"
      "xs = ts_tasks (sv_tasks s) \<or> (\<exists>k t. (k, t) \<in> set (ts_tasks (sv_tasks s)) \<and> settled_task t \<and>
         xs = AList.delete k (ts_tasks (sv_tasks s)))"
      "0 < ts_maxTasks (sv_tasks s) \<longrightarrow> int (length xs) < ts_maxTasks (sv_tasks s)"
    show ?thesis by (rule accepted [of xs]) (use * s' in \<open>simp_all add: new_task_def\<close>)
  qed
qed

lemma evicted_lookup:
  assumes "xs = ts \<or> (\<exists>k t. (k, t) \<in> set ts \<and> settled_task t \<and> xs = AList.delete k ts)" "distinct (map fst ts)"
  shows "distinct (map fst xs)" "map_of xs j = map_of ts j \<or> map_of xs j = None \<and> (\<exists>t. map_of ts j = Some t \<and> settled_task t)"
  using assms by (auto simp: AList.delete_conv distinct_delete split: if_splits)

lemma service_inv_change:
  assumes "service_inv s" "\<forall>j. j \<noteq> i \<longrightarrow> map_of rs j = map_of (sv_routines s) j \<and> map_of ts j = lookup_task j s"
    and "distinct (map fst rs)" "distinct (map fst ts)" "length ts = length (ts_tasks (sv_tasks s))"
    and "map_of rs i \<noteq> None \<longrightarrow> map_of (sv_routines s) i \<noteq> None"
    and "\<forall>t. map_of ts i = Some t \<longrightarrow> lookup_task i s \<noteq> None \<and> fits (map_of rs i) (tk_Status t)"
  shows "service_inv (s\<lparr>sv_tasks := (sv_tasks s)\<lparr>ts_tasks := ts\<rparr>, sv_routines := rs, sv_cancelled := c\<rparr>)"
proof -
  have "j \<in> set (sv_ids s) \<and> fits (map_of rs j) (tk_Status t)" if "map_of ts j = Some t" for j t
    using that assms(1,2,7) by (cases "j = i") (auto simp: service_inv_def)
  moreover have "j \<in> set (sv_ids s)" if "map_of rs j = Some r" for j r
    using that assms(1,2,6) by (cases "j = i") (auto simp: service_inv_def)
  moreover have "0 < ts_maxTasks (sv_tasks s) \<longrightarrow> int (length ts) \<le> ts_maxTasks (sv_tasks s)"
    using assms(1,5) by (simp add: service_inv_def)
  ultimately show ?thesis using assms(3,4) by (simp add: service_inv_def)
qed

lemma service_inv_step:
  assumes "service_inv s" "service_step errText m s = Some s'"
  shows "service_inv s'"
proof (cases m)
  case (AsyncRequest a body i now visit)
  then have new: "i \<notin> set (sv_ids s)" and s': "fst (handleAsync errText visit a body i now s) = s'"
    using assms(2) by (auto split: if_splits)
  show ?thesis
  proof (rule handleAsync_cases [OF assms(1) s'])
    fix xs
    assume *: "s' = s\<lparr>sv_tasks := (sv_tasks s)\<lparr>ts_tasks := AList.update i (new_task i now a True) xs\<rparr>,
        sv_routines := sv_routines s @ [(i, Starting)], sv_ids := i # sv_ids s\<rparr>"
      and xs: "xs = ts_tasks (sv_tasks s) \<or> (\<exists>k t. (k, t) \<in> set (ts_tasks (sv_tasks s)) \<and> settled_task t \<and>
         xs = AList.delete k (ts_tasks (sv_tasks s)))"
      and len: "0 < ts_maxTasks (sv_tasks s) \<longrightarrow> int (length xs) < ts_maxTasks (sv_tasks s)"
    have D: "distinct (map fst (ts_tasks (sv_tasks s)))" using assms(1) by (simp add: service_inv_def)
    note E = evicted_lookup [OF xs D]
    have r: "map_of (sv_routines s) i = None"
      using assms(1) new by (cases "map_of (sv_routines s) i") (auto simp: service_inv_def)
    then have ri: "i \<notin> fst ` set (sv_routines s)" by (simp add: map_of_eq_None_iff)
    have R: "map_of (sv_routines s') j = (if j = i then Some Starting else map_of (sv_routines s) j)" for j
      using r by (auto simp: * map_add_def split: option.split)
    have L: "lookup_task j s' = (if j = i then Some (new_task i now a True) else map_of xs j)" for j
      by (simp add: * AList.update_conv)
    have "j \<in> set (sv_ids s') \<and> fits (map_of (sv_routines s') j) (tk_Status t)" if "lookup_task j s' = Some t" for j t
    proof (cases "j = i")
      case True
      then show ?thesis using that R [of j] L [of j] by (simp add: * new_task_def)
    next
      case False
      then have "lookup_task j s = Some t" using that L [of j] E(2) [of j] by auto
      then show ?thesis using assms(1) False R [of j] by (auto simp: service_inv_def *)
    qed
    moreover have "j \<in> set (sv_ids s')" if "map_of (sv_routines s') j = Some r'" for j r'
      using that assms(1) R [of j] by (auto simp: service_inv_def * split: if_splits)
    moreover have "distinct (map fst (ts_tasks (sv_tasks s')))" using E(1) by (simp add: * distinct_update)
    moreover have "distinct (map fst (sv_routines s'))" using assms(1) ri by (simp add: service_inv_def *)
    moreover have "0 < ts_maxTasks (sv_tasks s') \<longrightarrow> int (length (ts_tasks (sv_tasks s'))) \<le> ts_maxTasks (sv_tasks s')"
      using len length_update_le [of i "new_task i now a True" xs] by (simp add: *) linarith
    ultimately show ?thesis unfolding service_inv_def by blast
  qed (use assms(1) in simp)
next
  case (BeginRun i now)
  then have R: "map_of (sv_routines s) i = Some Starting"
    and s': "s' = s\<lparr>sv_tasks := UpdateStatus i TaskStatusRunning now (sv_tasks s), sv_routines := AList.update i InRun (sv_routines s)\<rparr>"
    using assms(2) by (auto split: if_splits)
  have "service_inv (s\<lparr>sv_tasks := (sv_tasks s)\<lparr>ts_tasks := ts_tasks (UpdateStatus i TaskStatusRunning now (sv_tasks s))\<rparr>,
      sv_routines := AList.update i InRun (sv_routines s), sv_cancelled := sv_cancelled s\<rparr>)"
    by (rule service_inv_change [OF assms(1), of i])
      (use R assms(1) in \<open>auto simp: service_inv_def UpdateStatus_def AList.update_conv distinct_update length_update_present
        simp del: map_of_eq_Some_iff split: option.splits\<close>)
  moreover have "UpdateStatus i TaskStatusRunning now (sv_tasks s) =
      (sv_tasks s)\<lparr>ts_tasks := ts_tasks (UpdateStatus i TaskStatusRunning now (sv_tasks s))\<rparr>"
    by (simp add: UpdateStatus_def split: option.split)
  ultimately show ?thesis by (simp add: s')
next
  case (EndRun i now outcome)
  let ?S = "SetResult errText i outcome now (sv_tasks s)"
  have R: "map_of (sv_routines s) i = Some InRun"
    and s': "s' = s\<lparr>sv_tasks := ?S, sv_routines := AList.delete i (sv_routines s), sv_cancelled := i # sv_cancelled s\<rparr>"
    using assms(2) EndRun by (auto split: if_splits)
  have S: "ts_tasks ?S = ts_tasks (sv_tasks s) \<and> (lookup_task i s = None \<or>
        (\<exists>t. lookup_task i s = Some t \<and> tk_Status t = TaskStatusCancelled)) \<or>
      (\<exists>t t'. lookup_task i s = Some t \<and> ts_tasks ?S = AList.update i t' (ts_tasks (sv_tasks s)) \<and>
        tk_Status t' \<in> {TaskStatusCompleted, TaskStatusFailed})"
    by (auto simp: SetResult_def Let_def split: option.split sum.split)
  have "service_inv (s\<lparr>sv_tasks := (sv_tasks s)\<lparr>ts_tasks := ts_tasks ?S\<rparr>,
      sv_routines := AList.delete i (sv_routines s), sv_cancelled := i # sv_cancelled s\<rparr>)"
    by (rule service_inv_change [OF assms(1), of i])
      (use S assms(1) in \<open>auto simp: service_inv_def AList.update_conv AList.delete_conv distinct_update distinct_delete
        length_update_present simp del: map_of_eq_Some_iff\<close>)
  moreover have "?S = (sv_tasks s)\<lparr>ts_tasks := ts_tasks ?S\<rparr>"
    by (simp add: SetResult_def Let_def split: option.split sum.split)
  ultimately show ?thesis by (simp add: s')
next
  case (CancelRequest i now)
  let ?c = "ts_Cancel i now (sv_tasks s)"
  have s': "s' = s\<lparr>sv_tasks := fst ?c, sv_cancelled := (if snd ?c then i # sv_cancelled s else sv_cancelled s)\<rparr>"
    using assms(2) CancelRequest by (auto simp: handleCancelTask_def split: prod.split bool.split)
  have S: "ts_tasks (fst ?c) = ts_tasks (sv_tasks s) \<or>
      (\<exists>t t'. lookup_task i s = Some t \<and> ts_tasks (fst ?c) = AList.update i t' (ts_tasks (sv_tasks s)) \<and>
        tk_Status t' = TaskStatusCancelled)"
    by (auto simp: ts_Cancel_def split: option.split)
  have fc: "fits (Some q) TaskStatusCancelled" "fits None TaskStatusCancelled" for q by (cases q) simp_all
  then have fc: "fits r TaskStatusCancelled" for r by (cases r) simp_all
  have "service_inv (s\<lparr>sv_tasks := (sv_tasks s)\<lparr>ts_tasks := ts_tasks (fst ?c)\<rparr>, sv_routines := sv_routines s,
      sv_cancelled := (if snd ?c then i # sv_cancelled s else sv_cancelled s)\<rparr>)"
    by (rule service_inv_change [OF assms(1), of i])
      (use S assms(1) in \<open>auto simp: service_inv_def AList.update_conv distinct_update length_update_present fc
        simp del: map_of_eq_Some_iff\<close>)
  moreover have "fst ?c = (sv_tasks s)\<lparr>ts_tasks := ts_tasks (fst ?c)\<rparr>"
    by (simp add: ts_Cancel_def split: option.split)
  ultimately show ?thesis by (simp add: s')
qed

lemma service_inv_steps: "service_inv s \<Longrightarrow> service_steps errText ms s = Some s' \<Longrightarrow> service_inv s'"
  by (induction ms arbitrary: s) (auto split: option.splits dest: service_inv_step)

text \<open>
  C34: tasks and goroutines agree.  At any time the status of every stored task is one that its goroutine can have left: it
  is pending or cancelled before the goroutine begins, running or cancelled while the agent runs, and
  completed, failed or cancelled afterwards; so no task is forgotten.  The store never holds more tasks than its limit.
\<close>

theorem tasks_well_formed:
  assumes "fresh_service s0" "service_steps errText ms s0 = Some s"
  shows "(\<forall>i t. lookup_task i s = Some t \<longrightarrow>
      (case map_of (sv_routines s) i of
         Some Starting \<Rightarrow> tk_Status t \<in> {TaskStatusPending, TaskStatusCancelled}
       | Some InRun \<Rightarrow> tk_Status t \<in> {TaskStatusRunning, TaskStatusCancelled}
       | None \<Rightarrow> tk_Status t \<in> {TaskStatusCompleted, TaskStatusFailed, TaskStatusCancelled})) \<and>
    (ts_maxTasks (sv_tasks s) > 0 \<longrightarrow> int (length (ts_tasks (sv_tasks s))) \<le> ts_maxTasks (sv_tasks s))"
proof -
  have I: "service_inv s" by (rule service_inv_steps [OF fresh_inv [OF assms(1)] assms(2)])
  have "(case map_of (sv_routines s) i of
         Some Starting \<Rightarrow> tk_Status t \<in> {TaskStatusPending, TaskStatusCancelled}
       | Some InRun \<Rightarrow> tk_Status t \<in> {TaskStatusRunning, TaskStatusCancelled}
       | None \<Rightarrow> tk_Status t \<in> {TaskStatusCompleted, TaskStatusFailed, TaskStatusCancelled})"
    if "lookup_task i s = Some t" for i t
  proof -
    have "fits (map_of (sv_routines s) i) (tk_Status t)" using I that by (simp add: service_inv_def)
    then show ?thesis by (auto split: option.split routine.split)
  qed
  then show ?thesis using I by (auto simp: service_inv_def)
qed

definition kept_task :: "string \<Rightarrow> task \<Rightarrow> ('w, 'p) service \<Rightarrow> bool" where
  "kept_task i t s \<longleftrightarrow> i \<in> set (sv_ids s) \<and> map_of (sv_routines s) i \<noteq> Some Starting \<and>
     (lookup_task i s = None \<or> lookup_task i s = Some t)"

lemma kept_task_step:
  assumes "service_inv s" "kept_task i t s" "settled_task t" "service_step errText m s = Some s'"
  shows "kept_task i t s'"
proof (cases m)
  case (AsyncRequest a body j now visit)
  then have new: "j \<notin> set (sv_ids s)" and s': "fst (handleAsync errText visit a body j now s) = s'"
    using assms(4) by (auto split: if_splits)
  then have ij: "i \<noteq> j" using assms(2) by (auto simp: kept_task_def)
  show ?thesis
  proof (rule handleAsync_cases [OF assms(1) s'])
    fix xs
    assume *: "s' = s\<lparr>sv_tasks := (sv_tasks s)\<lparr>ts_tasks := AList.update j (new_task j now a True) xs\<rparr>,
        sv_routines := sv_routines s @ [(j, Starting)], sv_ids := j # sv_ids s\<rparr>"
      and xs: "xs = ts_tasks (sv_tasks s) \<or> (\<exists>k t. (k, t) \<in> set (ts_tasks (sv_tasks s)) \<and> settled_task t \<and>
         xs = AList.delete k (ts_tasks (sv_tasks s)))"
    have "map_of xs i = lookup_task i s \<or> map_of xs i = None"
      using evicted_lookup(2) [OF xs, of i] assms(1) by (auto simp: service_inv_def)
    then show ?thesis using assms(2) ij
      by (auto simp: kept_task_def * AList.update_conv map_add_def split: option.splits)
  qed (use assms(2) in simp)
next
  case (BeginRun j now)
  then show ?thesis using assms(2,4)
    by (auto simp: kept_task_def UpdateStatus_def AList.update_conv split: if_splits option.splits)
next
  case (EndRun j now outcome)
  have "tk_Status t = TaskStatusCancelled" if "map_of (sv_routines s) i = Some InRun" "lookup_task i s = Some t"
  proof -
    have "fits (map_of (sv_routines s) i) (tk_Status t)" using assms(1) that(2) by (simp add: service_inv_def)
    then show ?thesis using that(1) assms(3) by (auto simp: settled_task_def)
  qed
  then show ?thesis using EndRun assms(2,4)
    by (auto simp: kept_task_def SetResult_def Let_def AList.update_conv AList.delete_conv
        split: if_splits option.splits sum.splits)
next
  case (CancelRequest j now)
  then show ?thesis using assms(2-4)
    by (auto simp: kept_task_def handleCancelTask_def ts_Cancel_def settled_task_def AList.update_conv
        split: if_splits option.splits)
qed

lemma kept_task_steps:
  "service_inv s \<Longrightarrow> kept_task i t s \<Longrightarrow> settled_task t \<Longrightarrow> service_steps errText ms s = Some s' \<Longrightarrow> kept_task i t s'"
  by (induction ms arbitrary: s) (auto split: option.splits intro: kept_task_step service_inv_step)

text \<open>
  C35: the outcome of a task is final.  A task found completed, failed, or cancelled after its goroutine had begun is later
  found with exactly the same outcome or, after it was evicted, not at all; in particular the result of a run
  that was cancelled in time is dropped.
\<close>

theorem task_outcome_final:
  assumes "fresh_service s0" "service_steps errText ms s0 = Some s1" "lookup_task i s1 = Some t" "settled_task t"
    and "tk_Status t = TaskStatusCancelled \<longrightarrow> map_of (sv_routines s1) i \<noteq> Some Starting"
    and "service_steps errText ms' s1 = Some s2"
  shows "handleGetTask i s2 = Reply 200 (PTask (t\<lparr>tk_cancel := False\<rparr>)) \<or>
    handleGetTask i s2 = ReplyError 404 ''task_not_found'' (MessageF ''task %q not found'' [AStr i])"
proof -
  have I: "service_inv s1" by (rule service_inv_steps [OF fresh_inv [OF assms(1)] assms(2)])
  have f: "fits (map_of (sv_routines s1) i) (tk_Status t)" "i \<in> set (sv_ids s1)"
    using I assms(3) by (auto simp: service_inv_def)
  have "map_of (sv_routines s1) i \<noteq> Some Starting"
    using f(1) assms(4,5) by (auto simp: settled_task_def)
  then have "kept_task i t s1" using f(2) assms(3) by (simp add: kept_task_def)
  from kept_task_steps [OF I this assms(4,6)] show ?thesis
    by (auto simp: kept_task_def handleGetTask_def ts_Get_def)
qed

definition demo_service :: "(unit, unit) service" where
  "demo_service = RegisterAgent \<lparr>va_ID = ''a'', va_Name = [], va_Description = [], va_Run = (\<lambda>w _. (w, Inr None))\<rparr>
     (sv_New [WithMaxTasks 1])"

definition demo_body :: "request res" where
  "demo_body = Inr \<lparr>rq_Messages = [], rq_SessionID = [], rq_Options = None, rq_Metadata = Map.empty\<rparr>"

definition first_moves :: "service_move list" where
  "first_moves = [AsyncRequest ''a'' demo_body ''t1'' 1 (\<lambda>_. 0), BeginRun ''t1'' 2, CancelRequest ''t1'' 3]"

definition later_moves :: "service_move list" where
  "later_moves = [EndRun ''t1'' 4 (Inr None), CancelRequest ''t1'' 5]"

lemma service_steps_case:
  assumes "case service_steps errText ms s of None \<Rightarrow> False | Some s' \<Rightarrow> P s'"
  obtains s' where "service_steps errText ms s = Some s'" "P s'"
  using assms by (auto split: option.splits)

theorem tasks_well_formed_witness:
  "\<exists>s t. service_steps (\<lambda>_. ''e'') first_moves demo_service = Some s \<and> lookup_task ''t1'' s = Some t \<and>
     map_of (sv_routines s) ''t1'' = Some InRun \<and> tk_Status t \<in> {TaskStatusRunning, TaskStatusCancelled} \<and>
     length (ts_tasks (sv_tasks s)) = 1 \<and> int (length (ts_tasks (sv_tasks s))) \<le> ts_maxTasks (sv_tasks s)"
proof -
  have "fresh_service demo_service" by code_simp
  moreover have "case service_steps (\<lambda>_. ''e'') first_moves demo_service of None \<Rightarrow> False
      | Some s \<Rightarrow> map_of (sv_routines s) ''t1'' = Some InRun \<and> lookup_task ''t1'' s \<noteq> None \<and>
        length (ts_tasks (sv_tasks s)) = 1 \<and> ts_maxTasks (sv_tasks s) > 0"
    by code_simp
  then obtain s where s: "service_steps (\<lambda>_. ''e'') first_moves demo_service = Some s"
      "map_of (sv_routines s) ''t1'' = Some InRun \<and> lookup_task ''t1'' s \<noteq> None \<and>
        length (ts_tasks (sv_tasks s)) = 1 \<and> ts_maxTasks (sv_tasks s) > 0"
    by (rule service_steps_case)
  ultimately show ?thesis using tasks_well_formed [OF _ s(1)] by fastforce
qed

theorem task_outcome_final_witness:
  "\<exists>s1 s2 t. service_steps (\<lambda>_. ''e'') first_moves demo_service = Some s1 \<and> lookup_task ''t1'' s1 = Some t \<and>
     tk_Status t = TaskStatusCancelled \<and> service_steps (\<lambda>_. ''e'') later_moves s1 = Some s2 \<and>
     (handleGetTask ''t1'' s2 = Reply 200 (PTask (t\<lparr>tk_cancel := False\<rparr>)) \<or>
      handleGetTask ''t1'' s2 = ReplyError 404 ''task_not_found'' (MessageF ''task %q not found'' [AStr ''t1'']))"
proof -
  have f: "fresh_service demo_service" by code_simp
  have "case service_steps (\<lambda>_. ''e'') first_moves demo_service of None \<Rightarrow> False
      | Some s \<Rightarrow> map_of (sv_routines s) ''t1'' \<noteq> Some Starting \<and>
        map_option tk_Status (lookup_task ''t1'' s) = Some TaskStatusCancelled \<and>
        service_steps (\<lambda>_. ''e'') later_moves s \<noteq> None"
    by code_simp
  then obtain s1 where s1: "service_steps (\<lambda>_. ''e'') first_moves demo_service = Some s1"
      "map_of (sv_routines s1) ''t1'' \<noteq> Some Starting \<and>
        map_option tk_Status (lookup_task ''t1'' s1) = Some TaskStatusCancelled \<and>
        service_steps (\<lambda>_. ''e'') later_moves s1 \<noteq> None"
    by (rule service_steps_case)
  then obtain t s2 where t: "lookup_task ''t1'' s1 = Some t" "tk_Status t = TaskStatusCancelled"
      "service_steps (\<lambda>_. ''e'') later_moves s1 = Some s2" by auto
  have "settled_task t" using t(2) by (simp add: settled_task_def)
  from task_outcome_final [OF f s1(1) t(1) this _ t(3)] s1 t show ?thesis by blast
qed

text \<open>
  A task cancelled before its goroutine has begun is set to running all the same, and its result is stored: the answer
  \<open>cancelled\<close> was wrong.
\<close>

lemma early_cancel_is_lost:
  "map_option (\<lambda>s. map_option tk_Status (lookup_task ''t1'' s))
     (service_steps (\<lambda>_. ''e'') [AsyncRequest ''a'' demo_body ''t1'' 1 (\<lambda>_. 0), CancelRequest ''t1'' 2, BeginRun ''t1'' 3,
        EndRun ''t1'' 4 (Inr None)] demo_service) = Some (Some TaskStatusCompleted)"
  by code_simp

section \<open>Server-sent events\<close>

datatype sse_item = Item string string

datatype sse_output = EventOut string string | Heartbeat

text \<open>What \<open>Recv\<close> returns, in order: events with their type and JSON, then the end or an error.\<close>

record sse_state =
  se_source :: "(string \<times> string) list"
  se_error :: "string option"
  se_queue :: "sse_item list"
  se_closed :: bool
  se_out :: "sse_output list"
  se_returned :: bool

datatype sse_move = PumpEvent | WriteEvent | Beat | ClientGone

definition sse_start :: "(string \<times> string) list \<Rightarrow> string option \<Rightarrow> sse_state" where
  "sse_start source err =
     \<lparr>se_source = source, se_error = err, se_queue = [], se_closed = False, se_out = [], se_returned = False\<rparr>"

text \<open>The goroutine blocks while the queue of 64 items is full; the loop of the handler takes one branch of its \<open>select\<close>.\<close>

fun handleStream_step :: "sse_move \<Rightarrow> sse_state \<Rightarrow> sse_state option" where
  "handleStream_step PumpEvent st =
     (if se_closed st then None
      else
        (case se_source st of
           (ty, data) # rest \<Rightarrow>
             if length (se_queue st) < 64 then Some (st\<lparr>se_source := rest, se_queue := se_queue st @ [Item ty data]\<rparr>) else None
         | [] \<Rightarrow>
             (case se_error st of
                None \<Rightarrow> Some (st\<lparr>se_closed := True\<rparr>)
              | Some data \<Rightarrow>
                  if length (se_queue st) < 64
                  then Some (st\<lparr>se_error := None, se_queue := se_queue st @ [Item ''error'' data], se_closed := True\<rparr>)
                  else None)))"
| "handleStream_step WriteEvent st =
     (if se_returned st then None
      else
        (case se_queue st of
           Item ty data # rest \<Rightarrow>
             Some (st\<lparr>se_queue := rest, se_out := se_out st @ [EventOut ty data], se_returned := (ty = ''error'')\<rparr>)
         | [] \<Rightarrow> if se_closed st then Some (st\<lparr>se_returned := True\<rparr>) else None))"
| "handleStream_step Beat st = (if se_returned st then None else Some (st\<lparr>se_out := se_out st @ [Heartbeat]\<rparr>))"
| "handleStream_step ClientGone st = (if se_returned st then None else Some (st\<lparr>se_returned := True\<rparr>))"

fun handleStream_steps :: "sse_move list \<Rightarrow> sse_state \<Rightarrow> sse_state option" where
  "handleStream_steps [] st = Some st"
| "handleStream_steps (m # ms) st =
     (case handleStream_step m st of None \<Rightarrow> None | Some st' \<Rightarrow> handleStream_steps ms st')"

fun written :: "sse_output list \<Rightarrow> (string \<times> string) list" where
  "written [] = []"
| "written (EventOut ty data # os) = (ty, data) # written os"
| "written (Heartbeat # os) = written os"

lemma written_append [simp]: "written (xs @ ys) = written xs @ written ys"
  by (induction xs rule: written.induct) simp_all

fun of_item :: "sse_item \<Rightarrow> string \<times> string" where
  "of_item (Item ty data) = (ty, data)"

definition pending_error :: "sse_state \<Rightarrow> (string \<times> string) list" where
  "pending_error st = (case se_error st of None \<Rightarrow> [] | Some data \<Rightarrow> [(''error'', data)])"

text \<open>What was written, what is queued and what is still to come make up the stream, at any time.\<close>

lemma handleStream_flow:
  "handleStream_step m st = Some st' \<Longrightarrow> (se_closed st \<longrightarrow> se_source st = [] \<and> se_error st = None) \<Longrightarrow>
    written (se_out st') @ map of_item (se_queue st') @ se_source st' @ pending_error st' =
      written (se_out st) @ map of_item (se_queue st) @ se_source st @ pending_error st \<and>
    (se_closed st' \<longrightarrow> se_source st' = [] \<and> se_error st' = None)"
  by (cases m) (auto simp: pending_error_def split: if_splits list.splits option.splits sse_item.splits)

lemma sse_in_order:
  assumes "handleStream_steps ms (sse_start source err) = Some st"
  shows "prefix (written (se_out st)) (source @ (case err of None \<Rightarrow> [] | Some data \<Rightarrow> [(''error'', data)]))"
proof -
  have "written (se_out st') @ map of_item (se_queue st') @ se_source st' @ pending_error st' =
      written (se_out st0) @ map of_item (se_queue st0) @ se_source st0 @ pending_error st0"
    if "handleStream_steps ms st0 = Some st'" "se_closed st0 \<longrightarrow> se_source st0 = [] \<and> se_error st0 = None" for st0 st' ms
    using that by (induction ms arbitrary: st0) (auto split: option.splits dest!: handleStream_flow)
  from this [OF assms] show ?thesis by (simp add: sse_start_def pending_error_def prefix_def) metis
qed

text \<open>After the client has gone the goroutine that reads the stream can block forever on a full queue.\<close>

lemma reader_left_behind:
  assumes "se_returned st" "\<not> se_closed st" "se_source st \<noteq> []" "length (se_queue st) = 64"
  shows "handleStream_step m st = None"
  using assms by (cases m) (auto split: list.split)

end
