(* ===== verification/AgentTools.thy ===== *)
theory AgentTools
  imports Tasks Files AgentRun
begin

text \<open>
  Agents and users as tools: \<open>tool/agenttool\<close>, \<open>tool/askuser\<close>, the server and the client of the Model Context
  Protocol (\<open>mcp/server\<close>, \<open>mcp/client\<close>), \<open>agent.CustomAgent\<close> and prompts (\<open>prompt\<close>).  Decoded JSON values, the
  template engine and the protocol library \<open>go-sdk\<close> are arguments: of the latter, the model has the calls that the
  sources make and the handlers they give to it.
\<close>

text \<open>An agent answers with a response or an error; the handlers below would panic on an answer that is neither.\<close>

record 'w tool_agent =
  ta_ID :: string
  ta_Name :: string
  ta_Description :: string
  ta_Run :: "'w \<Rightarrow> request \<Rightarrow> 'w \<times> response res"

definition user_request :: "int \<Rightarrow> string \<Rightarrow> request" where
  "user_request now input =
     \<lparr>rq_Messages = [NewUserMessage now input], rq_SessionID = [], rq_Options = None, rq_Metadata = Map.empty\<rparr>"

section \<open>Agents as tools\<close>

text \<open>\<open>as_string\<close> is the type assertion on a value of type \<open>any\<close>.\<close>

type_synonym 'v arg_extractor = "(string \<rightharpoonup> 'v) \<Rightarrow> string res"

definition errMissingInput :: gerror where
  "errMissingInput = Sentinel (''agent tool: '' @ [CHR 0x27] @ ''input'' @ [CHR 0x27] @ '' field must be a non-empty string'')"

definition defaultArgExtractor :: "('v \<Rightarrow> string option) \<Rightarrow> 'v arg_extractor" where
  "defaultArgExtractor as_string parsed =
     (case parsed ''input'' of
        None \<Rightarrow> Inl errMissingInput
      | Some v \<Rightarrow> (case as_string v of None \<Rightarrow> Inl errMissingInput | Some input \<Rightarrow> Inr input))"

record ('v, 'p) at_config =
  ac_name :: string
  ac_description :: string
  ac_parameters :: 'p
  ac_argExtractor :: "'v arg_extractor"

definition WithName :: "string \<Rightarrow> ('v, 'p) at_config \<Rightarrow> ('v, 'p) at_config" where
  "WithName name c = c\<lparr>ac_name := name\<rparr>"

definition WithDescription :: "string \<Rightarrow> ('v, 'p) at_config \<Rightarrow> ('v, 'p) at_config" where
  "WithDescription desc c = c\<lparr>ac_description := desc\<rparr>"

definition WithParameters :: "'p \<Rightarrow> ('v, 'p) at_config \<Rightarrow> ('v, 'p) at_config" where
  "WithParameters params c = c\<lparr>ac_parameters := params\<rparr>"

definition WithArgExtractor :: "'v arg_extractor \<Rightarrow> ('v, 'p) at_config \<Rightarrow> ('v, 'p) at_config" where
  "WithArgExtractor fn c = c\<lparr>ac_argExtractor := fn\<rparr>"

text \<open>The texts of the assistant that are not empty.\<close>

definition assistant_texts :: "message list \<Rightarrow> string list" where
  "assistant_texts msgs = filter (\<lambda>t. t \<noteq> []) (map (\<lambda>m. am_Text (m_ai m)) (filter (\<lambda>m. m_role m = RoleAssistant) msgs))"

definition newHandler ::
  "(gerror \<Rightarrow> string) \<Rightarrow> (string \<Rightarrow> (string \<rightharpoonup> 'v) res) \<Rightarrow> int \<Rightarrow> 'w tool_agent \<Rightarrow> 'v arg_extractor \<Rightarrow> 'w handler" where
  "newHandler errText decode now ag extract w name args =
     (case decode args of
        Inl err \<Rightarrow> (w, Inr (ErrorResult [] (''agent tool: invalid arguments: '' @ errText err)))
      | Inr parsed \<Rightarrow>
          (case extract parsed of
             Inl err \<Rightarrow> (w, Inr (ErrorResult [] (errText err)))
           | Inr input \<Rightarrow>
               (case ta_Run ag w (user_request now input) of
                  (w', Inl err) \<Rightarrow> (w', Inr (ErrorResult [] (''agent tool: execution failed: '' @ errText err)))
                | (w', Inr resp) \<Rightarrow>
                    (w', Inr (TextResult [] (str_join newline (assistant_texts (rs_Messages resp))))))))"

definition at_Register ::
  "(gerror \<Rightarrow> string) \<Rightarrow> (string \<Rightarrow> (string \<rightharpoonup> 'v) res) \<Rightarrow> ('v \<Rightarrow> string option) \<Rightarrow> int \<Rightarrow> 'p \<Rightarrow> 'w tool_agent \<Rightarrow>
     (('v, 'p) at_config \<Rightarrow> ('v, 'p) at_config) list \<Rightarrow> ('w, 'p) registry \<Rightarrow> ('w, 'p) registry \<times> gerror option" where
  "at_Register errText decode as_string now defaultParams ag opts registry =
     (let cfg = fold (\<lambda>opt c. opt c) opts
            \<lparr>ac_name = ta_Name ag, ac_description = ta_Description ag, ac_parameters = defaultParams,
             ac_argExtractor = defaultArgExtractor as_string\<rparr>;
          def = \<lparr>td_Name = ac_name cfg, td_Description = ac_description cfg, td_Parameters = ac_parameters cfg,
            td_ForceUse = False, td_Source = ''agent'', td_MCPServerURI = [], td_AgentID = ta_ID ag, td_ReadOnly = False\<rparr>
      in RegisterIfAbsent def (Some (newHandler errText decode now ag (ac_argExtractor cfg))) registry)"

section \<open>Questions to the user\<close>

text \<open>An interactor gets the timeout and the question.\<close>

type_synonym 'w interactor = "'w \<Rightarrow> string \<Rightarrow> string \<Rightarrow> 'w \<times> string res"

record 'w ask_tool =
  au_interactor :: "'w interactor"
  au_timeout :: string

definition au_WithTimeout :: "string \<Rightarrow> 'w ask_tool \<Rightarrow> 'w ask_tool" where
  "au_WithTimeout d t = t\<lparr>au_timeout := d\<rparr>"

definition au_New :: "'w interactor \<Rightarrow> ('w ask_tool \<Rightarrow> 'w ask_tool) list \<Rightarrow> 'w ask_tool" where
  "au_New interactor opts = fold (\<lambda>opt t. opt t) opts \<lparr>au_interactor = interactor, au_timeout = ''5m0s''\<rparr>"

definition au_Handler :: "'w ask_tool \<Rightarrow> (gerror \<Rightarrow> string) \<Rightarrow> (string \<Rightarrow> string res) \<Rightarrow> 'w handler" where
  "au_Handler t errText decode w name args =
     (case decode args of
        Inl err \<Rightarrow> (w, Inr (ErrorResult [] (''ask_user: invalid arguments: '' @ errText err)))
      | Inr question \<Rightarrow>
          if question = [] then (w, Inr (ErrorResult [] ''ask_user: question must not be empty''))
          else
            (case au_interactor t w (au_timeout t) question of
               (w', Inl err) \<Rightarrow> (w', Inr (ErrorResult [] (''ask_user: '' @ errText err)))
             | (w', Inr response) \<Rightarrow> (w', Inr (TextResult [] response))))"

definition au_Register ::
  "string \<Rightarrow> 'p \<Rightarrow> (gerror \<Rightarrow> string) \<Rightarrow> (string \<Rightarrow> string res) \<Rightarrow> 'w interactor \<Rightarrow> ('w ask_tool \<Rightarrow> 'w ask_tool) list \<Rightarrow>
     ('w, 'p) registry \<Rightarrow> ('w, 'p) registry \<times> gerror option" where
  "au_Register description parameters errText decode interactor opts =
     RegisterIfAbsent (file_tool_def ''ask_user'' description parameters True)
       (Some (au_Handler (au_New interactor opts) errText decode))"

definition NonInteractiveInteractor :: "'w interactor" where
  "NonInteractiveInteractor w timeout question =
     (w, Inr (''Running in non-interactive mode. No user available to answer questions. '' @
        ''Proceed with your best judgment.''))"

section \<open>Custom agents and prompts\<close>

definition CustomAgent_Run ::
  "('w \<Rightarrow> request \<Rightarrow> 'w \<times> response res) option \<Rightarrow> 'w \<Rightarrow> request \<Rightarrow> 'w \<times> response res" where
  "CustomAgent_Run runFunc w req =
     (case runFunc of
        None \<Rightarrow> (w, Inl (Sentinel ''vage: CustomAgent has no RunFunc configured''))
      | Some f \<Rightarrow> f w req)"

text \<open>The second component of \<open>parse\<close> is the name of the template; a parsed template is a function of the variables.\<close>

record 'v string_prompt =
  sp_name :: string
  sp_version :: string
  sp_raw :: string
  sp_tmpl :: "('v \<Rightarrow> string res) option"

definition NewPromptTemplate ::
  "(string \<Rightarrow> string \<Rightarrow> ('v \<Rightarrow> string res) res) \<Rightarrow> string \<Rightarrow> string \<Rightarrow> string \<Rightarrow> 'v string_prompt" where
  "NewPromptTemplate parse name version templateStr =
     \<lparr>sp_name = name, sp_version = version, sp_raw = templateStr,
      sp_tmpl = (if contains templateStr ''{{''
        then (case parse name templateStr of Inr t \<Rightarrow> Some t | Inl err \<Rightarrow> None) else None)\<rparr>"

definition StringPrompt :: "(string \<Rightarrow> string \<Rightarrow> ('v \<Rightarrow> string res) res) \<Rightarrow> string \<Rightarrow> 'v string_prompt" where
  "StringPrompt parse s =
     \<lparr>sp_name = ''inline'', sp_version = ''1'', sp_raw = s,
      sp_tmpl = (if contains s ''{{'' then (case parse ''prompt'' s of Inr t \<Rightarrow> Some t | Inl err \<Rightarrow> None) else None)\<rparr>"

definition Render :: "'v string_prompt \<Rightarrow> 'v \<Rightarrow> string res" where
  "Render s vars = (case sp_tmpl s of None \<Rightarrow> Inr (sp_raw s) | Some t \<Rightarrow> t vars)"

text \<open>A prompt without delimiters, and one that does not parse, is its own rendering.\<close>

lemma Render_raw:
  "\<not> contains s ''{{'' \<or> (\<exists>err. parse ''prompt'' s = Inl err) \<Longrightarrow> Render (StringPrompt parse s) vars = Inr s"
  by (auto simp: Render_def StringPrompt_def)

section \<open>The protocol server\<close>

datatype mcp_content = TextContent string | OtherContent string

record mcp_result =
  mr_Content :: "mcp_content list"
  mr_IsError :: bool

text \<open>The handler given to the library gets the raw arguments, if there are any.\<close>

type_synonym 'w mcp_handler = "'w \<Rightarrow> string option \<Rightarrow> 'w \<times> mcp_result res"

record ('w, 'p) mcp_tool =
  mt_Name :: string
  mt_Description :: string
  mt_InputSchema :: 'p
  mt_Handler :: "'w mcp_handler"

text \<open>The state of a server is the calls of \<open>AddTool\<close> made so far.\<close>

record ('w, 'p) mcp_server =
  ms_added :: "('w, 'p) mcp_tool list"

definition mcp_NewServer :: "('w, 'p) mcp_server" where
  "mcp_NewServer = \<lparr>ms_added = []\<rparr>"

definition mcp_text :: "bool \<Rightarrow> string \<Rightarrow> mcp_result" where
  "mcp_text isError t = \<lparr>mr_Content = [TextContent t], mr_IsError = isError\<rparr>"

text \<open>\<open>sprint\<close> is the verb \<open>%v\<close>.\<close>

definition agent_input :: "(string \<Rightarrow> (string \<rightharpoonup> 'v) res) \<Rightarrow> ('v \<Rightarrow> string) \<Rightarrow> string option \<Rightarrow> string" where
  "agent_input decode sprint arguments =
     (case arguments of
        None \<Rightarrow> []
      | Some raw \<Rightarrow>
          (case decode raw of
             Inl err \<Rightarrow> raw
           | Inr args \<Rightarrow> (case args ''input'' of Some v \<Rightarrow> sprint v | None \<Rightarrow> raw)))"

definition agent_mcp_handler ::
  "(gerror \<Rightarrow> string) \<Rightarrow> (string \<Rightarrow> (string \<rightharpoonup> 'v) res) \<Rightarrow> ('v \<Rightarrow> string) \<Rightarrow> int \<Rightarrow> 'w tool_agent \<Rightarrow> 'w mcp_handler" where
  "agent_mcp_handler errText decode sprint now a w arguments =
     (case ta_Run a w (user_request now (agent_input decode sprint arguments)) of
        (w', Inl err) \<Rightarrow> (w', Inr (mcp_text True (errText err)))
      | (w', Inr resp) \<Rightarrow> (w', Inr (mcp_text False (first_text (rs_Messages resp)))))"

definition mcp_RegisterAgent ::
  "(gerror \<Rightarrow> string) \<Rightarrow> (string \<Rightarrow> (string \<rightharpoonup> 'v) res) \<Rightarrow> ('v \<Rightarrow> string) \<Rightarrow> int \<Rightarrow> 'p \<Rightarrow> 'w tool_agent \<Rightarrow>
     ('w, 'p) mcp_server \<Rightarrow> ('w, 'p) mcp_server \<times> gerror option" where
  "mcp_RegisterAgent errText decode sprint now inputSchema a s =
     (s\<lparr>ms_added := ms_added s @ [\<lparr>mt_Name = ta_ID a, mt_Description = ta_Description a, mt_InputSchema = inputSchema,
        mt_Handler = agent_mcp_handler errText decode sprint now a\<rparr>]\<rparr>, None)"

record ('w, 'v, 'p) tool_registration =
  tg_Name :: string
  tg_Description :: string
  tg_InputSchema :: 'p
  tg_Handler :: "'w \<Rightarrow> (string \<rightharpoonup> 'v) \<Rightarrow> 'w \<times> tool_result res"

definition tool_mcp_handler ::
  "(gerror \<Rightarrow> string) \<Rightarrow> (string \<Rightarrow> (string \<rightharpoonup> 'v) res) \<Rightarrow> ('w, 'v, 'p) tool_registration \<Rightarrow> 'w mcp_handler" where
  "tool_mcp_handler errText decode reg w arguments =
     (case (case arguments of None \<Rightarrow> Inr Map.empty | Some raw \<Rightarrow> decode raw) of
        Inl err \<Rightarrow> (w, Inr (mcp_text True (errText err)))
      | Inr args \<Rightarrow>
          (case tg_Handler reg w args of
             (w', Inl err) \<Rightarrow> (w', Inr (mcp_text True (errText err)))
           | (w', Inr result) \<Rightarrow>
               (w', Inr \<lparr>mr_Content = map (\<lambda>p. TextContent (cp_Text p)) (tr_Content result), mr_IsError = tr_IsError result\<rparr>)))"

definition mcp_RegisterTool ::
  "(gerror \<Rightarrow> string) \<Rightarrow> (string \<Rightarrow> (string \<rightharpoonup> 'v) res) \<Rightarrow> ('w, 'v, 'p) tool_registration \<Rightarrow>
     ('w, 'p) mcp_server \<Rightarrow> ('w, 'p) mcp_server \<times> gerror option" where
  "mcp_RegisterTool errText decode reg s =
     (s\<lparr>ms_added := ms_added s @ [\<lparr>mt_Name = tg_Name reg, mt_Description = tg_Description reg,
        mt_InputSchema = tg_InputSchema reg, mt_Handler = tool_mcp_handler errText decode reg\<rparr>]\<rparr>, None)"

section \<open>The protocol client\<close>

text \<open>The calls of the library, on sessions of type \<open>'s\<close> and transports of type \<open>'t\<close>.\<close>

record ('w, 's, 't, 'v, 'p) mcp_sdk =
  sdk_Connect :: "'t \<Rightarrow> 'w \<Rightarrow> 'w \<times> 's res"
  sdk_Close :: "'s \<Rightarrow> 'w \<Rightarrow> 'w \<times> gerror option"
  sdk_ListTools :: "'s \<Rightarrow> 'w \<Rightarrow> 'w \<times> (string \<times> string \<times> 'p) list res"
  sdk_CallTool :: "'s \<Rightarrow> string \<Rightarrow> 'v \<Rightarrow> 'w \<Rightarrow> 'w \<times> mcp_result res"
  sdk_Ping :: "'s \<Rightarrow> 'w \<Rightarrow> 'w \<times> gerror option"

record 's mcp_client =
  mc_session :: "'s option"
  mc_serverURI :: string

definition NewClient :: "string \<Rightarrow> 's mcp_client" where
  "NewClient serverURI = \<lparr>mc_session = None, mc_serverURI = serverURI\<rparr>"

definition not_connected :: gerror where
  "not_connected = Errorf ''not connected'' [] None"

definition mc_Connect ::
  "('w, 's, 't, 'v, 'p) mcp_sdk \<Rightarrow> 't \<Rightarrow> 's mcp_client \<Rightarrow> 'w \<Rightarrow> 's mcp_client \<times> 'w \<times> gerror option" where
  "mc_Connect sdk transport c w =
     (case sdk_Connect sdk transport w of
        (w', Inl err) \<Rightarrow> (c, w', Some (Errorf ''connect: %w'' [] (Some err)))
      | (w', Inr session) \<Rightarrow> (c\<lparr>mc_session := Some session\<rparr>, w', None))"

definition mc_Disconnect ::
  "('w, 's, 't, 'v, 'p) mcp_sdk \<Rightarrow> 's mcp_client \<Rightarrow> 'w \<Rightarrow> 's mcp_client \<times> 'w \<times> gerror option" where
  "mc_Disconnect sdk c w =
     (case mc_session c of
        None \<Rightarrow> (c, w, None)
      | Some s \<Rightarrow> (case sdk_Close sdk s w of (w', err) \<Rightarrow> (c\<lparr>mc_session := None\<rparr>, w', err)))"

definition mc_ListTools ::
  "('w, 's, 't, 'v, 'p) mcp_sdk \<Rightarrow> 's mcp_client \<Rightarrow> 'w \<Rightarrow> 'w \<times> 'p tool_def list res" where
  "mc_ListTools sdk c w =
     (case mc_session c of
        None \<Rightarrow> (w, Inl not_connected)
      | Some s \<Rightarrow>
          (case sdk_ListTools sdk s w of
             (w', Inl err) \<Rightarrow> (w', Inl (Errorf ''list tools: %w'' [] (Some err)))
           | (w', Inr tools) \<Rightarrow>
               (w', Inr (map (\<lambda>(name, description, inputSchema).
                  \<lparr>td_Name = name, td_Description = description, td_Parameters = inputSchema, td_ForceUse = False,
                   td_Source = ''mcp'', td_MCPServerURI = mc_serverURI c, td_AgentID = [], td_ReadOnly = False\<rparr>) tools))))"

definition mc_CallTool ::
  "('w, 's, 't, 'v, 'p) mcp_sdk \<Rightarrow> (string \<Rightarrow> 'v res) \<Rightarrow> 's mcp_client \<Rightarrow> 'w handler" where
  "mc_CallTool sdk decode c w name args =
     (case mc_session c of
        None \<Rightarrow> (w, Inl not_connected)
      | Some s \<Rightarrow>
          (case decode args of
             Inl err \<Rightarrow> (w, Inl (Errorf ''invalid tool arguments JSON: %w'' [] (Some err)))
           | Inr argsObj \<Rightarrow>
               (case sdk_CallTool sdk s name argsObj w of
                  (w', Inl err) \<Rightarrow> (w', Inl (Errorf ''call tool: %w'' [] (Some err)))
                | (w', Inr result) \<Rightarrow>
                    (w', Inr \<lparr>tr_ToolCallID = [],
                       tr_Content = map (\<lambda>content. case content of
                           TextContent t \<Rightarrow> \<lparr>cp_Type = ''text'', cp_Text = t\<rparr>
                         | OtherContent _ \<Rightarrow> \<lparr>cp_Type = [], cp_Text = []\<rparr>) (mr_Content result),
                       tr_IsError = mr_IsError result\<rparr>))))"

definition mc_Ping :: "('w, 's, 't, 'v, 'p) mcp_sdk \<Rightarrow> 's mcp_client \<Rightarrow> 'w \<Rightarrow> 'w \<times> gerror option" where
  "mc_Ping sdk c w = (case mc_session c of None \<Rightarrow> (w, Some not_connected) | Some s \<Rightarrow> sdk_Ping sdk s w)"

section \<open>Tools near and far\<close>

text \<open>What the protocol library does for a session with a server: a call of a tool reaches the handler last added under
  its name, with the encoded arguments.\<close>

definition delivers ::
  "('w, 's, 't, 'v, 'p) mcp_sdk \<Rightarrow> ('v \<Rightarrow> string) \<Rightarrow> 's \<Rightarrow> ('w, 'p) mcp_server \<Rightarrow> bool" where
  "delivers sdk encode s server \<longleftrightarrow>
     (\<forall>name v w t. find (\<lambda>t. mt_Name t = name) (rev (ms_added server)) = Some t \<longrightarrow>
        sdk_CallTool sdk s name v w = mt_Handler t w (Some (encode v)))"

lemma call_delivered:
  assumes "delivers sdk encode s server" "mc_session c = Some s" "decode args = Inr v"
    and "find (\<lambda>t. mt_Name t = name) (rev (ms_added server)) = Some t"
    and "mt_Handler t w (Some (encode v)) = (w', Inr \<lparr>mr_Content = map TextContent texts, mr_IsError = e\<rparr>)"
  shows "mc_CallTool sdk decode c w name args =
    (w', Inr \<lparr>tr_ToolCallID = [], tr_Content = map (\<lambda>t. \<lparr>cp_Type = ''text'', cp_Text = t\<rparr>) texts, tr_IsError = e\<rparr>)"
  using assms by (auto simp: mc_CallTool_def delivers_def comp_def)

lemma mcp_text_texts: "mcp_text e t = \<lparr>mr_Content = map TextContent [t], mr_IsError = e\<rparr>"
  by (simp add: mcp_text_def)

text \<open>A tool of the server answers through the client as its handler does, every part as a text.\<close>

lemma tool_over_mcp:
  assumes "delivers sdk encode s (fst (mcp_RegisterTool errText decodeObj reg server))" "mc_session c = Some s"
    and "decode args = Inr v" "decodeObj (encode v) = Inr obj" "tg_Handler reg w obj = (w', Inr result)"
  shows "mc_CallTool sdk decode c w (tg_Name reg) args =
    (w', Inr \<lparr>tr_ToolCallID = [],
       tr_Content = map (\<lambda>p. \<lparr>cp_Type = ''text'', cp_Text = cp_Text p\<rparr>) (tr_Content result), tr_IsError = tr_IsError result\<rparr>)"
proof -
  let ?t = "\<lparr>mt_Name = tg_Name reg, mt_Description = tg_Description reg, mt_InputSchema = tg_InputSchema reg,
    mt_Handler = tool_mcp_handler errText decodeObj reg\<rparr>"
  have f: "find (\<lambda>t. mt_Name t = tg_Name reg) (rev (ms_added (fst (mcp_RegisterTool errText decodeObj reg server)))) = Some ?t"
    by (simp add: mcp_RegisterTool_def)
  have "mt_Handler ?t w (Some (encode v)) =
      (w', Inr \<lparr>mr_Content = map TextContent (map cp_Text (tr_Content result)), mr_IsError = tr_IsError result\<rparr>)"
    using assms(4,5) by (simp add: tool_mcp_handler_def comp_def)
  from call_delivered [of sdk encode s _ c decode args v, OF assms(1-3) f this] show ?thesis by (simp add: comp_def)
qed


text \<open>An agent that repeats its input and counts its runs; arguments are their own decoding.\<close>

definition repeating_agent :: "nat tool_agent" where
  "repeating_agent = \<lparr>ta_ID = ''echo'', ta_Name = ''Echo'', ta_Description = [], ta_Run = (\<lambda>n req.
     (Suc n, Inr (response_zero\<lparr>rs_Messages := map (\<lambda>m. m\<lparr>m_ai := (m_ai m)\<lparr>am_Role := RoleAssistant\<rparr>\<rparr>) (rq_Messages req)\<rparr>)))\<rparr>"

definition demo_decode :: "string \<Rightarrow> (string \<rightharpoonup> string) res" where
  "demo_decode raw = Inr [''input'' \<mapsto> raw]"

definition demo_server :: "(nat, unit) mcp_server" where
  "demo_server = fst (mcp_RegisterAgent (\<lambda>_. []) demo_decode id 0 () repeating_agent mcp_NewServer)"

definition demo_sdk :: "(nat, unit, unit, string, unit) mcp_sdk" where
  "demo_sdk = \<lparr>sdk_Connect = (\<lambda>t w. (w, Inr ())), sdk_Close = (\<lambda>s w. (w, None)), sdk_ListTools = (\<lambda>s w. (w, Inr [])),
     sdk_CallTool = (\<lambda>s name v w. case find (\<lambda>t. mt_Name t = name) (rev (ms_added demo_server)) of
        None \<Rightarrow> (w, Inl (External ''unknown tool'')) | Some t \<Rightarrow> mt_Handler t w (Some v)),
     sdk_Ping = (\<lambda>s w. (w, None))\<rparr>"

definition demo_registry :: "(nat, unit) registry" where
  "demo_registry = rg_Merge [(file_tool_def ''echo'' [] () False)\<lparr>td_Source := ''mcp''\<rparr>]
     (NewRegistry [WithExternalCaller (mc_CallTool demo_sdk Inr \<lparr>mc_session = Some (), mc_serverURI = []\<rparr>)])"


end
