(* ===== verification/Routes.thy ===== *)
theory Routes
  imports Tasks Paths
begin

text \<open>
  The HTTP side of \<open>service/service.go\<close>: the routes of \<open>buildMux\<close>, the request identifiers, and the dispatch to the
  handlers of theory \<open>Tasks\<close>.  Of \<open>http.ServeMux\<close> the model has what its documentation says of
  patterns like these: a method, segments that are compared, and single-segment wildcards.  Paths are already cleaned and
  decoded.
\<close>

datatype endpoint =
    Health
  | AgentList
  | AgentAt string
  | RunAt string
  | StreamAt string
  | AsyncAt string
  | ToolList
  | TaskAt string
  | CancelAt string

datatype segment = Lit string | Wild

section \<open>The table\<close>

definition buildMux :: "(string \<times> segment list \<times> (string \<Rightarrow> endpoint)) list" where
  "buildMux =
     [(''GET'', [Lit ''v1'', Lit ''health''], \<lambda>_. Health),
      (''GET'', [Lit ''v1'', Lit ''agents''], \<lambda>_. AgentList),
      (''GET'', [Lit ''v1'', Lit ''agents'', Wild], AgentAt),
      (''POST'', [Lit ''v1'', Lit ''agents'', Wild, Lit ''run''], RunAt),
      (''POST'', [Lit ''v1'', Lit ''agents'', Wild, Lit ''stream''], StreamAt),
      (''POST'', [Lit ''v1'', Lit ''agents'', Wild, Lit ''async''], AsyncAt),
      (''GET'', [Lit ''v1'', Lit ''tools''], \<lambda>_. ToolList),
      (''GET'', [Lit ''v1'', Lit ''tasks'', Wild], TaskAt),
      (''POST'', [Lit ''v1'', Lit ''tasks'', Wild, Lit ''cancel''], CancelAt)]"

text \<open>The value of the wildcard, empty without one.\<close>

fun match_segments :: "segment list \<Rightarrow> string list \<Rightarrow> string \<Rightarrow> string option" where
  "match_segments [] [] v = Some v"
| "match_segments (Lit l # ps) (s # ss) v = (if s = l then match_segments ps ss v else None)"
| "match_segments (Wild # ps) (s # ss) v = (if s \<noteq> [] then match_segments ps ss s else None)"
| "match_segments _ _ v = None"

text \<open>A pattern with the method \<open>GET\<close> also matches \<open>HEAD\<close>.\<close>

definition method_matches :: "string \<Rightarrow> string \<Rightarrow> bool" where
  "method_matches pattern method \<longleftrightarrow> method = pattern \<or> pattern = ''GET'' \<and> method = ''HEAD''"

datatype routed = Found endpoint | MethodNotAllowed | NotFound

definition segments_of :: "string \<Rightarrow> string list option" where
  "segments_of path = (if has_prefix path slash then Some (str_split (drop 1 path) slash) else None)"

definition route_request :: "string \<Rightarrow> string \<Rightarrow> routed" where
  "route_request method path =
     (case segments_of path of
        None \<Rightarrow> NotFound
      | Some ss \<Rightarrow>
          (case filter (\<lambda>(m, ps, e). match_segments ps ss [] \<noteq> None) buildMux of
             [] \<Rightarrow> NotFound
           | candidates \<Rightarrow>
               (case find (\<lambda>(m, ps, e). method_matches m method) candidates of
                  None \<Rightarrow> MethodNotAllowed
                | Some (m, ps, e) \<Rightarrow> Found (e (the (match_segments ps ss []))))))"

section \<open>Request identifiers\<close>

definition hex_digit :: "nat \<Rightarrow> char" where
  "hex_digit n = (if n < 10 then char_of (48 + n) else char_of (87 + n))"

definition hex_encode :: "nat list \<Rightarrow> string" where
  "hex_encode bs = concat (map (\<lambda>b. [hex_digit (b div 16), hex_digit (b mod 16)]) bs)"

text \<open>The identifier that both the request, on its way to the handler, and the response carry.\<close>

definition requestID :: "string \<Rightarrow> nat list \<Rightarrow> string" where
  "requestID header random = (if header = [] then hex_encode random else header)"

lemma hex_encode_length: "length (hex_encode bs) = 2 * length bs"
  by (induction bs) (simp_all add: hex_encode_def)

lemma requestID_not_empty: "random \<noteq> [] \<Longrightarrow> requestID header random \<noteq> []"
  using hex_encode_length [of random] by (auto simp: requestID_def)

section \<open>Dispatch\<close>

text \<open>What a request brings along and what is drawn for it.\<close>

record 'w request_env =
  rv_errText :: "gerror \<Rightarrow> string"
  rv_agents :: "string \<times> 'w service_agent \<Rightarrow> nat"
  rv_tasks :: "string \<times> task \<Rightarrow> nat"
  rv_body :: "request res"
  rv_taskID :: string
  rv_now :: int

text \<open>\<open>None\<close> stands for a stream of events, which has a step function of its own.\<close>

definition serve ::
  "'w request_env \<Rightarrow> endpoint \<Rightarrow> ('w, 'p) service \<Rightarrow> 'w \<Rightarrow> ('w, 'p) service \<times> 'w \<times> 'p reply option" where
  "serve en ep s w =
     (case ep of
        Health \<Rightarrow> (s, w, Some handleHealth)
      | AgentList \<Rightarrow> (s, w, Some (handleListAgents (rv_agents en) s))
      | AgentAt i \<Rightarrow> (s, w, Some (handleGetAgent i s))
      | RunAt i \<Rightarrow> (case handleRun (rv_errText en) i (rv_body en) s w of (w', r) \<Rightarrow> (s, w', Some r))
      | StreamAt i \<Rightarrow> (s, w, None)
      | AsyncAt i \<Rightarrow>
          (case handleAsync (rv_errText en) (rv_tasks en) i (rv_body en) (rv_taskID en) (rv_now en) s of
             (s', r) \<Rightarrow> (s', w, Some r))
      | ToolList \<Rightarrow> (s, w, Some (handleListTools s))
      | TaskAt i \<Rightarrow> (s, w, Some (handleGetTask i s))
      | CancelAt i \<Rightarrow> (case handleCancelTask i (rv_now en) s of (s', r) \<Rightarrow> (s', w, Some r)))"

section \<open>Properties\<close>

text \<open>The request line of an endpoint.\<close>

fun request_line :: "endpoint \<Rightarrow> string \<times> string list" where
  "request_line Health = (''GET'', [''v1'', ''health''])"
| "request_line AgentList = (''GET'', [''v1'', ''agents''])"
| "request_line (AgentAt i) = (''GET'', [''v1'', ''agents'', i])"
| "request_line (RunAt i) = (''POST'', [''v1'', ''agents'', i, ''run''])"
| "request_line (StreamAt i) = (''POST'', [''v1'', ''agents'', i, ''stream''])"
| "request_line (AsyncAt i) = (''POST'', [''v1'', ''agents'', i, ''async''])"
| "request_line ToolList = (''GET'', [''v1'', ''tools''])"
| "request_line (TaskAt i) = (''GET'', [''v1'', ''tasks'', i])"
| "request_line (CancelAt i) = (''POST'', [''v1'', ''tasks'', i, ''cancel''])"

fun endpoint_id :: "endpoint \<Rightarrow> string option" where
  "endpoint_id (AgentAt i) = Some i"
| "endpoint_id (RunAt i) = Some i"
| "endpoint_id (StreamAt i) = Some i"
| "endpoint_id (AsyncAt i) = Some i"
| "endpoint_id (TaskAt i) = Some i"
| "endpoint_id (CancelAt i) = Some i"
| "endpoint_id _ = None"

lemma segments_of_join:
  "ss \<noteq> [] \<Longrightarrow> \<forall>s\<in>set ss. CHR 0x2F \<notin> set s \<Longrightarrow> segments_of (slash @ str_join slash ss) = Some ss"
  by (simp add: segments_of_def has_prefix_def str_split_join)

text \<open>Every endpoint is reached by its request line, provided that its identifier is one segment of a path.\<close>

lemma route_request_line:
  assumes "\<forall>i. endpoint_id e = Some i \<longrightarrow> i \<noteq> [] \<and> CHR 0x2F \<notin> set i"
  shows "route_request (fst (request_line e)) (slash @ str_join slash (snd (request_line e))) = Found e"
proof -
  have "segments_of (slash @ str_join slash (snd (request_line e))) = Some (snd (request_line e))"
    using assms by (intro segments_of_join; cases e) simp_all
  then show ?thesis using assms by (cases e) (simp_all add: route_request_def buildMux_def method_matches_def)
qed

text \<open>Only the three requests that start or cancel something change the service, and only a run changes the world.\<close>

lemma serve_reads:
  "fst request_line' = ''GET'' \<Longrightarrow> request_line ep = request_line' \<Longrightarrow> \<exists>r. serve en ep s w = (s, w, r)"
  by (cases ep) (auto simp: serve_def)

end
