(* ===== verification/Spec2Isabelle.thy ===== *)
theory Spec2Isabelle
  imports Workflow DagOptions Checkpoint Backpressure Resource Observers Compactor MemTiers Router Patterns FileProps EditLocks EvalProps Pipes SkillLoader AgentTools Routes
begin

text \<open>
  A model of \<open>vage\<close>, a Go library for agents built on large language models.  All packages of the
  repository have a model; what is left out is at the end.

  \<^bold>\<open>How the parts interact.\<close>  An agent (\<open>agent/taskagent\<close>) answers a request by calling a model in a loop, through a chain
  of middleware (\<open>largemodel\<close>), running the tools the model asks for (\<open>tool\<close>, \<open>mcp\<close>), under guards (\<open>guard\<close>), with a memory
  (\<open>memory\<close>) and active skills (\<open>skill\<close>); it reports events (\<open>schema\<close>, \<open>hook\<close>).  Agents are combined by routers and
  workflows (\<open>agent/routeragent\<close>, \<open>agent/workflowagent\<close>), the latter on the graph executor of \<open>orchestrate\<close>; they are offered
  over HTTP by \<open>service\<close> and measured by \<open>eval\<close>.

  \<^bold>\<open>Graphs\<close> (package \<open>orchestrate\<close>).
  \<^item> \<open>Graph\<close>, \<open>Validate\<close>, \<open>Topo\<close>: nodes and edges, \<open>ValidateDAG\<close>, \<open>BuildDAG\<close>, the topological order; each is proved
    to decide or produce exactly what it should.
  \<^item> \<open>PrioQueue\<close>, \<open>CriticalPath\<close>: the heap of ready nodes refines a stable queue (locale \<open>stable_pqueue\<close>, interpreted as
    \<open>pq\<close>); critical-path values are longest chains.
  \<^item> \<open>Saga\<close>, \<open>Timeline\<close>, \<open>Aggregate\<close>: compensation, forward recovery, timelines, aggregators.
  \<^item> \<open>DagExec\<close> (\<open>dag.go\<close>): the executor as a state machine.  \<open>dag_state\<close> is the state under the mutex together with the
    goroutines; \<open>exec_step\<close> is one event of the loop, of a goroutine, of the clock or of the context.  \<open>DagInv\<close>, \<open>DagSafety\<close>,
    \<open>DagStart\<close> prove its invariant, \<open>DagLive\<close> progress and a bound on the number of steps, \<open>DagProps\<close> the properties, and
    \<open>DagFlow\<close> that all schedules of deterministic nodes compute the same results.  \<open>DagOptions\<close>: options and \<open>RunDAG\<close>.
  \<^item> \<open>LoopNode\<close>, \<open>Checkpoint\<close> (locale \<open>checkpoint_laws\<close>), \<open>Backpressure\<close>, \<open>Resource\<close>: the rest of the package.

  \<^bold>\<open>Calls of the model\<close> (package \<open>largemodel\<close>).  \<open>Circuit\<close>, \<open>RateLimit\<close>, \<open>Retry\<close>, \<open>Cache\<close> (locale \<open>response_cache\<close>),
  \<open>Middleware\<close>, \<open>Observers\<close>: each middleware with its state, its contract or bounds, and chains of them over one world.

  \<^bold>\<open>Memory\<close>.  \<open>Messages\<close>; \<open>Compress\<close> (locales \<open>selecting_compressor\<close>, \<open>suffix_compressor\<close>) and \<open>Compactor\<close>; \<open>MemStore\<close>
  (locale \<open>ttl_store\<close>, which \<open>MapStore\<close> interprets) and \<open>MemTiers\<close>, where a session memory refines a map with expiry.

  \<^bold>\<open>Guards, skills, tools.\<close>  \<open>Guard\<close>, and \<open>Patterns\<close> (locale \<open>clean_redaction\<close>) with the default regular expressions;
  \<open>Skills\<close> and \<open>SkillLoader\<close>; \<open>ToolRegistry\<close>; \<open>Paths\<close>, \<open>Files\<close>, \<open>FileProps\<close> and \<open>EditLocks\<close> for the tools on files (confinement
  to directories, atomic writes, exact edits, concurrent edits); \<open>Commands\<close> and \<open>Pipes\<close> for the tools that run commands;
  \<open>AgentTools\<close> for agents and users as tools, and the protocol client and server.

  \<^bold>\<open>Agents.\<close>  \<open>AgentPrep\<close>, \<open>AgentRun\<close> model \<open>Run\<close> of the task agent as functions on \<open>agent_state\<close> (the world, the
  session memory, the events); \<open>AgentProps\<close>, \<open>AgentHistory\<close> prove the bound on its calls, the protocol of its conversation,
  its outcome, its guards and its history.  \<open>AgentStream\<close> models \<open>RunStream\<close> and relates it to \<open>Run\<close>.  \<open>Streams\<close> (the channel and
  its goroutine), \<open>Hooks\<close>, \<open>Router\<close>, \<open>Workflow\<close>: the rest.

  \<^bold>\<open>Service and evaluation.\<close>  \<open>Tasks\<close> and \<open>Routes\<close> for \<open>service\<close>; \<open>Eval\<close> and \<open>EvalProps\<close> (locale \<open>unit_scores\<close>) for \<open>eval\<close>.

  \<^bold>\<open>Conventions\<close> (\<open>Prelude\<close>, \<open>Schema\<close>, \<open>GoStrings\<close>, \<open>GoText\<close>).  Strings are byte lists; errors are values of \<open>gerror\<close>, and a
  call that may fail returns \<open>'a res\<close>; panics are \<open>None\<close>; functional options are functions applied in order; maps whose
  visiting order matters are association lists visited by given ranks; floats are rationals; durations that may overflow
  are kept at 64 bits.  What a caller supplies (runners, mappers, evaluators, handlers) and foreign code (the model, JSON, YAML,
  the file system, the protocol library) are arguments, with named hypotheses where a property relies on them; clock readings and
  errors of contexts are arguments or events.  Goroutines are step functions or inductive relations whose every
  interleaving is covered, one step for each section under a mutex, operation on a channel or call of foreign code.

  \<^bold>\<open>Bounds.\<close>  No definition uses fuel.  Loops are structural or have a proved measure, except the loop node, whose body may keep it going for
  ever: it is a partial function, and its termination is a property under the stated conditions.  The executor, the pipes
  of a command, the edits and the streams are shown to reach their end: some step is always possible and their
  number is bounded.

  \<^bold>\<open>Not modelled.\<close>  The command lines of the tools on Windows and the attributes of processes; helpers for tests and the
  integration programs; JSON schemas of tool definitions (arguments of the registration functions); logging other than that of
  the logging middleware; listening and shutting down of the HTTP server, which hand over to \<open>net/http\<close>; parts of a message that are
  not text.  The timestamps and durations in events of an agent run are left out.
\<close>

end
